(* ===== verification/Prelude.thy ===== *)
theory Prelude
  imports Main "HOL-Library.Multiset" "HOL-Library.Product_Lexorder" "HOL-Library.List_Lexorder"
    "HOL-Library.Char_ord"
begin

text \<open>
  What every component of the model shares: Python exceptions as values of a sum type, the
  loops of the source that stop at the first exception, the standard-library iterators the
  source uses (\<open>itertools.permutations\<close>, \<open>dict.fromkeys\<close>, membership sets
  kept beside a result list), and the list lemmas the components build on. Tuples compare
  lexicographically, as in Python, through \<open>Product_Lexorder\<close> and
  \<open>List_Lexorder\<close>.
\<close>

unbundle bit_operations_syntax

section \<open>Exceptions as values\<close>

text \<open>
  An exception carries the constant part of its message where the source gives one; the
  interpolated parts (names, numbers) are left out, since no code reads them back.
\<close>

datatype exn =
    ValueError String.literal
  | TypeError String.literal
  | KeyError String.literal
  | IndexError String.literal
  | RuntimeError String.literal
  | AssertionError String.literal

type_synonym 'a res = "exn + 'a"

definition bindE :: "'a res \<Rightarrow> ('a \<Rightarrow> 'b res) \<Rightarrow> 'b res" where
  "bindE m f = (case m of Inl e \<Rightarrow> Inl e | Inr x \<Rightarrow> f x)"

fun mapE :: "('a \<Rightarrow> 'b res) \<Rightarrow> 'a list \<Rightarrow> 'b list res" where
  "mapE f [] = Inr []"
| "mapE f (x # xs) = bindE (f x) (\<lambda>y. bindE (mapE f xs) (\<lambda>ys. Inr (y # ys)))"

fun foldE :: "('s \<Rightarrow> 'a \<Rightarrow> 's res) \<Rightarrow> 's \<Rightarrow> 'a list \<Rightarrow> 's res" where
  "foldE f s [] = Inr s"
| "foldE f s (x # xs) = bindE (f s x) (\<lambda>s'. foldE f s' xs)"

abbreviation raises :: "'a res \<Rightarrow> bool" where
  "raises r \<equiv> (\<exists>e. r = Inl e)"

abbreviation returns :: "'a res \<Rightarrow> bool" where
  "returns r \<equiv> (\<exists>x. r = Inr x)"

lemma bindE_simps [simp]: "bindE (Inl e) f = Inl e" "bindE (Inr x) f = f x"
  by (simp_all add: bindE_def)

lemma bindE_assoc: "bindE (bindE m f) g = bindE m (\<lambda>x. bindE (f x) g)"
  by (cases m) auto

lemma bindE_Inr_iff: "bindE m f = Inr y \<longleftrightarrow> (\<exists>x. m = Inr x \<and> f x = Inr y)"
  by (cases m) auto

lemma bindE_Inl_iff: "bindE m f = Inl e \<longleftrightarrow> m = Inl e \<or> (\<exists>x. m = Inr x \<and> f x = Inl e)"
  by (cases m) auto

named_theorems res_simps \<open>inversion of monadic results\<close>

lemmas [res_simps] = bindE_Inr_iff bindE_Inl_iff

lemma if_raise_Inr_iff [res_simps]: "(if b then Inl e else m) = Inr x \<longleftrightarrow> \<not> b \<and> m = Inr x"
  by simp

lemma mapE_Inr_iff: "mapE f xs = Inr ys \<longleftrightarrow> list_all2 (\<lambda>x y. f x = Inr y) xs ys"
  by (induction xs arbitrary: ys) (auto simp: bindE_Inr_iff list_all2_Cons1)

lemma mapE_total: "(\<And>x. x \<in> set xs \<Longrightarrow> f x = Inr (g x)) \<Longrightarrow> mapE f xs = Inr (map g xs)"
  by (induction xs) auto

lemma foldE_append: "foldE f s (xs @ ys) = bindE (foldE f s xs) (\<lambda>s'. foldE f s' ys)"
  by (induction xs arbitrary: s) (auto simp: bindE_def split: sum.splits)

lemma foldE_invariant:
  assumes "foldE f s xs = Inr s'" "I s"
    "\<And>s x s'. x \<in> set xs \<Longrightarrow> I s \<Longrightarrow> f s x = Inr s' \<Longrightarrow> I s'"
  shows "I s'"
  using assms by (induction xs arbitrary: s) (auto simp: bindE_Inr_iff)

text \<open>Equality of string literals, also at the empty tail, so that closed instances evaluate.\<close>

lemma literal_equal_code [code]:
  "HOL.equal (String.Literal b0 b1 b2 b3 b4 b5 b6 s) (String.Literal a0 a1 a2 a3 a4 a5 a6 r) \<longleftrightarrow>
     (b0 \<longleftrightarrow> a0) \<and> (b1 \<longleftrightarrow> a1) \<and> (b2 \<longleftrightarrow> a2) \<and> (b3 \<longleftrightarrow> a3) \<and> (b4 \<longleftrightarrow> a4) \<and> (b5 \<longleftrightarrow> a5) \<and> (b6 \<longleftrightarrow> a6) \<and> s = r"
  "HOL.equal (0 :: String.literal) 0 \<longleftrightarrow> True"
  "HOL.equal (0 :: String.literal) (String.Literal b0 b1 b2 b3 b4 b5 b6 s) \<longleftrightarrow> False"
  "HOL.equal (String.Literal b0 b1 b2 b3 b4 b5 b6 s) 0 \<longleftrightarrow> False"
  by (simp_all add: equal) 
section \<open>Lists\<close>

text \<open>
  \<open>dict.fromkeys\<close> and the loops that keep a \<open>seen\<close> set beside the result: the
  first element of every key survives, in order.
\<close>

fun dedup_on :: "('a \<Rightarrow> 'k) \<Rightarrow> 'k list \<Rightarrow> 'a list \<Rightarrow> 'a list" where
  "dedup_on key seen [] = []"
| "dedup_on key seen (x # xs) =
     (if key x \<in> set seen then dedup_on key seen xs
      else x # dedup_on key (key x # seen) xs)"

abbreviation dedup :: "'a list \<Rightarrow> 'a list" where
  "dedup \<equiv> dedup_on (\<lambda>x. x) []"

lemma dedup_on_subset: "set (dedup_on key seen xs) \<subseteq> set xs"
  by (induction key seen xs rule: dedup_on.induct) auto

lemma dedup_on_keys: "key ` set (dedup_on key seen xs) = key ` set xs - set seen"
  by (induction key seen xs rule: dedup_on.induct) auto

lemma dedup_on_distinct: "distinct (map key (dedup_on key seen xs))"
proof (induction key seen xs rule: dedup_on.induct)
  case (2 key seen x xs)
  then show ?case
    using dedup_on_keys [of key "key x # seen" xs] by auto
qed simp

lemma set_dedup [simp]: "set (dedup xs) = set xs"
  using dedup_on_keys [of "\<lambda>x. x" "[]" xs] by simp

lemma distinct_dedup [simp]: "distinct (dedup xs)"
  using dedup_on_distinct [of "\<lambda>x. x" "[]" xs] by simp

lemma dedup_on_id: "distinct (map key xs) \<Longrightarrow> key ` set xs \<inter> set seen = {} \<Longrightarrow> dedup_on key seen xs = xs"
  by (induction xs arbitrary: seen) auto

text \<open>A removed position together with the list without it, in the order of positions.\<close>

fun selects :: "'a list \<Rightarrow> ('a \<times> 'a list) list" where
  "selects [] = []"
| "selects (x # xs) = (x, xs) # map (\<lambda>(y, ys). (y, x # ys)) (selects xs)"

lemma distinct_concat_map:
  "distinct xs \<Longrightarrow> (\<And>x. x \<in> set xs \<Longrightarrow> distinct (f x)) \<Longrightarrow>
   (\<And>x y. x \<in> set xs \<Longrightarrow> y \<in> set xs \<Longrightarrow> x \<noteq> y \<Longrightarrow> set (f x) \<inter> set (f y) = {}) \<Longrightarrow>
   distinct (concat (map f xs))"
  by (induction xs) fastforce+

lemma find_SomeD: "find P xs = Some x \<Longrightarrow> x \<in> set xs \<and> P x"
  by (induction xs) (auto split: if_splits)

lemma selects_length: "(y, ys) \<in> set (selects xs) \<Longrightarrow> length xs = Suc (length ys)"
  by (induction xs arbitrary: y ys) auto

lemma length_selects [simp]: "length (selects xs) = length xs"
  by (induction xs) auto

lemma selects_nth:
  "i < length xs \<Longrightarrow> selects xs ! i = (xs ! i, take i xs @ drop (Suc i) xs)"
  by (induction xs arbitrary: i) (auto simp: nth_Cons split: nat.splits)

lemma selects_mset: "(y, ys) \<in> set (selects xs) \<Longrightarrow> mset xs = add_mset y (mset ys)"
  by (induction xs arbitrary: y ys) auto

lemma map_fst_selects [simp]: "map fst (selects xs) = xs"
  by (induction xs) (auto simp: comp_def case_prod_unfold)

lemma selects_ex: "y \<in> set xs \<Longrightarrow> \<exists>ys. (y, ys) \<in> set (selects xs)"
proof (induction xs)
  case (Cons a xs)
  show ?case
  proof (cases "y = a")
    case False
    with Cons obtain ys where "(y, ys) \<in> set (selects xs)" by auto
    then have "(y, a # ys) \<in> set (selects (a # xs))" by force
    then show ?thesis ..
  qed auto
qed simp

text \<open>\<open>itertools.permutations\<close>: lexicographic in the positions of the input.\<close>

function perms :: "'a list \<Rightarrow> 'a list list" where
  "perms [] = [[]]"
| "perms (x # xs) = concat (map (\<lambda>(y, ys). map ((#) y) (perms ys)) (selects (x # xs)))"
  by pat_completeness auto
termination
  by (relation "measure length") (auto simp: selects_length simp del: selects.simps dest!: selects_length)

declare perms.simps(2) [simp del]

lemma perms_unfold:
  "xs \<noteq> [] \<Longrightarrow> perms xs = concat (map (\<lambda>(y, ys). map ((#) y) (perms ys)) (selects xs))"
  by (cases xs) (auto simp: perms.simps(2))

lemma mset_perms: "p \<in> set (perms xs) \<Longrightarrow> mset p = mset xs"
proof (induction xs arbitrary: p rule: length_induct)
  case (1 xs)
  show ?case
  proof (cases xs)
    case Nil
    with 1 show ?thesis by simp
  next
    case (Cons a as)
    with 1(2) obtain y ys q where s: "(y, ys) \<in> set (selects xs)" "q \<in> set (perms ys)" "p = y # q"
      by (auto simp: perms.simps(2) simp del: selects.simps)
    with 1(1) selects_length [OF s(1)] have "mset q = mset ys" by auto
    with s selects_mset [OF s(1)] show ?thesis by simp
  qed
qed

lemma perms_complete: "mset p = mset xs \<Longrightarrow> p \<in> set (perms xs)"
proof (induction p arbitrary: xs)
  case Nil
  then show ?case by simp
next
  case (Cons y q)
  then have "y \<in> set xs" by (metis list.set_intros(1) mset_eq_setD)
  then obtain ys where ys: "(y, ys) \<in> set (selects xs)" using selects_ex by fast
  from selects_mset [OF ys] Cons.prems have "mset q = mset ys" by simp
  then have "q \<in> set (perms ys)" by (rule Cons.IH)
  moreover have "xs \<noteq> []" using \<open>y \<in> set xs\<close> by auto
  ultimately show ?case using ys by (force simp: perms_unfold simp del: selects.simps)
qed

lemma set_perms: "set (perms xs) = {p. mset p = mset xs}"
  using mset_perms perms_complete by blast

lemma length_perms [simp]: "length (perms xs) = fact (length xs)"
proof (induction xs rule: length_induct)
  case (1 xs)
  show ?case
  proof (cases "xs = []")
    case False
    have "length (perms xs) = (\<Sum>p\<leftarrow>selects xs. length (perms (snd p)))"
      using False by (simp add: perms_unfold length_concat comp_def case_prod_unfold)
    also have "\<dots> = (\<Sum>p\<leftarrow>selects xs. fact (length xs - 1))"
      using 1 by (intro arg_cong [where f = sum_list] map_cong)
        (auto dest!: selects_length)
    also have "\<dots> = fact (length xs)"
      using False by (cases xs) (simp_all add: sum_list_triv algebra_simps del: selects.simps)
    finally show ?thesis .
  qed simp
qed

lemma perms_members:
  assumes "p \<in> set (perms xs)"
  shows "length p = length xs" "set p = set xs" "distinct p \<longleftrightarrow> distinct xs"
proof -
  from assms have m: "mset p = mset xs" by (rule mset_perms)
  then show "length p = length xs" by (metis size_mset)
  from m show "set p = set xs" by (rule mset_eq_setD)
  from m show "distinct p \<longleftrightarrow> distinct xs" by (rule mset_eq_imp_distinct_iff)
qed

text \<open>
  Permutations of an increasing list come in increasing lexicographic order; renaming the
  elements commutes with the enumeration, so permutations of distinct elements are distinct.
\<close>

lemma sorted_wrt_concat:
  "\<forall>b \<in> set bs. sorted_wrt R b \<Longrightarrow> sorted_wrt (\<lambda>b c. \<forall>x \<in> set b. \<forall>y \<in> set c. R x y) bs \<Longrightarrow>
   sorted_wrt R (concat bs)"
  by (induction bs) (auto simp: sorted_wrt_append)

lemma selects_sorted:
  "sorted_wrt R xs \<Longrightarrow> (y, ys) \<in> set (selects xs) \<Longrightarrow> sorted_wrt R ys"
proof (induction xs arbitrary: y ys)
  case (Cons a xs)
  have sub: "set zs \<subseteq> set xs" if "(z, zs) \<in> set (selects xs)" for z zs
    using selects_mset [OF that] by (metis set_mset_mset set_mset_add_mset_insert subset_insertI)
  with Cons show ?case by fastforce
qed simp

lemma sorted_perms: "sorted_wrt (<) (xs :: 'a :: linorder list) \<Longrightarrow> sorted_wrt (<) (perms xs)"
proof (induction xs rule: length_induct)
  case (1 xs)
  show ?case
  proof (cases "xs = []")
    case False
    let ?block = "\<lambda>(y, ys). map ((#) y) (perms ys)"
    have inner: "sorted_wrt (<) (?block p)" if p: "p \<in> set (selects xs)" for p
    proof -
      obtain y ys where y: "p = (y, ys)" by (cases p)
      with p selects_length [of y ys xs] selects_sorted [OF 1(2), of y ys] 1(1)
      have "sorted_wrt (<) (perms ys)" by auto
      with y show ?thesis by (simp add: sorted_wrt_map)
    qed
    have "sorted_wrt (\<lambda>p q. fst p < fst q) (selects xs)"
      using 1(2) by (simp add: sorted_wrt_map [symmetric])
    then have "sorted_wrt (\<lambda>p q. \<forall>x \<in> set (?block p). \<forall>y \<in> set (?block q). x < y) (selects xs)"
      by (rule sorted_wrt_mono_rel [rotated]) auto
    then have "sorted_wrt (<) (concat (map ?block (selects xs)))"
      using inner by (intro sorted_wrt_concat) (auto simp: sorted_wrt_map)
    with False show ?thesis by (simp add: perms_unfold)
  qed simp
qed

lemma selects_map: "selects (map f xs) = map (\<lambda>(y, ys). (f y, map f ys)) (selects xs)"
  by (induction xs) auto

lemma perms_map: "perms (map f xs) = map (map f) (perms xs)"
proof (induction xs rule: length_induct)
  case (1 xs)
  show ?case
  proof (cases "xs = []")
    case False
    have "map ((#) (f (fst p))) (perms (map f (snd p))) = map (map f) (map ((#) (fst p)) (perms (snd p)))"
      if "p \<in> set (selects xs)" for p
      using 1 that by (cases p) (auto dest!: selects_length)
    with False show ?thesis
      by (simp add: perms_unfold selects_map map_concat comp_def case_prod_unfold cong: map_cong)
  qed simp
qed

lemma distinct_perms: "distinct xs \<Longrightarrow> distinct (perms xs)"
proof -
  assume d: "distinct xs"
  have "sorted_wrt (<) (perms [0..<length xs])" by (intro sorted_perms) (simp add: sorted_wrt_upt)
  then have "distinct (perms [0..<length xs])" using strict_sorted_iff by blast
  moreover have "perms xs = map (map ((!) xs)) (perms [0..<length xs])"
    by (metis map_nth perms_map)
  moreover have "inj_on (map ((!) xs)) (set (perms [0..<length xs]))"
  proof (rule inj_onI)
    fix p q assume pq: "p \<in> set (perms [0..<length xs])" "q \<in> set (perms [0..<length xs])"
      and eq: "map ((!) xs) p = map ((!) xs) q"
    have "inj_on ((!) xs) (set p \<union> set q)"
      using d pq by (auto simp: inj_on_nth perms_members)
    with eq show "p = q" using map_inj_on by blast
  qed
  ultimately show ?thesis by (simp add: distinct_map)
qed

text \<open>Blocks of equal length: the element at index \<open>q * w + r\<close> of a concatenation.\<close>

lemma concat_nth_blocks:
  assumes "\<And>b. b \<in> set bs \<Longrightarrow> length b = w" "q < length bs" "r < w"
  shows "concat bs ! (q * w + r) = bs ! q ! r"
  using assms
proof (induction bs arbitrary: q)
  case (Cons b bs)
  then show ?case by (cases q) (auto simp: nth_append)
qed simp

lemma distinct_set_iff_card: "distinct xs \<longleftrightarrow> card (set xs) = length xs"
  using distinct_card card_distinct by blast

text \<open>Python's test \<open>len(set(xs)) != len(xs)\<close>.\<close>

abbreviation has_duplicates :: "'a list \<Rightarrow> bool" where
  "has_duplicates xs \<equiv> \<not> distinct xs"

text \<open>\<open>xs.index(x)\<close>: the first position, \<open>None\<close> where Python raises.\<close>

fun index_of :: "'a \<Rightarrow> 'a list \<Rightarrow> nat option" where
  "index_of x [] = None"
| "index_of x (y # ys) = (if x = y then Some 0 else map_option Suc (index_of x ys))"

lemma index_of_None_iff [simp]: "index_of x xs = None \<longleftrightarrow> x \<notin> set xs"
  by (induction xs) auto

lemma index_of_SomeD: "index_of x xs = Some i \<Longrightarrow> i < length xs \<and> xs ! i = x"
  by (induction xs arbitrary: i) (auto split: if_splits)

lemma index_of_nth: "distinct xs \<Longrightarrow> i < length xs \<Longrightarrow> index_of (xs ! i) xs = Some i"
proof (induction xs arbitrary: i)
  case (Cons a xs)
  then show ?case by (cases i) auto
qed simp

lemma index_of_Some_iff:
  "distinct xs \<Longrightarrow> index_of x xs = Some i \<longleftrightarrow> i < length xs \<and> xs ! i = x"
  using index_of_SomeD index_of_nth by metis

text \<open>Sorting by a key, as \<open>sorted(..., key=...)\<close> does (stable).\<close>

lemma sort_strict_unique:
  assumes "sorted_wrt (<) (xs :: 'a :: linorder list)" "set xs = set ys"
  shows "sort (remdups ys) = xs"
proof -
  have "sorted xs" "distinct xs" using assms(1) strict_sorted_iff by auto
  then show ?thesis
    using assms(2) by (metis sorted_list_of_set_sort_remdups sorted_list_of_set.idem_if_sorted_distinct)
qed

text \<open>
  Python indexing: a negative index counts from the end, anything else out of range raises.
\<close>

definition py_index :: "nat \<Rightarrow> int \<Rightarrow> nat res" where
  "py_index n i =
     (let j = (if i < 0 then int n + i else i)
      in if 0 \<le> j \<and> j < int n then Inr (nat j) else Inl (IndexError STR ''index out of range''))"

definition list_get :: "'a list \<Rightarrow> int \<Rightarrow> 'a res" where
  "list_get xs i = bindE (py_index (length xs) i) (\<lambda>j. Inr (xs ! j))"

definition list_set :: "'a list \<Rightarrow> int \<Rightarrow> 'a \<Rightarrow> 'a list res" where
  "list_set xs i v = bindE (py_index (length xs) i) (\<lambda>j. Inr (xs[j := v]))"

lemma py_index_in [simp]: "0 \<le> i \<Longrightarrow> i < int n \<Longrightarrow> py_index n i = Inr (nat i)"
  by (simp add: py_index_def)

lemma list_get_in [simp]: "0 \<le> i \<Longrightarrow> i < int (length xs) \<Longrightarrow> list_get xs i = Inr (xs ! nat i)"
  by (simp add: list_get_def)

lemma list_set_in [simp]: "0 \<le> i \<Longrightarrow> i < int (length xs) \<Longrightarrow> list_set xs i v = Inr (xs[nat i := v])"
  by (simp add: list_set_def)

text \<open>\<open>range(n)\<close> as a list of Python integers.\<close>

abbreviation int_range :: "nat \<Rightarrow> int list" where
  "int_range n \<equiv> map int [0..<n]"

lemma set_int_range: "set (int_range n) = {0..<int n}"
  by (auto simp: image_iff) (metis atLeastLessThan_iff nat_0_le zero_le nat_less_iff)

lemma distinct_int_range [simp]: "distinct (int_range n)"
  by (simp add: distinct_map)

text \<open>\<open>range(start, stop, step)\<close> and \<open>slice.indices\<close>.\<close>

definition py_range :: "int \<Rightarrow> int \<Rightarrow> int \<Rightarrow> int list" where
  "py_range start stop step =
     (if 0 < step then map (\<lambda>k. start + int k * step) [0..<nat ((stop - start + step - 1) div step)]
      else map (\<lambda>k. start + int k * step) [0..<nat ((start - stop - step - 1) div (- step))])"

definition slice_indices ::
  "int option \<Rightarrow> int option \<Rightarrow> int option \<Rightarrow> nat \<Rightarrow> (int \<times> int \<times> int) res" where
  "slice_indices start stop step n =
     (let st = (case step of None \<Rightarrow> 1 | Some k \<Rightarrow> k);
          lower = (if st < 0 then -1 else 0);
          upper = (if st < 0 then int n - 1 else int n);
          clamp = (\<lambda>v. if v < 0 then max (v + int n) lower else min v upper)
      in if st = 0 then Inl (ValueError STR ''slice step cannot be zero'')
         else Inr (case start of None \<Rightarrow> if st < 0 then upper else lower | Some v \<Rightarrow> clamp v,
                   case stop of None \<Rightarrow> if st < 0 then lower else upper | Some v \<Rightarrow> clamp v,
                   st))"

lemma le_div_int: "0 < (b :: int) \<Longrightarrow> k \<le> a div b \<Longrightarrow> k * b \<le> a"
proof -
  assume b: "0 < b" and k: "k \<le> a div b"
  then have "k * b \<le> a div b * b" by (intro mult_right_mono) auto
  also have "\<dots> = a - a mod b" by (rule minus_mod_eq_div_mult [symmetric])
  also have "\<dots> \<le> a" using b by simp
  finally show "k * b \<le> a" .
qed

lemma py_range_up_bound:
  assumes "0 < step" "i \<in> set (py_range start stop step)"
  shows "start \<le> i" "i < stop"
proof -
  from assms obtain k where k: "i = start + int k * step" "int k < (stop - start + step - 1) div step"
    by (auto simp: py_range_def)
  from k(2) have "int k + 1 \<le> (stop - start + step - 1) div step" by simp
  then have "(int k + 1) * step \<le> stop - start + step - 1" using assms(1) by (rule le_div_int [rotated])
  then have "int k * step + step \<le> stop - start + step - 1" by (simp add: algebra_simps)
  with k(1) show "i < stop" by linarith
  show "start \<le> i" using k(1) assms(1) by simp
qed

lemma py_range_down_bound:
  assumes "step < 0" "i \<in> set (py_range start stop step)"
  shows "stop < i" "i \<le> start"
proof -
  from assms obtain k where k: "i = start + int k * step" "int k < (start - stop - step - 1) div (- step)"
    by (auto simp: py_range_def)
  from k(2) have "int k + 1 \<le> (start - stop - step - 1) div (- step)" by simp
  then have "(int k + 1) * (- step) \<le> start - stop - step - 1" using assms(1) by (intro le_div_int) auto
  then have "- (int k * step) - step \<le> start - stop - step - 1" by (simp add: algebra_simps)
  with k(1) show "stop < i" by linarith
  show "i \<le> start" using k(1) assms(1) by (simp add: mult_nonneg_nonpos)
qed

text \<open>The indices a slice selects are all in range.\<close>

lemma slice_indices_in_range:
  assumes "slice_indices start stop step n = Inr (a, b, c)" "i \<in> set (py_range a b c)"
  shows "0 \<le> i \<and> i < int n"
proof (cases "0 < c")
  case True
  then have "0 \<le> a" "b \<le> int n"
    using assms(1) by (auto simp: slice_indices_def Let_def split: if_splits option.splits)
  with py_range_up_bound [OF True assms(2)] show ?thesis by auto
next
  case False
  then have c: "c < 0" and "a \<le> int n - 1" "-1 \<le> b"
    using assms(1) by (auto simp: slice_indices_def Let_def split: if_splits option.splits)
  with py_range_down_bound [OF c assms(2)] show ?thesis by auto
qed

end
