(* ===== verification/Masks.thy ===== *)
theory Masks
  imports Prelude
begin

text \<open>
  External-leg masks: the subset arithmetic of \<open>generation/dag_ordering.py\<close> and
  \<open>generation/dag_reachability.py\<close>. A mask is a non-negative Python integer, here a
  \<open>nat\<close> with the bitwise operations of the library; a label is an \<open>int\<close>,
  because \<open>1 << (label - 1)\<close> raises when the label is below 1.
\<close>

unbundle bit_operations_syntax

type_synonym label = int
type_synonym mask = nat

section \<open>Bits of natural numbers\<close>

abbreviation submask :: "mask \<Rightarrow> mask \<Rightarrow> bool" where
  "submask u m \<equiv> u AND m = u"

text \<open>\<open>int.bit_length\<close> and \<open>int.bit_count\<close>.\<close>

fun bit_length :: "nat \<Rightarrow> nat" where
  "bit_length m = (if m = 0 then 0 else Suc (bit_length (m div 2)))"

fun bit_count :: "nat \<Rightarrow> nat" where
  "bit_count m = (if m = 0 then 0 else m mod 2 + bit_count (m div 2))"

declare bit_length.simps [simp del] bit_count.simps [simp del]

lemma and_nat_le1: "(a :: nat) AND b \<le> a"
proof (induction a arbitrary: b rule: less_induct)
  case (less a)
  show ?case
  proof (cases "a = 0")
    case False
    then have "a div 2 AND b div 2 \<le> a div 2" by (intro less) simp
    then show ?thesis
      by (subst and_nat_rec) (auto simp: of_bool_def elim!: oddE)
  qed simp
qed

lemma and_nat_le2: "(a :: nat) AND b \<le> b"
  using and_nat_le1 [of b a] by (simp add: and.commute)

lemma submask_le: "submask u m \<Longrightarrow> u \<le> m"
  using and_nat_le2 [of u m] by simp

lemma submask_iff_bits: "submask u m \<longleftrightarrow> (\<forall>i. bit u i \<longrightarrow> bit m i)"
  by (metis bit_and_iff bit_eq_iff)

lemma submask_bitsD: "submask u m \<Longrightarrow> bit u i \<Longrightarrow> bit m i"
  by (simp add: submask_iff_bits)

lemma submask_and [simp]: "submask (a AND m) m"
  by (simp add: and.assoc)

lemma submask_trans: "submask a b \<Longrightarrow> submask b c \<Longrightarrow> submask a c"
  by (simp add: submask_iff_bits)

lemma submask_div2: "submask u m \<Longrightarrow> submask (u div 2) (m div 2)"
  by (metis bit_Suc submask_iff_bits)

lemma submask_odd: "submask u m \<Longrightarrow> odd u \<Longrightarrow> odd m"
  by (metis bit_0 submask_iff_bits)

text \<open>
  The step of every subset loop of the source: \<open>(s - 1) & m\<close> is the largest submask of
  \<open>m\<close> below \<open>s\<close>.
\<close>

lemma pred_and_less: "0 < s \<Longrightarrow> (s - 1) AND m < (s :: nat)"
  using and_nat_le1 [of "s - 1" m] by linarith

lemma pred_and_greatest:
  "submask s m \<Longrightarrow> submask u m \<Longrightarrow> u < s \<Longrightarrow> u \<le> (s - 1) AND m"
proof (induction m arbitrary: s u rule: less_induct)
  case (less m)
  show ?case
  proof (cases "odd s")
    case True
    then obtain k where k: "s = 2 * k + 1" by (elim oddE)
    from less.prems(1) True have "submask k (m div 2)" using submask_div2 [of s m] k by simp
    then have "(s - 1) AND m = s - 1" using k by (subst and_nat_rec) simp
    with less.prems(3) show ?thesis by simp
  next
    case False
    then have "even s" by simp
    then obtain k where k: "s = 2 * k" by (elim evenE)
    with less.prems have k0: "0 < k" by simp
    have m0: "m \<noteq> 0" using submask_le [OF less.prems(1)] k k0 by simp
    have uk: "u div 2 < k" using less.prems(3) k by linarith
    have ih: "u div 2 \<le> (k - 1) AND (m div 2)"
      using less.IH [of "m div 2" k "u div 2"] m0 uk submask_div2 [OF less.prems(1)]
        submask_div2 [OF less.prems(2)] k by simp
    have s1: "s - 1 = 2 * (k - 1) + 1" using k k0 by simp
    have "(s - 1) AND m = of_bool (odd m) + 2 * ((k - 1) AND (m div 2))"
      unfolding s1 by (subst and_nat_rec) simp
    moreover have "u = of_bool (odd u) + 2 * (u div 2)" by (cases "odd u") (auto elim!: oddE)
    ultimately show ?thesis
      using ih submask_odd [OF less.prems(2)] by (cases "odd u") auto
  qed
qed

lemma bit_count_0 [simp]: "bit_count 0 = 0"
  by (simp add: bit_count.simps)

lemma bit_count_step: "bit_count m = m mod 2 + bit_count (m div 2)"
  by (cases "m = 0") (simp_all add: bit_count.simps [of m])

lemma bit_count_mono: "submask u m \<Longrightarrow> bit_count u \<le> bit_count m"
proof (induction m arbitrary: u rule: less_induct)
  case (less m)
  show ?case
  proof (cases "m = 0")
    case True
    with less.prems show ?thesis by simp
  next
    case False
    then have "bit_count (u div 2) \<le> bit_count (m div 2)"
      using less submask_div2 [OF less.prems] by simp
    moreover have "u mod 2 \<le> m mod 2" using submask_odd [OF less.prems] by (cases "odd u") (auto simp: odd_iff_mod_2_eq_one)
    ultimately show ?thesis by (simp add: bit_count_step [of u] bit_count_step [of m])
  qed
qed

lemma bit_count_strict: "submask u m \<Longrightarrow> u \<noteq> m \<Longrightarrow> bit_count u < bit_count m"
proof (induction m arbitrary: u rule: less_induct)
  case (less m)
  from less.prems submask_le have um: "u < m" by (meson le_neq_implies_less)
  note half = submask_div2 [OF less.prems(1)]
  have le: "u mod 2 \<le> m mod 2" using submask_odd [OF less.prems(1)] by (cases "odd u") (auto simp: odd_iff_mod_2_eq_one)
  show ?case
  proof (cases "u div 2 = m div 2")
    case True
    with um have "u mod 2 < m mod 2" by presburger
    with True show ?thesis by (simp add: bit_count_step [of u] bit_count_step [of m])
  next
    case False
    then have "bit_count (u div 2) < bit_count (m div 2)" using less.IH [of "m div 2"] half um by simp
    with le show ?thesis by (simp add: bit_count_step [of u] bit_count_step [of m])
  qed
qed

lemma bit_length_bound: "bit m i \<Longrightarrow> i < bit_length m"
proof (induction i arbitrary: m)
  case 0
  then have "m \<noteq> 0" by (metis bit_0_eq bot_apply bot_bool_def)
  then show ?case by (subst bit_length.simps) auto
next
  case (Suc i)
  then have "bit (m div 2) i" by (simp add: bit_Suc)
  then have "i < bit_length (m div 2)" by (rule Suc.IH)
  moreover have "m \<noteq> 0" using Suc.prems by (metis bit_0_eq bot_apply bot_bool_def)
  ultimately show ?case by (subst bit_length.simps) auto
qed

section \<open>Masks and labels\<close>

text \<open>\<open>_labels_mask\<close> and \<open>_mask_labels\<close>.\<close>

definition label_bit :: "label \<Rightarrow> mask res" where
  "label_bit l = (if l < 1 then Inl (ValueError STR ''negative shift count'')
                  else Inr (push_bit (nat (l - 1)) 1))"

definition labels_mask :: "label list \<Rightarrow> mask res" where
  "labels_mask ls = foldE (\<lambda>m l. bindE (label_bit l) (\<lambda>b. Inr (m OR b))) 0 ls"

definition mask_labels :: "mask \<Rightarrow> label list" where
  "mask_labels m = [int i + 1. i \<leftarrow> [0..<bit_length m], m AND push_bit i 1 \<noteq> 0]"

lemma and_push_bit_1: "(m :: nat) AND push_bit i 1 \<noteq> 0 \<longleftrightarrow> bit m i"
  by (simp add: bit_iff_and_push_bit_not_eq_0)

lemma and_exp_pos [simp]: "0 < (m :: nat) AND 2 ^ i \<longleftrightarrow> bit m i"
  using and_push_bit_1 [of m i] by simp

lemma labels_mask_from:
  "\<forall>l \<in> set ls. 1 \<le> l \<Longrightarrow>
   \<exists>m. foldE (\<lambda>m l. bindE (label_bit l) (\<lambda>b. Inr (m OR b))) m0 ls = Inr m \<and>
       (\<forall>i. bit m i \<longleftrightarrow> bit m0 i \<or> int i + 1 \<in> set ls)"
proof (induction ls arbitrary: m0)
  case (Cons l ls)
  let ?b = "2 ^ nat (l - 1) :: nat"
  from Cons obtain m where m: "foldE (\<lambda>m l. bindE (label_bit l) (\<lambda>b. Inr (m OR b))) (m0 OR ?b) ls = Inr m"
    "\<forall>i. bit m i \<longleftrightarrow> bit (m0 OR ?b) i \<or> int i + 1 \<in> set ls" by (metis list.set_intros(2))
  have "bit ?b i \<longleftrightarrow> int i + 1 = l" for i
    using Cons.prems by (auto simp: bit_exp_iff)
  with m Cons.prems show ?case by (auto simp: label_bit_def bit_or_iff)
qed auto

lemma labels_mask_bits:
  assumes "\<forall>l \<in> set ls. 1 \<le> l"
  obtains m where "labels_mask ls = Inr m" "\<And>i. bit m i \<longleftrightarrow> int i + 1 \<in> set ls"
  using labels_mask_from [OF assms, of 0] by (auto simp: labels_mask_def)

lemma labels_mask_raises: "\<exists>l \<in> set ls. l < 1 \<Longrightarrow> raises (labels_mask ls)"
proof -
  have "\<exists>l \<in> set ls. l < 1 \<Longrightarrow> raises (foldE (\<lambda>m l. bindE (label_bit l) (\<lambda>b. Inr (m OR b))) m0 ls)" for m0
    by (induction ls arbitrary: m0) (auto simp: label_bit_def)
  then show "\<exists>l \<in> set ls. l < 1 \<Longrightarrow> raises (labels_mask ls)" by (simp add: labels_mask_def)
qed

lemma set_mask_labels: "set (mask_labels m) = {int i + 1 |i. bit m i}"
  using bit_length_bound [of m] by (auto simp: mask_labels_def)

lemma sorted_wrt_upt_le: "sorted_wrt (\<lambda>x y. int x + 1 \<le> int y) [a..<b]"
  using sorted_wrt_mono_rel [of "[a..<b]" "(<)"] by auto

lemma sorted_mask_labels: "sorted_wrt (<) (mask_labels m)"
proof -
  have "concat (map (\<lambda>i. if P i then [f i] else []) xs) = map f (filter P xs)" for P and f :: "nat \<Rightarrow> int" and xs
    by (induction xs) auto
  then have "mask_labels m = map (\<lambda>i. int i + 1) (filter (\<lambda>i. m AND push_bit i 1 \<noteq> 0) [0..<bit_length m])"
    by (simp only: mask_labels_def)
  then show ?thesis by (simp add: sorted_wrt_map sorted_wrt_filter sorted_wrt_upt_le)
qed

section \<open>Subset loops\<close>

text \<open>
  \<open>_nonzero_submasks\<close>: the loop \<open>submask = (submask - 1) & mask\<close>. The same
  loop with a fixed body is the heart of \<open>_masks_by_size\<close>,
  \<open>_closure_side_reachable_masks\<close> and \<open>_ordered_splits\<close>.
\<close>

function submask_loop :: "mask \<Rightarrow> mask \<Rightarrow> mask list" where
  "submask_loop m s = (if s = 0 then [] else s # submask_loop m ((s - 1) AND m))"
  by pat_completeness auto
termination
  by (relation "measure (\<lambda>(m, s). s)") (auto simp: pred_and_less [simplified])

declare submask_loop.simps [simp del]

definition nonzero_submasks :: "mask \<Rightarrow> mask list" where
  "nonzero_submasks m = submask_loop m m"

definition masks_by_size :: "mask \<Rightarrow> mask list" where
  "masks_by_size full = sort_key (\<lambda>v. (bit_count v, v)) (submask_loop full full)"

definition ordered_splits :: "mask \<Rightarrow> (mask \<times> mask) list" where
  "ordered_splits m =
     [(l, m XOR l). l \<leftarrow> submask_loop m ((m - 1) AND m), m XOR l \<noteq> 0]"

text \<open>
  In \<open>_closure_side_reachable_masks\<close> the loop starts at \<open>side & full\<close> and steps
  inside \<open>side\<close>; the frozenset is a set.
\<close>

definition closure_side_reachable_masks :: "mask \<Rightarrow> (mask \<times> mask) list \<Rightarrow> mask set" where
  "closure_side_reachable_masks full splits =
     set (concat (map (\<lambda>(l, r). submask_loop l (l AND full) @ submask_loop r (r AND full)) splits))"

definition submasks_for_labels :: "label list \<Rightarrow> mask list res" where
  "submasks_for_labels ls =
     mapE (\<lambda>bits. labels_mask [ls ! i. i \<leftarrow> [0..<length ls], bits AND push_bit i 1 \<noteq> 0])
       [0..<2 ^ length ls]"

definition mask_allowed_by_reachability :: "mask \<Rightarrow> mask set option \<Rightarrow> mask set option \<Rightarrow> bool" where
  "mask_allowed_by_reachability m closure color =
     (if (case closure of None \<Rightarrow> False | Some c \<Rightarrow> m \<notin> c) then False
      else \<not> (case color of None \<Rightarrow> False | Some c \<Rightarrow> m \<notin> c))"

lemma set_submask_loop:
  "submask s m \<Longrightarrow> set (submask_loop m s) = {u. submask u m \<and> 0 < u \<and> u \<le> s}"
proof (induction m s rule: submask_loop.induct)
  case (1 m s)
  show ?case
  proof (cases "s = 0")
    case False
    then have "set (submask_loop m s) = insert s {u. submask u m \<and> 0 < u \<and> u \<le> (s - 1) AND m}"
      using 1 by (subst submask_loop.simps) simp
    also have "\<dots> = {u. submask u m \<and> 0 < u \<and> u \<le> s}"
      using 1(2) False pred_and_greatest [OF 1(2)] pred_and_less [of s m]
      by (auto simp: le_less intro: less_trans)
    finally show ?thesis .
  qed (auto simp: submask_loop.simps)
qed

lemma submask_loop_descending: "submask s m \<Longrightarrow> sorted_wrt (>) (submask_loop m s)"
proof (induction m s rule: submask_loop.induct)
  case (1 m s)
  show ?case
  proof (cases "s = 0")
    case False
    then have "sorted_wrt (>) (submask_loop m ((s - 1) AND m))" using 1 by simp
    moreover have "\<forall>u \<in> set (submask_loop m ((s - 1) AND m)). u < s"
      using set_submask_loop [of "(s - 1) AND m" m] pred_and_less [of s m] False by auto
    ultimately show ?thesis using False by (subst submask_loop.simps) simp
  qed (simp add: submask_loop.simps)
qed

lemma distinct_submask_loop: "submask s m \<Longrightarrow> distinct (submask_loop m s)"
  using submask_loop_descending [of s m] strict_sorted_iff [of "rev (submask_loop m s)"]
  by (simp add: sorted_wrt_rev)

lemma set_nonzero_submasks: "set (nonzero_submasks m) = {u. submask u m \<and> 0 < u}"
  by (auto simp: nonzero_submasks_def set_submask_loop dest: submask_le)

lemma submask_xor_iff:
  assumes "submask l m"
  shows "l AND (m XOR l) = 0" "l OR (m XOR l) = m" "submask (m XOR l) m"
    and "m XOR l = 0 \<longleftrightarrow> l = m"
proof -
  have b: "bit l i \<Longrightarrow> bit m i" for i using assms by (rule submask_bitsD)
  show "l AND (m XOR l) = 0" using b by (intro bit_eqI) (auto simp: bit_and_iff bit_xor_iff)
  show "l OR (m XOR l) = m" using b by (intro bit_eqI) (auto simp: bit_or_iff bit_xor_iff)
  show "submask (m XOR l) m" using b by (auto simp: submask_iff_bits bit_xor_iff)
  show "m XOR l = 0 \<longleftrightarrow> l = m" by (metis bit.xor_self xor.assoc xor.left_neutral xor_self_eq)
qed

lemma submask_xor_pos: "submask l m \<Longrightarrow> 0 < m XOR l \<longleftrightarrow> l \<noteq> m"
  using submask_xor_iff(4) [of l m] by (metis bot_nat_0.not_eq_extremum)

lemma complement_unique:
  assumes "l AND r = 0" "l OR r = (m :: nat)"
  shows "r = m XOR l" "submask l m" "submask r m"
proof -
  have 1: "\<not> (bit l i \<and> bit r i)" for i
    using assms(1) bit_and_iff [of l r i] by simp
  have 2: "bit m i \<longleftrightarrow> bit l i \<or> bit r i" for i
    using assms(2) bit_or_iff [of l r i] by simp
  show "r = m XOR l" using 1 2 by (intro bit_eqI) (auto simp: bit_xor_iff)
  show "submask l m" "submask r m" using 2 by (auto simp: submask_iff_bits)
qed

lemma set_ordered_splits:
  "set (ordered_splits m) = {(l, r). 0 < l \<and> 0 < r \<and> l AND r = 0 \<and> l OR r = m}"
proof (cases "m = 0")
  case True
  have "False" if "0 < l" "l AND r = 0" "l OR r = 0" for l r :: nat
    using complement_unique(2) [OF that(2,3)] that(1) by simp
  with True show ?thesis
    by (auto simp: ordered_splits_def submask_loop.simps)
next
  case False
  have "(\<exists>l' \<in> set (submask_loop m ((m - 1) AND m)). l = l' \<and> r = m XOR l' \<and> m XOR l' \<noteq> 0)
      \<longleftrightarrow> 0 < l \<and> 0 < r \<and> l AND r = 0 \<and> l OR r = m" (is "?L \<longleftrightarrow> ?R") for l r
  proof
    assume ?L
    then show ?R using submask_xor_iff submask_xor_pos by (auto simp: set_submask_loop)
  next
    assume R: ?R
    then have lr: "0 < l" "0 < r" by auto
    note c = complement_unique [OF R[THEN conjunct2, THEN conjunct2, THEN conjunct1]
        R[THEN conjunct2, THEN conjunct2, THEN conjunct2]]
    have "l \<noteq> m" using R c submask_xor_iff(4) by force
    then have "l < m" using submask_le [OF c(2)] by simp
    then have "l \<le> (m - 1) AND m" using pred_and_greatest [of m m l] c(2) by simp
    then show ?L using lr c \<open>l \<noteq> m\<close> by (auto simp: set_submask_loop submask_xor_pos)
  qed
  then show ?thesis by (auto simp: ordered_splits_def)
qed

lemma distinct_ordered_splits: "distinct (ordered_splits m)"
proof -
  have "concat (map (\<lambda>l. if P l then [(l, f l)] else []) xs) = map (\<lambda>l. (l, f l)) (filter P xs)"
    for P and f :: "nat \<Rightarrow> nat" and xs
    by (induction xs) auto
  moreover have "distinct (submask_loop m ((m - 1) AND m))" by (simp add: distinct_submask_loop)
  ultimately show ?thesis
    by (simp add: ordered_splits_def distinct_map inj_on_def)
qed

lemma ordered_splits_swap: "(l, r) \<in> set (ordered_splits m) \<longleftrightarrow> (r, l) \<in> set (ordered_splits m)"
  by (auto simp: set_ordered_splits and.commute or.commute)

section \<open>Order of the dynamic programme\<close>

text \<open>
  The reachability sweep fills its table mask by mask in the order of
  \<open>masks_by_size\<close>, and every split it reads must already be there.
\<close>

lemma set_masks_by_size: "set (masks_by_size full) = {u. submask u full \<and> 0 < u}"
  by (auto simp: masks_by_size_def set_submask_loop dest: submask_le)

lemma masks_by_size_sorted: "sorted (map (\<lambda>v. (bit_count v, v)) (masks_by_size full))"
  by (simp add: masks_by_size_def)

lemma masks_by_size_earlier:
  assumes split: "masks_by_size full = xs @ m # ys"
    and u: "submask u m" "0 < u" "u \<noteq> m"
  shows "u \<in> set xs"
proof -
  have "submask m full" using set_masks_by_size [of full] split by auto
  then have "u \<in> set (xs @ m # ys)"
    using u set_masks_by_size [of full] split submask_trans by auto
  moreover have "u \<notin> set ys"
  proof
    assume "u \<in> set ys"
    then have "(bit_count m, m) \<le> (bit_count u, u)"
      using masks_by_size_sorted [of full] split by (auto simp: sorted_wrt_append)
    moreover have "bit_count u < bit_count m" using u bit_count_strict by simp
    ultimately show False by (auto simp: less_eq_prod_def)
  qed
  ultimately show ?thesis using u by auto
qed

lemma ordered_splits_members:
  assumes "(l, r) \<in> set (ordered_splits m)"
  shows "submask l m" "submask r m" "0 < l" "0 < r" "l \<noteq> m" "r \<noteq> m" "l AND r = 0" "l OR r = m"
proof -
  from assms have "0 < l \<and> 0 < r \<and> l AND r = 0 \<and> l OR r = m" by (simp add: set_ordered_splits)
  then show a: "0 < l" "0 < r" "l AND r = 0" "l OR r = m" by simp_all
  show s: "submask l m" "submask r m" by (rule complement_unique [OF a(3,4)])+
  show "l \<noteq> m" using a(2,3) s(2) by (metis and.commute less_irrefl)
  show "r \<noteq> m" using a(1,3) s(1) by (metis less_irrefl)
qed

section \<open>Properties\<close>

text \<open>
  \<open>_labels_mask\<close> and \<open>_mask_labels\<close> are inverse: the labels of a mask are its
  one-based bit positions in increasing order and encode back to the mask; a label tuple with
  only positive labels encodes to a mask whose labels are the sorted distinct labels, and one
  with a label below 1 raises.
\<close>

theorem labels_mask_roundtrip:
  "labels_mask (mask_labels m) = Inr m \<and>
   (if \<forall>l \<in> set ls. 1 \<le> l
    then \<exists>k. labels_mask ls = Inr k \<and> mask_labels k = sort (remdups ls)
    else raises (labels_mask ls))"
proof
  have ge: "\<forall>l \<in> set (mask_labels m). 1 \<le> l" by (auto simp: set_mask_labels)
  then obtain k where k: "labels_mask (mask_labels m) = Inr k"
    "\<And>i. bit k i \<longleftrightarrow> int i + 1 \<in> set (mask_labels m)" by (rule labels_mask_bits) blast
  then have "k = m" by (intro bit_eqI) (auto simp: set_mask_labels)
  with k show "labels_mask (mask_labels m) = Inr m" by simp
  show "if \<forall>l \<in> set ls. 1 \<le> l
    then \<exists>k. labels_mask ls = Inr k \<and> mask_labels k = sort (remdups ls)
    else raises (labels_mask ls)"
  proof (cases "\<forall>l \<in> set ls. 1 \<le> l")
    case True
    then obtain k where k: "labels_mask ls = Inr k" "\<And>i. bit k i \<longleftrightarrow> int i + 1 \<in> set ls"
      by (rule labels_mask_bits) blast
    have "set (mask_labels k) = set ls"
    proof (intro set_eqI iffI)
      fix l assume l: "l \<in> set ls"
      with True have "1 \<le> l" by blast
      then have e: "l = int (nat (l - 1)) + 1" by simp
      with l k(2) [of "nat (l - 1)"] have "bit k (nat (l - 1))" by simp
      with e show "l \<in> set (mask_labels k)" unfolding set_mask_labels by blast
    qed (use k(2) in \<open>auto simp: set_mask_labels\<close>)
    then have "mask_labels k = sort (remdups ls)"
      by (intro sort_strict_unique [symmetric] sorted_mask_labels) simp
    with True k(1) show ?thesis by simp
  next
    case False
    then show ?thesis using labels_mask_raises [of ls] by (auto simp: not_le)
  qed
qed

theorem labels_mask_roundtrip_witness:
  "\<exists>k. labels_mask [4, 1, 4] = Inr k \<and> mask_labels k = [1, 4]"
  using labels_mask_roundtrip [of 0 "[4, 1, 4]"] by simp

text \<open>
  \<open>_ordered_splits(mask)\<close> lists, without repetition, exactly the ordered pairs of
  non-empty disjoint masks whose union is the mask.
\<close>

theorem ordered_splits_exact:
  "distinct (ordered_splits m) \<and>
   set (ordered_splits m) = {(l, r). 0 < l \<and> 0 < r \<and> l AND r = 0 \<and> l OR r = m}"
  by (simp add: distinct_ordered_splits set_ordered_splits)

text \<open>
  \<open>_masks_by_size\<close> lists every non-empty submask of the full mask, and whenever the
  sweep reaches a mask both sides of each of its ordered splits have been reached before.
\<close>

theorem masks_by_size_dependency_order:
  "set (masks_by_size full) = {u. submask u full \<and> 0 < u} \<and>
   (masks_by_size full = xs @ m # ys \<and> (l, r) \<in> set (ordered_splits m) \<longrightarrow>
      l \<in> set xs \<and> r \<in> set xs)"
  using masks_by_size_earlier [of full xs m ys] ordered_splits_members [of l r m]
  by (auto simp: set_masks_by_size)

theorem masks_by_size_dependency_order_witness:
  "masks_by_size 5 = [1, 4] @ 5 # [] \<and> (4, 1) \<in> set (ordered_splits 5) \<and>
   (4 :: nat) \<in> set [1, 4] \<and> (1 :: nat) \<in> set [1, 4]"
proof -
  have a: "masks_by_size 5 = [1, 4] @ 5 # []" by code_simp
  have b: "(4, 1) \<in> set (ordered_splits 5)" by code_simp
  show ?thesis using a b masks_by_size_dependency_order [of 5 "[1, 4]" 5 "[]" 4 1] by simp
qed

text \<open>
  When every endpoint mask of the candidate splits lies inside the full mask, the masks
  \<open>_closure_side_reachable_masks\<close> keeps are exactly the non-empty submasks of one of the
  endpoint masks.
\<close>

theorem closure_side_reachable_exact:
  assumes "\<forall>(l, r) \<in> set splits. submask l full \<and> submask r full"
  shows "closure_side_reachable_masks full splits =
    {u. 0 < u \<and> (\<exists>(l, r) \<in> set splits. submask u l \<or> submask u r)}"
proof -
  have loop: "set (submask_loop s (s AND full)) = {u. 0 < u \<and> submask u s}" if "submask s full" for s
  proof -
    have "set (submask_loop s s) = {u. submask u s \<and> 0 < u \<and> u \<le> s}" by (rule set_submask_loop) simp
    with that show ?thesis by (auto dest: submask_le)
  qed
  have "set ((\<lambda>(l, r). submask_loop l (l AND full) @ submask_loop r (r AND full)) p) =
      {u. 0 < u \<and> (case p of (l, r) \<Rightarrow> submask u l \<or> submask u r)}" if "p \<in> set splits" for p
  proof -
    obtain l r where p: "p = (l, r)" by (cases p)
    with assms that have "submask l full" "submask r full" by auto
    from loop [OF this(1)] loop [OF this(2)] show ?thesis unfolding p by auto
  qed
  then have "(\<Union>p \<in> set splits. set ((\<lambda>(l, r). submask_loop l (l AND full) @ submask_loop r (r AND full)) p)) =
      {u. 0 < u \<and> (\<exists>p \<in> set splits. case p of (l, r) \<Rightarrow> submask u l \<or> submask u r)}"
    by auto
  then show ?thesis by (simp add: closure_side_reachable_masks_def)
qed

theorem closure_side_reachable_exact_witness:
  "closure_side_reachable_masks 7 [(6, 1)] = {1, 2, 4, 6}"
proof -
  have h: "\<forall>(l, r) \<in> set [(6 :: nat, 1 :: nat)]. submask l 7 \<and> submask r 7" by code_simp
  have "closure_side_reachable_masks 7 [(6, 1)] = {u. 0 < u \<and> (submask u 6 \<or> submask u 1)}"
    using closure_side_reachable_exact [OF h] by simp
  also have "\<dots> = {1, 2, 4, 6}"
  proof (intro set_eqI iffI)
    fix u :: nat assume "u \<in> {u. 0 < u \<and> (submask u 6 \<or> submask u 1)}"
    then have "u \<le> 6" "0 < u" "submask u 6 \<or> submask u 1" using submask_le by fastforce+
    then have "u \<in> {1, 2, 3, 4, 5, 6}" by auto
    with \<open>submask u 6 \<or> submask u 1\<close> show "u \<in> {1, 2, 4, 6}" by auto
  qed auto
  finally show ?thesis .
qed

end
