(* ===== verification/Perm_Rank.thy ===== *)
theory Perm_Rank
  imports Prelude
begin

text \<open>
  Lexicographic ranking of permutations (\<open>color/symmetric_group.py\<close>): the rank and
  unrank loops, the constant-space sequence view, and the relative and inverse permutations
  from which the colour-contraction kernels are indexed. The specification is
  \<open>perms\<close> of the prelude, the order of \<open>itertools.permutations\<close>.
\<close>

section \<open>Group orders\<close>

definition max_symmetric_group_degree :: nat where
  "max_symmetric_group_degree = 10"

definition symmetric_group_orders :: "nat list" where
  "symmetric_group_orders = map fact [0..<max_symmetric_group_degree + 1]"

definition symmetric_group_order :: "int \<Rightarrow> nat res" where
  "symmetric_group_order d =
     (if \<not> (0 \<le> d \<and> d \<le> int max_symmetric_group_degree)
      then Inl (ValueError STR ''symmetric-group degree is unsupported'')
      else Inr (symmetric_group_orders ! nat d))"

lemma orders_nth: "k \<le> 10 \<Longrightarrow> symmetric_group_orders ! k = fact k"
  unfolding symmetric_group_orders_def max_symmetric_group_degree_def
  by (subst nth_map) (auto simp del: upt_Suc)

lemma symmetric_group_order_Inr:
  "symmetric_group_order d = Inr k \<longleftrightarrow> 0 \<le> d \<and> d \<le> 10 \<and> k = fact (nat d)"
  by (auto simp: symmetric_group_order_def max_symmetric_group_degree_def orders_nth)

section \<open>Rank and unrank\<close>

text \<open>
  The loop of \<open>_lexicographic_permutation_rank\<close>: \<open>avail\<close> is \<open>available\<close>,
  \<open>pos\<close> the loop index. \<open>available.index(value)\<close> raises for a value that is not
  there, and the handler turns that into the bijection error.
\<close>

fun rank_loop :: "'a list \<Rightarrow> nat \<Rightarrow> nat \<Rightarrow> nat \<Rightarrow> 'a list \<Rightarrow> nat res" where
  "rank_loop avail d pos rank [] = Inr rank"
| "rank_loop avail d pos rank (v # vs) =
     (case index_of v avail of
        None \<Rightarrow> Inl (ValueError STR ''permutation labels are not a bijection'')
      | Some i \<Rightarrow>
          rank_loop (take i avail @ drop (Suc i) avail) d (Suc pos)
            (rank + i * symmetric_group_orders ! (d - pos - 1)) vs)"

definition lexicographic_permutation_rank :: "int option \<Rightarrow> int list \<Rightarrow> nat res" where
  "lexicographic_permutation_rank degree p =
     (let expected = (case degree of None \<Rightarrow> int (length p) | Some d \<Rightarrow> d)
      in bindE (symmetric_group_order expected) (\<lambda>_.
         if int (length p) \<noteq> expected then Inl (ValueError STR ''permutation degree is inconsistent'')
         else rank_loop (int_range (nat expected)) (nat expected) 0 0 p))"

text \<open>The loop of \<open>_lexicographic_permutation_unrank\<close>; \<open>n\<close> positions are left.\<close>

fun unrank_loop :: "nat \<Rightarrow> 'a list \<Rightarrow> nat \<Rightarrow> 'a list res" where
  "unrank_loop 0 avail rem = Inr []"
| "unrank_loop (Suc n) avail rem =
     (let i = rem div symmetric_group_orders ! n; r = rem mod symmetric_group_orders ! n
      in if i < length avail
         then bindE (unrank_loop n (take i avail @ drop (Suc i) avail) r) (\<lambda>vs. Inr (avail ! i # vs))
         else Inl (IndexError STR ''pop index out of range''))"

definition lexicographic_permutation_unrank :: "int \<Rightarrow> int \<Rightarrow> int list res" where
  "lexicographic_permutation_unrank d rank =
     bindE (symmetric_group_order d) (\<lambda>order.
       if \<not> (0 \<le> rank \<and> rank < int order) then Inl (ValueError STR ''permutation rank is out of bounds'')
       else unrank_loop (nat d) (int_range (nat d)) (nat rank))"

text \<open>One step of the enumeration: the block of permutations that start with element \<open>i\<close>.\<close>

lemma perms_nth_step:
  assumes "i < length avail" "r < fact (length avail - 1)"
  shows "perms avail ! (i * fact (length avail - 1) + r) =
    avail ! i # perms (take i avail @ drop (Suc i) avail) ! r"
proof -
  let ?blocks = "map (\<lambda>(y, ys). map ((#) y) (perms ys)) (selects avail)"
  have ne: "avail \<noteq> []" using assms(1) by auto
  have "length b = fact (length avail - 1)" if "b \<in> set ?blocks" for b
    using that by (auto dest!: selects_length)
  from concat_nth_blocks [of ?blocks, OF this, of i r] assms
  have "concat ?blocks ! (i * fact (length avail - 1) + r) = ?blocks ! i ! r" by simp
  also have "\<dots> = avail ! i # perms (take i avail @ drop (Suc i) avail) ! r"
    using assms by (simp add: selects_nth)
  finally show ?thesis using ne by (simp add: perms_unfold)
qed

lemma unrank_loop_correct:
  "length avail = n \<Longrightarrow> n \<le> 10 \<Longrightarrow> r < fact n \<Longrightarrow> unrank_loop n avail r = Inr (perms avail ! r)"
proof (induction n arbitrary: avail r)
  case (Suc n)
  let ?w = "fact n :: nat" and ?i = "r div fact n" and ?r = "r mod fact n"
  have w: "symmetric_group_orders ! n = ?w" using Suc.prems by (simp add: orders_nth)
  have i: "?i < length avail"
    using Suc.prems less_mult_imp_div_less [of r "Suc n" ?w] by simp
  have "perms avail ! (?i * ?w + ?r) = avail ! ?i # perms (take ?i avail @ drop (Suc ?i) avail) ! ?r"
    using perms_nth_step [OF i, of ?r] Suc.prems by simp
  moreover have "unrank_loop n (take ?i avail @ drop (Suc ?i) avail) ?r =
      Inr (perms (take ?i avail @ drop (Suc ?i) avail) ! ?r)"
    using Suc i by (intro Suc.IH) auto
  ultimately show ?case using i by (simp add: w Let_def)
qed simp

lemma mset_remove_nth: "i < length xs \<Longrightarrow> mset xs = add_mset (xs ! i) (mset (take i xs @ drop (Suc i) xs))"
  using selects_mset [of "xs ! i" "take i xs @ drop (Suc i) xs" xs]
  by (metis length_selects nth_mem selects_nth)

lemma rank_loop_correct:
  assumes "mset vs = mset avail" "distinct avail" "length avail \<le> d" "d \<le> 10" "pos = d - length avail"
  shows "\<exists>r < fact (length avail). rank_loop avail d pos acc vs = Inr (acc + r) \<and> perms avail ! r = vs"
  using assms
proof (induction vs arbitrary: avail pos acc)
  case (Cons v vs)
  then have "v \<in> set avail" by (metis list.set_intros(1) mset_eq_setD)
  then obtain i where i: "index_of v avail = Some i" by (cases "index_of v avail") auto
  from index_of_SomeD [OF this] have il: "i < length avail" and v: "avail ! i = v" by auto
  define rest where "rest = take i avail @ drop (Suc i) avail"
  have m: "mset avail = add_mset v (mset rest)" using mset_remove_nth [OF il] v rest_def by simp
  then have mr: "mset vs = mset rest" "distinct rest"
    using Cons.prems(1,2) by (simp, metis mset_eq_imp_distinct_iff distinct.simps(2) mset.simps(2))
  have len: "length rest = length avail - 1" "0 < length avail" using il by (auto simp: rest_def)
  let ?w = "fact (length avail - 1) :: nat"
  have pos: "length rest \<le> d" "Suc pos = d - length rest" using Cons.prems len by linarith+
  from Cons.IH [OF mr pos(1) Cons.prems(4) pos(2), of "acc + i * ?w"]
  obtain r where r: "r < ?w" "rank_loop rest d (Suc pos) (acc + i * ?w) vs = Inr (acc + i * ?w + r)"
    "perms rest ! r = vs" unfolding len(1) by blast
  have w: "symmetric_group_orders ! (d - pos - 1) = ?w"
    using Cons.prems len by (subst orders_nth) auto
  have "perms avail ! (i * ?w + r) = v # vs"
    using perms_nth_step [OF il r(1)] r(3) v by (simp add: rest_def)
  moreover have "i * ?w + r < fact (length avail)"
  proof -
    have "i * ?w + r < Suc i * ?w" using r(1) by simp
    also have "\<dots> \<le> length avail * ?w" using il by (intro mult_right_mono) auto
    also have "\<dots> = fact (length avail)" using len(2) by (simp add: fact_reduce)
    finally show ?thesis .
  qed
  ultimately show ?case
    using i r(2) by (intro exI [of _ "i * ?w + r"]) (simp add: w [simplified] rest_def add.assoc)
qed simp

lemma rank_loop_returns_mset:
  "rank_loop avail d pos acc vs = Inr r \<Longrightarrow> length vs = length avail \<Longrightarrow> mset vs = mset avail"
proof (induction vs arbitrary: avail pos acc)
  case (Cons v vs)
  then obtain i where i: "index_of v avail = Some i" by (auto split: option.splits)
  from index_of_SomeD [OF i] have il: "i < length avail" "avail ! i = v" by auto
  with Cons i have "mset vs = mset (take i avail @ drop (Suc i) avail)"
    by (intro Cons.IH) (auto split: option.splits)
  with mset_remove_nth [OF il(1)] il(2) show ?case by simp
qed simp

definition is_permutation :: "nat \<Rightarrow> int list \<Rightarrow> bool" where
  "is_permutation n p \<longleftrightarrow> mset p = mset (int_range n)"

lemma is_permutation_iff: "is_permutation n p \<longleftrightarrow> distinct p \<and> set p = {0..<int n}"
  unfolding is_permutation_def
proof
  assume "mset p = mset (int_range n)"
  then show "distinct p \<and> set p = {0..<int n}"
    using mset_eq_imp_distinct_iff mset_eq_setD distinct_int_range set_int_range by metis
next
  assume "distinct p \<and> set p = {0..<int n}"
  then show "mset p = mset (int_range n)"
    using set_eq_iff_mset_eq_distinct [of p "int_range n"] set_int_range [of n] distinct_int_range
    by blast
qed

lemma is_permutation_length: "is_permutation n p \<Longrightarrow> length p = n"
  unfolding is_permutation_def by (metis size_mset length_map length_upt minus_nat.diff_0)

lemma rank_correct:
  assumes "is_permutation n p" "n \<le> 10"
  shows "\<exists>r < fact n. lexicographic_permutation_rank None p = Inr r \<and>
    lexicographic_permutation_rank (Some (int n)) p = Inr r \<and> perms (int_range n) ! r = p"
proof -
  from rank_loop_correct [of p "int_range n" n 0 0] assms[unfolded is_permutation_def]
  obtain r where "r < fact n" "rank_loop (int_range n) n 0 0 p = Inr r" "perms (int_range n) ! r = p"
    by auto
  with assms is_permutation_length [OF assms(1)] show ?thesis
    by (auto simp: lexicographic_permutation_rank_def symmetric_group_order_def max_symmetric_group_degree_def)
qed

lemma rank_Inr_permutation:
  assumes "lexicographic_permutation_rank degree p = Inr r"
  shows "length p \<le> 10 \<and> is_permutation (length p) p \<and> degree \<in> {None, Some (int (length p))}"
proof -
  from assms have l: "length p \<le> 10" and d: "degree \<in> {None, Some (int (length p))}"
    and "rank_loop (int_range (length p)) (length p) 0 0 p = Inr r"
    by (cases degree; force simp: lexicographic_permutation_rank_def Let_def bindE_Inr_iff
          symmetric_group_order_Inr split: if_splits)+
  with rank_loop_returns_mset show ?thesis unfolding is_permutation_def by fastforce
qed

lemma unrank_correct:
  "lexicographic_permutation_unrank d r =
     (if 0 \<le> d \<and> d \<le> 10 \<and> 0 \<le> r \<and> r < fact (nat d) then Inr (perms (int_range (nat d)) ! nat r)
      else Inl (if 0 \<le> d \<and> d \<le> 10 then ValueError STR ''permutation rank is out of bounds''
                else ValueError STR ''symmetric-group degree is unsupported''))"
proof (cases "0 \<le> d \<and> d \<le> 10")
  case True
  then have o: "symmetric_group_order d = Inr (fact (nat d))" by (simp add: symmetric_group_order_Inr)
  have "int (fact (nat d)) = fact (nat d)" by simp
  with True show ?thesis
    using unrank_loop_correct [of "int_range (nat d)" "nat d" "nat r"]
    by (auto simp: lexicographic_permutation_unrank_def o nat_less_iff)
qed (auto simp: lexicographic_permutation_unrank_def symmetric_group_order_def max_symmetric_group_degree_def)

lemma perms_nth_permutation: "r < fact n \<Longrightarrow> is_permutation n (perms (int_range n) ! r)"
  unfolding is_permutation_def by (rule mset_perms) (simp add: nth_mem)

lemma perms_int_range_sorted_ranks:
  assumes "r < fact n" "n \<le> 10"
  shows "lexicographic_permutation_rank (Some (int n)) (perms (int_range n) ! r) = Inr r"
proof -
  let ?p = "perms (int_range n) ! r"
  obtain r' where r': "r' < fact n" "lexicographic_permutation_rank (Some (int n)) ?p = Inr r'"
    "perms (int_range n) ! r' = ?p"
    using rank_correct [OF perms_nth_permutation [OF assms(1)] assms(2)] by auto
  have "distinct (perms (int_range n))" by (rule distinct_perms) simp
  then have "r' = r" using r' assms by (simp add: nth_eq_iff_index_eq)
  with r' show ?thesis by simp
qed

section \<open>The interface of a ranked family\<close>

text \<open>
  What the orbit certification and the kernel lookups rely on: for every supported degree,
  ranks below the group order and elements determine each other.
\<close>

locale ranked_family =
  fixes size_of :: "nat \<Rightarrow> nat"
    and rank :: "nat \<Rightarrow> 'p \<Rightarrow> nat res"
    and unrank :: "nat \<Rightarrow> nat \<Rightarrow> 'p res"
    and supported :: "nat \<Rightarrow> bool"
  assumes unrank_rank: "supported d \<Longrightarrow> r < size_of d \<Longrightarrow> \<exists>p. unrank d r = Inr p \<and> rank d p = Inr r"
    and rank_unrank: "supported d \<Longrightarrow> rank d p = Inr r \<Longrightarrow> r < size_of d \<and> unrank d r = Inr p"
begin

lemma rank_inject: "supported d \<Longrightarrow> rank d p = Inr r \<Longrightarrow> rank d q = Inr r \<Longrightarrow> p = q"
  using rank_unrank [of d p r] rank_unrank [of d q r] by simp

lemma unrank_inject:
  "supported d \<Longrightarrow> r < size_of d \<Longrightarrow> s < size_of d \<Longrightarrow> unrank d r = unrank d s \<Longrightarrow> r = s"
  using unrank_rank [of d r] unrank_rank [of d s] by force

lemma unrank_image:
  "supported d \<Longrightarrow> {p. \<exists>r < size_of d. unrank d r = Inr p} = {p. returns (rank d p)}"
  using unrank_rank rank_unrank by (auto, force, blast)

text \<open>A table of distinct ranks as long as the family is large holds every element once.\<close>

lemma full_table:
  assumes "supported d" "distinct rs" "length rs = size_of d" "\<And>r. r \<in> set rs \<Longrightarrow> r < size_of d"
  shows "rank d p = Inr r \<Longrightarrow> r \<in> set rs"
proof -
  have "set rs = {..<size_of d}"
    using assms by (intro card_subset_eq) (auto simp: distinct_card)
  then show "rank d p = Inr r \<Longrightarrow> r \<in> set rs" using rank_unrank [OF assms(1)] by auto
qed

end

lemma rank_Some_iff:
  "lexicographic_permutation_rank (Some (int d)) p = Inr r \<longleftrightarrow>
     d \<le> 10 \<and> r < fact d \<and> perms (int_range d) ! r = p"
proof
  assume r: "lexicographic_permutation_rank (Some (int d)) p = Inr r"
  from rank_Inr_permutation [OF r] have p: "is_permutation d p" "d \<le> 10" by auto
  from rank_correct [OF p] r show "d \<le> 10 \<and> r < fact d \<and> perms (int_range d) ! r = p" using p by auto
next
  assume "d \<le> 10 \<and> r < fact d \<and> perms (int_range d) ! r = p"
  then show "lexicographic_permutation_rank (Some (int d)) p = Inr r"
    using perms_int_range_sorted_ranks [of r d] by auto
qed

interpretation lex: ranked_family fact "\<lambda>d. lexicographic_permutation_rank (Some (int d))"
  "\<lambda>d r. lexicographic_permutation_unrank (int d) (int r)" "\<lambda>d. d \<le> 10"
proof unfold_locales
  fix d r :: nat assume "d \<le> 10" "r < fact d"
  then show "\<exists>p. lexicographic_permutation_unrank (int d) (int r) = Inr p \<and>
      lexicographic_permutation_rank (Some (int d)) p = Inr r"
    by (simp add: unrank_correct rank_Some_iff) (metis of_nat_fact of_nat_less_iff)
next
  fix d r :: nat and p assume "d \<le> 10" "lexicographic_permutation_rank (Some (int d)) p = Inr r"
  then show "r < fact d \<and> lexicographic_permutation_unrank (int d) (int r) = Inr p"
    by (simp add: unrank_correct rank_Some_iff) (metis of_nat_fact of_nat_less_iff)
qed

section \<open>The constant-space sequence view\<close>

text \<open>
  \<open>_LexicographicPermutations\<close>: the record holds the degree, the constructor checks it,
  and indexing, slicing and iteration unrank on demand.
\<close>

record lexicographic_permutations =
  view_degree :: int

definition make_view :: "int \<Rightarrow> lexicographic_permutations res" where
  "make_view d = bindE (symmetric_group_order d) (\<lambda>_. Inr \<lparr>view_degree = d\<rparr>)"

definition view_len :: "lexicographic_permutations \<Rightarrow> nat" where
  "view_len v = symmetric_group_orders ! nat (view_degree v)"

definition view_getitem :: "lexicographic_permutations \<Rightarrow> int \<Rightarrow> int list res" where
  "view_getitem v index =
     (let normalized = (if 0 \<le> index then index else int (view_len v) + index)
      in if \<not> (0 \<le> normalized \<and> normalized < int (view_len v))
         then Inl (IndexError STR ''permutation index is out of range'')
         else lexicographic_permutation_unrank (view_degree v) normalized)"

definition view_getslice ::
  "lexicographic_permutations \<Rightarrow> int option \<Rightarrow> int option \<Rightarrow> int option \<Rightarrow> int list list res" where
  "view_getslice v start stop step =
     bindE (slice_indices start stop step (view_len v)) (\<lambda>(a, b, c).
       mapE (\<lambda>rank. lexicographic_permutation_unrank (view_degree v) rank) (py_range a b c))"

definition view_iter :: "lexicographic_permutations \<Rightarrow> int list list res" where
  "view_iter v =
     mapE (\<lambda>rank. lexicographic_permutation_unrank (view_degree v) (int rank)) [0..<view_len v]"

lemma make_view_Inr: "make_view d = Inr v \<longleftrightarrow> 0 \<le> d \<and> d \<le> 10 \<and> v = \<lparr>view_degree = d\<rparr>"
  by (auto simp: make_view_def bindE_Inr_iff symmetric_group_order_Inr)

lemma view_len_eq: "make_view d = Inr v \<Longrightarrow> view_len v = fact (nat d)"
  by (auto simp: make_view_Inr view_len_def orders_nth)

lemma unrank_in_range:
  "0 \<le> d \<Longrightarrow> d \<le> 10 \<Longrightarrow> 0 \<le> r \<Longrightarrow> nat r < fact (nat d) \<Longrightarrow>
   lexicographic_permutation_unrank d r = Inr (perms (int_range (nat d)) ! nat r)"
  using unrank_correct [of d r] by (auto simp: nat_less_iff)

section \<open>Relative and inverse permutations\<close>

text \<open>
  \<open>_inverse_permutation\<close> writes \<open>inverse[label] = position\<close>; an index out of range
  raises. \<open>_relative_permutation\<close> reads the inverse of the left permutation at the labels
  of the right one.
\<close>

definition inverse_permutation :: "int list \<Rightarrow> int list res" where
  "inverse_permutation p =
     foldE (\<lambda>iv (position, lab). list_set iv lab (int position))
       (replicate (length p) 0) (enumerate 0 p)"

definition relative_permutation :: "int list \<Rightarrow> int list \<Rightarrow> int list res" where
  "relative_permutation left right =
     bindE (inverse_permutation left) (\<lambda>iv. mapE (\<lambda>lab. list_get iv lab) right)"

lemma inverse_loop:
  assumes "distinct p" "set p \<subseteq> {0..<int (length iv)}"
  shows "\<exists>iv'. foldE (\<lambda>iv (position, lab). list_set iv lab (int position)) iv (enumerate k p) = Inr iv' \<and>
     length iv' = length iv \<and> (\<forall>i < length p. iv' ! nat (p ! i) = int (k + i)) \<and>
     (\<forall>j < length iv. int j \<notin> set p \<longrightarrow> iv' ! j = iv ! j)"
  using assms
proof (induction p arbitrary: iv k)
  case (Cons a p)
  then have a: "0 \<le> a" "a < int (length iv)" "a \<notin> set p" by auto
  from Cons.IH [of "iv[nat a := int k]" "Suc k"] Cons.prems
  obtain iv' where iv': "foldE (\<lambda>iv (position, lab). list_set iv lab (int position))
      (iv[nat a := int k]) (enumerate (Suc k) p) = Inr iv'" "length iv' = length iv"
    "\<forall>i < length p. iv' ! nat (p ! i) = int (Suc k + i)"
    "\<forall>j < length iv. int j \<notin> set p \<longrightarrow> iv' ! j = iv[nat a := int k] ! j" by auto
  have "iv' ! nat a = int k" using iv'(4) a by (auto simp: nat_less_iff)
  then have "\<forall>i < length (a # p). iv' ! nat ((a # p) ! i) = int (k + i)"
    using iv'(3) by (auto simp: less_Suc_eq_0_disj)
  moreover have "\<forall>j < length iv. int j \<notin> set (a # p) \<longrightarrow> iv' ! j = iv ! j"
    using iv'(4) a by (auto simp: nth_list_update nat_eq_iff)
  ultimately show ?case using iv'(1,2) a by auto
qed auto

lemma permutation_nth_range:
  assumes "is_permutation n p" "i < n"
  shows "0 \<le> p ! i" "p ! i < int n" "nat (p ! i) < n"
proof -
  have "p ! i \<in> set p" using assms is_permutation_length by (metis nth_mem)
  then show "0 \<le> p ! i" "p ! i < int n" using assms(1) by (auto simp: is_permutation_iff)
  then show "nat (p ! i) < n" by (simp add: nat_less_iff)
qed

lemma permutation_ex_nth:
  assumes "is_permutation n p" "j < n" shows "\<exists>i < n. p ! i = int j"
proof -
  have "int j \<in> set p" using assms by (auto simp: is_permutation_iff)
  then show ?thesis using is_permutation_length [OF assms(1)] by (auto simp: in_set_conv_nth)
qed

lemma permutation_of_inj:
  assumes "length q = n" "\<And>i. i < n \<Longrightarrow> 0 \<le> q ! i \<and> q ! i < int n"
    "\<And>i j. i < n \<Longrightarrow> j < n \<Longrightarrow> q ! i = q ! j \<Longrightarrow> i = j"
  shows "is_permutation n q"
proof -
  have d: "distinct q" using assms by (auto simp: distinct_conv_nth)
  have "set q \<subseteq> {0..<int n}" using assms by (auto simp: in_set_conv_nth)
  moreover have "card (set q) = card {0..<int n}" using d assms(1) by (simp add: distinct_card)
  ultimately have "set q = {0..<int n}" by (intro card_subset_eq) auto
  with d show ?thesis by (simp add: is_permutation_iff)
qed

lemma inverse_permutation_spec:
  assumes p: "is_permutation n p"
  obtains iv where "inverse_permutation p = Inr iv" "is_permutation n iv"
    "\<And>i. i < n \<Longrightarrow> iv ! nat (p ! i) = int i" "\<And>j. j < n \<Longrightarrow> p ! nat (iv ! j) = int j"
proof -
  note len = is_permutation_length [OF p]
  have dp: "distinct p" "set p \<subseteq> {0..<int (length (replicate (length p) (0 :: int)))}"
    using p len by (auto simp: is_permutation_iff)
  from inverse_loop [OF dp, of 0] len
  obtain iv where iv: "inverse_permutation p = Inr iv" "length iv = n"
    "\<And>i. i < n \<Longrightarrow> iv ! nat (p ! i) = int i"
    unfolding inverse_permutation_def by auto
  have bk: "p ! nat (iv ! j) = int j \<and> 0 \<le> iv ! j \<and> iv ! j < int n" if j: "j < n" for j
  proof -
    obtain i where "i < n" "p ! i = int j" using permutation_ex_nth [OF p j] by auto
    with iv(3) [of i] show ?thesis by auto
  qed
  have "is_permutation n iv"
    by (rule permutation_of_inj) (use iv(2) bk in \<open>auto, metis of_nat_eq_iff\<close>)
  with iv bk that show ?thesis by blast
qed

lemma relative_permutation_spec:
  assumes p: "is_permutation n p" and q: "is_permutation n q"
  obtains r where "relative_permutation p q = Inr r" "is_permutation n r"
    "\<And>i. i < n \<Longrightarrow> p ! nat (r ! i) = q ! i"
proof -
  from p obtain iv where iv: "inverse_permutation p = Inr iv" "is_permutation n iv"
    "\<And>i. i < n \<Longrightarrow> iv ! nat (p ! i) = int i" "\<And>j. j < n \<Longrightarrow> p ! nat (iv ! j) = int j"
    by (rule inverse_permutation_spec) blast
  note len = is_permutation_length [OF iv(2)] is_permutation_length [OF q]
  let ?r = "map (\<lambda>lab. iv ! nat lab) q"
  have "mapE (\<lambda>lab. list_get iv lab) q = Inr ?r"
    using q len by (intro mapE_total) (auto simp: is_permutation_iff)
  with iv(1) have r: "relative_permutation p q = Inr ?r" by (simp add: relative_permutation_def)
  have pr: "p ! nat (?r ! i) = q ! i" if "i < n" for i
    using iv(4) [of "nat (q ! i)"] permutation_nth_range [OF q that] that len by simp
  have "is_permutation n ?r"
  proof (rule permutation_of_inj)
    fix i assume "i < n"
    then show "0 \<le> ?r ! i \<and> ?r ! i < int n"
      using permutation_nth_range(3) [OF q] permutation_nth_range [OF iv(2)] len by simp
  next
    fix i j assume "i < n" "j < n" "?r ! i = ?r ! j"
    then have "q ! i = q ! j" using pr by metis
    with q \<open>i < n\<close> \<open>j < n\<close> len show "i = j" by (simp add: is_permutation_iff nth_eq_iff_index_eq)
  qed (simp add: len)
  with r pr that show ?thesis by blast
qed

lemma relative_permutation_unique:
  assumes p: "is_permutation n p" and r: "is_permutation n r" and r': "is_permutation n r'"
    and eq: "\<And>i. i < n \<Longrightarrow> p ! nat (r ! i) = p ! nat (r' ! i)"
  shows "r = r'"
proof (rule nth_equalityI)
  show "length r = length r'" using is_permutation_length [OF r] is_permutation_length [OF r'] by simp
  fix i assume "i < length r"
  then have i: "i < n" using is_permutation_length [OF r] by simp
  have "nat (r ! i) = nat (r' ! i)"
    using eq [OF i] p permutation_nth_range(3) [OF r i] permutation_nth_range(3) [OF r' i]
      is_permutation_length [OF p] by (simp add: is_permutation_iff nth_eq_iff_index_eq)
  then show "r ! i = r' ! i"
    using permutation_nth_range(1) [OF r i] permutation_nth_range(1) [OF r' i] by simp
qed

text \<open>Composition \<open>g\<close> after \<open>p\<close>, as in \<open>tuple(g[x] for x in p)\<close>.\<close>

definition compose_permutation :: "int list \<Rightarrow> int list \<Rightarrow> int list res" where
  "compose_permutation g p = mapE (\<lambda>position. list_get g position) p"

lemma compose_permutation_spec:
  assumes g: "is_permutation n g" and p: "is_permutation n p"
  shows "compose_permutation g p = Inr (map (\<lambda>i. g ! nat i) p)"
    and "is_permutation n (map (\<lambda>i. g ! nat i) p)"
proof -
  note len = is_permutation_length [OF g] is_permutation_length [OF p]
  show "compose_permutation g p = Inr (map (\<lambda>i. g ! nat i) p)"
    unfolding compose_permutation_def using p len by (intro mapE_total) (auto simp: is_permutation_iff)
  show "is_permutation n (map (\<lambda>i. g ! nat i) p)"
  proof (rule permutation_of_inj)
    fix i assume "i < n"
    then show "0 \<le> map (\<lambda>i. g ! nat i) p ! i \<and> map (\<lambda>i. g ! nat i) p ! i < int n"
      using permutation_nth_range(3) [OF p] permutation_nth_range [OF g] len by simp
  next
    fix i j assume ij: "i < n" "j < n" "map (\<lambda>i. g ! nat i) p ! i = map (\<lambda>i. g ! nat i) p ! j"
    then have "nat (p ! i) = nat (p ! j)"
      using permutation_nth_range(3) [OF p] g len by (simp add: is_permutation_iff nth_eq_iff_index_eq)
    then have "p ! i = p ! j"
      using permutation_nth_range(1) [OF p] ij by (metis eq_nat_nat_iff)
    with p ij len show "i = j" by (simp add: is_permutation_iff nth_eq_iff_index_eq)
  qed (simp add: len)
qed

section \<open>Sampled relative permutations\<close>

text \<open>
  \<open>_equivariance_sample_indices\<close> and \<open>_hermiticity_relative_indices\<close>: the identity, the
  adjacent transpositions and one three-cycle, ranked and deduplicated.
\<close>

definition adjacent_transposition :: "nat \<Rightarrow> nat \<Rightarrow> int list" where
  "adjacent_transposition d i = (int_range d)[i := int (Suc i), Suc i := int i]"

definition three_cycle :: "nat \<Rightarrow> int list" where
  "three_cycle d = [1, 2, 0] @ drop 3 (int_range d)"

definition equivariance_sample_indices :: "int \<Rightarrow> nat list res" where
  "equivariance_sample_indices d =
     bindE (symmetric_group_order d) (\<lambda>_.
       let n = nat d;
           samples = int_range n # map (adjacent_transposition n) [0..<n - 1] @
             (if 3 \<le> n then [three_cycle n] else [])
       in bindE (mapE (\<lambda>sample. lexicographic_permutation_rank (Some d) sample) samples)
            (\<lambda>ranks. Inr (dedup ranks)))"

definition hermiticity_relative_indices :: "int \<Rightarrow> nat \<Rightarrow> nat list res" where
  "hermiticity_relative_indices d channel_count =
     (if channel_count < 2 then Inr []
      else bindE (symmetric_group_order d) (\<lambda>order.
        if d \<le> 4 then Inr [0..<order]
        else let n = nat d;
                 samples = int_range n # map (adjacent_transposition n) [0..<n - 1] @ [three_cycle n]
             in bindE (mapE (\<lambda>sample. lexicographic_permutation_rank (Some d) sample) samples)
                  (\<lambda>ranks. Inr (dedup ranks))))"

lemma is_permutation_id [simp]: "is_permutation n (int_range n)"
  by (simp add: is_permutation_def)

lemma adjacent_transposition_permutation:
  "Suc i < n \<Longrightarrow> is_permutation n (adjacent_transposition n i)"
  unfolding is_permutation_def adjacent_transposition_def
  using mset_swap [of "Suc i" "int_range n" i] by simp

lemma three_cycle_permutation: "3 \<le> n \<Longrightarrow> is_permutation n (three_cycle n)"
proof -
  assume "3 \<le> n"
  then have "[0..<n] = [0, 1, 2] @ [3..<n]"
    by (simp add: upt_conv_Cons numeral_3_eq_3)
  then have "int_range n = [0, 1, 2] @ map int [3..<n]" by simp
  then show ?thesis by (simp add: is_permutation_def three_cycle_def)
qed

lemma mapE_rank_permutations:
  assumes "n \<le> 10" "\<forall>p \<in> set ps. is_permutation n p"
  shows "\<exists>rs. mapE (\<lambda>p. lexicographic_permutation_rank (Some (int n)) p) ps = Inr rs \<and>
     set rs \<subseteq> {..<fact n} \<and> (\<lambda>r. perms (int_range n) ! r) ` set rs = set ps"
  using assms(2)
proof (induction ps)
  case (Cons p ps)
  then obtain rs where "mapE (\<lambda>p. lexicographic_permutation_rank (Some (int n)) p) ps = Inr rs"
    "set rs \<subseteq> {..<fact n}" "(\<lambda>r. perms (int_range n) ! r) ` set rs = set ps" by auto
  moreover obtain r where "r < fact n" "lexicographic_permutation_rank (Some (int n)) p = Inr r"
    "perms (int_range n) ! r = p" using rank_correct [of n p] Cons.prems assms(1) by auto
  ultimately show ?case by auto
qed simp

section \<open>Properties\<close>

text \<open>
  C25. \<open>_lexicographic_permutation_rank\<close> is the index of its argument in
  \<open>itertools.permutations(range(m))\<close>: it returns \<open>r\<close> exactly when the degree is the
  tuple's length and at most 10 and element \<open>r\<close> of that enumeration is the tuple; it raises
  on everything else, in particular on every tuple that is not a permutation.
\<close>

theorem permutation_rank_is_enumeration_index:
  "lexicographic_permutation_rank degree p = Inr r \<longleftrightarrow>
     degree \<in> {None, Some (int (length p))} \<and> length p \<le> 10 \<and>
     r < fact (length p) \<and> perms (int_range (length p)) ! r = p"
proof
  assume r: "lexicographic_permutation_rank degree p = Inr r"
  from rank_Inr_permutation [OF r] have p: "is_permutation (length p) p" "length p \<le> 10"
    "degree \<in> {None, Some (int (length p))}" by auto
  from rank_correct [OF p(1,2)] r p
  show "degree \<in> {None, Some (int (length p))} \<and> length p \<le> 10 \<and>
     r < fact (length p) \<and> perms (int_range (length p)) ! r = p" by auto
next
  assume a: "degree \<in> {None, Some (int (length p))} \<and> length p \<le> 10 \<and>
     r < fact (length p) \<and> perms (int_range (length p)) ! r = p"
  then have "is_permutation (length p) p" using perms_nth_permutation by metis
  from rank_correct [OF this] rank_Some_iff [of "length p" p r] a
  show "lexicographic_permutation_rank degree p = Inr r" by auto
qed

text \<open>
  Rank and unrank are mutually inverse: every supported degree and in-range rank unranks
  to a permutation that ranks back to it, and whatever ranks unranks back to itself.
\<close>

theorem permutation_rank_unrank_roundtrip:
  "(d \<le> 10 \<and> r < fact d \<longrightarrow>
      (\<exists>p. lexicographic_permutation_unrank (int d) (int r) = Inr p \<and> is_permutation d p \<and>
           lexicographic_permutation_rank (Some (int d)) p = Inr r)) \<and>
   (lexicographic_permutation_rank (Some (int d)) q = Inr s \<longrightarrow>
      lexicographic_permutation_unrank (int d) (int s) = Inr q)"
proof (intro conjI impI)
  assume "d \<le> 10 \<and> r < fact d"
  then obtain p where p: "lexicographic_permutation_unrank (int d) (int r) = Inr p"
    "lexicographic_permutation_rank (Some (int d)) p = Inr r" using lex.unrank_rank by blast
  from rank_Inr_permutation [OF p(2)] p
  show "\<exists>p. lexicographic_permutation_unrank (int d) (int r) = Inr p \<and> is_permutation d p \<and>
           lexicographic_permutation_rank (Some (int d)) p = Inr r" by auto
next
  assume "lexicographic_permutation_rank (Some (int d)) q = Inr s"
  then show "lexicographic_permutation_unrank (int d) (int s) = Inr q"
    using lex.rank_unrank rank_Some_iff by blast
qed

theorem permutation_rank_unrank_roundtrip_witness:
  "(\<exists>p. lexicographic_permutation_unrank 3 4 = Inr p \<and>
        lexicographic_permutation_rank (Some 3) p = Inr 4) \<and>
   lexicographic_permutation_unrank 3 3 = Inr [1, 2, 0]"
proof -
  have r: "int_range 3 = [0, 1, 2]" by code_simp
  have h: "lexicographic_permutation_rank (Some (int 3)) [1, 2, 0] = Inr 3"
    by (simp add: r lexicographic_permutation_rank_def symmetric_group_order_def
        max_symmetric_group_degree_def orders_nth fact_numeral)
  have "(4 :: nat) < fact 3" by (simp add: fact_numeral)
  with permutation_rank_unrank_roundtrip [of 3 4 "[1, 2, 0]" 3] h show ?thesis by auto
qed

text \<open>
  The constant-space sequence view behaves as the tuple
  \<open>tuple(itertools.permutations(range(m)))\<close> under iteration, indexing (negative indices and
  out-of-range errors included) and slicing.
\<close>

theorem permutation_view_is_sequence:
  assumes "make_view d = Inr v"
  defines "ps \<equiv> perms (int_range (nat d))"
  shows "view_iter v = Inr ps \<and> view_len v = length ps \<and>
    view_getitem v i =
      (if - int (length ps) \<le> i \<and> i < int (length ps) then list_get ps i
       else Inl (IndexError STR ''permutation index is out of range'')) \<and>
    view_getslice v start stop step =
      bindE (slice_indices start stop step (length ps)) (\<lambda>(a, b, c). mapE (list_get ps) (py_range a b c))"
proof (intro conjI)
  from assms(1) have d: "0 \<le> d" "d \<le> 10" "v = \<lparr>view_degree = d\<rparr>" by (auto simp: make_view_Inr)
  have lps: "length ps = fact (nat d)" by (simp add: ps_def)
  show len: "view_len v = length ps" using view_len_eq [OF assms(1)] lps by simp
  have un: "lexicographic_permutation_unrank (view_degree v) r = list_get ps r"
    if "0 \<le> r" "r < int (length ps)" for r
    using unrank_in_range [OF d(1,2) that(1)] that d(3) lps by (simp add: ps_def nat_less_iff)
  have "view_iter v = Inr (map ((!) ps) [0..<length ps])"
    unfolding view_iter_def len by (rule mapE_total) (simp add: un)
  then show "view_iter v = Inr ps" by (simp add: map_nth)
  show "view_getitem v i =
      (if - int (length ps) \<le> i \<and> i < int (length ps) then list_get ps i
       else Inl (IndexError STR ''permutation index is out of range''))"
    using un [of i] un [of "int (length ps) + i"]
    by (auto simp: view_getitem_def len list_get_def py_index_def Let_def)
  have cong: "mapE f xs = mapE g xs" if "\<And>x. x \<in> set xs \<Longrightarrow> f x = g x" for f g :: "int \<Rightarrow> int list res" and xs
    using that by (induction xs) auto
  show "view_getslice v start stop step =
      bindE (slice_indices start stop step (length ps)) (\<lambda>(a, b, c). mapE (list_get ps) (py_range a b c))"
  proof (cases "slice_indices start stop step (length ps)")
    case (Inr t)
    obtain a b c where t: "t = (a, b, c)" by (cases t)
    have "mapE (\<lambda>r. lexicographic_permutation_unrank (view_degree v) r) (py_range a b c)
        = mapE (list_get ps) (py_range a b c)"
      using slice_indices_in_range [OF Inr [unfolded t]] by (intro cong un) auto
    then show ?thesis by (simp add: view_getslice_def len Inr t)
  qed (simp add: view_getslice_def len)
qed

theorem permutation_view_is_sequence_witness:
  "\<exists>v. make_view 3 = Inr v \<and> view_iter v = Inr (perms [0, 1, 2]) \<and> view_getitem v (-1) = Inr [2, 1, 0]"
proof -
  have m: "make_view 3 = Inr \<lparr>view_degree = 3\<rparr>" by (simp add: make_view_Inr)
  have l: "list_get (perms (int_range 3)) (-1) = Inr [2, 1, 0]" by code_simp
  have r: "int_range 3 = [0, 1, 2]" by code_simp
  have "length (perms (int_range 3)) = 6" by (simp add: fact_numeral)
  with permutation_view_is_sequence [OF m] m l r show ?thesis by simp
qed

text \<open>
  \<open>_relative_permutation(p, q)\<close> is the permutation \<open>p^-1 q\<close>: composing it with
  \<open>p\<close> gives \<open>q\<close>; it does not change when both arguments are relabelled by the same
  permutation, which is why one kernel row per relative index suffices; swapping the
  arguments gives the inverse permutation.
\<close>

theorem relative_permutation_convolution:
  assumes "is_permutation n p" "is_permutation n q" "is_permutation n g"
  shows "\<exists>r. relative_permutation p q = Inr r \<and> is_permutation n r \<and>
      compose_permutation p r = Inr q \<and>
      bindE (compose_permutation g p) (\<lambda>gp. bindE (compose_permutation g q)
        (\<lambda>gq. relative_permutation gp gq)) = Inr r \<and>
      relative_permutation q p = inverse_permutation r"
proof -
  note len = is_permutation_length [OF assms(1)] is_permutation_length [OF assms(2)]
  obtain r where r: "relative_permutation p q = Inr r" "is_permutation n r"
    "\<And>i. i < n \<Longrightarrow> p ! nat (r ! i) = q ! i" by (rule relative_permutation_spec [OF assms(1,2)]) blast
  note lr = is_permutation_length [OF r(2)] and rr = permutation_nth_range [OF r(2)]
  have 1: "compose_permutation p r = Inr q"
    using compose_permutation_spec(1) [OF assms(1) r(2)] r(3) len lr by (auto intro!: nth_equalityI)
  let ?gp = "map (\<lambda>i. g ! nat i) p" and ?gq = "map (\<lambda>i. g ! nat i) q"
  note gp = compose_permutation_spec [OF assms(3,1)] and gq = compose_permutation_spec [OF assms(3,2)]
  obtain r' where r': "relative_permutation ?gp ?gq = Inr r'" "is_permutation n r'"
    "\<And>i. i < n \<Longrightarrow> ?gp ! nat (r' ! i) = ?gq ! i" by (rule relative_permutation_spec [OF gp(2) gq(2)]) blast
  have "r' = r"
    by (rule relative_permutation_unique [OF gp(2) r'(2) r(2)])
       (use r'(3) r(3) rr len in simp)
  with r'(1) gp(1) gq(1) have 2: "bindE (compose_permutation g p) (\<lambda>gp. bindE (compose_permutation g q)
        (\<lambda>gq. relative_permutation gp gq)) = Inr r" by simp
  obtain s where s: "relative_permutation q p = Inr s" "is_permutation n s"
    "\<And>i. i < n \<Longrightarrow> q ! nat (s ! i) = p ! i" by (rule relative_permutation_spec [OF assms(2,1)]) blast
  obtain t where t: "inverse_permutation r = Inr t" "is_permutation n t"
    "\<And>i. i < n \<Longrightarrow> t ! nat (r ! i) = int i" "\<And>j. j < n \<Longrightarrow> r ! nat (t ! j) = int j"
    by (rule inverse_permutation_spec [OF r(2)]) blast
  have "s = t"
  proof (rule relative_permutation_unique [OF assms(2) s(2) t(2)])
    fix i assume i: "i < n"
    have "q ! nat (t ! i) = p ! nat (r ! nat (t ! i))" using r(3) permutation_nth_range(3) [OF t(2) i] by simp
    with t(4) [OF i] s(3) [OF i] show "q ! nat (s ! i) = q ! nat (t ! i)" by simp
  qed
  with s t r 1 2 show ?thesis by auto
qed

theorem relative_permutation_convolution_witness:
  "relative_permutation [2, 0, 1] [1, 0, 2] = Inr [2, 1, 0] \<and>
   relative_permutation [1, 0, 2] [2, 0, 1] = inverse_permutation [2, 1, 0]"
proof -
  have p: "is_permutation 3 [2, 0, 1]" "is_permutation 3 [1, 0, 2]" "is_permutation 3 [0, 2, 1]"
    by (simp_all add: is_permutation_def upt_rec numeral_3_eq_3)
  have "relative_permutation [2, 0, 1] [1, 0, 2] = Inr [2, 1, 0]" by code_simp
  with relative_permutation_convolution [OF p] show ?thesis by auto
qed

text \<open>
  For every supported degree the equivariance samples exist, are distinct ranks below the
  group order, and stand for exactly the identity, the adjacent transpositions and (from
  degree three on) the three-cycle of the first labels.
\<close>

theorem equivariance_samples_exact:
  assumes "d \<le> 10"
  shows "\<exists>rs. equivariance_sample_indices (int d) = Inr rs \<and> distinct rs \<and> set rs \<subseteq> {..<fact d} \<and>
    (\<lambda>r. perms (int_range d) ! r) ` set rs =
      {int_range d} \<union> adjacent_transposition d ` {..<d - 1} \<union> (if 3 \<le> d then {three_cycle d} else {})"
proof -
  let ?samples = "int_range d # map (adjacent_transposition d) [0..<d - 1] @ (if 3 \<le> d then [three_cycle d] else [])"
  have "\<forall>p \<in> set ?samples. is_permutation d p"
    by (auto simp: adjacent_transposition_permutation three_cycle_permutation)
  from mapE_rank_permutations [OF assms this] obtain rs where
    rs: "mapE (\<lambda>p. lexicographic_permutation_rank (Some (int d)) p) ?samples = Inr rs"
    "set rs \<subseteq> {..<fact d}" "(\<lambda>r. perms (int_range d) ! r) ` set rs = set ?samples" by blast
  have o: "symmetric_group_order (int d) = Inr (fact d)" using assms by (simp add: symmetric_group_order_Inr)
  have e: "equivariance_sample_indices (int d) = Inr (dedup rs)"
    unfolding equivariance_sample_indices_def o bindE_simps Let_def nat_int rs(1) ..
  have "set ?samples = {int_range d} \<union> adjacent_transposition d ` {..<d - 1} \<union> (if 3 \<le> d then {three_cycle d} else {})"
    by (auto simp: atLeast0LessThan)
  with e rs(2,3) show ?thesis by (intro exI [of _ "dedup rs"]) simp
qed

theorem equivariance_samples_exact_witness:
  "\<exists>rs. equivariance_sample_indices 3 = Inr rs \<and> distinct rs \<and> set rs \<subseteq> {..<6}"
proof -
  have "(3 :: nat) \<le> 10" by simp
  from equivariance_samples_exact [OF this] show ?thesis by (auto simp: fact_numeral)
qed

end
