(* ===== verification/Py_String.thy ===== *)
theory Py_String
  imports Prelude
begin

text \<open>
  The string methods the process grammar uses: \<open>str.split\<close>, \<open>str.strip\<close>,
  \<open>str.partition\<close>, \<open>str.replace\<close>, \<open>str.lower\<close>, \<open>str.join\<close>. Strings are
  character lists over the first 256 code points; upper and lower case are those of ASCII,
  which is what particle names and process expressions use.
\<close>

section \<open>Characters\<close>

definition is_space :: "char \<Rightarrow> bool" where
  "is_space c \<longleftrightarrow> (let n = (of_char c :: nat) in n \<in> {9..13} \<union> {28..32} \<union> {133, 160})"

definition is_digit :: "char \<Rightarrow> bool" where
  "is_digit c \<longleftrightarrow> (let n = (of_char c :: nat) in 48 \<le> n \<and> n \<le> 57)"

definition is_ascii_letter :: "char \<Rightarrow> bool" where
  "is_ascii_letter c \<longleftrightarrow> (let n = (of_char c :: nat) in (65 \<le> n \<and> n \<le> 90) \<or> (97 \<le> n \<and> n \<le> 122))"

definition lower_char :: "char \<Rightarrow> char" where
  "lower_char c = (let n = (of_char c :: nat) in if 65 \<le> n \<and> n \<le> 90 then char_of (n + 32) else c)"

abbreviation lower :: "string \<Rightarrow> string" where
  "lower \<equiv> map lower_char"

lemma lower_char_idem [simp]: "lower_char (lower_char c) = lower_char c"
proof (cases "65 \<le> (of_char c :: nat) \<and> (of_char c :: nat) \<le> 90")
  case True
  then have "of_char (char_of (of_char c + 32 :: nat)) = (of_char c + 32 :: nat)" by simp
  with True show ?thesis by (simp add: lower_char_def Let_def)
qed (auto simp add: lower_char_def Let_def)

section \<open>Splitting and joining\<close>

text \<open>\<open>s.split(c)\<close>: the pieces between the separators, one more than there are separators.\<close>

fun split_char :: "char \<Rightarrow> string \<Rightarrow> string list" where
  "split_char c [] = [[]]"
| "split_char c (x # xs) =
     (if x = c then [] # split_char c xs
      else (case split_char c xs of [] \<Rightarrow> [[x]] | p # ps \<Rightarrow> (x # p) # ps))"

text \<open>\<open>s.partition(c)\<close>: text before, whether the separator was found, text after.\<close>

fun partition_char :: "char \<Rightarrow> string \<Rightarrow> string \<times> bool \<times> string" where
  "partition_char c [] = ([], False, [])"
| "partition_char c (x # xs) =
     (if x = c then ([], True, xs)
      else (case partition_char c xs of (b, f, a) \<Rightarrow> (x # b, f, a)))"

text \<open>\<open>s.split()\<close>: the maximal runs without white space. \<open>acc\<close> is the open run.\<close>

fun split_ws_from :: "string \<Rightarrow> string \<Rightarrow> string list" where
  "split_ws_from acc [] = (if acc = [] then [] else [acc])"
| "split_ws_from acc (x # xs) =
     (if is_space x then (if acc = [] then split_ws_from [] xs else acc # split_ws_from [] xs)
      else split_ws_from (acc @ [x]) xs)"

abbreviation split_ws :: "string \<Rightarrow> string list" where
  "split_ws \<equiv> split_ws_from []"

definition strip :: "string \<Rightarrow> string" where
  "strip s = rev (dropWhile is_space (rev (dropWhile is_space s)))"

fun join :: "string \<Rightarrow> string list \<Rightarrow> string" where
  "join sep [] = []"
| "join sep [x] = x"
| "join sep (x # y # ys) = x @ sep @ join sep (y # ys)"

text \<open>\<open>s.replace(old, new)\<close> for a non-empty \<open>old\<close>: leftmost, non-overlapping.\<close>

fun starts_with :: "string \<Rightarrow> string \<Rightarrow> bool" where
  "starts_with [] s = True"
| "starts_with (p # ps) [] = False"
| "starts_with (p # ps) (x # xs) = (p = x \<and> starts_with ps xs)"

function replace_str :: "string \<Rightarrow> string \<Rightarrow> string \<Rightarrow> string" where
  "replace_str old new [] = []"
| "replace_str old new (x # xs) =
     (if old \<noteq> [] \<and> starts_with old (x # xs) then new @ replace_str old new (drop (length old) (x # xs))
      else x # replace_str old new xs)"
  by pat_completeness auto
termination
  by (relation "measure (\<lambda>(old, new, s). length s)") auto

declare replace_str.simps(2) [simp del]

lemma replace_str_Cons:
  "replace_str old new (x # xs) =
     (if old \<noteq> [] \<and> starts_with old (x # xs) then new @ replace_str old new (drop (length old) (x # xs))
      else x # replace_str old new xs)"
  by (rule replace_str.simps(2))

lemma replace_char:
  "replace_str [c] new s = concat (map (\<lambda>x. if x = c then new else [x]) s)"
  by (induction s) (auto simp: replace_str_Cons)

lemma split_char_nonempty [simp]: "split_char c s \<noteq> []"
  by (induction s) (auto split: list.splits)

lemma join_split_char: "join [c] (split_char c s) = s"
proof (induction s)
  case (Cons x xs)
  then show ?case
    by (cases "split_char c xs") (auto split: list.splits, (metis join.simps list.exhaust append_Cons append_Nil)+)
qed simp

lemma split_char_no_sep: "p \<in> set (split_char c s) \<Longrightarrow> c \<notin> set p"
  by (induction s arbitrary: p) (auto split: list.splits if_splits)

lemma split_char_absent: "c \<notin> set s \<Longrightarrow> split_char c s = [s]"
  by (induction s) auto

lemma split_char_append: "c \<notin> set p \<Longrightarrow> split_char c (p @ c # s) = p # split_char c s"
  by (induction p) auto

lemma split_char_join:
  "ps \<noteq> [] \<Longrightarrow> \<forall>p \<in> set ps. c \<notin> set p \<Longrightarrow> split_char c (join [c] ps) = ps"
proof (induction ps)
  case (Cons p ps)
  then show ?case by (cases ps) (auto simp: split_char_absent split_char_append)
qed simp

lemma partition_char_absent: "c \<notin> set s \<Longrightarrow> partition_char c s = (s, False, [])"
  by (induction s) auto

lemma partition_char_append: "c \<notin> set b \<Longrightarrow> partition_char c (b @ c # a) = (b, True, a)"
  by (induction b) auto

lemma partition_char_sound:
  "partition_char c s = (b, f, a) \<Longrightarrow> c \<notin> set b \<and> s = (if f then b @ c # a else b) \<and> (\<not> f \<longrightarrow> a = [])"
  by (induction s arbitrary: b f a) (auto split: if_splits prod.splits)

text \<open>A token: a non-empty word without white space.\<close>

definition is_token :: "string \<Rightarrow> bool" where
  "is_token t \<longleftrightarrow> t \<noteq> [] \<and> (\<forall>c \<in> set t. \<not> is_space c)"

lemma split_ws_from_tokens:
  "\<forall>c \<in> set acc. \<not> is_space c \<Longrightarrow> t \<in> set (split_ws_from acc s) \<Longrightarrow> is_token t"
proof (induction acc s arbitrary: t rule: split_ws_from.induct)
  case (2 acc x xs)
  consider "is_space x" "acc = []" | "is_space x" "acc \<noteq> []" | "\<not> is_space x" by blast
  then show ?case
  proof cases
    case 2
    with \<open>t \<in> set (split_ws_from acc (x # xs))\<close> have "t = acc \<or> t \<in> set (split_ws xs)" by auto
    then show ?thesis
      using "2.IH"(2) 2 \<open>\<forall>c \<in> set acc. \<not> is_space c\<close> by (auto simp: is_token_def)
  qed (use 2 in auto)
qed (auto simp: is_token_def split: if_splits)

lemma split_ws_tokens: "t \<in> set (split_ws s) \<Longrightarrow> is_token t"
  by (rule split_ws_from_tokens [of "[]"]) auto

lemma split_ws_from_word:
  "\<forall>c \<in> set w. \<not> is_space c \<Longrightarrow> split_ws_from acc (w @ s) = split_ws_from (acc @ w) s"
  by (induction w arbitrary: acc) auto

lemma split_ws_join:
  "\<forall>t \<in> set ts. is_token t \<Longrightarrow> split_ws (join '' '' ts) = ts"
proof (induction ts rule: induct_list012)
  case (2 x)
  then show ?case using split_ws_from_word [of x "[]" "[]"] by (auto simp: is_token_def)
next
  case (3 x y ys)
  then have "split_ws (x @ '' '' @ join '' '' (y # ys)) = split_ws_from x ('' '' @ join '' '' (y # ys))"
    using split_ws_from_word [of x "[]"] by (auto simp: is_token_def)
  also have "\<dots> = x # split_ws (join '' '' (y # ys))"
    using 3 by (auto simp: is_token_def is_space_def)
  finally show ?case using 3 by simp
qed simp

lemma split_ws_surround:
  "\<forall>t \<in> set ts. is_token t \<Longrightarrow> split_ws (join '' '' ts @ '' '') = ts"
proof (induction ts rule: induct_list012)
  case 1
  then show ?case by (simp add: is_space_def)
next
  case (2 x)
  then show ?case using split_ws_from_word [of x "[]" "'' ''"] by (auto simp: is_token_def is_space_def)
next
  case (3 x y ys)
  then have "split_ws (x @ '' '' @ join '' '' (y # ys) @ '' '') =
      split_ws_from x ('' '' @ join '' '' (y # ys) @ '' '')"
    using split_ws_from_word [of x "[]"] by (auto simp: is_token_def)
  also have "\<dots> = x # split_ws (join '' '' (y # ys) @ '' '')"
    using 3 by (auto simp: is_token_def is_space_def)
  finally show ?case using 3 by simp
qed

lemma split_ws_leading: "split_ws ('' '' @ s) = split_ws s"
  by (simp add: is_space_def)

lemma set_join: "set (join sep ts) \<subseteq> set sep \<union> \<Union> (set ` set ts)"
  by (induction sep ts rule: join.induct) auto

text \<open>Stripping.\<close>

lemma strip_ends:
  assumes "strip s \<noteq> []"
  shows "\<not> is_space (hd (strip s))" "\<not> is_space (last (strip s))"
proof -
  let ?a = "dropWhile is_space s" and ?b = "dropWhile is_space (rev (dropWhile is_space s))"
  have b: "?b \<noteq> []" using assms by (auto simp: strip_def)
  then show "\<not> is_space (last (strip s))" by (simp add: strip_def last_rev hd_dropWhile)
  obtain pre where pre: "rev ?a = pre @ ?b" by (metis takeWhile_dropWhile_id)
  then have a: "?a = rev ?b @ rev pre" by (metis rev_append rev_rev_ident)
  then have "?a \<noteq> []" using b by (metis append_is_Nil_conv rev_is_Nil_conv)
  then have "\<not> is_space (hd ?a)" by (rule hd_dropWhile)
  moreover have "hd ?a = hd (rev ?b)" using a b by (metis hd_append2 rev_is_Nil_conv)
  ultimately show "\<not> is_space (hd (strip s))" by (simp add: strip_def)
qed

lemma strip_id: "s = [] \<or> (\<not> is_space (hd s) \<and> \<not> is_space (last s)) \<Longrightarrow> strip s = s"
proof -
  assume a: "s = [] \<or> (\<not> is_space (hd s) \<and> \<not> is_space (last s))"
  then have "dropWhile is_space s = s" by (cases s) auto
  moreover have "dropWhile is_space (rev s) = rev s" using a by (cases s rule: rev_cases) auto
  ultimately show "strip s = s" by (simp add: strip_def)
qed

lemma strip_idem [simp]: "strip (strip s) = strip s"
  using strip_ends [of s] by (intro strip_id) auto

section \<open>Numbers as text\<close>

text \<open>The value of a run of digits and the decimal text of a natural number.\<close>

definition digits_value :: "string \<Rightarrow> nat" where
  "digits_value ds = foldl (\<lambda>n c. 10 * n + (of_char c - 48)) 0 ds"

fun decimal :: "nat \<Rightarrow> string" where
  "decimal n = (if n < 10 then [char_of (48 + n)] else decimal (n div 10) @ [char_of (48 + n mod 10)])"

declare decimal.simps [simp del]

lemma decimal_digits: "c \<in> set (decimal n) \<Longrightarrow> is_digit c"
  by (induction n rule: decimal.induct) (subst (asm) (2) decimal.simps, auto simp: is_digit_def Let_def split: if_splits)

lemma decimal_nonempty [simp]: "decimal n \<noteq> []"
  by (subst decimal.simps) simp

lemma digits_value_decimal: "digits_value (decimal n) = n"
proof (induction n rule: decimal.induct)
  case (1 n)
  show ?case
  proof (cases "n < 10")
    case True
    then show ?thesis by (subst decimal.simps) (simp add: digits_value_def)
  next
    case False
    with 1 have "digits_value (decimal (n div 10)) = n div 10" by simp
    with False show ?thesis by (subst decimal.simps) (simp add: digits_value_def)
  qed
qed


text \<open>\<open>str(i)\<close> and \<open>int(s)\<close>: white space around the number is ignored, one sign
is allowed, and single underscores may stand between digits; everything else raises
(\<open>None\<close> here).\<close>

definition str_int :: "int \<Rightarrow> string" where
  "str_int i = (if i < 0 then CHR ''-'' # decimal (nat (- i)) else decimal (nat i))"

fun int_digits :: "nat \<Rightarrow> bool \<Rightarrow> string \<Rightarrow> nat option" where
  "int_digits acc ok [] = (if ok then Some acc else None)"
| "int_digits acc ok (c # cs) =
     (if is_digit c then int_digits (10 * acc + (of_char c - 48)) True cs
      else if c = CHR ''_'' \<and> ok then int_digits acc False cs else None)"

definition py_int :: "string \<Rightarrow> int option" where
  "py_int s =
     (case strip s of
        [] \<Rightarrow> None
      | c # cs \<Rightarrow>
          (if c = CHR ''-'' then map_option (\<lambda>n. - int n) (int_digits 0 False cs)
           else if c = CHR ''+'' then map_option int (int_digits 0 False cs)
           else map_option int (int_digits 0 False (c # cs))))"

lemma int_digits_run:
  "\<forall>c \<in> set ds. is_digit c \<Longrightarrow> ds \<noteq> [] \<or> ok \<Longrightarrow>
   int_digits acc ok ds = Some (foldl (\<lambda>n c. 10 * n + (of_char c - 48)) acc ds)"
  by (induction ds arbitrary: acc ok) auto

lemma py_int_str_int [simp]: "py_int (str_int i) = Some i"
proof -
  have d: "int_digits 0 False (decimal n) = Some n" for n
    using int_digits_run [of "decimal n" False 0] digits_value_decimal [of n] decimal_digits
    by (simp add: digits_value_def)
  have ns: "is_digit c \<Longrightarrow> \<not> is_space c \<and> c \<noteq> CHR ''-'' \<and> c \<noteq> CHR ''+''" for c
    by (auto simp: is_digit_def is_space_def Let_def)
  obtain c cs where c: "decimal (nat i) = c # cs" "is_digit c"
    using decimal_nonempty [of "nat i"] decimal_digits [of _ "nat i"] by (cases "decimal (nat i)") auto
  have hd_last: "\<not> is_space (last (decimal n))" for n
    using decimal_nonempty [of n] decimal_digits [of _ n] ns last_in_set by metis
  show ?thesis
  proof (cases "i < 0")
    case True
    have "\<not> is_space CHR ''-''" by (simp add: is_space_def)
    then have "strip (str_int i) = str_int i"
      using True hd_last [of "nat (- i)"] by (intro strip_id) (simp add: str_int_def)
    with True show ?thesis by (simp add: py_int_def str_int_def d)
  next
    case False
    have "strip (str_int i) = str_int i"
      using False hd_last [of "nat i"] c ns by (intro strip_id) (simp add: str_int_def)
    with False c ns [OF c(2)] d [of "nat i"] show ?thesis by (simp add: py_int_def str_int_def)
  qed
qed

lemma str_int_chars: "c \<in> set (str_int i) \<Longrightarrow> is_digit c \<or> c = CHR ''-''"
  using decimal_digits by (auto simp: str_int_def split: if_splits)

lemma str_int_inj: "inj str_int"
  by (rule inj_on_inverseI [where g = "\<lambda>s. the (py_int s)"]) simp

end
