(* ===== verification/Process_Syntax.thy ===== *)
theory Process_Syntax
  imports Py_String
begin

text \<open>
  The process grammar of \<open>processes/core_syntax.py\<close>: splitting a process set at its
  top-level bars, the tokens of one side, repetition prefixes, anonymous multiparticle slots,
  the expansion into concrete variants and the canonical process key.
\<close>

section \<open>Process sets\<close>

text \<open>
  The loop of \<open>split_process_set\<close>: \<open>cur\<close> is the slice from \<open>start\<close> to the current
  index, \<open>depth\<close> the bracket depth.
\<close>

fun split_set_loop :: "string list \<Rightarrow> int \<Rightarrow> string \<Rightarrow> string \<Rightarrow> string list res" where
  "split_set_loop parts depth cur [] =
     (if depth \<noteq> 0 then Inl (ValueError STR ''unmatched '[' in process string'')
      else if strip cur = [] then Inl (ValueError STR ''empty process in process set'')
      else Inr (parts @ [strip cur]))"
| "split_set_loop parts depth cur (c # cs) =
     (if c = CHR ''['' then split_set_loop parts (depth + 1) (cur @ [c]) cs
      else if c = CHR '']'' then
        (if depth - 1 < 0 then Inl (ValueError STR ''unmatched ']' in process string'')
         else split_set_loop parts (depth - 1) (cur @ [c]) cs)
      else if c = CHR ''|'' \<and> depth = 0 then
        (if strip cur = [] then Inl (ValueError STR ''empty process in process set'')
         else split_set_loop (parts @ [strip cur]) depth [] cs)
      else split_set_loop parts depth (cur @ [c]) cs)"

definition split_process_set :: "string \<Rightarrow> string list res" where
  "split_process_set s = split_set_loop [] 0 [] s"

text \<open>
  A piece of a process set, read from bracket depth \<open>d\<close>: the depth never goes below zero,
  returns to zero, and no bar stands at depth zero.
\<close>

fun bar_free_from :: "int \<Rightarrow> string \<Rightarrow> bool" where
  "bar_free_from d [] = (d = 0)"
| "bar_free_from d (c # cs) =
     (if c = CHR ''['' then bar_free_from (d + 1) cs
      else if c = CHR '']'' then 0 < d \<and> bar_free_from (d - 1) cs
      else if c = CHR ''|'' \<and> d = 0 then False
      else bar_free_from d cs)"

abbreviation good_pieces :: "string list \<Rightarrow> bool" where
  "good_pieces raws \<equiv> \<forall>r \<in> set raws. bar_free_from 0 r \<and> strip r \<noteq> []"

lemma split_set_loop_iff:
  "0 \<le> d \<Longrightarrow> split_set_loop parts d cur s = Inr ps \<longleftrightarrow>
     (\<exists>r raws. s = join ''|'' (r # raws) \<and> ps = parts @ strip (cur @ r) # map strip raws \<and>
        bar_free_from d r \<and> strip (cur @ r) \<noteq> [] \<and> good_pieces raws)"
proof (induction s arbitrary: parts d cur)
  case Nil
  have "[] = join ''|'' (r # raws) \<longleftrightarrow> r = [] \<and> raws = []" for r raws by (cases raws) auto
  then show ?case by auto
next
  case (Cons c s)
  have step: "(\<exists>r raws. c # s = join ''|'' (r # raws) \<and> Q r raws) \<longleftrightarrow>
      (\<exists>r raws. s = join ''|'' (r # raws) \<and> Q (c # r) raws) \<or>
      (c = CHR ''|'' \<and> (\<exists>r raws. s = join ''|'' (r # raws) \<and> Q [] (r # raws)))" (is "?L \<longleftrightarrow> ?R") for Q
  proof
    assume ?L
    then obtain r raws where a: "c # s = join ''|'' (r # raws)" "Q r raws" by blast
    show ?R
    proof (cases r)
      case Nil
      with a show ?thesis by (cases raws) auto
    next
      case (Cons x r')
      with a have "s = join ''|'' (r' # raws)" "x = c" by (cases raws; simp)+
      with a Cons show ?thesis by blast
    qed
  next
    assume ?R
    then show ?L
    proof (elim disjE exE conjE)
      fix r raws assume "s = join ''|'' (r # raws)" "Q (c # r) raws"
      then show ?L by (intro exI [of _ "c # r"] exI [of _ raws]) (cases raws; simp)
    next
      fix r raws assume "c = CHR ''|''" "s = join ''|'' (r # raws)" "Q [] (r # raws)"
      then show ?L by (intro exI [of _ "[]"] exI [of _ "r # raws"]) simp
    qed
  qed
  consider "c = CHR ''[''" | "c = CHR '']''" | "c = CHR ''|''" "d = 0" | "c = CHR ''|''" "d \<noteq> 0"
    | "c \<noteq> CHR ''[''" "c \<noteq> CHR '']''" "c \<noteq> CHR ''|''" by blast
  then show ?case
  proof cases
    case 1
    then show ?thesis using Cons by (subst step) (simp add: Cons.IH [of "d + 1"])
  next
    case 2
    show ?thesis
    proof (cases "0 < d")
      case True
      with 2 show ?thesis by (subst step) (simp add: Cons.IH [of "d - 1"])
    next
      case False
      with 2 Cons.prems show ?thesis by (subst step) auto
    qed
  next
    case 3
    show ?thesis
    proof (cases "strip cur = []")
      case True
      with 3 show ?thesis by (subst step) auto
    next
      case False
      with 3 show ?thesis by (subst step) (auto simp: Cons.IH [of 0])
    qed
  next
    case 4
    with Cons.prems show ?thesis by (subst step) (simp add: Cons.IH [of d])
  next
    case 5
    with Cons.prems show ?thesis by (subst step) (simp add: Cons.IH [of d])
  qed
qed

section \<open>Tokens of one side\<close>

text \<open>
  \<open>scan_token\<close> is the inner loop of \<open>_tokenize_side\<close>: a bracket inside a word
  swallows everything up to its closing bracket, white space included.
\<close>

definition split_at_close :: "string \<Rightarrow> (string \<times> string) option" where
  "split_at_close s =
     (if CHR '']'' \<in> set s
      then Some (takeWhile (\<lambda>c. c \<noteq> CHR '']'') s @ [CHR '']''], tl (dropWhile (\<lambda>c. c \<noteq> CHR '']'') s))
      else None)"

lemma split_at_close_append: "split_at_close s = Some (a, b) \<Longrightarrow> s = a @ b \<and> a \<noteq> []"
proof -
  assume "split_at_close s = Some (a, b)"
  then have m: "CHR '']'' \<in> set s" and a: "a = takeWhile (\<lambda>c. c \<noteq> CHR '']'') s @ [CHR '']'']"
    and b: "b = tl (dropWhile (\<lambda>c. c \<noteq> CHR '']'') s)" by (auto simp: split_at_close_def split: if_splits)
  let ?d = "dropWhile (\<lambda>c. c \<noteq> CHR '']'') s"
  from m have ne: "?d \<noteq> []" by auto
  from hd_dropWhile [OF ne] have "hd ?d = CHR '']''" by simp
  with ne b have d: "?d = CHR '']'' # b" by (cases ?d) simp_all
  have "s = takeWhile (\<lambda>c. c \<noteq> CHR '']'') s @ ?d" by simp
  with d have "s = a @ b" by (simp add: a)
  then show "s = a @ b \<and> a \<noteq> []" by (simp add: a)
qed

function scan_token :: "string \<Rightarrow> (string \<times> string) res" where
  "scan_token [] = Inr ([], [])"
| "scan_token (c # cs) =
     (if is_space c then Inr ([], c # cs)
      else if c = CHR ''['' then
        (case split_at_close cs of
           None \<Rightarrow> Inl (ValueError STR ''unmatched '[' in process string'')
         | Some (inside, rest) \<Rightarrow> bindE (scan_token rest) (\<lambda>(t, r). Inr (c # inside @ t, r)))
      else bindE (scan_token cs) (\<lambda>(t, r). Inr (c # t, r)))"
  by pat_completeness auto
termination
  by (relation "measure length") (auto dest: split_at_close_append)

lemma scan_token_length: "scan_token s = Inr (t, r) \<Longrightarrow> s = t @ r"
proof (induction s arbitrary: t r rule: scan_token.induct)
  case (2 c cs)
  show ?case
  proof (cases "is_space c")
    case True
    with "2.prems" show ?thesis by simp
  next
    case ns: False
    show ?thesis
    proof (cases "c = CHR ''[''")
      case True
      with "2.prems" ns obtain inside rest t' where sp: "split_at_close cs = Some (inside, rest)"
        and sc: "scan_token rest = Inr (t', r)" and t: "t = c # inside @ t'"
        by (auto simp: bindE_Inr_iff split: option.splits)
      from "2.IH"(1) [OF ns True sp refl sc] split_at_close_append [OF sp] t show ?thesis by simp
    next
      case False
      with "2.prems" ns obtain t' where sc: "scan_token cs = Inr (t', r)" and t: "t = c # t'"
        by (auto simp: bindE_Inr_iff)
      from "2.IH"(2) [OF ns False sc] t show ?thesis by simp
    qed
  qed
qed simp

function tokenize_side :: "string \<Rightarrow> string list res" where
  "tokenize_side [] = Inr []"
| "tokenize_side (c # cs) =
     (if is_space c then tokenize_side cs
      else if c = CHR ''['' then
        (case split_at_close cs of
           None \<Rightarrow> Inl (ValueError STR ''unmatched '[' in process string'')
         | Some (inside, rest) \<Rightarrow> bindE (tokenize_side rest) (\<lambda>ts. Inr ((c # inside) # ts)))
      else (case scan_token (c # cs) of
              Inl e \<Rightarrow> Inl e
            | Inr (t, r) \<Rightarrow> if length r < length (c # cs)
                then bindE (tokenize_side r) (\<lambda>ts. Inr (t # ts)) else Inr [t]))"
  by pat_completeness auto
termination
  by (relation "measure length") (auto dest: split_at_close_append)

text \<open>
  The length test of \<open>tokenize_side\<close> is for the termination proof only: a word is never
  empty, so the scan always consumes a character.
\<close>

lemma tokenize_side_scan:
  assumes "\<not> is_space c" "c \<noteq> CHR ''[''"
  shows "tokenize_side (c # cs) =
    bindE (scan_token (c # cs)) (\<lambda>(t, r). bindE (tokenize_side r) (\<lambda>ts. Inr (t # ts)))"
proof (cases "scan_token (c # cs)")
  case (Inr tr)
  obtain t r where tr: "tr = (t, r)" by (cases tr)
  from Inr tr assms have "t \<noteq> []" by (auto simp: bindE_Inr_iff)
  with scan_token_length [OF Inr [unfolded tr]] have "length r < length (c # cs)"
    by (metis length_append length_greater_0_conv less_add_same_cancel2)
  with Inr tr assms show ?thesis by (simp del: scan_token.simps)
qed (use assms in \<open>simp del: scan_token.simps\<close>)

section \<open>Repetition and slots\<close>

text \<open>The two regular expressions of \<open>_split_repeat_token\<close>, tried in order.\<close>

definition split_repeat_token :: "string \<Rightarrow> nat \<times> string" where
  "split_repeat_token token =
     (let ds = takeWhile is_digit token; rest = dropWhile is_digit token
      in if ds \<noteq> [] \<and> rest \<noteq> [] \<and> hd rest = CHR ''*'' \<and> tl rest \<noteq> [] \<and> CHR 0x0A \<notin> set (tl rest)
         then (digits_value ds, tl rest)
         else if ds \<noteq> [] \<and> rest \<noteq> [] \<and> is_ascii_letter (hd rest) \<and>
           (\<forall>c \<in> set (tl rest). is_ascii_letter c \<or> is_digit c \<or> c \<in> set ''+~-'')
         then (digits_value ds, rest)
         else (1, token))"

definition anonymous_options :: "string \<Rightarrow> string list res" where
  "anonymous_options token =
     (if token \<noteq> [] \<and> hd token = CHR ''['' \<and> last token = CHR '']''
      then bindE (tokenize_side (strip (butlast (tl token)))) (\<lambda>options.
        if options = [] then Inl (ValueError STR ''anonymous multiparticle label cannot be empty'')
        else Inr options)
      else Inr [token])"

definition normalized_aliases :: "(string \<times> string list) list \<Rightarrow> (string \<rightharpoonup> string list)" where
  "normalized_aliases aliases = map_of (rev (map (\<lambda>(name, values). (lower name, map lower values)) aliases))"

definition expand_side_tokens :: "string list \<Rightarrow> (string \<times> string list) list \<Rightarrow> string list list res" where
  "expand_side_tokens tokens aliases =
     bindE (mapE (\<lambda>token. (case split_repeat_token token of (repeat, item) \<Rightarrow>
        bindE (anonymous_options item) (\<lambda>os.
          Inr (replicate repeat (concat (map (\<lambda>option.
            (case normalized_aliases aliases (lower option) of None \<Rightarrow> [option] | Some ms \<Rightarrow> ms)) os))))))
        tokens) (\<lambda>blocks. Inr (concat blocks))"

definition expand_process_variants :: "string \<Rightarrow> (string \<times> string list) list \<Rightarrow> string list res" where
  "expand_process_variants process_string aliases =
     bindE (split_process_set process_string) (\<lambda>processes.
     bindE (mapE (\<lambda>process.
        (case split_char CHR ''>'' (replace_str ''bar'' ''~'' (lower process)) of
           [left, right] \<Rightarrow>
             bindE (tokenize_side (strip left)) (\<lambda>ts.
             bindE (expand_side_tokens ts aliases) (\<lambda>initial_options.
             bindE (tokenize_side (strip right)) (\<lambda>us.
             bindE (expand_side_tokens us aliases) (\<lambda>final_options.
               Inr [join '' '' initial @ '' > '' @ join '' '' final.
                    initial \<leftarrow> product_lists initial_options, final \<leftarrow> product_lists final_options]))))
         | _ \<Rightarrow> Inl (ValueError STR ''invalid collision format; expected 'initial > final' ''))) processes)
     (\<lambda>variants. Inr (dedup (concat variants))))"

definition canonical_process_key :: "string \<Rightarrow> string" where
  "canonical_process_key process =
     join ''_'' (map (\<lambda>token. if token = ''>'' then ''to''
         else replace_str ''-'' ''minus'' (replace_str ''+'' ''plus'' (replace_str ''~'' ''bar'' token)))
       (split_ws (replace_str ''>'' '' > '' (replace_str ''bar'' ''~'' (lower process)))))"

section \<open>Plain processes\<close>

text \<open>
  A plain token: lower-case letters, digits and the charge signs, starting with a letter, and
  without the spelling \<open>bar\<close> of the antiparticle mark.
\<close>

definition plain_char :: "char \<Rightarrow> bool" where
  "plain_char c \<longleftrightarrow> (is_ascii_letter c \<and> lower_char c = c) \<or> is_digit c \<or> c \<in> set ''+~-''"

definition plain_token :: "string \<Rightarrow> bool" where
  "plain_token t \<longleftrightarrow> t \<noteq> [] \<and> is_ascii_letter (hd t) \<and> (\<forall>c \<in> set t. plain_char c) \<and>
     replace_str ''bar'' ''~'' t = t"

lemma plain_char_props:
  assumes "plain_char c"
  shows "\<not> is_space c" "c \<noteq> CHR ''[''" "c \<noteq> CHR '']''" "c \<noteq> CHR ''|''" "c \<noteq> CHR ''>''" "lower_char c = c"
  using assms
  by (auto simp: plain_char_def is_space_def is_ascii_letter_def is_digit_def lower_char_def Let_def)

lemma plain_is_token: "plain_token t \<Longrightarrow> is_token t"
  by (auto simp: plain_token_def is_token_def plain_char_props)

lemma scan_token_plain:
  "\<forall>c \<in> set t. plain_char c \<Longrightarrow> rest = [] \<or> is_space (hd rest) \<Longrightarrow> scan_token (t @ rest) = Inr (t, rest)"
proof (induction t)
  case Nil
  then show ?case by (cases rest) auto
qed (auto simp: plain_char_props)

lemma tokenize_plain_join:
  "\<forall>t \<in> set ts. plain_token t \<Longrightarrow> tokenize_side (join '' '' ts) = Inr ts"
proof (induction ts rule: induct_list012)
  case (2 x)
  then obtain c cs where x: "x = c # cs" "plain_char c" by (cases x) (auto simp: plain_token_def)
  from scan_token_plain [of x "[]"] 2 x show ?case
    by (simp add: tokenize_side_scan plain_char_props plain_token_def del: scan_token.simps tokenize_side.simps(2))
next
  case (3 x y ys)
  then obtain c cs where x: "x = c # cs" "plain_char c" by (cases x) (auto simp: plain_token_def)
  let ?rest = "'' '' @ join '' '' (y # ys)"
  have sp: "is_space CHR '' ''" by (simp add: is_space_def)
  have "scan_token (x @ ?rest) = Inr (x, ?rest)"
    using 3 by (intro scan_token_plain) (auto simp: plain_token_def sp)
  moreover have "tokenize_side ?rest = Inr (y # ys)" using 3 sp by simp
  ultimately show ?case using x
    by (simp add: tokenize_side_scan plain_char_props del: scan_token.simps tokenize_side.simps(2))
qed simp

lemma plain_repeat: "plain_token t \<Longrightarrow> split_repeat_token t = (1, t)"
proof -
  assume t: "plain_token t"
  then have "\<not> is_digit (hd t)" by (auto simp: plain_token_def is_ascii_letter_def is_digit_def Let_def)
  then have "takeWhile is_digit t = []" using t by (cases t) auto
  then show ?thesis by (simp add: split_repeat_token_def)
qed

lemma plain_options: "plain_token t \<Longrightarrow> anonymous_options t = Inr [t]"
  by (cases t) (auto simp: plain_token_def anonymous_options_def plain_char_props)

lemma expand_plain: "\<forall>t \<in> set ts. plain_token t \<Longrightarrow> expand_side_tokens ts [] = Inr (map (\<lambda>t. [t]) ts)"
proof -
  assume a: "\<forall>t \<in> set ts. plain_token t"
  then have "mapE (\<lambda>token. (case split_repeat_token token of (repeat, item) \<Rightarrow>
        bindE (anonymous_options item) (\<lambda>os.
          Inr (replicate repeat (concat (map (\<lambda>option.
            (case normalized_aliases [] (lower option) of None \<Rightarrow> [option] | Some ms \<Rightarrow> ms)) os))))))
        ts = Inr (map (\<lambda>t. [[t]]) ts)"
    by (intro mapE_total) (auto simp: plain_repeat plain_options normalized_aliases_def)
  moreover have "concat (map (\<lambda>t. [[t]]) ts) = map (\<lambda>t. [t]) ts" by (induction ts) auto
  ultimately show ?thesis by (simp add: expand_side_tokens_def)
qed

lemma product_lists_singletons [simp]: "product_lists (map (\<lambda>t. [t]) ts) = [ts]"
  by (induction ts) auto

section \<open>Slots: printing and parsing\<close>

text \<open>A slot is a repetition count with its options, written \<open>n*[o1 o2 ...]\<close>.\<close>

type_synonym slot = "nat \<times> string list"

definition print_slot :: "slot \<Rightarrow> string" where
  "print_slot = (\<lambda>(n, os). decimal n @ ''*['' @ join '' '' os @ '']'')"

definition print_side :: "slot list \<Rightarrow> string" where
  "print_side slots = join '' '' (map print_slot slots)"

definition slot_ok :: "slot \<Rightarrow> bool" where
  "slot_ok = (\<lambda>(n, os). os \<noteq> [] \<and> (\<forall>t \<in> set os. plain_token t))"

definition slot_positions :: "slot list \<Rightarrow> string list list" where
  "slot_positions slots = concat (map (\<lambda>(n, os). replicate n os) slots)"

lemma join_chars: "c \<in> set (join '' '' ts) \<Longrightarrow> c = CHR '' '' \<or> (\<exists>t \<in> set ts. c \<in> set t)"
  using set_join [of "'' ''" ts] by auto

lemma digit_props:
  assumes "is_digit c"
  shows "\<not> is_space c" "c \<noteq> CHR ''[''" "c \<noteq> CHR '']''" "c \<noteq> CHR ''|''" "c \<noteq> CHR ''>''" "lower_char c = c"
    "c \<noteq> CHR ''b''"
  using assms by (auto simp: is_space_def is_digit_def lower_char_def Let_def)

lemma options_chars:
  assumes "slot_ok (n, os)" "c \<in> set (join '' '' os)"
  shows "c \<noteq> CHR ''[''" "c \<noteq> CHR '']''" "c \<noteq> CHR ''|''" "c \<noteq> CHR ''>''" "lower_char c = c" "c \<noteq> CHR 0x0A"
proof -
  from join_chars [OF assms(2)] assms(1) have "c = CHR '' '' \<or> plain_char c"
    by (auto simp: slot_ok_def plain_token_def)
  then show "c \<noteq> CHR ''[''" "c \<noteq> CHR '']''" "c \<noteq> CHR ''|''" "c \<noteq> CHR ''>''" "lower_char c = c" "c \<noteq> CHR 0x0A"
    using plain_char_props [of c] by (auto simp: lower_char_def is_space_def)
qed

lemma scan_token_prefix:
  "\<forall>c \<in> set p. \<not> is_space c \<and> c \<noteq> CHR ''['' \<Longrightarrow>
   scan_token (p @ s) = bindE (scan_token s) (\<lambda>(t, r). Inr (p @ t, r))"
proof (induction p)
  case Nil
  then show ?case by (cases "scan_token s") auto
next
  case (Cons c p)
  then have "scan_token ((c # p) @ s) = bindE (scan_token (p @ s)) (\<lambda>(t, r). Inr (c # t, r))" by simp
  also have "scan_token (p @ s) = bindE (scan_token s) (\<lambda>(t, r). Inr (p @ t, r))" using Cons by simp
  finally show ?case by (simp add: bindE_def split: sum.split)
qed

lemma split_at_close_first:
  "CHR '']'' \<notin> set a \<Longrightarrow> split_at_close (a @ CHR '']'' # b) = Some (a @ '']'', b)"
proof -
  assume a: "CHR '']'' \<notin> set a"
  then have n: "\<forall>c \<in> set a. c \<noteq> CHR '']''" by metis
  from n have "takeWhile (\<lambda>c. c \<noteq> CHR '']'') (a @ CHR '']'' # b) = a"
    by (subst takeWhile_append2) auto
  moreover from n have "dropWhile (\<lambda>c. c \<noteq> CHR '']'') (a @ CHR '']'' # b) = CHR '']'' # b"
    by (subst dropWhile_append2) auto
  ultimately show ?thesis by (simp add: split_at_close_def)
qed

lemma scan_slot:
  assumes "slot_ok s" "rest = [] \<or> is_space (hd rest)"
  shows "scan_token (print_slot s @ rest) = Inr (print_slot s, rest)"
proof -
  obtain n os where s: "s = (n, os)" by (cases s)
  let ?o = "join '' '' os"
  have nc: "CHR '']'' \<notin> set ?o" using options_chars(2) assms(1) s by blast
  have star: "\<not> is_space CHR ''*''" "\<not> is_space CHR ''[''" by (simp_all add: is_space_def)
  have r: "scan_token rest = Inr ([], rest)" using assms(2) by (cases rest) auto
  have "scan_token (decimal n @ ''*['' @ ?o @ '']'' @ rest) =
      bindE (scan_token (''*['' @ ?o @ '']'' @ rest)) (\<lambda>(t, r). Inr (decimal n @ t, r))"
    by (rule scan_token_prefix) (use decimal_digits digit_props in blast)
  also have "scan_token (''*['' @ ?o @ '']'' @ rest) = Inr (''*['' @ ?o @ '']'', rest)"
    using star nc r by (simp add: split_at_close_first)
  finally show ?thesis by (simp add: s print_slot_def)
qed

lemma print_slot_starts: "\<exists>c cs. print_slot s = c # cs \<and> is_digit c"
proof -
  obtain n os where s: "s = (n, os)" by (cases s)
  obtain c cs where "decimal n = c # cs" by (cases "decimal n") auto
  with decimal_digits [of c n] show ?thesis by (simp add: s print_slot_def)
qed

lemma tokenize_slots: "\<forall>s \<in> set slots. slot_ok s \<Longrightarrow> tokenize_side (print_side slots) = Inr (map print_slot slots)"
proof (induction slots rule: induct_list012)
  case (2 x)
  then obtain c cs where x: "print_slot x = c # cs" "is_digit c" using print_slot_starts by blast
  from scan_slot [of x "[]"] 2 x show ?case
    by (simp add: print_side_def tokenize_side_scan digit_props del: scan_token.simps tokenize_side.simps(2))
next
  case (3 x y ys)
  obtain c cs where x: "print_slot x = c # cs" "is_digit c" using print_slot_starts by blast
  let ?rest = "'' '' @ print_side (y # ys)"
  have sp: "is_space CHR '' ''" by (simp add: is_space_def)
  have "scan_token (print_slot x @ ?rest) = Inr (print_slot x, ?rest)"
    using 3 by (intro scan_slot) (auto simp: sp)
  moreover have "tokenize_side ?rest = Inr (map print_slot (y # ys))" using 3 sp by simp
  ultimately show ?case using x
    by (simp add: print_side_def tokenize_side_scan digit_props del: scan_token.simps tokenize_side.simps(2))
qed (simp add: print_side_def)

lemma strip_join_plain: "\<forall>t \<in> set ts. plain_token t \<Longrightarrow> strip (join '' '' ts) = join '' '' ts"
proof (induction ts rule: induct_list012)
  case (2 x)
  then show ?case by (intro strip_id) (auto simp: plain_token_def plain_char_props)
next
  case (3 x y ys)
  then have x: "x \<noteq> []" "\<not> is_space (hd x)" by (auto simp: plain_token_def plain_char_props)
  have "join '' '' (y # ys) \<noteq> []" using 3 by (cases ys) (auto simp: plain_token_def)
  moreover from this have "\<not> is_space (last (join '' '' (y # ys)))" using 3 strip_ends(2) by (metis list.set_intros(2))
  ultimately show ?case using x by (intro strip_id) simp
qed (simp add: strip_def)

lemma slot_chars:
  assumes "slot_ok s" "c \<in> set (print_slot s)"
  shows "c \<noteq> CHR ''|''" "c \<noteq> CHR ''>''" "lower_char c = c"
proof -
  obtain n os where s: "s = (n, os)" by (cases s)
  have "c \<in> set (decimal n) \<or> c \<in> set ''*[]'' \<or> c \<in> set (join '' '' os)"
    using assms(2) by (auto simp: s print_slot_def)
  then have "c \<noteq> CHR ''|'' \<and> c \<noteq> CHR ''>'' \<and> lower_char c = c"
  proof (elim disjE)
    assume "c \<in> set (decimal n)"
    from digit_props [OF decimal_digits [OF this]] show ?thesis by blast
  next
    assume "c \<in> set ''*[]''"
    then show ?thesis by (auto simp: lower_char_def)
  next
    assume "c \<in> set (join '' '' os)"
    from options_chars [OF assms(1) [unfolded s] this] show ?thesis by blast
  qed
  then show "c \<noteq> CHR ''|''" "c \<noteq> CHR ''>''" "lower_char c = c" by blast+
qed

lemma side_chars:
  assumes "\<forall>s \<in> set slots. slot_ok s" "c \<in> set (print_side slots)"
  shows "c \<noteq> CHR ''|''" "c \<noteq> CHR ''>''" "lower_char c = c"
proof -
  have "c = CHR '' '' \<or> (\<exists>s \<in> set slots. c \<in> set (print_slot s))"
    using join_chars [of c "map print_slot slots"] assms(2) unfolding print_side_def set_map bex_simps by blast
  then have "c \<noteq> CHR ''|'' \<and> c \<noteq> CHR ''>'' \<and> lower_char c = c"
  proof
    assume "c = CHR '' ''"
    then show ?thesis by (simp add: lower_char_def)
  qed (use assms(1) slot_chars in blast)
  then show "c \<noteq> CHR ''|''" "c \<noteq> CHR ''>''" "lower_char c = c" by blast+
qed

lemma bar_free_prefix:
  "\<forall>c \<in> set p. c \<noteq> CHR ''['' \<and> c \<noteq> CHR '']'' \<and> c \<noteq> CHR ''|'' \<Longrightarrow> bar_free_from d (p @ rest) = bar_free_from d rest"
  by (induction p) auto

lemma bar_free_slot:
  assumes "slot_ok s"
  shows "bar_free_from 0 (print_slot s @ rest) = bar_free_from 0 rest"
proof -
  obtain n os where s: "s = (n, os)" by (cases s)
  have "bar_free_from 1 (join '' '' os @ '']'' @ rest) = bar_free_from 1 ('']'' @ rest)"
    using options_chars assms s by (intro bar_free_prefix) blast
  then have "bar_free_from 0 (''*['' @ join '' '' os @ '']'' @ rest) = bar_free_from 0 rest" by simp
  moreover have "bar_free_from 0 (decimal n @ x) = bar_free_from 0 x" for x
    using decimal_digits digit_props by (intro bar_free_prefix) blast
  ultimately show ?thesis by (simp add: s print_slot_def)
qed

lemma bar_free_side:
  "\<forall>s \<in> set slots. slot_ok s \<Longrightarrow> bar_free_from 0 (print_side slots @ rest) = bar_free_from 0 rest"
proof (induction slots rule: induct_list012)
  case (3 x y ys)
  then have "bar_free_from 0 (print_side (y # ys) @ rest) = bar_free_from 0 rest" by simp
  moreover have "bar_free_from 0 (print_slot x @ '' '' @ print_side (y # ys) @ rest) =
      bar_free_from 0 ('' '' @ print_side (y # ys) @ rest)"
    using 3 by (intro bar_free_slot) simp
  ultimately show ?case by (simp add: print_side_def)
qed (simp_all add: print_side_def bar_free_slot)

lemma starts_with_prefix_eq: "c \<notin> set old \<Longrightarrow> starts_with old (a @ c # b) \<longleftrightarrow> starts_with old a"
proof (induction old a rule: starts_with.induct)
  case (2 p ps)
  then show ?case by auto
qed auto

lemma starts_with_length: "starts_with old s \<Longrightarrow> length old \<le> length s"
  by (induction old s rule: starts_with.induct) auto

lemma replace_across:
  assumes "c \<notin> set old"
  shows "replace_str old new (a @ c # b) = replace_str old new a @ c # replace_str old new b"
proof (induction a rule: length_induct)
  case (1 a)
  show ?case
  proof (cases a)
    case Nil
    have "\<not> (old \<noteq> [] \<and> starts_with old (c # b))" using assms by (cases old) auto
    with Nil show ?thesis by (auto simp: replace_str_Cons)
  next
    case (Cons x xs)
    show ?thesis
    proof (cases "old \<noteq> [] \<and> starts_with old a")
      case True
      then have l: "length old \<le> length a" "length (drop (length old) a) < length a"
        using starts_with_length [of old a] by (auto simp: Cons)
      then have "replace_str old new (drop (length old) a @ c # b) =
          replace_str old new (drop (length old) a) @ c # replace_str old new b" using 1 by blast
      moreover have "drop (length old) (a @ c # b) = drop (length old) a @ c # b" using l by simp
      ultimately show ?thesis using True starts_with_prefix_eq [OF assms, of a b]
        by (simp add: Cons replace_str_Cons del: drop_append)
    next
      case False
      moreover have "replace_str old new (xs @ c # b) = replace_str old new xs @ c # replace_str old new b"
        using 1 Cons by simp
      moreover from False have "\<not> (old \<noteq> [] \<and> starts_with old (a @ c # b))"
        using starts_with_prefix_eq [OF assms, of a b] by blast
      ultimately show ?thesis unfolding Cons append_Cons
        by (subst (1 2) replace_str_Cons) (simp only: if_False append_Cons simp_thms)
    qed
  qed
qed

abbreviation rebar :: "string \<Rightarrow> string" where
  "rebar \<equiv> replace_str ''bar'' ''~''"

lemma rebar_join: "\<forall>t \<in> set ts. rebar t = t \<Longrightarrow> rebar (join '' '' ts) = join '' '' ts"
proof (induction ts rule: induct_list012)
  case (3 x y ys)
  have "rebar (x @ CHR '' '' # join '' '' (y # ys)) = rebar x @ CHR '' '' # rebar (join '' '' (y # ys))"
    by (rule replace_across) simp
  with 3 show ?case by simp
qed simp_all

lemma rebar_no_b: "CHR ''b'' \<notin> set s \<Longrightarrow> rebar s = s"
  by (induction s) (auto simp: replace_str_Cons)

lemma rebar_slot:
  assumes "slot_ok s"
  shows "rebar (print_slot s) = print_slot s"
proof -
  obtain n os where s: "s = (n, os)" by (cases s)
  have d: "rebar (decimal n) = decimal n" using decimal_digits digit_props(7) by (intro rebar_no_b) blast
  have o: "rebar (join '' '' os) = join '' '' os"
    using assms by (intro rebar_join) (auto simp: s slot_ok_def plain_token_def)
  have "rebar (join '' '' os @ CHR '']'' # []) = rebar (join '' '' os) @ CHR '']'' # rebar []"
    by (rule replace_across) simp
  moreover have "rebar ([] @ CHR ''['' # x) = rebar [] @ CHR ''['' # rebar x" for x
    by (rule replace_across) simp
  moreover have "rebar (decimal n @ CHR ''*'' # x) = rebar (decimal n) @ CHR ''*'' # rebar x" for x
    by (rule replace_across) simp
  ultimately show ?thesis using d o by (simp add: s print_slot_def)
qed

lemma repeat_slot: "slot_ok (n, os) \<Longrightarrow> split_repeat_token (print_slot (n, os)) = (n, CHR ''['' # join '' '' os @ '']'')"
proof -
  assume ok: "slot_ok (n, os)"
  have nd: "\<not> is_digit CHR ''*''" by (simp add: is_digit_def)
  have tw: "takeWhile is_digit (print_slot (n, os)) = decimal n"
    "dropWhile is_digit (print_slot (n, os)) = ''*['' @ join '' '' os @ '']''"
    using decimal_digits nd by (simp_all add: print_slot_def takeWhile_append2 dropWhile_append2)
  have "CHR 0x0A \<notin> set (join '' '' os)" using options_chars(6) ok by blast
  then show ?thesis by (simp add: split_repeat_token_def tw digits_value_decimal)
qed

lemma options_slot:
  assumes "slot_ok (n, os)"
  shows "anonymous_options (CHR ''['' # join '' '' os @ '']'') = Inr os"
proof -
  have "tokenize_side (strip (join '' '' os)) = Inr os"
    using assms by (simp add: slot_ok_def strip_join_plain tokenize_plain_join)
  then show ?thesis using assms by (simp add: anonymous_options_def slot_ok_def butlast_append)
qed

lemma expand_slots:
  assumes "\<forall>s \<in> set slots. slot_ok s"
  shows "expand_side_tokens (map print_slot slots) [] = Inr (slot_positions slots)"
proof -
  have single: "concat (map (\<lambda>option. [option]) os) = os" for os :: "string list" by (induction os) auto
  have "mapE (\<lambda>token. (case split_repeat_token token of (repeat, item) \<Rightarrow>
        bindE (anonymous_options item) (\<lambda>os.
          Inr (replicate repeat (concat (map (\<lambda>option.
            (case normalized_aliases [] (lower option) of None \<Rightarrow> [option] | Some ms \<Rightarrow> ms)) os))))))
        (map print_slot slots) = Inr (map (\<lambda>(n, os). replicate n os) slots)"
    using assms
  proof (induction slots)
    case (Cons s slots)
    obtain n os where s: "s = (n, os)" by (cases s)
    with Cons.prems have ok: "slot_ok (n, os)" "\<forall>s \<in> set slots. slot_ok s" by simp_all
    show ?case
      unfolding list.map mapE.simps s prod.case Cons.IH [OF ok(2)]
      by (simp add: repeat_slot [OF ok(1)] options_slot [OF ok(1)] normalized_aliases_def single)
  qed simp
  then show ?thesis by (simp add: expand_side_tokens_def slot_positions_def)
qed

section \<open>Properties of the grammar\<close>

text \<open>
  C23. Splitting a process set succeeds exactly when the text is a bar-separated list of
  pieces whose brackets balance, which hide no top-level bar and which are not blank; the
  result is the list of stripped pieces. Every other text is rejected.
\<close>
theorem split_process_set_exact:
  "split_process_set s = Inr ps \<longleftrightarrow>
     (\<exists>r raws. s = join ''|'' (r # raws) \<and> ps = map strip (r # raws) \<and> good_pieces (r # raws))"
  unfolding split_process_set_def by (subst split_set_loop_iff) auto

text \<open>The pieces \<open>d d~\<close> and \<open>[u|s] g\<close>: the bar inside the bracket does not split.\<close>
lemma split_process_set_exact_witness:
  "split_process_set ''d d~ |[u|s] g'' = Inr [''d d~'', ''[u|s] g'']"
  by (subst split_process_set_exact, intro exI [of _ "''d d~ ''"] exI [of _ "[''[u|s] g'']"])
    code_simp

lemma strip_space: "strip (CHR '' '' # s) = strip s" "strip (s @ '' '') = strip s"
proof -
  have sp: "is_space CHR '' ''" by (simp add: is_space_def)
  then show "strip (CHR '' '' # s) = strip s" by (simp add: strip_def)
  have a: "dropWhile is_space (s @ '' '') = (if \<forall>c \<in> set s. is_space c then [] else dropWhile is_space s @ '' '')"
    using sp by (induction s) auto
  show "strip (s @ '' '') = strip s"
  proof (cases "\<forall>c \<in> set s. is_space c")
    case True
    then have "dropWhile is_space s = []" by simp
    moreover have "dropWhile is_space (s @ '' '') = []" unfolding a by (rule if_P [OF True])
    ultimately show ?thesis unfolding strip_def by (simp only:)
  next
    case False
    have "dropWhile is_space (s @ '' '') = dropWhile is_space s @ '' ''" unfolding a by (rule if_not_P [OF False])
    then show ?thesis by (simp add: strip_def sp)
  qed
qed

lemma strip_around:
  assumes "\<not> is_space x"
  shows "strip (p @ x # q) = dropWhile is_space p @ x # rev (dropWhile is_space (rev q))"
proof -
  have d: "dropWhile is_space (p' @ x # q') = dropWhile is_space p' @ x # q'" for p' q'
    using assms by (induction p') auto
  show ?thesis by (simp add: strip_def d)
qed

lemma print_side_ends:
  assumes "\<forall>s \<in> set slots. slot_ok s" "slots \<noteq> []"
  shows "print_side slots \<noteq> []" "\<not> is_space (hd (print_side slots))" "\<not> is_space (last (print_side slots))"
proof -
  have "print_side slots \<noteq> [] \<and> \<not> is_space (hd (print_side slots)) \<and> \<not> is_space (last (print_side slots))"
    using assms
  proof (induction slots rule: induct_list012)
    case (2 x)
    obtain c cs where x: "print_slot x = c # cs" "is_digit c" using print_slot_starts by blast
    have "last (print_slot x) = CHR '']''" by (cases x) (simp add: print_slot_def)
    moreover have "\<not> is_space CHR '']''" by (simp add: is_space_def)
    ultimately show ?case using x by (simp add: print_side_def digit_props)
  next
    case (3 x y ys)
    obtain c cs where x: "print_slot x = c # cs" "is_digit c" using print_slot_starts by blast
    from 3 have "print_side (y # ys) \<noteq> []" "\<not> is_space (last (print_side (y # ys)))" by simp_all
    with x show ?case by (simp add: print_side_def digit_props)
  qed simp
  then show "print_side slots \<noteq> []" "\<not> is_space (hd (print_side slots))" "\<not> is_space (last (print_side slots))"
    by blast+
qed

lemma print_side_strip:
  assumes "\<forall>s \<in> set slots. slot_ok s"
  shows "strip (print_side slots) = print_side slots"
proof (cases "slots = []")
  case True
  then show ?thesis by (simp add: print_side_def strip_def)
next
  case False
  with print_side_ends [OF assms] show ?thesis by (intro strip_id) blast
qed

lemma rebar_side: "\<forall>s \<in> set slots. slot_ok s \<Longrightarrow> rebar (print_side slots) = print_side slots"
  unfolding print_side_def by (intro rebar_join) (simp add: rebar_slot)

lemma process_left:
  assumes "\<forall>s \<in> set slots. slot_ok s"
  shows "\<exists>x. dropWhile is_space (print_side slots @ '' '') = x \<and> strip x = print_side slots \<and> rebar x = x \<and>
    lower x = x \<and> CHR ''>'' \<notin> set x"
proof (cases "slots = []")
  case True
  then show ?thesis by (simp add: print_side_def strip_def is_space_def)
next
  case False
  let ?a = "print_side slots"
  from print_side_ends [OF assms False] have d: "dropWhile is_space (?a @ '' '') = ?a @ '' ''" by (cases ?a) auto
  have s: "strip (?a @ '' '') = ?a" by (simp add: strip_space print_side_strip assms)
  have "rebar (?a @ CHR '' '' # []) = rebar ?a @ CHR '' '' # rebar []" by (rule replace_across) simp
  then have r: "rebar (?a @ '' '') = ?a @ '' ''" by (simp add: rebar_side assms)
  have "lower ?a = ?a" using side_chars(3) [OF assms] by (intro map_idI) blast
  then have l: "lower (?a @ '' '') = ?a @ '' ''" by (simp add: lower_char_def)
  have "CHR ''>'' \<notin> set ?a" using side_chars(2) [OF assms] by blast
  with d s r l show ?thesis by simp
qed

lemma process_right:
  assumes "\<forall>s \<in> set slots. slot_ok s"
  shows "\<exists>x. rev (dropWhile is_space (rev ('' '' @ print_side slots))) = x \<and> strip x = print_side slots \<and> rebar x = x \<and>
    lower x = x \<and> CHR ''>'' \<notin> set x"
proof (cases "slots = []")
  case True
  then show ?thesis by (simp add: print_side_def strip_def is_space_def)
next
  case False
  let ?a = "print_side slots"
  from print_side_ends [OF assms False] have d: "rev (dropWhile is_space (rev ('' '' @ ?a))) = '' '' @ ?a"
    by (cases ?a rule: rev_cases) auto
  have s: "strip ('' '' @ ?a) = ?a" by (simp add: strip_space print_side_strip assms)
  have "rebar ([] @ CHR '' '' # ?a) = rebar [] @ CHR '' '' # rebar ?a" by (rule replace_across) simp
  then have r: "rebar ('' '' @ ?a) = '' '' @ ?a" by (simp add: rebar_side assms)
  have "lower ?a = ?a" using side_chars(3) [OF assms] by (intro map_idI) blast
  then have l: "lower ('' '' @ ?a) = '' '' @ ?a" by (simp add: lower_char_def)
  have "CHR ''>'' \<notin> set ?a" using side_chars(2) [OF assms] by blast
  with d s r l show ?thesis by simp
qed

lemma side_positions:
  assumes "\<forall>s \<in> set slots. slot_ok s"
  shows "bindE (tokenize_side (print_side slots)) (\<lambda>ts. bindE (expand_side_tokens ts []) k) = k (slot_positions slots)"
  by (simp add: tokenize_slots expand_slots assms)

text \<open>
  C24. Expansion is the inverse of printing: the expansion of a process whose two sides are
  printed slots \<open>n*[o1 o2 ...]\<close> is the Cartesian product over all slot positions, initial
  positions outermost, every repetition of a slot chosen independently, with repeated
  variants kept once.
\<close>
theorem expand_printed_slots:
  assumes "\<forall>s \<in> set ins. slot_ok s" "\<forall>s \<in> set outs. slot_ok s"
  shows "expand_process_variants (print_side ins @ '' > '' @ print_side outs) [] =
    Inr (dedup [join '' '' i @ '' > '' @ join '' '' f.
      i \<leftarrow> product_lists (slot_positions ins), f \<leftarrow> product_lists (slot_positions outs)])"
proof -
  let ?a = "print_side ins" and ?b = "print_side outs"
  let ?s = "?a @ '' > '' @ ?b"
  have "bar_free_from 0 (?b @ [])" by (subst bar_free_side [OF assms(2)]) simp
  then have bf: "bar_free_from 0 ?s" using bar_free_side [OF assms(1), of "'' > '' @ ?b"] by simp
  from process_left [OF assms(1)] obtain x where x: "dropWhile is_space (?a @ '' '') = x" "strip x = ?a"
    "rebar x = x" "lower x = x" "CHR ''>'' \<notin> set x" by blast
  from process_right [OF assms(2)] obtain y where y: "rev (dropWhile is_space (rev ('' '' @ ?b))) = y" "strip y = ?b"
    "rebar y = y" "lower y = y" "CHR ''>'' \<notin> set y" by blast
  have "\<not> is_space CHR ''>''" by (simp add: is_space_def)
  from strip_around [OF this, of "?a @ '' ''" "'' '' @ ?b"] x(1) y(1) have st: "strip ?s = x @ CHR ''>'' # y" by simp
  then have sp: "split_process_set ?s = Inr [x @ CHR ''>'' # y]"
    unfolding split_process_set_def using bf
    by (subst split_set_loop_iff) (auto intro!: exI [of _ ?s] exI [of _ "[]"])
  have "rebar (x @ CHR ''>'' # y) = rebar x @ CHR ''>'' # rebar y" by (rule replace_across) simp
  moreover have lw: "lower (x @ CHR ''>'' # y) = x @ CHR ''>'' # y" using x y by (simp add: lower_char_def)
  ultimately have "split_char CHR ''>'' (rebar (lower (x @ CHR ''>'' # y))) = [x, y]"
    using x y by (simp only: split_char_append split_char_absent not_False_eq_True)
  then have "expand_process_variants ?s [] =
      bindE (bindE (bindE (tokenize_side ?a) (\<lambda>ts. bindE (expand_side_tokens ts []) (\<lambda>io.
        bindE (tokenize_side ?b) (\<lambda>us. bindE (expand_side_tokens us []) (\<lambda>fo.
          Inr [join '' '' i @ '' > '' @ join '' '' f. i \<leftarrow> product_lists io, f \<leftarrow> product_lists fo])))))
        (\<lambda>v. Inr [v])) (\<lambda>variants. Inr (dedup (concat variants)))"
    unfolding expand_process_variants_def sp bindE_simps mapE.simps by (simp only: list.case x(2) y(2))
  then show ?thesis unfolding side_positions [OF assms(1)] side_positions [OF assms(2)] by simp
qed

lemma plain_examples: "plain_token ''d''" "plain_token ''u~''" "plain_token ''g''" "plain_token ''z''"
  by (code_simp)+

text \<open>The hypotheses hold for \<open>1*[d u~] 1*[g] > 2*[z g]\<close>.\<close>
lemma expand_printed_slots_witness:
  "expand_process_variants (print_side [(1, [''d'', ''u~'']), (1, [''g''])] @ '' > '' @ print_side [(2, [''z'', ''g''])]) [] =
    Inr (dedup [join '' '' i @ '' > '' @ join '' '' f.
      i \<leftarrow> product_lists (slot_positions [(1, [''d'', ''u~'']), (1, [''g''])]),
      f \<leftarrow> product_lists (slot_positions [(2, [''z'', ''g''])])])"
  by (rule expand_printed_slots) (simp_all add: slot_ok_def plain_examples)

end
