(* ===== verification/Current_Table.thy ===== *)
theory Current_Table
  imports Complex_Main Masks Py_String
begin

text \<open>
  Current identities and the deduplicated current storage of the graph compiler
  (\<open>generation/dag_types.py\<close>, \<open>generation/dag_table.py\<close>): the records, the
  canonicalisation done by \<open>CurrentIndex.__post_init__\<close>, and \<open>_CurrentTable\<close> with its
  four dictionaries.
\<close>

section \<open>Colour states and current indices\<close>

text \<open>
  Weights are pairs of finite floats that this code only stores and compares; they are modelled
  as pairs of rationals.
\<close>

type_synonym weight = "rat \<times> rat"

record color_state =
  cs_accuracy :: String.literal
  cs_sector_id :: int
  cs_line_groups :: "int list"
  cs_basis_key :: "string list"

record color_flow =
  cf_state :: color_state
  cf_weight :: weight

datatype spin_state = SpinInt int | SpinTuple "int list"

record current_index =
  ci_particle_id :: int
  ci_external_mask :: nat
  ci_external_labels :: "int list"
  ci_helicity_ancestry :: int
  ci_chirality :: int
  ci_spin_state :: spin_state
  ci_flavour_flow :: "int list"
  ci_quantum_number_flow :: "(string \<times> string) list"
  ci_color_state :: color_state
  ci_momentum_mask :: nat
  ci_coupling_orders :: "(string \<times> int) list"
  ci_auxiliary_kind :: "string option"
  ci_ordered_external_labels :: "int list"

record current_node =
  cn_id :: nat
  cn_index :: current_index
  cn_dimension :: int
  cn_is_source :: bool
  cn_source_leg_label :: "int option"
  cn_source_helicity :: "int option"

text \<open>\<open>str.upper\<close> on ASCII letters.\<close>

definition upper_char :: "char \<Rightarrow> char" where
  "upper_char c = (let n = (of_char c :: nat) in if 97 \<le> n \<and> n \<le> 122 then char_of (n - 32) else c)"

abbreviation upper :: "string \<Rightarrow> string" where
  "upper \<equiv> map upper_char"

definition canonical_orders :: "(string \<times> int) list \<Rightarrow> (string \<times> int) list" where
  "canonical_orders os = sort (map (\<lambda>(name, value). (upper name, value)) (filter (\<lambda>(name, value). value \<noteq> 0) os))"

text \<open>
  \<open>CurrentIndex.__post_init__\<close>: the labels are sorted, the ordered labels default to them and
  must be one of their orders, the mask must be the mask of the labels, the momentum mask must
  not be zero, and non-zero coupling orders are upper-cased and sorted.
\<close>

definition make_current_index :: "current_index \<Rightarrow> current_index res" where
  "make_current_index raw =
     (let labels = sort (ci_external_labels raw);
          ordered = (if ci_ordered_external_labels raw = [] then labels else ci_ordered_external_labels raw)
      in if ci_ordered_external_labels raw \<noteq> [] \<and> sort (ci_ordered_external_labels raw) \<noteq> labels
         then Inl (ValueError STR ''ordered_external_labels must contain the same labels as external_labels'')
         else bindE (labels_mask labels) (\<lambda>expected_mask.
           if ci_external_mask raw \<noteq> expected_mask
           then Inl (ValueError STR ''external_mask does not match external_labels'')
           else if ci_momentum_mask raw = 0
           then Inl (ValueError STR ''momentum_mask must be nonzero for a current'')
           else Inr (raw\<lparr>ci_external_labels := labels, ci_ordered_external_labels := ordered,
                         ci_coupling_orders := canonical_orders (ci_coupling_orders raw)\<rparr>)))"

text \<open>\<open>CurrentIndex._from_trusted_values\<close> fills the ordered labels and checks nothing.\<close>

definition index_from_trusted_values :: "current_index \<Rightarrow> current_index" where
  "index_from_trusted_values raw =
     (if ci_ordered_external_labels raw = []
      then raw\<lparr>ci_ordered_external_labels := ci_external_labels raw\<rparr> else raw)"

definition overlaps :: "current_index \<Rightarrow> current_index \<Rightarrow> bool" where
  "overlaps a b = (ci_external_mask a AND ci_external_mask b \<noteq> 0)"

definition canonical_index :: "current_index \<Rightarrow> bool" where
  "canonical_index c \<longleftrightarrow>
     sorted (ci_external_labels c) \<and>
     mset (ci_ordered_external_labels c) = mset (ci_external_labels c) \<and>
     labels_mask (ci_external_labels c) = Inr (ci_external_mask c) \<and>
     ci_momentum_mask c \<noteq> 0 \<and>
     canonical_orders (ci_coupling_orders c) = ci_coupling_orders c"

lemma upper_char_idem [simp]: "upper_char (upper_char c) = upper_char c"
proof (cases "97 \<le> (of_char c :: nat) \<and> (of_char c :: nat) \<le> 122")
  case True
  then have l: "(of_char c - 32 :: nat) < 256" "(of_char c - 32 :: nat) < 97" by linarith+
  then have "of_char (char_of (of_char c - 32 :: nat)) = (of_char c - 32 :: nat)" by simp
  with True l show ?thesis by (simp add: upper_char_def Let_def)
qed (auto simp: upper_char_def Let_def)

lemma canonical_orders_idem [simp]: "canonical_orders (canonical_orders os) = canonical_orders os"
proof -
  have c: "canonical_orders os' = sort (map (\<lambda>(n, v). (upper n, v)) (filter (\<lambda>p. snd p \<noteq> 0) os'))" for os'
    unfolding canonical_orders_def by (rule arg_cong [where f = "\<lambda>xs. sort (map _ xs)"], rule filter_cong) auto
  let ?s = "canonical_orders os"
  have e: "\<exists>n v. p = (upper n, v) \<and> v \<noteq> 0" if "p \<in> set ?s" for p
    using that by (auto simp: c)
  then have "filter (\<lambda>p. snd p \<noteq> 0) ?s = ?s" by (intro filter_True) fastforce
  moreover have "map (\<lambda>(n, v). (upper n, v)) ?s = ?s"
    using e by (intro map_idI) (fastforce simp: comp_def)
  moreover have "sorted ?s" by (simp add: c)
  ultimately show ?thesis using c [of ?s] by (simp add: sorted_sort_id)
qed

lemma make_current_index_canonical: "make_current_index raw = Inr c \<Longrightarrow> canonical_index c"
  by (auto simp: make_current_index_def canonical_index_def Let_def res_simps split: if_splits)
     (metis mset_sort)+

lemma make_current_index_id:
  assumes "canonical_index c"
  shows "make_current_index c = Inr c"
proof -
  have "sort (ci_ordered_external_labels c) = ci_external_labels c"
    using assms by (metis canonical_index_def properties_for_sort)
  moreover have "sort (ci_external_labels c) = ci_external_labels c"
    using assms by (simp add: canonical_index_def sorted_sort_id)
  moreover from assms have "ci_ordered_external_labels c = [] \<Longrightarrow> ci_external_labels c = []"
    by (simp add: canonical_index_def)
  ultimately show ?thesis using assms
    by (auto simp: make_current_index_def canonical_index_def Let_def)
qed

lemma canonical_overlaps:
  assumes "canonical_index a" "canonical_index b"
  shows "overlaps a b \<longleftrightarrow> set (ci_external_labels a) \<inter> set (ci_external_labels b) \<noteq> {}"
proof -
  have bits: "(\<forall>l \<in> set (ci_external_labels c). 1 \<le> l) \<and> (\<forall>i. bit (ci_external_mask c) i \<longleftrightarrow> int i + 1 \<in> set (ci_external_labels c))"
    if "canonical_index c" for c
  proof -
    from that have m: "labels_mask (ci_external_labels c) = Inr (ci_external_mask c)" by (simp add: canonical_index_def)
    then have "\<not> raises (labels_mask (ci_external_labels c))" by simp
    with labels_mask_raises have p: "\<forall>l \<in> set (ci_external_labels c). 1 \<le> l" by (meson not_le)
    with m labels_mask_bits [OF p] show ?thesis by (metis sum.inject(2))
  qed
  note ba = bits [OF assms(1)] and bb = bits [OF assms(2)]
  show ?thesis
  proof
    assume "overlaps a b"
    then obtain i where "bit (ci_external_mask a) i" "bit (ci_external_mask b) i"
      by (auto simp: overlaps_def bit_eq_iff bit_and_iff)
    with ba bb show "set (ci_external_labels a) \<inter> set (ci_external_labels b) \<noteq> {}" by blast
  next
    assume "set (ci_external_labels a) \<inter> set (ci_external_labels b) \<noteq> {}"
    then obtain l where l: "l \<in> set (ci_external_labels a)" "l \<in> set (ci_external_labels b)" by blast
    with ba have "1 \<le> l" by blast
    then have "int (nat (l - 1)) + 1 = l" by simp
    with l ba bb have "bit (ci_external_mask a AND ci_external_mask b) (nat (l - 1))" by (simp add: bit_and_iff)
    then show "overlaps a b" unfolding overlaps_def by (intro notI) simp
  qed
qed

section \<open>Posting lists\<close>

text \<open>
  The three dictionaries \<open>dict.setdefault(key, []).append(id)\<close> of the table share one
  contract: a look-up returns the posted ids of its key, in the order of posting.
\<close>

locale posting_lists =
  fixes empty_post :: 'm and find_post :: "'m \<Rightarrow> 'k \<Rightarrow> nat list" and post :: "'m \<Rightarrow> 'k \<Rightarrow> nat \<Rightarrow> 'm"
  assumes find_empty: "find_post empty_post k = []"
    and find_post_same: "find_post (post m k i) k = find_post m k @ [i]"
    and find_post_other: "k' \<noteq> k \<Longrightarrow> find_post (post m k i) k' = find_post m k'"
begin

definition post_list :: "'m \<Rightarrow> ('k \<times> nat) list \<Rightarrow> 'm" where
  "post_list m kis = foldl (\<lambda>m (k, i). post m k i) m kis"

lemma find_post_list: "find_post (post_list m kis) k = find_post m k @ map snd (filter (\<lambda>(k', i). k' = k) kis)"
proof (induction kis arbitrary: m)
  case (Cons ki kis)
  obtain k' i where ki: "ki = (k', i)" by (cases ki)
  have "find_post (post m k' i) k = find_post m k @ (if k' = k then [i] else [])"
    using find_post_same find_post_other by auto
  with Cons [of "post m k' i"] ki show ?case by (simp add: post_list_def)
qed (simp add: post_list_def)

text \<open>Posting a sequence of keyed ids answers every look-up by filtering the sequence.\<close>

lemma find_postings: "find_post (post_list empty_post kis) k = map snd (filter (\<lambda>(k', i). k' = k) kis)"
  by (simp add: find_post_list find_empty)

lemma post_list_snoc: "post_list m (kis @ [(k, i)]) = post (post_list m kis) k i"
  by (simp add: post_list_def)

end

definition dict_post :: "('k \<rightharpoonup> nat list) \<Rightarrow> 'k \<Rightarrow> nat \<Rightarrow> ('k \<rightharpoonup> nat list)" where
  "dict_post d k i = d(k \<mapsto> (case d k of None \<Rightarrow> [] | Some is \<Rightarrow> is) @ [i])"

definition dict_find :: "('k \<rightharpoonup> nat list) \<Rightarrow> 'k \<Rightarrow> nat list" where
  "dict_find d k = (case d k of None \<Rightarrow> [] | Some is \<Rightarrow> is)"

interpretation pl: posting_lists Map.empty dict_find dict_post
  by unfold_locales (auto simp: dict_find_def dict_post_def)

section \<open>The current table\<close>

record table =
  tb_currents :: "current_node list"
  tb_ids :: "current_index \<rightharpoonup> nat"
  tb_by_mask :: "nat \<rightharpoonup> nat list"
  tb_by_mask_particle :: "nat \<times> int \<rightharpoonup> nat list"
  tb_by_mask_particle_sector :: "nat \<times> int \<times> int \<rightharpoonup> nat list"

definition empty_table :: table where
  "empty_table = \<lparr>tb_currents = [], tb_ids = Map.empty, tb_by_mask = Map.empty,
     tb_by_mask_particle = Map.empty, tb_by_mask_particle_sector = Map.empty\<rparr>"

text \<open>
  The parameter \<open>cdim\<close> is the model's method \<open>current_dimension\<close>. A request is the argument
  list of \<open>add_or_get\<close>.
\<close>

record add_request =
  rq_index :: current_index
  rq_is_source :: bool
  rq_source_leg_label :: "int option"
  rq_source_helicity :: "int option"

definition new_node :: "(int \<Rightarrow> int \<Rightarrow> int) \<Rightarrow> nat \<Rightarrow> add_request \<Rightarrow> current_node" where
  "new_node cdim n rq =
     \<lparr>cn_id = n, cn_index = rq_index rq,
      cn_dimension = cdim (ci_particle_id (rq_index rq)) (ci_chirality (rq_index rq)),
      cn_is_source = rq_is_source rq, cn_source_leg_label = rq_source_leg_label rq,
      cn_source_helicity = rq_source_helicity rq\<rparr>"

abbreviation key_mask :: "current_index \<Rightarrow> nat" where
  "key_mask \<equiv> ci_external_mask"

abbreviation key_mask_particle :: "current_index \<Rightarrow> nat \<times> int" where
  "key_mask_particle c \<equiv> (ci_external_mask c, ci_particle_id c)"

abbreviation key_mask_particle_sector :: "current_index \<Rightarrow> nat \<times> int \<times> int" where
  "key_mask_particle_sector c \<equiv> (ci_external_mask c, ci_particle_id c, cs_sector_id (ci_color_state c))"

definition add_or_get :: "(int \<Rightarrow> int \<Rightarrow> int) \<Rightarrow> table \<Rightarrow> add_request \<Rightarrow> table \<times> current_node" where
  "add_or_get cdim tb rq =
     (let index = rq_index rq
      in case tb_ids tb index of
           Some i \<Rightarrow> (tb, tb_currents tb ! i)
         | None \<Rightarrow>
             (let i = length (tb_currents tb); node = new_node cdim i rq
              in (\<lparr>tb_currents = tb_currents tb @ [node],
                   tb_ids = (tb_ids tb)(index \<mapsto> i),
                   tb_by_mask = dict_post (tb_by_mask tb) (key_mask index) i,
                   tb_by_mask_particle = dict_post (tb_by_mask_particle tb) (key_mask_particle index) i,
                   tb_by_mask_particle_sector =
                     dict_post (tb_by_mask_particle_sector tb) (key_mask_particle_sector index) i\<rparr>, node)))"

definition current_of :: "table \<Rightarrow> int \<Rightarrow> current_node res" where
  "current_of tb i = list_get (tb_currents tb) i"

definition has_mask :: "table \<Rightarrow> nat \<Rightarrow> bool" where
  "has_mask tb m = (m \<in> dom (tb_by_mask tb))"

definition ids_by_mask :: "table \<Rightarrow> nat \<Rightarrow> nat list" where
  "ids_by_mask tb m = dict_find (tb_by_mask tb) m"

definition ids_by_mask_and_particles :: "table \<Rightarrow> nat \<Rightarrow> int list \<Rightarrow> int option \<Rightarrow> nat list" where
  "ids_by_mask_and_particles tb m ps sector =
     (case ps of
        [p] \<Rightarrow> (case sector of
                  None \<Rightarrow> dict_find (tb_by_mask_particle tb) (m, p)
                | Some s \<Rightarrow> dict_find (tb_by_mask_particle_sector tb) (m, p, s))
      | _ \<Rightarrow> concat (map (\<lambda>p. (case sector of
                  None \<Rightarrow> dict_find (tb_by_mask_particle tb) (m, p)
                | Some s \<Rightarrow> dict_find (tb_by_mask_particle_sector tb) (m, p, s))) ps))"

text \<open>The invariant of the table: every dictionary is a function of the list of currents.\<close>

definition keyed_ids :: "(current_index \<Rightarrow> 'k) \<Rightarrow> current_node list \<Rightarrow> ('k \<times> nat) list" where
  "keyed_ids key ns = map (\<lambda>i. (key (cn_index (ns ! i)), i)) [0..<length ns]"

definition table_ok :: "(int \<Rightarrow> int \<Rightarrow> int) \<Rightarrow> table \<Rightarrow> bool" where
  "table_ok cdim tb \<longleftrightarrow>
     distinct (map cn_index (tb_currents tb)) \<and>
     (\<forall>i < length (tb_currents tb). cn_id (tb_currents tb ! i) = i \<and>
        cn_dimension (tb_currents tb ! i) =
          cdim (ci_particle_id (cn_index (tb_currents tb ! i))) (ci_chirality (cn_index (tb_currents tb ! i)))) \<and>
     tb_ids tb = (\<lambda>c. index_of c (map cn_index (tb_currents tb))) \<and>
     tb_by_mask tb = pl.post_list Map.empty (keyed_ids key_mask (tb_currents tb)) \<and>
     tb_by_mask_particle tb = pl.post_list Map.empty (keyed_ids key_mask_particle (tb_currents tb)) \<and>
     tb_by_mask_particle_sector tb = pl.post_list Map.empty (keyed_ids key_mask_particle_sector (tb_currents tb))"

lemma keyed_ids_snoc: "keyed_ids key (ns @ [n]) = keyed_ids key ns @ [(key (cn_index n), length ns)]"
  by (simp add: keyed_ids_def nth_append)

lemma index_of_snoc:
  "index_of x (xs @ [y]) = (if x \<in> set xs then index_of x xs else if x = y then Some (length xs) else None)"
  by (induction xs) auto

lemma empty_table_ok: "table_ok cdim empty_table"
  by (simp add: table_ok_def empty_table_def keyed_ids_def pl.post_list_def)

lemma add_or_get_ok:
  assumes "table_ok cdim tb" "add_or_get cdim tb rq = (tb', node)"
  shows "table_ok cdim tb'"
proof (cases "tb_ids tb (rq_index rq)")
  case None
  let ?ns = "tb_currents tb" and ?n = "new_node cdim (length (tb_currents tb)) rq"
  from None assms(1) have fresh: "rq_index rq \<notin> cn_index ` set ?ns" by (simp add: table_ok_def)
  from None assms(2) have tb': "tb_currents tb' = ?ns @ [?n]" "tb_ids tb' = (tb_ids tb)(rq_index rq \<mapsto> length ?ns)"
    "tb_by_mask tb' = dict_post (tb_by_mask tb) (key_mask (rq_index rq)) (length ?ns)"
    "tb_by_mask_particle tb' = dict_post (tb_by_mask_particle tb) (key_mask_particle (rq_index rq)) (length ?ns)"
    "tb_by_mask_particle_sector tb' =
       dict_post (tb_by_mask_particle_sector tb) (key_mask_particle_sector (rq_index rq)) (length ?ns)"
    by (auto simp: add_or_get_def Let_def)
  have ix: "cn_index ?n = rq_index rq" by (simp add: new_node_def)
  have "tb_ids tb' = (\<lambda>c. index_of c (map cn_index ?ns @ [rq_index rq]))"
  proof
    fix c
    have "tb_ids tb c = index_of c (map cn_index ?ns)" using assms(1) by (simp add: table_ok_def)
    moreover have "c \<notin> set (map cn_index ?ns) \<Longrightarrow> index_of c (map cn_index ?ns) = None" by simp
    ultimately show "tb_ids tb' c = index_of c (map cn_index ?ns @ [rq_index rq])"
      using fresh unfolding tb'(2) index_of_snoc by (cases "c = rq_index rq") auto
  qed
  then have ids: "(tb_ids tb)(rq_index rq \<mapsto> length ?ns) = (\<lambda>c. index_of c (map cn_index (?ns @ [?n])))"
    by (simp add: tb' ix)
  have "distinct (map cn_index (?ns @ [?n]))" using assms(1) fresh by (simp add: table_ok_def ix)
  moreover have "\<forall>i < length (?ns @ [?n]). cn_id ((?ns @ [?n]) ! i) = i \<and> cn_dimension ((?ns @ [?n]) ! i) =
      cdim (ci_particle_id (cn_index ((?ns @ [?n]) ! i))) (ci_chirality (cn_index ((?ns @ [?n]) ! i)))"
    using assms(1) by (auto simp: table_ok_def nth_append less_Suc_eq new_node_def)
  ultimately show ?thesis
    using assms(1) ids unfolding table_ok_def tb' keyed_ids_snoc pl.post_list_snoc ix by simp
next
  case (Some i)
  with assms show ?thesis by (simp add: add_or_get_def)
qed

definition run_requests :: "(int \<Rightarrow> int \<Rightarrow> int) \<Rightarrow> table \<Rightarrow> add_request list \<Rightarrow> table" where
  "run_requests cdim tb rqs = foldl (\<lambda>tb rq. fst (add_or_get cdim tb rq)) tb rqs"

lemma run_requests_ok: "table_ok cdim tb \<Longrightarrow> table_ok cdim (run_requests cdim tb rqs)"
proof (induction rqs arbitrary: tb)
  case (Cons rq rqs)
  have "table_ok cdim (fst (add_or_get cdim tb rq))"
    using add_or_get_ok [OF Cons.prems, of rq] by (metis prod.collapse)
  with Cons.IH show ?case by (simp add: run_requests_def)
qed (simp add: run_requests_def)

lemma add_or_get_indices:
  "table_ok cdim tb \<Longrightarrow> map cn_index (tb_currents (fst (add_or_get cdim tb rq))) =
     map cn_index (tb_currents tb) @ (if rq_index rq \<in> set (map cn_index (tb_currents tb)) then [] else [rq_index rq])"
proof -
  assume ok: "table_ok cdim tb"
  then have ids: "tb_ids tb (rq_index rq) = index_of (rq_index rq) (map cn_index (tb_currents tb))"
    by (simp add: table_ok_def)
  show ?thesis
  proof (cases "rq_index rq \<in> set (map cn_index (tb_currents tb))")
    case True
    then obtain i where "tb_ids tb (rq_index rq) = Some i" unfolding ids
      by (metis index_of_None_iff option.exhaust)
    with True show ?thesis by (simp add: add_or_get_def)
  next
    case False
    then have "tb_ids tb (rq_index rq) = None" unfolding ids by simp
    with False show ?thesis by (simp add: add_or_get_def Let_def new_node_def)
  qed
qed

lemma dedup_on_seen: "set s = set s' \<Longrightarrow> dedup_on key s xs = dedup_on key s' xs"
proof (induction xs arbitrary: s s')
  case (Cons x xs)
  have "set (key x # s) = set (key x # s')" using Cons.prems by simp
  from Cons.IH [OF this] Cons.IH [OF Cons.prems] Cons.prems show ?case by simp
qed simp

lemma run_requests_indices:
  "table_ok cdim tb \<Longrightarrow> map cn_index (tb_currents (run_requests cdim tb rqs)) =
     map cn_index (tb_currents tb) @ dedup_on (\<lambda>x. x) (map cn_index (tb_currents tb)) (map rq_index rqs)"
proof (induction rqs arbitrary: tb)
  case (Cons rq rqs)
  let ?tb = "fst (add_or_get cdim tb rq)"
  have ok: "table_ok cdim ?tb" using add_or_get_ok [OF Cons.prems, of rq] by (metis prod.collapse)
  note ix = add_or_get_indices [OF Cons.prems, of rq]
  have "map cn_index (tb_currents (run_requests cdim tb (rq # rqs))) =
      map cn_index (tb_currents ?tb) @ dedup_on (\<lambda>x. x) (map cn_index (tb_currents ?tb)) (map rq_index rqs)"
    using Cons.IH [OF ok] by (simp add: run_requests_def)
  also have "\<dots> = map cn_index (tb_currents tb) @ dedup_on (\<lambda>x. x) (map cn_index (tb_currents tb)) (map rq_index (rq # rqs))"
  proof (cases "rq_index rq \<in> set (map cn_index (tb_currents tb))")
    case False
    then show ?thesis unfolding ix
      using dedup_on_seen [of "map cn_index (tb_currents tb) @ [rq_index rq]" "rq_index rq # map cn_index (tb_currents tb)"]
      by simp
  qed (simp add: ix)
  finally show ?case .
qed (simp add: run_requests_def)

lemma table_lookup:
  assumes "table_ok cdim tb"
  shows "ids_by_mask tb m = filter (\<lambda>i. ci_external_mask (cn_index (tb_currents tb ! i)) = m) [0..<length (tb_currents tb)]"
    and "dict_find (tb_by_mask_particle tb) (m, p) =
      filter (\<lambda>i. key_mask_particle (cn_index (tb_currents tb ! i)) = (m, p)) [0..<length (tb_currents tb)]"
    and "dict_find (tb_by_mask_particle_sector tb) (m, p, s) =
      filter (\<lambda>i. key_mask_particle_sector (cn_index (tb_currents tb ! i)) = (m, p, s)) [0..<length (tb_currents tb)]"
proof -
  have f: "map snd (filter (\<lambda>(k', i). k' = k) (keyed_ids key ns)) = filter (\<lambda>i. key (cn_index (ns ! i)) = k) [0..<length ns]"
    for key :: "current_index \<Rightarrow> 'k" and k ns
    by (simp add: keyed_ids_def filter_map comp_def)
  show "ids_by_mask tb m = filter (\<lambda>i. ci_external_mask (cn_index (tb_currents tb ! i)) = m) [0..<length (tb_currents tb)]"
    and "dict_find (tb_by_mask_particle tb) (m, p) =
      filter (\<lambda>i. key_mask_particle (cn_index (tb_currents tb ! i)) = (m, p)) [0..<length (tb_currents tb)]"
    and "dict_find (tb_by_mask_particle_sector tb) (m, p, s) =
      filter (\<lambda>i. key_mask_particle_sector (cn_index (tb_currents tb ! i)) = (m, p, s)) [0..<length (tb_currents tb)]"
    using assms by (simp_all add: ids_by_mask_def table_ok_def pl.find_postings f)
qed

definition selected_ids :: "table \<Rightarrow> nat \<Rightarrow> int \<Rightarrow> int option \<Rightarrow> nat list" where
  "selected_ids tb m p sector =
     filter (\<lambda>i. let c = cn_index (tb_currents tb ! i) in ci_external_mask c = m \<and> ci_particle_id c = p \<and>
        (case sector of None \<Rightarrow> True | Some s \<Rightarrow> cs_sector_id (ci_color_state c) = s)) [0..<length (tb_currents tb)]"

text \<open>
  C31. After any sequence of \<open>add_or_get\<close> requests the table holds the requested indices,
  each once and in the order of first request, with ids equal to positions; a repeated request
  returns the stored node and changes nothing; and the three dictionaries answer their queries
  exactly as a scan over the list of currents would.
\<close>
theorem current_table_refines_list:
  fixes cdim rqs
  defines "tb \<equiv> run_requests cdim empty_table rqs"
  shows "map cn_index (tb_currents tb) = dedup (map rq_index rqs) \<and>
    map cn_id (tb_currents tb) = [0..<length (tb_currents tb)] \<and>
    (rq \<notin> set rqs \<or> (\<exists>node \<in> set (tb_currents tb). cn_index node = rq_index rq \<and> add_or_get cdim tb rq = (tb, node))) \<and>
    ids_by_mask tb m = filter (\<lambda>i. ci_external_mask (cn_index (tb_currents tb ! i)) = m) [0..<length (tb_currents tb)] \<and>
    ids_by_mask_and_particles tb m ps sector = concat (map (\<lambda>p. selected_ids tb m p sector) ps)"
proof -
  have ok: "table_ok cdim tb" unfolding tb_def by (intro run_requests_ok empty_table_ok)
  have ix: "map cn_index (tb_currents tb) = dedup (map rq_index rqs)"
    using run_requests_indices [OF empty_table_ok, of cdim rqs] by (simp add: tb_def empty_table_def)
  have ids: "map cn_id (tb_currents tb) = [0..<length (tb_currents tb)]"
    using ok by (intro nth_equalityI) (auto simp: table_ok_def)
  have hit: "rq \<notin> set rqs \<or> (\<exists>node \<in> set (tb_currents tb). cn_index node = rq_index rq \<and> add_or_get cdim tb rq = (tb, node))"
  proof (cases "rq \<in> set rqs")
    case True
    then have "rq_index rq \<in> set (map cn_index (tb_currents tb))" unfolding ix by simp
    then obtain i where i: "index_of (rq_index rq) (map cn_index (tb_currents tb)) = Some i"
      by (metis index_of_None_iff option.exhaust)
    with index_of_SomeD [OF i] ok show ?thesis
      by (intro disjI2 bexI [of _ "tb_currents tb ! i"]) (auto simp: add_or_get_def table_ok_def)
  qed simp
  have one: "(case sector of None \<Rightarrow> dict_find (tb_by_mask_particle tb) (m, p)
      | Some s \<Rightarrow> dict_find (tb_by_mask_particle_sector tb) (m, p, s)) = selected_ids tb m p sector" for p
    using table_lookup(2,3) [OF ok, of m p] by (cases sector) (simp_all add: selected_ids_def Let_def)
  have "ids_by_mask_and_particles tb m ps sector = concat (map (\<lambda>p. selected_ids tb m p sector) ps)"
    unfolding ids_by_mask_and_particles_def one by (cases ps rule: remdups_adj.cases) auto
  with ix ids hit table_lookup(1) [OF ok] show ?thesis by blast
qed

text \<open>
  Constructing a current index yields a canonical one (sorted labels, a matching mask, an
  ordering of the same labels, canonical coupling orders); canonical indices are fixed points
  of the constructor and of the trusted path, so the two constructors agree on them; and two
  canonical indices overlap exactly when they share an external leg.
\<close>
theorem current_index_canonical:
  assumes "make_current_index raw = Inr c" "make_current_index raw' = Inr c'"
  shows "canonical_index c \<and> make_current_index c = Inr c \<and> index_from_trusted_values c = c \<and>
    (overlaps c c' \<longleftrightarrow> set (ci_external_labels c) \<inter> set (ci_external_labels c') \<noteq> {})"
proof -
  note c = make_current_index_canonical [OF assms(1)] and c' = make_current_index_canonical [OF assms(2)]
  have "index_from_trusted_values c = c"
    using c by (auto simp: index_from_trusted_values_def canonical_index_def)
  with c make_current_index_id [OF c] canonical_overlaps [OF c c'] show ?thesis by blast
qed

definition sample_raw :: "int list \<Rightarrow> nat \<Rightarrow> current_index" where
  "sample_raw labels m =
     \<lparr>ci_particle_id = 21, ci_external_mask = m, ci_external_labels = labels, ci_helicity_ancestry = 0,
      ci_chirality = 0, ci_spin_state = SpinInt 1, ci_flavour_flow = [], ci_quantum_number_flow = [],
      ci_color_state = \<lparr>cs_accuracy = STR ''lc'', cs_sector_id = 0, cs_line_groups = [], cs_basis_key = []\<rparr>,
      ci_momentum_mask = m, ci_coupling_orders = [(''qcd'', 1), (''QED'', 0)], ci_auxiliary_kind = None,
      ci_ordered_external_labels = []\<rparr>"

lemma current_index_canonical_witness:
  "\<exists>c c'. make_current_index (sample_raw [3, 1] 5) = Inr c \<and> make_current_index (sample_raw [2] 2) = Inr c' \<and>
     canonical_index c \<and> \<not> overlaps c c'"
proof -
  have a: "make_current_index (sample_raw [3, 1] 5) = Inr ((sample_raw [1, 3] 5)\<lparr>ci_ordered_external_labels := [1, 3], ci_coupling_orders := [(''QCD'', 1)]\<rparr>)"
    by code_simp
  have b: "make_current_index (sample_raw [2] 2) = Inr ((sample_raw [2] 2)\<lparr>ci_ordered_external_labels := [2], ci_coupling_orders := [(''QCD'', 1)]\<rparr>)"
    by code_simp
  from current_index_canonical [OF a b] a b show ?thesis by (auto simp: sample_raw_def)
qed

definition sample_request :: "int list \<Rightarrow> nat \<Rightarrow> add_request" where
  "sample_request labels m =
     \<lparr>rq_index = sample_raw labels m, rq_is_source = True, rq_source_leg_label = Some 1, rq_source_helicity = Some 1\<rparr>"

lemma current_table_refines_list_witness:
  "\<exists>tb. tb = run_requests (\<lambda>p c. 4) empty_table [sample_request [1] 1, sample_request [2] 2, sample_request [1] 1] \<and>
     length (tb_currents tb) = 2 \<and> (\<exists>node. add_or_get (\<lambda>p c. 4) tb (sample_request [2] 2) = (tb, node))"
proof -
  let ?rs = "[sample_request [1] 1, sample_request [2] 2, sample_request [1] 1]"
  let ?tb = "run_requests (\<lambda>p c. 4) empty_table ?rs"
  have "length (dedup (map rq_index ?rs)) = 2" by (simp add: sample_request_def sample_raw_def)
  moreover note t = current_table_refines_list [of "\<lambda>p c. 4" ?rs "sample_request [2] 2"]
  ultimately have "length (tb_currents ?tb) = 2" by (metis length_map)
  moreover have "sample_request [2] 2 \<in> set ?rs" by simp
  ultimately show ?thesis using t by blast
qed

end
