(* ===== verification/Process_Model.thy ===== *)
theory Process_Model
  imports Complex_Main Process_Syntax "HOL-Library.AList"
begin

text \<open>
  Particles, the particle catalogue and model-driven process expansion
  (\<open>models/contracts.py\<close>, \<open>processes/model.py\<close>, \<open>processes/ir.py\<close>): the derived role
  metadata of a particle record, name resolution, multiparticle definitions, the enumeration of
  one representative per particle multiset, the charge prefilter and the canonical process.
\<close>

section \<open>Particle records\<close>

datatype statistics = Boson | Fermion | Ghost | Auxiliary
datatype wavefunction_family = Scalar_Wf | Fermion_Wf | Vector_Wf | Spin2_Wf | Ghost_Wf | Auxiliary_Wf
datatype color_role = Fundamental | Antifundamental | Adjoint | Singlet | Inclusive
datatype source_orientation = Particle_Src | Antiparticle_Src | Self_Conjugate_Src

text \<open>
  The stored fields of \<open>CompiledParticleRecord\<close>. The charge is a float, \<open>None\<close> when it is
  not finite. The role fields follow in two extensions: supplied values (\<open>None\<close> for the empty
  defaults) before \<open>__post_init__\<close>, derived values after it.
\<close>

record particle_fields =
  p_name :: string
  p_antiname :: string
  p_pdg_code :: int
  p_spin :: int
  p_color :: int
  p_mass :: string
  p_width :: string
  p_charge :: "rat option"
  p_quantum_numbers :: "(string \<times> string) list"
  p_ghost_number :: int
  p_propagating :: bool
  p_goldstoneboson :: bool
  p_propagator :: "string option"
  p_component_dimension :: "int option"
  p_auxiliary_kind :: "string option"

record role_metadata =
  r_statistics :: statistics
  r_wavefunction_family :: wavefunction_family
  r_color_role :: color_role
  r_self_conjugate :: bool
  r_source_orientation :: source_orientation

record supplied_roles =
  s_statistics :: "statistics option"
  s_wavefunction_family :: "wavefunction_family option"
  s_color_role :: "color_role option"
  s_self_conjugate :: "bool option"
  s_source_orientation :: "source_orientation option"

record particle = particle_fields +
  p_roles :: role_metadata

definition supported_color_representations :: "int set" where
  "supported_color_representations = {-3, 1, 3, 8}"

definition validate_color_representation :: "int \<Rightarrow> int res" where
  "validate_color_representation v =
     (if v \<notin> supported_color_representations
      then Inl (ValueError STR ''unsupported UFO color representation'') else Inr v)"

text \<open>
  \<open>validate_quantum_number_flow\<close> on a list of pairs of strings; \<open>constant_expr\<close> is the
  symbolic check that an expression is a constant.
\<close>

definition validate_quantum_number_flow ::
  "(string \<Rightarrow> bool) \<Rightarrow> (string \<times> string) list \<Rightarrow> (string \<times> string) list res" where
  "validate_quantum_number_flow constant_expr value =
     bindE (mapE (\<lambda>(name, expression).
       if name = [] then Inl (ValueError STR ''quantum-number names must be non-empty strings'')
       else if expression = [] then Inl (ValueError STR ''quantum-number expressions must be non-empty strings'')
       else if \<not> constant_expr expression then Inl (ValueError STR ''quantum number must be constant'')
       else Inr (name, expression)) value)
     (\<lambda>result. if map fst result \<noteq> sort (remdups (map fst result))
        then Inl (ValueError STR ''quantum-number names must be sorted and unique'')
        else Inr result)"

definition particle_role_metadata :: "'a particle_fields_scheme \<Rightarrow> role_metadata res" where
  "particle_role_metadata p =
     bindE (validate_color_representation (p_color p)) (\<lambda>representation.
       let stat = (if p_ghost_number p \<noteq> 0 then Ghost
                   else if p_auxiliary_kind p \<noteq> None \<or> p_spin p < 0 then Auxiliary
                   else if p_spin p mod 2 = 0 then Fermion else Boson);
           family = (if stat = Fermion then Fermion_Wf
                     else if p_spin p = 1 then Scalar_Wf
                     else if p_spin p = 3 then Vector_Wf
                     else if p_spin p = 5 then Spin2_Wf
                     else if stat = Ghost then Ghost_Wf else Auxiliary_Wf);
           role = (if representation = -3 then Antifundamental
                   else if representation = 1 then Singlet
                   else if representation = 3 then Fundamental else Adjoint);
           selfc = (p_name p = p_antiname p)
       in if \<not> selfc \<and> p_pdg_code p = 0
          then Inl (ValueError STR ''non-self-conjugate particle cannot use PDG code zero'')
          else Inr \<lparr>r_statistics = stat, r_wavefunction_family = family, r_color_role = role,
            r_self_conjugate = selfc,
            r_source_orientation = (if selfc then Self_Conjugate_Src
              else if 0 < p_pdg_code p then Particle_Src else Antiparticle_Src)\<rparr>)"

definition agree :: "'v option \<Rightarrow> 'v \<Rightarrow> bool" where
  "agree supplied expected = (case supplied of None \<Rightarrow> True | Some v \<Rightarrow> v = expected)"

definition make_particle ::
  "(string \<Rightarrow> bool) \<Rightarrow> particle_fields \<Rightarrow> supplied_roles \<Rightarrow> particle res" where
  "make_particle constant_expr f s =
     (if (case p_component_dimension f of None \<Rightarrow> False | Some d \<Rightarrow> d \<le> 0)
      then Inl (ValueError STR ''component dimension must be positive'')
      else if p_charge f = None then Inl (ValueError STR ''charge must be finite'')
      else bindE (validate_quantum_number_flow constant_expr (p_quantum_numbers f)) (\<lambda>qn.
        if ''electric_charge'' \<notin> set (map fst qn)
        then Inl (ValueError STR ''must declare exact electric_charge metadata'')
        else bindE (particle_role_metadata f) (\<lambda>d.
          if \<not> (agree (s_statistics s) (r_statistics d) \<and>
                agree (s_wavefunction_family s) (r_wavefunction_family d) \<and>
                agree (s_color_role s) (r_color_role d) \<and>
                agree (s_self_conjugate s) (r_self_conjugate d) \<and>
                agree (s_source_orientation s) (r_source_orientation d))
          then Inl (ValueError STR ''inconsistent role metadata'')
          else Inr (particle_fields.extend (f\<lparr>p_quantum_numbers := qn\<rparr>) \<lparr>p_roles = d\<rparr>))))"

definition canonical_component_dimension :: "int \<rightharpoonup> int" where
  "canonical_component_dimension = [-1 \<mapsto> 1, 1 \<mapsto> 1, 2 \<mapsto> 4, 3 \<mapsto> 4, 5 \<mapsto> 16]"

definition compiled_particle_component_dimension :: "'a particle_fields_scheme \<Rightarrow> int res" where
  "compiled_particle_component_dimension p =
     (case p_component_dimension p of
        Some d \<Rightarrow> Inr d
      | None \<Rightarrow> (case canonical_component_dimension (p_spin p) of
          None \<Rightarrow> Inl (ValueError STR ''unsupported UFO spin code'') | Some d \<Rightarrow> Inr d))"

section \<open>The particle catalogue\<close>

record model_parameter =
  q_name :: string
  q_nature :: string
  q_resolved_expression :: string

record catalog =
  c_model_name :: string
  c_particles :: "particle list"
  c_parameters :: "model_parameter list"

definition make_catalog :: "string \<Rightarrow> particle list \<Rightarrow> model_parameter list \<Rightarrow> catalog res" where
  "make_catalog name ps qs =
     (if has_duplicates (map p_name ps)
      then Inl (ValueError STR ''compiled model contains duplicate particle names'')
      else bindE (mapE (\<lambda>p. validate_color_representation (p_color p)) ps)
        (\<lambda>_. Inr \<lparr>c_model_name = name, c_particles = ps, c_parameters = qs\<rparr>))"

definition by_name :: "catalog \<Rightarrow> string \<rightharpoonup> particle" where
  "by_name cat = map_of (rev (map (\<lambda>p. (p_name p, p)) (c_particles cat)))"

definition external_particles :: "catalog \<Rightarrow> particle list" where
  "external_particles cat =
     filter (\<lambda>p. 0 < p_spin p \<and> p_ghost_number p = 0 \<and> \<not> p_goldstoneboson p \<and> p_propagating p \<and>
       p_auxiliary_kind p = None) (c_particles cat)"

definition resolve :: "catalog \<Rightarrow> string \<Rightarrow> bool \<Rightarrow> particle res" where
  "resolve cat name external =
     (let candidates = (if external then external_particles cat else c_particles cat)
      in case find (\<lambda>p. p_name p = name) candidates of
           Some p \<Rightarrow> Inr p
         | None \<Rightarrow> (case filter (\<lambda>p. lower (p_name p) = lower name) candidates of
               [] \<Rightarrow> Inl (ValueError STR ''particle is not an external state'')
             | [p] \<Rightarrow> Inr p
             | _ \<Rightarrow> Inl (ValueError STR ''particle name is case-ambiguous'')))"

definition antiparticle :: "catalog \<Rightarrow> particle \<Rightarrow> particle res" where
  "antiparticle cat p =
     (case by_name cat (p_antiname p) of
        Some q \<Rightarrow> Inr q | None \<Rightarrow> Inl (ValueError STR ''particle refers to absent antiparticle''))"

definition supported_colored_role :: "particle \<Rightarrow> bool" where
  "supported_colored_role p \<longleftrightarrow>
     (r_color_role (p_roles p) \<in> {Fundamental, Antifundamental} \<and> r_statistics (p_roles p) = Fermion) \<or>
     (r_color_role (p_roles p) = Adjoint \<and> r_wavefunction_family (p_roles p) = Vector_Wf)"

definition validate_process_role :: "particle \<Rightarrow> unit res" where
  "validate_process_role p =
     bindE (validate_color_representation (p_color p)) (\<lambda>representation.
       if representation \<noteq> 1 \<and> \<not> supported_colored_role p
       then Inl (ValueError STR ''unsupported colored external-state role'') else Inr ())"

text \<open>\<open>zero_expr\<close> is the symbolic test that an expression expands to zero.\<close>

definition mass_is_compile_time_zero :: "(string \<Rightarrow> bool) \<Rightarrow> catalog \<Rightarrow> string \<Rightarrow> bool" where
  "mass_is_compile_time_zero zero_expr cat name =
     (if lower name = ''zero'' then True
      else case find (\<lambda>q. q_name q = name) (c_parameters cat) of
        None \<Rightarrow> False
      | Some q \<Rightarrow> lower (q_nature q) = ''internal'' \<and> zero_expr (q_resolved_expression q))"

definition default_multiparticles :: "(string \<Rightarrow> bool) \<Rightarrow> catalog \<Rightarrow> (string \<times> string list) list" where
  "default_multiparticles zero_expr cat =
     (let partons = map p_name (filter (\<lambda>p. mass_is_compile_time_zero zero_expr cat (p_mass p) \<and>
            ((r_statistics (p_roles p) = Fermion \<and> r_color_role (p_roles p) \<in> {Fundamental, Antifundamental}) \<or>
             (r_wavefunction_family (p_roles p) = Vector_Wf \<and> r_color_role (p_roles p) = Adjoint)))
            (external_particles cat))
      in (if partons = [] then [] else [(''p'', partons), (''j'', partons)]) @
         [(''all'', map p_name (external_particles cat))])"

definition multiparticle_name_ok :: "string \<Rightarrow> bool" where
  "multiparticle_name_ok name \<longleftrightarrow> name \<noteq> [] \<and> is_ascii_letter (hd name) \<and>
     (\<forall>c \<in> set (tl name). is_ascii_letter c \<or> is_digit c \<or> c = CHR ''_'')"

definition parse_multiparticle_definitions ::
  "(string \<Rightarrow> bool) \<Rightarrow> string list \<Rightarrow> catalog \<Rightarrow> (string \<times> string list) list res" where
  "parse_multiparticle_definitions zero_expr definitions cat =
     foldE (\<lambda>result def. case partition_char CHR ''='' def of (name, separator, raw_items) \<Rightarrow>
        (if \<not> separator \<or> \<not> multiparticle_name_ok (strip name)
         then Inl (ValueError STR ''invalid multiparticle definition; expected NAME=ITEM,ITEM'')
         else let items = filter (\<lambda>i. i \<noteq> []) (map strip (split_char CHR '','' raw_items))
              in if items = [] then Inl (ValueError STR ''multiparticle has no members'')
                 else bindE (mapE (\<lambda>item. bindE (resolve cat item True) (\<lambda>p. Inr (p_name p))) items)
                   (\<lambda>resolved. Inr (AList.update (strip name) (dedup resolved) result))))
       (default_multiparticles zero_expr cat) definitions"

section \<open>Slots\<close>

text \<open>\<open>_repetition\<close>: an optional count before a star.\<close>

definition repetition :: "string \<Rightarrow> (nat \<times> string) res" where
  "repetition token =
     (let ds = takeWhile is_digit token; rest = dropWhile is_digit token
      in if token = [] then Inl (ValueError STR ''invalid process token'')
         else if ds \<noteq> [] \<and> rest \<noteq> [] \<and> hd rest = CHR ''*'' \<and> tl rest \<noteq> []
         then (if digits_value ds < 1 then Inl (ValueError STR ''process repetition must be positive'')
               else Inr (digits_value ds, tl rest))
         else Inr (1, token))"

definition expanded_slots ::
  "string \<Rightarrow> (string \<rightharpoonup> string list) \<Rightarrow> catalog \<Rightarrow> string list list res" where
  "expanded_slots text aliases cat =
     bindE (mapE (\<lambda>token. bindE (repetition token) (\<lambda>(count, name).
        bindE (case aliases name of
                 Some items \<Rightarrow> mapE (\<lambda>item. bindE (resolve cat item True) (\<lambda>p. Inr (p_name p))) items
               | None \<Rightarrow> bindE (resolve cat name True) (\<lambda>p. Inr [p_name p]))
          (\<lambda>options. Inr (replicate count options)))) (split_ws text))
     (\<lambda>blocks. Inr (concat blocks))"

section \<open>Side multisets\<close>

text \<open>\<open>itertools.combinations_with_replacement\<close>, in its order.\<close>

fun comb_wr :: "'a list \<Rightarrow> nat \<Rightarrow> 'a list list" where
  "comb_wr xs 0 = [[]]"
| "comb_wr [] (Suc k) = []"
| "comb_wr (x # xs) (Suc k) = map ((#) x) (comb_wr (x # xs) k) @ comb_wr xs (Suc k)"

text \<open>The dictionary \<open>groups\<close>: options in first-occurrence order with their positions.\<close>

definition slot_groups :: "'a list list \<Rightarrow> ('a list \<times> nat list) list" where
  "slot_groups slots =
     foldl (\<lambda>g (pos, options). AList.update options
         ((case map_of g options of None \<Rightarrow> [] | Some ps \<Rightarrow> ps) @ [pos]) g)
       [] (zip [0..<length slots] slots)"

definition fill_assignment :: "nat \<Rightarrow> 'a \<Rightarrow> nat list list \<Rightarrow> 'a list list \<Rightarrow> 'a list" where
  "fill_assignment n blank positions choice =
     foldl (\<lambda>a (pos, name). a[pos := name]) (replicate n blank)
       (concat (map2 zip positions choice))"

definition side_multisets :: "string list list \<Rightarrow> string list list" where
  "side_multisets slots =
     (let groups = slot_groups slots
      in dedup_on sort [] (map (fill_assignment (length slots) [] (map snd groups))
           (product_lists (map (\<lambda>(options, positions). comb_wr options (length positions)) groups))))"

lemma comb_wr_length: "w \<in> set (comb_wr xs k) \<Longrightarrow> length w = k \<and> set w \<subseteq> set xs"
  by (induction xs k arbitrary: w rule: comb_wr.induct) fastforce+

lemma comb_wr_complete: "size M = k \<Longrightarrow> set_mset M \<subseteq> set xs \<Longrightarrow> \<exists>w \<in> set (comb_wr xs k). mset w = M"
proof (induction xs k arbitrary: M rule: comb_wr.induct)
  case (3 x xs k)
  show ?case
  proof (cases "x \<in># M")
    case True
    then obtain N where N: "M = add_mset x N" by (meson multi_member_split)
    have "size N = k" "set_mset N \<subseteq> set (x # xs)" using N "3.prems" by auto
    from "3.IH"(1) [OF this] obtain w where "w \<in> set (comb_wr (x # xs) k)" "mset w = N" by blast
    with N show ?thesis by (intro bexI [of _ "x # w"]) auto
  next
    case False
    have "set_mset M \<subseteq> set xs" using False "3.prems" by auto
    from "3.IH"(2) [OF "3.prems"(1) this] obtain w where "w \<in> set (comb_wr xs (Suc k))" "mset w = M" by blast
    then show ?thesis by auto
  qed
qed auto

lemma slot_groups_spec:
  "distinct (map fst (slot_groups slots)) \<and> fst ` set (slot_groups slots) = set slots \<and>
   (\<forall>(os, ps) \<in> set (slot_groups slots). ps = filter (\<lambda>i. slots ! i = os) [0..<length slots])"
proof (induction slots rule: rev_induct)
  case Nil
  then show ?case by (simp add: slot_groups_def)
next
  case (snoc os slots)
  let ?n = "length slots" and ?g = "slot_groups slots"
  let ?old = "case map_of ?g os of None \<Rightarrow> [] | Some ps \<Rightarrow> ps"
  have g: "slot_groups (slots @ [os]) = AList.update os (?old @ [?n]) ?g"
    by (simp add: slot_groups_def)
  have d: "distinct (map fst ?g)" using snoc by blast
  have mem: "map_of ?g o' = Some ps \<longleftrightarrow> (o', ps) \<in> set ?g" for o' ps
    using map_of_eq_Some_iff [OF d] by blast
  have old: "?old = filter (\<lambda>i. slots ! i = os) [0..<?n]"
  proof (cases "map_of ?g os")
    case None
    then have "os \<notin> set slots" using snoc by (auto simp: map_of_eq_None_iff)
    then have "filter (\<lambda>i. slots ! i = os) [0..<?n] = []" by (auto simp: filter_empty_conv)
    with None show ?thesis by simp
  next
    case (Some ps)
    with snoc mem show ?thesis by fastforce
  qed
  have ext: "filter (\<lambda>i. (slots @ [os]) ! i = o') [0..<Suc ?n] =
      filter (\<lambda>i. slots ! i = o') [0..<?n] @ (if o' = os then [?n] else [])" for o'
  proof -
    have "filter (\<lambda>i. (slots @ [os]) ! i = o') [0..<?n] = filter (\<lambda>i. slots ! i = o') [0..<?n]"
      by (rule filter_cong) (auto simp: nth_append)
    then show ?thesis by (auto simp: nth_append)
  qed
  have d': "distinct (map fst (AList.update os (?old @ [?n]) ?g))" by (rule distinct_update [OF d])
  have "(case x of (os', ps) \<Rightarrow> ps = filter (\<lambda>i. (slots @ [os]) ! i = os') [0..<length (slots @ [os])])"
    if "x \<in> set (AList.update os (?old @ [?n]) ?g)" for x
  proof -
    obtain os' ps where x: "x = (os', ps)" by (cases x)
    from that x d' have "map_of (AList.update os (?old @ [?n]) ?g) os' = Some ps" by simp
    then have "(os' = os \<and> ps = ?old @ [?n]) \<or> (os' \<noteq> os \<and> (os', ps) \<in> set ?g)"
      by (auto simp: update_conv mem split: if_splits)
    then show ?thesis
    proof
      assume a: "os' = os \<and> ps = ?old @ [?n]"
      then show ?thesis using ext [of os] old x by simp
    next
      assume a: "os' \<noteq> os \<and> (os', ps) \<in> set ?g"
      with snoc have "ps = filter (\<lambda>i. slots ! i = os') [0..<?n]" by fastforce
      with a ext [of os'] x show ?thesis by simp
    qed
  qed
  moreover have "fst ` set (AList.update os (?old @ [?n]) ?g) = set (slots @ [os])"
  proof -
    have "fst ` set (AList.update os v ?g) = insert os (fst ` set ?g)" for v
      using dom_update [of os v ?g] by (simp add: dom_map_of_conv_image_fst)
    with snoc show ?thesis by simp
  qed
  ultimately show ?case using d' unfolding g by blast
qed

lemma slot_groups_positions: "mset (concat (map snd (slot_groups slots))) = mset [0..<length slots]"
proof -
  let ?g = "slot_groups slots"
  note spec = slot_groups_spec [of slots]
  have mem: "ps = filter (\<lambda>i. slots ! i = os) [0..<length slots] \<and> os \<in> set slots" if "(os, ps) \<in> set ?g" for os ps
  proof -
    from spec that have "ps = filter (\<lambda>i. slots ! i = os) [0..<length slots]" by blast
    moreover have "os \<in> fst ` set ?g" using that by (metis fst_conv imageI)
    ultimately show ?thesis using spec by blast
  qed
  have ne: "ps \<noteq> []" if "(os, ps) \<in> set ?g" for os ps
    using mem [OF that] by (auto simp: filter_empty_conv in_set_conv_nth)
  have disj: "set ps \<inter> set ps' = {}" if "(os, ps) \<in> set ?g" "(os', ps') \<in> set ?g" "os \<noteq> os'" for os ps os' ps'
    using mem [OF that(1)] mem [OF that(2)] that(3) by auto
  have "distinct (map snd ?g)"
    unfolding distinct_map
  proof (intro conjI inj_onI)
    show "distinct ?g" using spec distinct_map by blast
    fix x y assume xy: "x \<in> set ?g" "y \<in> set ?g" "snd x = snd y"
    obtain os ps where x: "x = (os, ps)" by (cases x)
    obtain os' ps' where y: "y = (os', ps')" by (cases y)
    show "x = y" using disj [of os ps os' ps'] ne [of os ps] xy by (cases "os = os'") (auto simp: x y)
  qed
  moreover have "distinct ps" if "ps \<in> set (map snd ?g)" for ps
    using that mem by (metis (no_types, lifting) distinct_filter distinct_upt imageE list.set_map prod.collapse)
  moreover have "set ps \<inter> set ps' = {}" if "ps \<in> set (map snd ?g)" "ps' \<in> set (map snd ?g)" "ps \<noteq> ps'" for ps ps'
  proof -
    from that obtain os os' where m: "(os, ps) \<in> set ?g" "(os', ps') \<in> set ?g" by auto
    moreover from m that mem have "os \<noteq> os'" by metis
    ultimately show ?thesis by (rule disj)
  qed
  ultimately have d: "distinct (concat (map snd ?g))" by (rule distinct_concat)
  have "set (concat (map snd ?g)) = set [0..<length slots]"
  proof
    have "set ps \<subseteq> set [0..<length slots]" if "(os, ps) \<in> set ?g" for os ps using mem [OF that] by auto
    then show "set (concat (map snd ?g)) \<subseteq> set [0..<length slots]" by (auto simp: subset_eq)
    show "set [0..<length slots] \<subseteq> set (concat (map snd ?g))"
    proof
      fix i assume i: "i \<in> set [0..<length slots]"
      then have "slots ! i \<in> fst ` set ?g" using spec by simp
      then obtain ps where ps: "(slots ! i, ps) \<in> set ?g" by auto
      from mem [OF ps] have "ps = filter (\<lambda>j. slots ! j = slots ! i) [0..<length slots]" by blast
      with i have "i \<in> set ps" by simp
      with ps show "i \<in> set (concat (map snd ?g))" by (force simp: image_iff)
    qed
  qed
  with d show ?thesis using set_eq_iff_mset_eq_distinct [OF d distinct_upt] by blast
qed

text \<open>Writing named positions into a list: the multiset is the multiset of names.\<close>

lemma fold_update_untouched:
  "i \<notin> fst ` set ps \<Longrightarrow> foldl (\<lambda>a (pos, name). a[pos := name]) a ps ! i = a ! i"
proof (induction ps arbitrary: a)
  case (Cons p ps)
  obtain pos name where p: "p = (pos, name)" by (cases p)
  from Cons p have "foldl (\<lambda>a (pos, name). a[pos := name]) (a[pos := name]) ps ! i = a[pos := name] ! i" by simp
  with Cons.prems p show ?case by simp
qed simp

lemma fold_update_length [simp]: "length (foldl (\<lambda>a (pos, name). a[pos := name]) a ps) = length a"
  by (induction ps arbitrary: a) (auto split: prod.splits)

lemma fold_update_nth:
  "distinct (map fst ps) \<Longrightarrow> (i, x) \<in> set ps \<Longrightarrow> i < length a \<Longrightarrow>
   foldl (\<lambda>a (pos, name). a[pos := name]) a ps ! i = x"
proof (induction ps arbitrary: a)
  case (Cons p ps)
  obtain pos name where p: "p = (pos, name)" by (cases p)
  show ?case
  proof (cases "(i, x) = p")
    case True
    then have "i \<notin> fst ` set ps" using Cons.prems p by auto
    from fold_update_untouched [OF this, of "a[pos := name]"] True p Cons.prems show ?thesis by simp
  next
    case False
    with Cons.prems have "(i, x) \<in> set ps" by simp
    from Cons.IH [OF _ this, of "a[pos := name]"] Cons.prems p show ?thesis by simp
  qed
qed simp

lemma fold_update_mset:
  assumes "mset (map fst ps) = mset [0..<n]" "length a = n"
  shows "mset (foldl (\<lambda>a (pos, name). a[pos := name]) a ps) = mset (map snd ps)"
proof -
  let ?r = "foldl (\<lambda>a (pos, name). a[pos := name]) a ps"
  have d: "distinct (map fst ps)" and st: "fst ` set ps = {..<n}"
    using mset_eq_imp_distinct_iff [OF assms(1)] mset_eq_setD [OF assms(1)] by auto
  have "?r ! fst p = snd p" if "p \<in> set ps" for p
    using fold_update_nth [OF d, of "fst p" "snd p" a] that st assms(2) by auto
  then have "map snd ps = map (\<lambda>p. ?r ! fst p) ps" unfolding map_eq_conv by metis
  also have "\<dots> = map ((!) ?r) (map fst ps)" by (simp add: comp_def)
  finally have e: "map snd ps = map ((!) ?r) (map fst ps)" .
  have "mset (map snd ps) = image_mset ((!) ?r) (mset (map fst ps))" unfolding e by (rule mset_map)
  also have "\<dots> = mset (map ((!) ?r) [0..<n])" unfolding assms(1) by simp
  also have "map ((!) ?r) [0..<n] = ?r" using map_nth [of ?r] assms(2) by simp
  finally show ?thesis by simp
qed

lemma concat_zip_proj:
  "list_all2 (\<lambda>ps names. length ps = length names) pss nss \<Longrightarrow>
   map fst (concat (map2 zip pss nss)) = concat pss \<and> map snd (concat (map2 zip pss nss)) = concat nss"
  by (induction rule: list_all2_induct) auto

lemma product_lists_iff: "c \<in> set (product_lists xss) \<longleftrightarrow> list_all2 (\<lambda>x xs. x \<in> set xs) c xss"
  by (simp add: product_lists_set)

text \<open>A choice of names for the slots, up to order: one option per slot.\<close>

definition fills :: "'a list list \<Rightarrow> 'a list \<Rightarrow> bool" where
  "fills slots c = list_all2 (\<lambda>x options. x \<in> set options) c slots"

lemma fills_nth: "fills slots c \<longleftrightarrow> length c = length slots \<and> (\<forall>i < length slots. c ! i \<in> set (slots ! i))"
  by (auto simp: fills_def list_all2_conv_all_nth)

abbreviation group_options :: "'a list list \<Rightarrow> 'a list list list" where
  "group_options slots \<equiv> map (\<lambda>(options, positions). comb_wr options (length positions)) (slot_groups slots)"

lemma group_choice_lengths:
  assumes "choice \<in> set (product_lists (group_options slots))"
  shows "list_all2 (\<lambda>ps names. length ps = length names) (map snd (slot_groups slots)) choice"
proof -
  from assms have "list_all2 (\<lambda>x g. x \<in> set (comb_wr (fst g) (length (snd g)))) choice (slot_groups slots)"
    by (simp add: product_lists_iff list_all2_map2 case_prod_unfold)
  then show ?thesis
    by (auto simp: list_all2_conv_all_nth dest!: comb_wr_length [THEN conjunct1] spec)
qed

lemma fill_mset:
  assumes "choice \<in> set (product_lists (group_options slots))"
  shows "mset (fill_assignment (length slots) blank (map snd (slot_groups slots)) choice) = mset (concat choice)"
  unfolding fill_assignment_def
  using concat_zip_proj [OF group_choice_lengths [OF assms]] slot_groups_positions [of slots]
  by (subst fold_update_mset [where n = "length slots"]) auto

lemma fill_fills:
  assumes "choice \<in> set (product_lists (group_options slots))"
  shows "fills slots (fill_assignment (length slots) blank (map snd (slot_groups slots)) choice)"
  unfolding fills_nth
proof (intro conjI allI impI)
  let ?g = "slot_groups slots"
  let ?ps = "concat (map2 zip (map snd ?g) choice)"
  note pr = concat_zip_proj [OF group_choice_lengths [OF assms]]
  have m: "mset (map fst ?ps) = mset [0..<length slots]" using pr slot_groups_positions [of slots] by simp
  show "length (fill_assignment (length slots) blank (map snd ?g) choice) = length slots"
    by (simp add: fill_assignment_def)
  fix i assume i: "i < length slots"
  then have "i \<in> set [0..<length slots]" by simp
  then have "i \<in> fst ` set ?ps" unfolding mset_eq_setD [OF m, symmetric] set_map .
  then obtain p where p: "p \<in> set ?ps" "i = fst p" by (rule imageE)
  have x: "(i, snd p) \<in> set ?ps" using p by simp
  have d: "distinct (map fst ?ps)" using mset_eq_imp_distinct_iff [OF m] by simp
  have a: "fill_assignment (length slots) blank (map snd ?g) choice ! i = snd p"
    unfolding fill_assignment_def using fold_update_nth [OF d x] i by simp
  from x obtain k where k: "k < length ?g" "k < length choice" "(i, snd p) \<in> set (zip (snd (?g ! k)) (choice ! k))"
  proof -
    from x obtain z where z: "z \<in> set (map2 zip (map snd ?g) choice)" "(i, snd p) \<in> set z"
      unfolding set_concat UN_iff by blast
    from z(1) obtain k where "k < length (map2 zip (map snd ?g) choice)" "z = map2 zip (map snd ?g) choice ! k"
      unfolding in_set_conv_nth by blast
    with z(2) show thesis by (intro that [of k]) simp_all
  qed
  have "choice ! k \<in> set (comb_wr (fst (?g ! k)) (length (snd (?g ! k))))"
    using assms k by (auto simp: product_lists_iff list_all2_conv_all_nth case_prod_unfold)
  with comb_wr_length have "set (choice ! k) \<subseteq> set (fst (?g ! k))" by blast
  moreover have "(fst (?g ! k), snd (?g ! k)) \<in> set ?g" using k by simp
  then have "snd (?g ! k) = filter (\<lambda>i. slots ! i = fst (?g ! k)) [0..<length slots]"
    using slot_groups_spec [of slots] by blast
  with k(3) have "slots ! i = fst (?g ! k)" by (metis (mono_tags, lifting) filter_set Set.filter_eq mem_Collect_eq set_zip_leftD)
  ultimately show "fill_assignment (length slots) blank (map snd ?g) choice ! i \<in> set (slots ! i)"
    using a k(3) by (auto dest: set_zip_rightD)
qed

lemma fill_complete:
  assumes "fills slots c"
  shows "\<exists>choice \<in> set (product_lists (group_options slots)). mset (concat choice) = mset c"
proof -
  let ?g = "slot_groups slots"
  note spec = slot_groups_spec [of slots]
  have "\<forall>g \<in> set ?g. \<exists>w \<in> set (comb_wr (fst g) (length (snd g))). mset w = mset (map ((!) c) (snd g))"
  proof
    fix g assume g: "g \<in> set ?g"
    with spec have ps: "snd g = filter (\<lambda>i. slots ! i = fst g) [0..<length slots]" by (cases g) auto
    have "set_mset (mset (map ((!) c) (snd g))) \<subseteq> set (fst g)"
      using assms by (auto simp: ps fills_nth)
    then show "\<exists>w \<in> set (comb_wr (fst g) (length (snd g))). mset w = mset (map ((!) c) (snd g))"
      by (intro comb_wr_complete) auto
  qed
  then obtain f where f: "\<And>g. g \<in> set ?g \<Longrightarrow> f g \<in> set (comb_wr (fst g) (length (snd g))) \<and> mset (f g) = mset (map ((!) c) (snd g))"
    by metis
  have "map f ?g \<in> set (product_lists (group_options slots))"
    using f by (auto simp: product_lists_iff list_all2_conv_all_nth case_prod_unfold)
  moreover have "mset (concat (map f ?g)) = mset c"
  proof -
    have "mset (concat (map f gs)) = mset (map ((!) c) (concat (map snd gs)))" if "set gs \<subseteq> set ?g" for gs
      using that by (induction gs) (auto simp: f)
    then have "mset (concat (map f ?g)) = mset (map ((!) c) (concat (map snd ?g)))" by blast
    also have "\<dots> = image_mset ((!) c) (mset [0..<length slots])"
      using slot_groups_positions [of slots] by (metis mset_map)
    also have "\<dots> = mset (map ((!) c) [0..<length c])" using assms by (simp add: fills_nth)
    finally show ?thesis by (simp add: map_nth)
  qed
  ultimately show ?thesis by blast
qed

text \<open>
  C26. \<open>_side_multisets(slots)\<close> yields one representative of every particle multiset that
  fills the slots, each multiset once, and every yielded tuple assigns to each slot one of its
  own options.
\<close>
theorem side_multisets_exact:
  "mset ` set (side_multisets slots) = mset ` {c. fills slots c} \<and>
   distinct (map mset (side_multisets slots)) \<and> set (side_multisets slots) \<subseteq> {c. fills slots c}"
proof -
  let ?all = "map (fill_assignment (length slots) [] (map snd (slot_groups slots))) (product_lists (group_options slots))"
  have sm: "side_multisets slots = dedup_on sort [] ?all" by (simp add: side_multisets_def Let_def)
  have sub: "set (side_multisets slots) \<subseteq> set ?all" unfolding sm by (rule dedup_on_subset)
  have ok: "set ?all \<subseteq> {c. fills slots c}" using fill_fills [of _ slots "[]"] by auto
  have ms: "mset ` X = mset ` (sort ` X)" for X :: "string list set" by (force simp: image_image)
  have "sort ` set (side_multisets slots) = sort ` set ?all" unfolding sm using dedup_on_keys [of sort "[]" ?all] by simp
  then have e1: "mset ` set (side_multisets slots) = mset ` set ?all" by (metis ms)
  have e2: "mset ` {c. fills slots c} \<subseteq> mset ` set ?all"
  proof
    fix M assume "M \<in> mset ` {c. fills slots c}"
    then obtain c where c: "fills slots c" "M = mset c" by blast
    from fill_complete [OF c(1)] obtain choice where "choice \<in> set (product_lists (group_options slots))"
      "mset (concat choice) = mset c" by blast
    with fill_mset [of choice slots "[]"] c(2) show "M \<in> mset ` set ?all"
      unfolding set_map image_image by (intro image_eqI [of _ _ choice]) simp_all
  qed
  have e3: "distinct (map mset (side_multisets slots))"
  proof -
    have "distinct (map sort (side_multisets slots))" unfolding sm by (rule dedup_on_distinct)
    moreover have "map sort xs = map sorted_list_of_multiset (map mset xs)" for xs :: "string list list"
      by simp
    ultimately show ?thesis by (metis distinct_map)
  qed
  have "mset ` set ?all = mset ` {c. fills slots c}"
    using e2 image_mono [OF ok, of mset] by (rule subset_antisym [rotated])
  with e1 e3 order_trans [OF sub ok] show ?thesis by (simp only: simp_thms)
qed

end
