(* ===== verification/Conservation.thy ===== *)
theory Conservation
  imports Process_Model
begin

text \<open>
  Additive quantum numbers (\<open>processes/conservation.py\<close>): the rational nullspace of the
  vertex/flavour incidence matrix by incremental elimination, its integer form, and the charge
  totals used as a prefilter. The proofs show that the charges vanish on every vertex and that
  they span all such charges.
\<close>

section \<open>Charge totals\<close>

record conserved_charge_table =
  ch_charges :: "string \<rightharpoonup> int list"
  ch_count :: nat

fun add_values :: "int list \<Rightarrow> int list \<Rightarrow> int list res" where
  "add_values ts [] = Inr ts"
| "add_values [] (v # vs) = Inl (IndexError STR ''list index out of range'')"
| "add_values (t # ts) (v # vs) = bindE (add_values ts vs) (\<lambda>r. Inr ((t + v) # r))"

definition charge_of :: "conserved_charge_table \<Rightarrow> string \<Rightarrow> int list" where
  "charge_of ch name = (case ch_charges ch name of None \<Rightarrow> replicate (ch_count ch) 0 | Some v \<Rightarrow> v)"

definition charge_total :: "conserved_charge_table \<Rightarrow> string list \<Rightarrow> int list res" where
  "charge_total ch names = foldE (\<lambda>totals name. add_values totals (charge_of ch name)) (replicate (ch_count ch) 0) names"

definition balanced :: "conserved_charge_table \<Rightarrow> string list \<Rightarrow> string list \<Rightarrow> bool res" where
  "balanced ch initial final = bindE (charge_total ch initial) (\<lambda>i. bindE (charge_total ch final) (\<lambda>f. Inr (i = f)))"

definition charges_ok :: "conserved_charge_table \<Rightarrow> bool" where
  "charges_ok ch \<longleftrightarrow> (\<forall>v \<in> ran (ch_charges ch). length v = ch_count ch)"

lemma charge_of_length: "charges_ok ch \<Longrightarrow> length (charge_of ch name) = ch_count ch"
  by (auto simp: charge_of_def charges_ok_def ran_def split: option.splits)

lemma add_values_same: "length vs = length ts \<Longrightarrow> add_values ts vs = Inr (map2 (+) ts vs)"
  by (induction ts vs rule: list_induct2') auto

lemma charge_total_eq:
  assumes "charges_ok ch"
  shows "charge_total ch names = Inr (map (\<lambda>k. \<Sum>n \<leftarrow> names. charge_of ch n ! k) [0..<ch_count ch])"
proof -
  have "foldE (\<lambda>totals name. add_values totals (charge_of ch name)) ts names =
      Inr (map (\<lambda>k. ts ! k + (\<Sum>n \<leftarrow> names. charge_of ch n ! k)) [0..<ch_count ch])"
    if "length ts = ch_count ch" for ts
    using that
  proof (induction names arbitrary: ts)
    case Nil
    then show ?case using map_nth [of ts] by simp
  next
    case (Cons n names)
    let ?ts = "map2 (+) ts (charge_of ch n)"
    have l: "length (charge_of ch n) = length ts" using charge_of_length [OF assms] Cons.prems by simp
    then have "length ?ts = ch_count ch" using Cons.prems by simp
    from Cons.IH [OF this] show ?case
      using l Cons.prems by (simp add: add_values_same add.assoc)
  qed
  from this [of "replicate (ch_count ch) 0"] show ?thesis by (simp add: charge_total_def)
qed

section \<open>The rational nullspace\<close>

text \<open>
  The lists \<open>reduced\<close> and \<open>pivots\<close> grow together and are kept as one list of pairs. All
  rows have the same length, so the strict zips do not raise.
\<close>

definition axpy :: "rat list \<Rightarrow> rat \<Rightarrow> rat list \<Rightarrow> rat list" where
  "axpy v factor w = map2 (\<lambda>a b. a - factor * b) v w"

definition eliminate :: "rat list \<Rightarrow> rat list \<times> nat \<Rightarrow> rat list" where
  "eliminate v = (\<lambda>(pivot_row, pivot). if v ! pivot \<noteq> 0 then axpy v (v ! pivot) pivot_row else v)"

definition nullspace_step :: "(rat list \<times> nat) list \<Rightarrow> int list \<Rightarrow> (rat list \<times> nat) list" where
  "nullspace_step red row =
     (let v = foldl eliminate (map of_int row) red
      in case find (\<lambda>i. v ! i \<noteq> 0) [0..<length v] of
           None \<Rightarrow> red
         | Some lead \<Rightarrow>
             (let w = map (\<lambda>x. x / v ! lead) v
              in map (\<lambda>(other, p). (if other ! lead \<noteq> 0 then axpy other (other ! lead) w else other, p)) red @ [(w, lead)]))"

definition free_columns :: "(rat list \<times> nat) list \<Rightarrow> nat \<Rightarrow> nat list" where
  "free_columns red width = filter (\<lambda>c. c \<notin> snd ` set red) [0..<width]"

definition basis_vector :: "(rat list \<times> nat) list \<Rightarrow> nat \<Rightarrow> nat \<Rightarrow> rat list" where
  "basis_vector red width free =
     foldl (\<lambda>v (pivot_row, pivot). v[pivot := - (pivot_row ! free)]) ((replicate width 0)[free := 1]) red"

definition nullspace :: "int list list \<Rightarrow> nat \<Rightarrow> rat list list" where
  "nullspace rows width =
     (let red = foldl nullspace_step [] rows
      in map (basis_vector red width) (free_columns red width))"

definition dot :: "nat \<Rightarrow> (nat \<Rightarrow> rat) \<Rightarrow> rat list \<Rightarrow> rat" where
  "dot width x r = (\<Sum>k<width. r ! k * x k)"

definition red_ok :: "nat \<Rightarrow> (rat list \<times> nat) list \<Rightarrow> bool" where
  "red_ok width red \<longleftrightarrow>
     (\<forall>(r, p) \<in> set red. length r = width \<and> p < width \<and> r ! p = 1) \<and>
     distinct (map snd red) \<and>
     (\<forall>(r, p) \<in> set red. \<forall>(r', p') \<in> set red. p \<noteq> p' \<longrightarrow> r ! p' = 0)"

lemma red_okD: "red_ok n red \<Longrightarrow> (r, p) \<in> set red \<Longrightarrow> length r = n \<and> p < n \<and> r ! p = 1"
  unfolding red_ok_def by (elim conjE) (drule (1) bspec, simp)

lemma red_okZ: "red_ok n red \<Longrightarrow> (r, p) \<in> set red \<Longrightarrow> (r', p') \<in> set red \<Longrightarrow> p \<noteq> p' \<Longrightarrow> r ! p' = 0"
  unfolding red_ok_def by (drule conjunct2, drule conjunct2, drule (1) bspec, simp, drule (1) bspec, simp)

lemma red_okI:
  assumes "\<And>r p. (r, p) \<in> set red \<Longrightarrow> length r = n \<and> p < n \<and> r ! p = 1" "distinct (map snd red)"
    "\<And>r p r' p'. (r, p) \<in> set red \<Longrightarrow> (r', p') \<in> set red \<Longrightarrow> p \<noteq> p' \<Longrightarrow> r ! p' = 0"
  shows "red_ok n red"
  unfolding red_ok_def using assms(2)
  by (intro conjI ballI) (auto intro: assms(1,3) simp: assms(1) split: prod.splits dest: assms(1))

lemma axpy_nth [simp]: "length v = n \<Longrightarrow> length w = n \<Longrightarrow> k < n \<Longrightarrow> axpy v f w ! k = v ! k - f * w ! k"
  by (simp add: axpy_def)

lemma axpy_length [simp]: "length v = n \<Longrightarrow> length w = n \<Longrightarrow> length (axpy v f w) = n"
  by (simp add: axpy_def)

lemma dot_axpy: "length v = n \<Longrightarrow> length w = n \<Longrightarrow> dot n x (axpy v f w) = dot n x v - f * dot n x w"
  by (simp add: dot_def sum_subtractf sum_distrib_left algebra_simps)

lemma eliminate_length: "length v = n \<Longrightarrow> length (fst rp) = n \<Longrightarrow> length (eliminate v rp) = n"
  by (cases rp) (simp add: eliminate_def)

lemma foldl_eliminate:
  assumes "red_ok n red" "length v = n" "set ps \<subseteq> set red"
  shows "length (foldl eliminate v ps) = n \<and>
    (\<forall>p. (p \<in> snd ` set ps \<or> (p \<in> snd ` set red \<and> v ! p = 0)) \<longrightarrow> foldl eliminate v ps ! p = 0) \<and>
    (\<forall>x. (\<forall>z \<in> set red. dot n x (fst z) = 0) \<longrightarrow> dot n x (foldl eliminate v ps) = dot n x v)"
  using assms(2,3)
proof (induction ps arbitrary: v)
  case (Cons rp ps)
  obtain r p where rp: "rp = (r, p)" by (cases rp)
  let ?v = "eliminate v rp"
  from Cons.prems rp have m: "(r, p) \<in> set red" by simp
  with assms(1) have r: "length r = n" "p < n" "r ! p = 1" by (auto simp: red_ok_def)
  have z: "r ! q = 0" if "q \<in> snd ` set red" "q \<noteq> p" for q
  proof -
    from that(1) obtain r' where "(r', q) \<in> set red" by auto
    with assms(1) m that(2) show ?thesis unfolding red_ok_def by blast
  qed
  have q: "q < n" if "q \<in> snd ` set red" for q using assms(1) that by (auto simp: red_ok_def)
  have l: "length ?v = n" using Cons.prems r by (simp add: eliminate_length rp)
  have p0: "?v ! p = 0" using Cons.prems r by (simp add: eliminate_def rp)
  have keep: "?v ! q = 0" if "q \<in> snd ` set red" "v ! q = 0" for q
    using Cons.prems r z [of q] q [of q] that by (cases "q = p") (simp_all add: eliminate_def rp)
  have d: "dot n x ?v = dot n x v" if "\<forall>z \<in> set red. dot n x (fst z) = 0" for x
  proof -
    have "dot n x r = 0" using bspec [OF that m] by simp
    then show ?thesis using Cons.prems(1) r(1) by (simp add: eliminate_def rp dot_axpy)
  qed
  have p: "p \<in> snd ` set red" using m by (metis imageI snd_conv)
  note IH = Cons.IH [OF l]
  show ?case
  proof (intro conjI allI impI)
    show "length (foldl eliminate v (rp # ps)) = n" using IH Cons.prems by simp
    show "foldl eliminate v (rp # ps) ! q = 0"
      if "q \<in> snd ` set (rp # ps) \<or> (q \<in> snd ` set red \<and> v ! q = 0)" for q
    proof -
      from that have "q \<in> snd ` set ps \<or> (q \<in> snd ` set red \<and> ?v ! q = 0)"
        using keep p0 p rp by auto
      moreover have "set ps \<subseteq> set red" using Cons.prems by simp
      ultimately have "foldl eliminate ?v ps ! q = 0" using IH by blast
      then show ?thesis by simp
    qed
    show "dot n x (foldl eliminate v (rp # ps)) = dot n x v" if "\<forall>z \<in> set red. dot n x (fst z) = 0" for x
      using IH Cons.prems d that by simp
  qed
qed simp

lemma nullspace_step_ok:
  assumes ok: "red_ok n red" and row: "length row = n"
  shows "red_ok n (nullspace_step red row)"
    and "(\<forall>z \<in> set (nullspace_step red row). dot n x (fst z) = 0) \<longleftrightarrow>
      (\<forall>z \<in> set red. dot n x (fst z) = 0) \<and> dot n x (map of_int row) = 0"
proof -
  let ?v = "foldl eliminate (map of_int row) red"
  have fe: "length ?v = n" "\<And>p. p \<in> snd ` set red \<Longrightarrow> ?v ! p = 0"
    "\<And>x. \<forall>z \<in> set red. dot n x (fst z) = 0 \<Longrightarrow> dot n x ?v = dot n x (map of_int row)"
    using foldl_eliminate [OF ok, of "map of_int row" red, unfolded length_map, OF row subset_refl] by blast+
  have "red_ok n (nullspace_step red row) \<and>
    ((\<forall>z \<in> set (nullspace_step red row). dot n x (fst z) = 0) \<longleftrightarrow>
      (\<forall>z \<in> set red. dot n x (fst z) = 0) \<and> dot n x (map of_int row) = 0)"
  proof (cases "find (\<lambda>i. ?v ! i \<noteq> 0) [0..<length ?v]")
    case None
    then have "\<forall>i < n. ?v ! i = 0" using fe(1) by (auto simp: find_None_iff)
    then have "dot n x ?v = 0" by (simp add: dot_def)
    with None ok fe(3) [of x] show ?thesis by (auto simp: nullspace_step_def Let_def)
  next
    case (Some lead)
    then have lead: "lead < n" "?v ! lead \<noteq> 0" using fe(1) by (auto simp: find_Some_iff)
    let ?w = "map (\<lambda>y. y / ?v ! lead) ?v"
    let ?upd = "\<lambda>(other, p). (if other ! lead \<noteq> 0 then axpy other (other ! lead) ?w else other, p :: nat)"
    have step: "nullspace_step red row = map ?upd red @ [(?w, lead)]"
      using Some by (simp add: nullspace_step_def Let_def)
    have w: "length ?w = n" "?w ! lead = 1" "\<And>p. p \<in> snd ` set red \<Longrightarrow> p < n \<Longrightarrow> ?w ! p = 0"
      using lead fe by simp_all
    have fresh: "lead \<notin> snd ` set red" using fe(2) lead(2) by blast
    have dw: "dot n x ?w = dot n x ?v / ?v ! lead" for x
      using fe(1) by (simp add: dot_def sum_divide_distrib)
    have row_of: "length r = n" "p < n" "r ! p = 1" if "(r, p) \<in> set red" for r p
      using red_okD [OF ok that] by blast+
    have zero_of: "r ! p' = 0" if "(r, p) \<in> set red" "(r', p') \<in> set red" "p \<noteq> p'" for r p r' p'
      using red_okZ [OF ok that] .
    have upd: "length (fst (?upd (r, p))) = n" "fst (?upd (r, p)) ! lead = 0"
      "q \<in> snd ` set red \<Longrightarrow> fst (?upd (r, p)) ! q = r ! q"
      "dot n x ?w = 0 \<Longrightarrow> dot n x (fst (?upd (r, p))) = dot n x r"
      if "(r, p) \<in> set red" for r p q
    proof -
      note r = row_of [OF that]
      show "length (fst (?upd (r, p))) = n" using r w by simp
      show "fst (?upd (r, p)) ! lead = 0" using r w lead by simp
      show "fst (?upd (r, p)) ! q = r ! q" if "q \<in> snd ` set red"
      proof -
        from that obtain r' where "(r', q) \<in> set red" by auto
        from row_of(2) [OF this] w(3) [OF that] r w(1) show ?thesis by simp
      qed
      show "dot n x (fst (?upd (r, p))) = dot n x r" if "dot n x ?w = 0"
        using that r w(1) by (simp add: dot_axpy)
    qed
    have snd_upd: "map snd (map ?upd red) = map snd red" by auto
    have mem: "z \<in> set (nullspace_step red row) \<longleftrightarrow> (\<exists>r p. (r, p) \<in> set red \<and> z = (fst (?upd (r, p)), p)) \<or> z = (?w, lead)" for z
      unfolding step by force
    have "red_ok n (nullspace_step red row)"
    proof (rule red_okI)
      fix r0 p0 assume "(r0, p0) \<in> set (nullspace_step red row)"
      then show "length r0 = n \<and> p0 < n \<and> r0 ! p0 = 1"
        unfolding mem
      proof (elim disjE exE conjE)
        fix r p assume m: "(r, p) \<in> set red" and z: "(r0, p0) = (fst (?upd (r, p)), p)"
        have "p \<in> snd ` set red" using m by (metis imageI snd_conv)
        from upd(1) [OF m] upd(3) [OF m this] row_of [OF m] z show ?thesis by (simp only: prod.inject simp_thms)
      next
        assume z: "(r0, p0) = (?w, lead)"
        from w(1,2) lead(1) z show ?thesis by (simp only: prod.inject simp_thms)
      qed
    next
      show "distinct (map snd (nullspace_step red row))"
        using fresh ok unfolding step map_append snd_upd by (simp add: red_ok_def)
    next
      fix r1 p1 r2 p2 assume "(r1, p1) \<in> set (nullspace_step red row)" "(r2, p2) \<in> set (nullspace_step red row)" and ne: "p1 \<noteq> p2"
      then show "r1 ! p2 = 0"
        unfolding mem
      proof (elim disjE exE conjE)
        fix r p r' p' assume m: "(r, p) \<in> set red" "(r', p') \<in> set red"
          and z: "(r1, p1) = (fst (?upd (r, p)), p)" "(r2, p2) = (fst (?upd (r', p')), p')"
        have "p' \<in> snd ` set red" using m by (metis imageI snd_conv)
        from upd(3) [OF m(1) this] zero_of [OF m] z ne show ?thesis by (simp only: prod.inject simp_thms)
      next
        fix r p assume m: "(r, p) \<in> set red" and z: "(r1, p1) = (fst (?upd (r, p)), p)" "(r2, p2) = (?w, lead)"
        from upd(2) [OF m] z show ?thesis by (simp only: prod.inject simp_thms)
      next
        fix r p assume m: "(r, p) \<in> set red" and z: "(r1, p1) = (?w, lead)" "(r2, p2) = (fst (?upd (r, p)), p)"
        have "p \<in> snd ` set red" using m by (metis imageI snd_conv)
        from w(3) [OF this row_of(2) [OF m]] z show ?thesis by (simp only: prod.inject simp_thms)
      next
        assume "(r1, p1) = (?w, lead)" "(r2, p2) = (?w, lead)"
        with ne show ?thesis by (simp only: prod.inject simp_thms)
      qed
    qed
    moreover have "(\<forall>z \<in> set (nullspace_step red row). dot n x (fst z) = 0) \<longleftrightarrow>
      (\<forall>z \<in> set red. dot n x (fst z) = 0) \<and> dot n x ?w = 0"
    proof
      assume a: "\<forall>z \<in> set (nullspace_step red row). dot n x (fst z) = 0"
      have w0: "dot n x ?w = 0" using bspec [OF a, of "(?w, lead)"] mem [of "(?w, lead)"] by simp
      have "dot n x (fst z) = 0" if z: "z \<in> set red" for z
      proof -
        obtain r p where rp: "z = (r, p)" by (cases z)
        have "(fst (?upd (r, p)), p) \<in> set (nullspace_step red row)" unfolding mem using z rp by blast
        from bspec [OF a this] upd(4) [OF _ w0, of r p] z rp show ?thesis by simp
      qed
      with w0 show "(\<forall>z \<in> set red. dot n x (fst z) = 0) \<and> dot n x ?w = 0" by blast
    next
      assume a: "(\<forall>z \<in> set red. dot n x (fst z) = 0) \<and> dot n x ?w = 0"
      show "\<forall>z \<in> set (nullspace_step red row). dot n x (fst z) = 0"
      proof
        fix z assume "z \<in> set (nullspace_step red row)"
        then show "dot n x (fst z) = 0" unfolding mem
        proof (elim disjE exE conjE)
          fix r p assume m: "(r, p) \<in> set red" and z: "z = (fst (?upd (r, p)), p)"
          have "dot n x r = 0" using bspec [OF conjunct1 [OF a] m] by simp
          with upd(4) [OF m conjunct2 [OF a]] show ?thesis by (simp only: z fst_conv)
        next
          assume "z = (?w, lead)"
          with a show ?thesis by simp
        qed
      qed
    qed
    moreover have "(\<forall>z \<in> set red. dot n x (fst z) = 0) \<Longrightarrow> dot n x ?w = 0 \<longleftrightarrow> dot n x (map of_int row) = 0"
      using fe(3) [of x] dw [of x] lead(2) by simp
    ultimately show ?thesis by blast
  qed
  then show "red_ok n (nullspace_step red row)" and "(\<forall>z \<in> set (nullspace_step red row). dot n x (fst z) = 0) \<longleftrightarrow>
      (\<forall>z \<in> set red. dot n x (fst z) = 0) \<and> dot n x (map of_int row) = 0" by blast+
qed

lemma nullspace_fold:
  assumes "red_ok n red" "\<forall>row \<in> set rows. length row = n"
  shows "red_ok n (foldl nullspace_step red rows) \<and>
    ((\<forall>z \<in> set (foldl nullspace_step red rows). dot n x (fst z) = 0) \<longleftrightarrow>
      (\<forall>z \<in> set red. dot n x (fst z) = 0) \<and> (\<forall>row \<in> set rows. dot n x (map of_int row) = 0))"
  using assms
proof (induction rows arbitrary: red)
  case (Cons row rows)
  have l: "length row = n" using Cons.prems by simp
  note s = nullspace_step_ok [OF Cons.prems(1) l]
  from Cons.IH [OF s(1)] Cons.prems(2) s(2) [of x] show ?case by (simp only: foldl_Cons list.set ball_simps simp_thms) blast
qed simp

lemma dot_split:
  assumes ok: "red_ok n red" and m: "(r, p) \<in> set red"
  shows "dot n x r = x p + (\<Sum>k \<leftarrow> free_columns red n. r ! k * x k)"
proof -
  let ?P = "snd ` set red" and ?F = "set (free_columns red n)"
  have pn: "p < n" "r ! p = 1" using red_okD [OF ok m] by blast+
  have part: "{..<n} = ?F \<union> ({..<n} \<inter> ?P)" "?F \<inter> ({..<n} \<inter> ?P) = {}" by (auto simp: free_columns_def)
  have "dot n x r = (\<Sum>k\<in>?F. r ! k * x k) + (\<Sum>k\<in>{..<n} \<inter> ?P. r ! k * x k)"
    unfolding dot_def by (subst part(1), subst sum.union_disjoint) (use part(2) in simp_all)
  also have "(\<Sum>k\<in>{..<n} \<inter> ?P. r ! k * x k) = (\<Sum>k\<in>{..<n} \<inter> ?P. if k = p then x p else 0)"
  proof (rule sum.cong [OF refl])
    fix k assume "k \<in> {..<n} \<inter> ?P"
    then obtain r' where "(r', k) \<in> set red" by auto
    with red_okZ [OF ok m this] pn show "r ! k * x k = (if k = p then x p else 0)" by auto
  qed
  also have "\<dots> = x p" using pn m by (force simp: sum.delta')
  also have "(\<Sum>k\<in>?F. r ! k * x k) = (\<Sum>k \<leftarrow> free_columns red n. r ! k * x k)"
    by (subst sum_list_distinct_conv_sum_set) (simp_all add: free_columns_def)
  finally show ?thesis by simp
qed

lemma foldl_update_other:
  "p \<notin> snd ` set ps \<Longrightarrow> foldl (\<lambda>v (r, q). v[q := f r]) v ps ! p = v ! p"
proof (induction ps arbitrary: v)
  case (Cons z ps)
  obtain r q where z: "z = (r, q)" by (cases z)
  from Cons.prems z have "p \<noteq> q" "p \<notin> snd ` set ps" by auto
  with Cons.IH [of "v[q := f r]"] z show ?case by simp
qed simp

lemma foldl_update_at:
  "distinct (map snd ps) \<Longrightarrow> (r, p) \<in> set ps \<Longrightarrow> p < length v \<Longrightarrow> foldl (\<lambda>v (r, q). v[q := f r]) v ps ! p = f r"
proof (induction ps arbitrary: v)
  case (Cons z ps)
  obtain r' q where z: "z = (r', q)" by (cases z)
  show ?case
  proof (cases "(r, p) = z")
    case True
    then have "p \<notin> snd ` set ps" using Cons.prems(1) z by auto
    from foldl_update_other [OF this, of f "v[q := f r']"] True z Cons.prems show ?thesis by simp
  next
    case False
    then have m: "(r, p) \<in> set ps" using Cons.prems by simp
    have "distinct (map snd ps)" "p < length (v[q := f r'])" using Cons.prems by simp_all
    from Cons.IH [OF this(1) m this(2)] z show ?thesis by simp
  qed
qed simp

lemma basis_vector_nth:
  assumes ok: "red_ok n red" and f: "f \<in> set (free_columns red n)"
  shows "length (basis_vector red n f) = n"
    and "g \<in> set (free_columns red n) \<Longrightarrow> basis_vector red n f ! g = (if g = f then 1 else 0)"
    and "(r, p) \<in> set red \<Longrightarrow> basis_vector red n f ! p = - (r ! f)"
proof -
  have len: "length (foldl (\<lambda>v (r, q). v[q := - (r ! f)]) v ps) = length v" for v and ps :: "(rat list \<times> nat) list"
    by (induction ps arbitrary: v) (auto split: prod.splits)
  then show "length (basis_vector red n f) = n" by (simp add: basis_vector_def)
  show "basis_vector red n f ! g = (if g = f then 1 else 0)" if "g \<in> set (free_columns red n)"
  proof -
    have "g \<notin> snd ` set red" "g < n" using that by (auto simp: free_columns_def)
    from foldl_update_other [OF this(1), of "\<lambda>r. - (r ! f)"] this(2) show ?thesis by (simp add: basis_vector_def)
  qed
  show "basis_vector red n f ! p = - (r ! f)" if "(r, p) \<in> set red"
  proof -
    have "distinct (map snd red)" using ok by (simp add: red_ok_def)
    from foldl_update_at [OF this that, of _ "\<lambda>r. - (r ! f)"] red_okD [OF ok that] show ?thesis
      by (simp add: basis_vector_def)
  qed
qed

lemma sum_free_delta:
  "f \<in> set (free_columns red n) \<Longrightarrow> (\<Sum>k \<leftarrow> free_columns red n. h k * (if k = f then 1 else 0 :: rat)) = h f"
  by (subst sum_list_distinct_conv_sum_set) (simp_all add: free_columns_def if_distrib cong: if_cong)

lemma nullspace_sound:
  assumes "\<forall>row \<in> set rows. length row = n" "b \<in> set (nullspace rows n)"
  shows "length b = n \<and> (\<forall>row \<in> set rows. dot n ((!) b) (map of_int row) = 0)"
proof -
  let ?red = "foldl nullspace_step [] rows"
  have e: "red_ok n []" by (simp add: red_ok_def)
  note nf = nullspace_fold [OF e assms(1)]
  then have ok: "red_ok n ?red" by blast
  from assms(2) obtain f where f: "f \<in> set (free_columns ?red n)" "b = basis_vector ?red n f"
    by (auto simp: nullspace_def Let_def)
  note bv = basis_vector_nth [OF ok f(1)]
  have "dot n ((!) b) (fst z) = 0" if "z \<in> set ?red" for z
  proof -
    obtain r p where z: "z = (r, p)" by (cases z)
    with that have m: "(r, p) \<in> set ?red" by simp
    have "(\<Sum>k \<leftarrow> free_columns ?red n. r ! k * b ! k) = (\<Sum>k \<leftarrow> free_columns ?red n. r ! k * (if k = f then 1 else 0))"
      using bv(2) f(2) by (intro arg_cong [where f = sum_list] map_cong) auto
    also have "\<dots> = r ! f" using f(1) by (rule sum_free_delta)
    finally show ?thesis using dot_split [OF ok m, of "(!) b"] bv(3) [OF m] f(2) z by simp
  qed
  with nf [of "(!) b"] have "\<forall>row \<in> set rows. dot n ((!) b) (map of_int row) = 0" by simp
  with bv(1) f(2) show ?thesis by simp
qed

lemma nullspace_complete:
  assumes "\<forall>row \<in> set rows. length row = n" "\<forall>row \<in> set rows. dot n x (map of_int row) = 0" "k < n"
  shows "x k = (\<Sum>j<length (nullspace rows n).
      x (free_columns (foldl nullspace_step [] rows) n ! j) * nullspace rows n ! j ! k)"
proof -
  let ?red = "foldl nullspace_step [] rows"
  let ?fs = "free_columns ?red n"
  have e: "red_ok n []" by (simp add: red_ok_def)
  note nf = nullspace_fold [OF e assms(1)]
  then have ok: "red_ok n ?red" by blast
  from nf [of x] assms(2) have kill: "\<forall>z \<in> set ?red. dot n x (fst z) = 0" by simp
  have "(\<Sum>j<length (nullspace rows n). x (?fs ! j) * nullspace rows n ! j ! k) =
      (\<Sum>j<length ?fs. x (?fs ! j) * basis_vector ?red n (?fs ! j) ! k)"
    by (simp add: nullspace_def Let_def)
  also have "\<dots> = (\<Sum>f \<leftarrow> ?fs. x f * basis_vector ?red n f ! k)"
    by (simp add: sum_list_sum_nth atLeast0LessThan)
  also have "\<dots> = x k"
  proof (cases "k \<in> snd ` set ?red")
    case True
    then obtain r where m: "(r, k) \<in> set ?red" by auto
    have "(\<Sum>f \<leftarrow> ?fs. x f * basis_vector ?red n f ! k) = (\<Sum>f \<leftarrow> ?fs. - (r ! f * x f))"
      using basis_vector_nth(3) [OF ok _ m] by (intro arg_cong [where f = sum_list] map_cong) auto
    also have "\<dots> = - (\<Sum>f \<leftarrow> ?fs. r ! f * x f)" by (simp add: uminus_sum_list_map comp_def)
    also have "\<dots> = x k" using dot_split [OF ok m, of x] bspec [OF kill m] by simp
    finally show ?thesis .
  next
    case False
    then have kf: "k \<in> set ?fs" using assms(3) by (simp add: free_columns_def)
    have "(\<Sum>f \<leftarrow> ?fs. x f * basis_vector ?red n f ! k) = (\<Sum>f \<leftarrow> ?fs. x f * (if f = k then 1 else 0))"
      using basis_vector_nth(2) [OF ok _ kf] by (intro arg_cong [where f = sum_list] map_cong) auto
    also have "\<dots> = x k" using kf by (rule sum_free_delta)
    finally show ?thesis .
  qed
  finally show ?thesis by simp
qed

section \<open>Integer charges of a model\<close>

text \<open>\<open>int(x)\<close> of a fraction truncates towards zero.\<close>

definition trunc :: "rat \<Rightarrow> int" where
  "trunc x = (if x < 0 then - \<lfloor>- x\<rfloor> else \<lfloor>x\<rfloor>)"

definition integer_vector :: "rat list \<Rightarrow> int list" where
  "integer_vector v =
     (let scale = foldl lcm 1 (map (\<lambda>x. snd (quotient_of x)) v);
          values = map (\<lambda>x. trunc (x * of_int scale)) v;
          divisor = (let g = foldl gcd 0 values in if g = 0 then 1 else g)
      in map (\<lambda>x. x div divisor) values)"

definition self_conjugate :: "particle \<Rightarrow> bool" where
  "self_conjugate p = r_self_conjugate (p_roles p)"

type_synonym columns = "string \<rightharpoonup> nat \<times> int"

text \<open>One column per particle/antiparticle pair; \<open>max\<close> keeps the first maximal record.\<close>

definition column_step :: "(string \<rightharpoonup> particle) \<Rightarrow> columns \<times> nat \<Rightarrow> particle \<Rightarrow> columns \<times> nat" where
  "column_step names = (\<lambda>(columns, width) p.
     (if self_conjugate p \<or> p_name p \<in> dom columns then (columns, width)
      else (case names (p_antiname p) of
          None \<Rightarrow> (columns(p_name p \<mapsto> (width, 1)), width + 1)
        | Some a \<Rightarrow>
            (let anti_canonical = (p_pdg_code p, p_name p) < (p_pdg_code a, p_name a)
             in (columns(p_name p \<mapsto> (width, if anti_canonical then -1 else 1),
                         p_name a \<mapsto> (width, if anti_canonical \<or> a = p then 1 else -1)), width + 1)))))"

definition particle_names :: "particle list \<Rightarrow> string \<rightharpoonup> particle" where
  "particle_names ps = map_of (rev (map (\<lambda>p. (p_name p, p)) ps))"

definition term_row :: "(string \<rightharpoonup> particle) \<Rightarrow> columns \<Rightarrow> nat \<Rightarrow> string list \<Rightarrow> int list res" where
  "term_row names columns width term =
     foldE (\<lambda>row name.
       if name \<notin> dom names then Inl (ValueError STR ''vertex term refers to unknown particle'')
       else Inr (case columns name of None \<Rightarrow> row | Some (column, sign) \<Rightarrow> row[column := row ! column + sign]))
       (replicate width 0) term"

definition conserved_charges :: "particle list \<Rightarrow> (int \<times> string list) list \<Rightarrow> conserved_charge_table res" where
  "conserved_charges particles vertex_terms =
     (let names = particle_names particles
      in case foldl (column_step names) (Map.empty, 0) particles of (columns, width) \<Rightarrow>
           bindE (mapE (\<lambda>(i, term). term_row names columns width term) vertex_terms) (\<lambda>rows.
             let basis = map integer_vector (nullspace (sort (remdups (filter (\<lambda>r. \<exists>x \<in> set r. x \<noteq> 0) rows))) width)
             in Inr \<lparr>ch_charges = (\<lambda>name. map_option (\<lambda>(column, sign). map (\<lambda>v. sign * v ! column) basis) (columns name)),
                     ch_count = length basis\<rparr>))"

lemma trunc_of_int [simp]: "trunc (of_int n) = n"
  by (auto simp: trunc_def simp flip: of_int_minus)

lemma foldl_lcm: "0 < a \<Longrightarrow> \<forall>d \<in> set ds. 0 < d \<Longrightarrow>
   0 < foldl lcm a ds \<and> a dvd foldl lcm a ds \<and> (\<forall>d \<in> set ds. d dvd foldl lcm a ds)" for a :: int
proof (induction ds arbitrary: a)
  case (Cons d ds)
  have "0 < lcm a d" using Cons.prems by (simp add: lcm_pos_int)
  with Cons.IH [OF this] Cons.prems show ?case by (auto intro: dvd_trans [OF dvd_lcm1] dvd_trans [OF dvd_lcm2])
qed simp

lemma foldl_gcd: "0 \<le> a \<Longrightarrow>
  0 \<le> foldl gcd a ds \<and> foldl gcd a ds dvd a \<and> (\<forall>d \<in> set ds. foldl gcd a ds dvd d)" for a :: int
proof (induction ds arbitrary: a)
  case (Cons d ds)
  from Cons.IH [of "gcd a d"] show ?case by (auto intro: dvd_trans)
qed simp

text \<open>The integer form is a positive rational multiple of the vector.\<close>

lemma integer_vector_scaled:
  "\<exists>c > 0. length (integer_vector v) = length v \<and> (\<forall>k < length v. of_int (integer_vector v ! k) = c * (v ! k :: rat))"
proof -
  let ?s = "foldl lcm 1 (map (\<lambda>x. snd (quotient_of x)) v)"
  have pos: "\<forall>d \<in> set (map (\<lambda>x. snd (quotient_of x)) v). 0 < d" by (auto simp: quotient_of_denom_pos')
  note s = foldl_lcm [of 1, OF _ pos, simplified]
  let ?vals = "map (\<lambda>x. trunc (x * of_int ?s)) v"
  have int: "of_int (trunc (x * of_int ?s)) = x * of_int ?s" if "x \<in> set v" for x
  proof -
    obtain n d where q: "quotient_of x = (n, d)" by (cases "quotient_of x")
    with s that obtain m where m: "?s = d * m" by (metis dvdE snd_conv)
    from quotient_of_div [OF q] have "x = of_int n / of_int d" .
    moreover have "d \<noteq> 0" using quotient_of_denom_pos [OF q] by simp
    ultimately have "x * of_int ?s = of_int (n * m)" unfolding m by simp
    then show ?thesis by (simp only: trunc_of_int)
  qed
  let ?g = "if foldl gcd 0 ?vals = 0 then 1 else foldl gcd 0 ?vals"
  have g: "0 < ?g" "\<And>x. x \<in> set ?vals \<Longrightarrow> ?g dvd x" using foldl_gcd [of 0 ?vals] by auto
  have iv: "integer_vector v = map (\<lambda>x. x div ?g) ?vals" by (simp add: integer_vector_def Let_def)
  have "of_int (integer_vector v ! k) = (of_int ?s / of_int ?g) * (v ! k :: rat)" if k: "k < length v" for k
  proof -
    have d: "?g dvd trunc (v ! k * of_int ?s)" using k by (intro g(2)) auto
    have "of_int (integer_vector v ! k) = (of_int (trunc (v ! k * of_int ?s) div ?g) :: rat)" using k by (simp add: iv)
    also have "\<dots> = of_int (trunc (v ! k * of_int ?s)) / of_int ?g" using d by (rule of_int_div)
    also have "\<dots> = v ! k * of_int ?s / of_int ?g" using int [of "v ! k"] k by simp
    finally show ?thesis by simp
  qed
  moreover have "(0 :: rat) < of_int ?s / of_int ?g" using s g(1) by (intro divide_pos_pos) simp_all
  moreover have "length (integer_vector v) = length v" by (simp add: iv)
  ultimately show ?thesis by blast
qed

definition column_value :: "columns \<Rightarrow> (nat \<Rightarrow> rat) \<Rightarrow> string \<Rightarrow> rat" where
  "column_value columns x name = (case columns name of None \<Rightarrow> 0 | Some (c, s) \<Rightarrow> of_int s * x c)"

definition columns_ok :: "columns \<Rightarrow> nat \<Rightarrow> bool" where
  "columns_ok columns width \<longleftrightarrow> (\<forall>n c s. columns n = Some (c, s) \<longrightarrow> c < width)"

lemma column_step_ok:
  assumes "columns_ok cols w" "column_step names (cols, w) p = (cols', w')"
  shows "columns_ok cols' w'"
proof -
  have old: "cols n = Some (c, s) \<Longrightarrow> c < Suc w" for n c s
    using assms(1) unfolding columns_ok_def by (metis less_Suc_eq)
  show ?thesis
  proof (cases "self_conjugate p \<or> p_name p \<in> dom cols")
    case True
    then show ?thesis using assms by (simp add: column_step_def)
  next
    case False
    then show ?thesis
      using assms(2) old unfolding columns_ok_def column_step_def
      by (cases "names (p_antiname p)") (auto simp: Let_def split: if_splits)
  qed
qed

lemma columns_fold_ok:
  "columns_ok cols w \<Longrightarrow> foldl (column_step names) (cols, w) ps = (cols', w') \<Longrightarrow> columns_ok cols' w'"
proof (induction ps arbitrary: cols w)
  case (Cons p ps)
  obtain c1 w1 where s: "column_step names (cols, w) p = (c1, w1)" by (cases "column_step names (cols, w) p")
  with Cons.IH [OF column_step_ok [OF Cons.prems(1) s]] Cons.prems(2) show ?case by simp
qed simp

lemma term_row_dot:
  assumes "columns_ok cols w" "term_row names cols w term = Inr row"
  shows "length row = w \<and> dot w x (map of_int row) = (\<Sum>n \<leftarrow> term. column_value cols x n) \<and> set term \<subseteq> dom names"
proof -
  have "length row = w \<and> dot w x (map of_int row) = dot w x (map of_int r0) + (\<Sum>n \<leftarrow> term. column_value cols x n) \<and>
      set term \<subseteq> dom names"
    if "foldE (\<lambda>row name.
       if name \<notin> dom names then Inl (ValueError STR ''vertex term refers to unknown particle'')
       else Inr (case cols name of None \<Rightarrow> row | Some (column, sign) \<Rightarrow> row[column := row ! column + sign])) r0 term = Inr row"
      "length r0 = w" for r0
    using that
  proof (induction "term" arbitrary: r0)
    case (Cons n ns)
    let ?r = "case cols n of None \<Rightarrow> r0 | Some (column, sign) \<Rightarrow> r0[column := r0 ! column + sign]"
    from Cons.prems have n: "n \<in> dom names" and l: "length ?r = w"
      by (auto split: if_splits option.splits)
    have d: "dot w x (map of_int ?r) = dot w x (map of_int r0) + column_value cols x n"
    proof (cases "cols n")
      case (Some cs)
      obtain c s where cs: "cs = (c, s)" by (cases cs)
      from Some assms(1) have c: "c < w" unfolding columns_ok_def cs by blast
      have "dot w x (map of_int (r0[c := r0 ! c + s])) =
          (\<Sum>k<w. of_int (r0 ! k) * x k + (if k = c then of_int s * x c else 0))"
        unfolding dot_def using Cons.prems(2)
        by (intro sum.cong refl) (auto simp: nth_list_update algebra_simps)
      also have "\<dots> = dot w x (map of_int r0) + of_int s * x c"
        using c Cons.prems(2) by (simp add: sum.distrib dot_def)
      finally show ?thesis using Some cs by (simp add: column_value_def)
    qed (simp add: column_value_def)
    have "foldE (\<lambda>row name.
       if name \<notin> dom names then Inl (ValueError STR ''vertex term refers to unknown particle'')
       else Inr (case cols name of None \<Rightarrow> row | Some (column, sign) \<Rightarrow> row[column := row ! column + sign])) ?r ns = Inr row"
      using Cons.prems(1) n by (cases "cols n") auto
    from Cons.IH [OF this l] d n show ?case by simp
  qed simp
  from this [of "replicate w 0"] assms(2) have
    "length row = w \<and> dot w x (map of_int row) = dot w x (map of_int (replicate w 0)) + (\<Sum>n \<leftarrow> term. column_value cols x n) \<and>
      set term \<subseteq> dom names" by (simp add: term_row_def)
  moreover have "dot w x (map of_int (replicate w 0)) = 0" by (simp add: dot_def)
  ultimately show ?thesis by simp
qed

lemma conserved_charges_data:
  assumes "conserved_charges ps terms = Inr ch"
  obtains cols w rows where "foldl (column_step (particle_names ps)) (Map.empty, 0) ps = (cols, w)" "columns_ok cols w"
    "list_all2 (\<lambda>(i, term) row. term_row (particle_names ps) cols w term = Inr row) terms rows"
    "\<forall>row \<in> set rows. length row = w"
    "ch = \<lparr>ch_charges = (\<lambda>name. map_option (\<lambda>(column, sign). map (\<lambda>v. sign * v ! column)
        (map integer_vector (nullspace (sort (remdups (filter (\<lambda>r. \<exists>x \<in> set r. x \<noteq> 0) rows))) w))) (cols name)),
      ch_count = length (nullspace (sort (remdups (filter (\<lambda>r. \<exists>x \<in> set r. x \<noteq> 0) rows))) w)\<rparr>"
proof -
  obtain cols w where cw: "foldl (column_step (particle_names ps)) (Map.empty, 0) ps = (cols, w)"
    by (cases "foldl (column_step (particle_names ps)) (Map.empty, 0) ps")
  have ok: "columns_ok cols w"
    by (rule columns_fold_ok [OF _ cw]) (simp add: columns_ok_def)
  from assms cw obtain rows where
    rows: "mapE (\<lambda>(i, term). term_row (particle_names ps) cols w term) terms = Inr rows"
    and ch: "ch = \<lparr>ch_charges = (\<lambda>name. map_option (\<lambda>(column, sign). map (\<lambda>v. sign * v ! column)
        (map integer_vector (nullspace (sort (remdups (filter (\<lambda>r. \<exists>x \<in> set r. x \<noteq> 0) rows))) w))) (cols name)),
      ch_count = length (nullspace (sort (remdups (filter (\<lambda>r. \<exists>x \<in> set r. x \<noteq> 0) rows))) w)\<rparr>"
    by (auto simp: conserved_charges_def Let_def bindE_Inr_iff)
  have la: "list_all2 (\<lambda>(i, term) row. term_row (particle_names ps) cols w term = Inr row) terms rows"
    using rows unfolding mapE_Inr_iff by (rule list_all2_mono) auto
  have "\<forall>row \<in> set rows. length row = w"
  proof
    fix row assume "row \<in> set rows"
    then obtain k where k: "k < length rows" "row = rows ! k" by (metis in_set_conv_nth)
    obtain i t where "terms ! k = (i, t)" by (cases "terms ! k")
    with la k have "term_row (particle_names ps) cols w t = Inr row"
      by (auto simp: list_all2_conv_all_nth)
    with term_row_dot [OF ok this] show "length row = w" by blast
  qed
  from that [OF cw ok la this ch] show thesis .
qed

text \<open>The kept rows and the dropped zero rows together annihilate exactly the same vectors.\<close>

abbreviation kept_rows :: "int list list \<Rightarrow> int list list" where
  "kept_rows rows \<equiv> sort (remdups (filter (\<lambda>r. \<exists>x \<in> set r. x \<noteq> 0) rows))"

lemma kept_rows_dot:
  assumes "\<forall>row \<in> set rows. length row = w"
  shows "(\<forall>row \<in> set (kept_rows rows). dot w x (map of_int row) = 0) \<longleftrightarrow> (\<forall>row \<in> set rows. dot w x (map of_int row) = 0)"
proof -
  have "dot w x (map of_int row) = 0" if "row \<in> set rows" "\<not> (\<exists>x \<in> set row. x \<noteq> 0)" for row
    using that assms by (auto simp: dot_def intro!: sum.neutral)
  then show ?thesis by auto
qed

lemma charge_of_data:
  assumes "ch = \<lparr>ch_charges = (\<lambda>name. map_option (\<lambda>(column, sign). map (\<lambda>v. sign * v ! column) (map integer_vector basis)) (cols name)),
      ch_count = length basis\<rparr>" "k < length basis"
    "length (basis ! k) = w" "columns_ok cols w"
  obtains c where "0 < c" "\<And>n. of_int (charge_of ch n ! k) = c * column_value cols ((!) (basis ! k)) n"
proof -
  from integer_vector_scaled [of "basis ! k"] assms(3) obtain c :: rat where c: "0 < c"
    "\<And>i. i < w \<Longrightarrow> of_int (integer_vector (basis ! k) ! i) = c * (basis ! k ! i)" by auto
  have "of_int (charge_of ch n ! k) = c * column_value cols ((!) (basis ! k)) n" for n
  proof (cases "cols n")
    case None
    then show ?thesis using assms(1,2) by (simp add: charge_of_def column_value_def)
  next
    case (Some cs)
    obtain q s where cs: "cs = (q, s)" by (cases cs)
    from Some assms(4) have "q < w" unfolding columns_ok_def cs by blast
    with c(2) Some cs assms(1,2) show ?thesis by (simp add: charge_of_def column_value_def)
  qed
  with c(1) show thesis by (rule that)
qed

text \<open>
  C29. Every charge returned by \<open>conserved_charges\<close> is conserved by every vertex term: the
  total over the particles of a vertex is the zero tuple.
\<close>
theorem charges_vanish_on_vertices:
  assumes "conserved_charges ps terms = Inr ch" "(i, term) \<in> set terms"
  shows "charges_ok ch \<and> charge_total ch term = Inr (replicate (ch_count ch) 0)"
proof -
  obtain cols w rows where cw: "foldl (column_step (particle_names ps)) (Map.empty, 0) ps = (cols, w)" and d:
    "columns_ok cols w" "list_all2 (\<lambda>(i, term) row. term_row (particle_names ps) cols w term = Inr row) terms rows"
    "\<forall>row \<in> set rows. length row = w"
    "ch = \<lparr>ch_charges = (\<lambda>name. map_option (\<lambda>(column, sign). map (\<lambda>v. sign * v ! column)
        (map integer_vector (nullspace (kept_rows rows) w))) (cols name)),
      ch_count = length (nullspace (kept_rows rows) w)\<rparr>" by (rule conserved_charges_data [OF assms(1)])
  have ok: "charges_ok ch" by (auto simp: charges_ok_def d(4) ran_def)
  from assms(2) obtain k where k: "k < length terms" "terms ! k = (i, term)" by (metis in_set_conv_nth)
  with d(2) have row: "term_row (particle_names ps) cols w term = Inr (rows ! k)" "rows ! k \<in> set rows"
    by (auto simp: list_all2_conv_all_nth)
  have "(\<Sum>n \<leftarrow> term. charge_of ch n ! b) = 0" if b: "b < ch_count ch" for b
  proof -
    let ?v = "nullspace (kept_rows rows) w ! b"
    have bm: "?v \<in> set (nullspace (kept_rows rows) w)" using b d(4) by simp
    have "\<forall>row \<in> set (kept_rows rows). length row = w" using d(3) by auto
    from nullspace_sound [OF this bm] kept_rows_dot [OF d(3), of "(!) ?v"]
    have v: "length ?v = w" "dot w ((!) ?v) (map of_int (rows ! k)) = 0" using row(2) by blast+
    from charge_of_data [OF d(4) _ v(1) d(1)] b d(4) obtain c where
      c: "\<And>n. of_int (charge_of ch n ! b) = c * column_value cols ((!) ?v) n" by auto
    have "of_int (\<Sum>n \<leftarrow> term. charge_of ch n ! b) = (\<Sum>n \<leftarrow> term. c * column_value cols ((!) ?v) n)"
      by (induction "term") (simp_all add: c)
    also have "\<dots> = c * (\<Sum>n \<leftarrow> term. column_value cols ((!) ?v) n)" by (simp add: sum_list_const_mult)
    also have "\<dots> = (0 :: rat)" using term_row_dot [OF d(1) row(1), of "(!) ?v"] v(2) by simp
    finally show ?thesis by simp
  qed
  then have "map (\<lambda>b. \<Sum>n \<leftarrow> term. charge_of ch n ! b) [0..<ch_count ch] = replicate (ch_count ch) 0"
    by (intro nth_equalityI) simp_all
  with ok charge_total_eq [OF ok, of "term"] show ?thesis by simp
qed

text \<open>
  An additive assignment on a catalogue: zero on self-conjugate particles, opposite on the
  antiparticle, and summing to zero over every vertex.
\<close>

definition additive_charge :: "particle list \<Rightarrow> (int \<times> string list) list \<Rightarrow> (string \<Rightarrow> rat) \<Rightarrow> bool" where
  "additive_charge ps terms q \<longleftrightarrow>
     (\<forall>p \<in> set ps. self_conjugate p \<longrightarrow> q (p_name p) = 0) \<and>
     (\<forall>p \<in> set ps. \<forall>a. \<not> self_conjugate p \<longrightarrow> particle_names ps (p_antiname p) = Some a \<longrightarrow> q (p_name a) = - q (p_name p)) \<and>
     (\<forall>(i, term) \<in> set terms. (\<Sum>n \<leftarrow> term. q n) = 0)"

lemma particle_names_Some:
  assumes "distinct (map p_name ps)"
  shows "particle_names ps n = Some p \<longleftrightarrow> p \<in> set ps \<and> p_name p = n"
proof -
  have "distinct (map fst (rev (map (\<lambda>p. (p_name p, p)) ps)))"
    using assms by (simp add: rev_map [symmetric] comp_def)
  from map_of_eq_Some_iff [OF this] show ?thesis by (auto simp: particle_names_def)
qed

text \<open>While the columns are assigned, some values of the columns represent the assignment.\<close>

lemma column_step_represents:
  assumes ok: "columns_ok cols w" and rep: "\<forall>n \<in> dom cols. q n = column_value cols x n"
    and step: "column_step names (cols, w) p = (cols', w')"
    and anti: "\<And>a. \<not> self_conjugate p \<Longrightarrow> names (p_antiname p) = Some a \<Longrightarrow> a \<noteq> p \<and> p_name a \<noteq> p_name p \<and> q (p_name a) = - q (p_name p)"
  shows "\<exists>x'. \<forall>n \<in> dom cols'. q n = column_value cols' x' n"
proof (cases "self_conjugate p \<or> p_name p \<in> dom cols")
  case True
  then have "cols' = cols" using step by (simp add: column_step_def)
  with rep show ?thesis by blast
next
  case False
  have old: "column_value cols (x(w := y)) n = column_value cols x n" for y n
  proof (cases "cols n")
    case (Some cs)
    obtain c s where cs: "cs = (c, s)" by (cases cs)
    from Some ok have "c < w" unfolding columns_ok_def cs by blast
    with Some cs show ?thesis by (simp add: column_value_def)
  qed (simp add: column_value_def)
  show ?thesis
  proof (cases "names (p_antiname p)")
    case None
    with False step have c': "cols' = cols(p_name p \<mapsto> (w, 1))" by (simp add: column_step_def)
    have "q n = column_value cols' (x(w := q (p_name p))) n" if n: "n \<in> dom cols'" for n
    proof (cases "n = p_name p")
      case False
      then have "n \<in> dom cols" using n by (simp add: c')
      with rep have "q n = column_value cols x n" by blast
      also have "\<dots> = column_value cols (x(w := q (p_name p))) n" by (rule old [symmetric])
      finally show ?thesis using False by (simp add: c' column_value_def)
    qed (simp add: c' column_value_def)
    then show ?thesis by blast
  next
    case (Some a)
    define s :: int where "s = (if (p_pdg_code p, p_name p) < (p_pdg_code a, p_name a) then -1 else 1)"
    note an = anti [OF _ Some]
    from False Some step an have c': "cols' = cols(p_name p \<mapsto> (w, s), p_name a \<mapsto> (w, - s))"
      by (auto simp: column_step_def s_def Let_def)
    have ss: "of_int s * of_int s = (1 :: rat)" by (simp add: s_def)
    have sn: "\<not> self_conjugate p" using False by simp
    have "q n = column_value cols' (x(w := of_int s * q (p_name p))) n" if n: "n \<in> dom cols'" for n
    proof -
      consider "n = p_name a" | "n = p_name p" "n \<noteq> p_name a" | "n \<noteq> p_name p" "n \<noteq> p_name a" by blast
      then show ?thesis
      proof cases
        case 1
        then have "column_value cols' (x(w := of_int s * q (p_name p))) n = - (of_int s * (of_int s * q (p_name p)))"
          by (simp add: c' column_value_def)
        also have "\<dots> = - q (p_name p)" using ss by (simp add: mult.assoc [symmetric])
        finally show ?thesis using an sn 1 by simp
      next
        case 2
        then have "column_value cols' (x(w := of_int s * q (p_name p))) n = of_int s * (of_int s * q (p_name p))"
          by (simp add: c' column_value_def)
        also have "\<dots> = q (p_name p)" using ss by (simp add: mult.assoc [symmetric])
        finally show ?thesis using 2 by simp
      next
        case 3
        then have "n \<in> dom cols" using n by (simp add: c')
        with rep have "q n = column_value cols x n" by blast
        also have "\<dots> = column_value cols (x(w := of_int s * q (p_name p))) n" by (rule old [symmetric])
        finally show ?thesis using 3 by (simp add: c' column_value_def)
      qed
    qed
    then show ?thesis by blast
  qed
qed

lemma column_fold_represents:
  assumes "columns_ok cols w" "\<forall>n \<in> dom cols. q n = column_value cols x n"
    "foldl (column_step names) (cols, w) ps = (cols', w')"
    "\<And>p a. p \<in> set ps \<Longrightarrow> \<not> self_conjugate p \<Longrightarrow> names (p_antiname p) = Some a \<Longrightarrow>
      a \<noteq> p \<and> p_name a \<noteq> p_name p \<and> q (p_name a) = - q (p_name p)"
  shows "\<exists>x'. \<forall>n \<in> dom cols'. q n = column_value cols' x' n"
  using assms
proof (induction ps arbitrary: cols w x)
  case Nil
  then show ?case by auto
next
  case (Cons p ps)
  obtain c1 w1 where s: "column_step names (cols, w) p = (c1, w1)" by (cases "column_step names (cols, w) p")
  have "\<exists>x'. \<forall>n \<in> dom c1. q n = column_value c1 x' n"
    by (rule column_step_represents [OF Cons.prems(1,2) s]) (rule Cons.prems(4) [OF list.set_intros(1)])
  then obtain x' where "\<forall>n \<in> dom c1. q n = column_value c1 x' n" by blast
  moreover have "foldl (column_step names) (c1, w1) ps = (cols', w')" using Cons.prems(3) s by simp
  ultimately show ?case
    by (intro Cons.IH [OF column_step_ok [OF Cons.prems(1) s]]) (assumption, assumption, rule Cons.prems(4) [OF list.set_intros(2)])
qed

lemma column_step_dom: "dom cols \<union> (if self_conjugate p then {} else {p_name p}) \<subseteq> dom (fst (column_step names (cols, w) p))"
  by (auto simp: column_step_def Let_def split: option.splits)

lemma union_chain: "C1 \<union> X \<subseteq> D \<Longrightarrow> C \<union> Y \<subseteq> C1 \<Longrightarrow> Z \<subseteq> Y \<union> X \<Longrightarrow> C \<union> Z \<subseteq> D"
  by blast

lemma column_fold_dom:
  "dom cols \<union> p_name ` {p \<in> set ps. \<not> self_conjugate p} \<subseteq> dom (fst (foldl (column_step names) (cols, w) ps))"
proof (induction ps arbitrary: cols w)
  case (Cons p ps)
  obtain c1 w1 where s: "column_step names (cols, w) p = (c1, w1)" by (cases "column_step names (cols, w) p")
  have "dom c1 \<union> p_name ` {p \<in> set ps. \<not> self_conjugate p} \<subseteq> dom (fst (foldl (column_step names) (cols, w) (p # ps)))"
    using Cons.IH [of c1 w1] s by simp
  moreover have "dom cols \<union> (if self_conjugate p then {} else {p_name p}) \<subseteq> dom c1"
    using column_step_dom [of cols p names w] s by simp
  moreover have "p_name ` {q \<in> set (p # ps). \<not> self_conjugate q} \<subseteq>
      (if self_conjugate p then {} else {p_name p}) \<union> p_name ` {q \<in> set ps. \<not> self_conjugate q}" by auto
  ultimately show ?case by (rule union_chain)
qed simp

text \<open>
  C30. The returned charges span all charges of the model: on a catalogue with distinct names
  whose self-conjugation flags agree with the names, every additive rational assignment that
  is conserved at every vertex is a rational combination of the returned charges. So a process
  that balances all of them balances every conserved charge.
\<close>
theorem charges_span_all_conserved:
  assumes "conserved_charges ps terms = Inr ch" "distinct (map p_name ps)"
    "\<forall>p \<in> set ps. self_conjugate p \<longleftrightarrow> p_name p = p_antiname p" "additive_charge ps terms q"
  shows "\<exists>coef. \<forall>p \<in> set ps. q (p_name p) = (\<Sum>k<ch_count ch. coef k * of_int (charge_of ch (p_name p) ! k))"
proof -
  obtain cols w rows where cw: "foldl (column_step (particle_names ps)) (Map.empty, 0) ps = (cols, w)" and d:
    "columns_ok cols w" "list_all2 (\<lambda>(i, term) row. term_row (particle_names ps) cols w term = Inr row) terms rows"
    "\<forall>row \<in> set rows. length row = w"
    "ch = \<lparr>ch_charges = (\<lambda>name. map_option (\<lambda>(column, sign). map (\<lambda>v. sign * v ! column)
        (map integer_vector (nullspace (kept_rows rows) w))) (cols name)),
      ch_count = length (nullspace (kept_rows rows) w)\<rparr>" by (rule conserved_charges_data [OF assms(1)])
  let ?N = "nullspace (kept_rows rows) w"
  note names = particle_names_Some [OF assms(2)]
  have anti: "a \<noteq> p \<and> p_name a \<noteq> p_name p \<and> q (p_name a) = - q (p_name p)"
    if "p \<in> set ps" "\<not> self_conjugate p" "particle_names ps (p_antiname p) = Some a" for p a
    using that assms(3,4) names [of "p_antiname p" a] unfolding additive_charge_def by metis
  have "\<exists>x. \<forall>n \<in> dom cols. q n = column_value cols x n"
    by (rule column_fold_represents [OF _ _ cw anti, of "\<lambda>_. 0"]) (simp_all add: columns_ok_def)
  then obtain x where x: "\<forall>n \<in> dom cols. q n = column_value cols x n" by blast
  have q: "q n = column_value cols x n" if n: "n \<in> dom (particle_names ps)" for n
  proof (cases "cols n")
    case None
    from n obtain p where p: "p \<in> set ps" "p_name p = n" using names by blast
    have "n \<notin> dom cols" using None by blast
    with column_fold_dom [of Map.empty ps "particle_names ps" 0] cw p have "self_conjugate p" by auto
    have "\<forall>p \<in> set ps. self_conjugate p \<longrightarrow> q (p_name p) = 0" using assms(4) unfolding additive_charge_def by (rule conjunct1)
    with p \<open>self_conjugate p\<close> None show ?thesis by (auto simp: column_value_def)
  qed (use x in blast)
  have "dot w x (map of_int row) = 0" if r: "row \<in> set rows" for row
  proof -
    from r obtain k where k: "k < length rows" "row = rows ! k" by (metis in_set_conv_nth)
    obtain i t where t: "terms ! k = (i, t)" by (cases "terms ! k")
    with d(2) k have row: "term_row (particle_names ps) cols w t = Inr row" and m: "(i, t) \<in> set terms"
      by (auto simp: list_all2_conv_all_nth) (metis nth_mem)
    note tr = term_row_dot [OF d(1) row, of x]
    then have sub: "set t \<subseteq> dom (particle_names ps)" by blast
    from tr have "dot w x (map of_int row) = (\<Sum>n \<leftarrow> t. column_value cols x n)" by blast
    also have "(\<Sum>n \<leftarrow> t. column_value cols x n) = (\<Sum>n \<leftarrow> t. q n)"
    proof (intro arg_cong [where f = sum_list] map_cong [OF refl])
      fix n assume "n \<in> set t"
      with sub have "n \<in> dom (particle_names ps)" by (rule subsetD)
      then show "column_value cols x n = q n" by (rule q [symmetric])
    qed
    also have "\<dots> = 0" using assms(4) m unfolding additive_charge_def by blast
    finally show ?thesis .
  qed
  with kept_rows_dot [OF d(3)] have kill: "\<forall>row \<in> set (kept_rows rows). dot w x (map of_int row) = 0" by blast
  have len: "\<forall>row \<in> set (kept_rows rows). length row = w" using d(3) by auto
  let ?f = "\<lambda>j. x (free_columns (foldl nullspace_step [] (kept_rows rows)) w ! j)"
  note span = nullspace_complete [OF len kill]
  have "\<exists>c. 0 < c \<and> (\<forall>n. of_int (charge_of ch n ! k) = c * column_value cols ((!) (?N ! k)) n)" if k: "k < length ?N" for k
  proof -
    have "length (?N ! k) = w" using nullspace_sound [OF len, of "?N ! k"] k by simp
    then show ?thesis by (rule charge_of_data [OF d(4) k _ d(1)]) blast
  qed
  then have "\<forall>k \<in> {..<length ?N}. \<exists>c. (0 :: rat) < c \<and> (\<forall>n. of_int (charge_of ch n ! k) = c * column_value cols ((!) (?N ! k)) n)"
    by blast
  from bchoice [OF this] obtain c where c0: "\<forall>k \<in> {..<length ?N}. (0 :: rat) < c k \<and>
    (\<forall>n. of_int (charge_of ch n ! k) = c k * column_value cols ((!) (?N ! k)) n)" by blast
  have c: "(0 :: rat) < c k" "of_int (charge_of ch n ! k) = c k * column_value cols ((!) (?N ! k)) n"
    if "k < length ?N" for k n
    using c0 that by simp_all
  have cnt: "ch_count ch = length ?N" by (simp add: d(4))
  have "q (p_name p) = (\<Sum>k<ch_count ch. (?f k / c k) * of_int (charge_of ch (p_name p) ! k))" if p: "p \<in> set ps" for p
  proof -
    let ?n = "p_name p"
    have "?n \<in> dom (particle_names ps)" using p names by blast
    then have "q ?n = column_value cols x ?n" by (rule q)
    also have "\<dots> = (\<Sum>k<length ?N. ?f k * column_value cols ((!) (?N ! k)) ?n)"
    proof (cases "cols ?n")
      case (Some cs)
      obtain col s where cs: "cs = (col, s)" by (cases cs)
      from Some d(1) have "col < w" unfolding columns_ok_def cs by blast
      from span [OF this] Some cs show ?thesis by (simp add: column_value_def sum_distrib_left mult.left_commute)
    qed (simp add: column_value_def)
    also have "\<dots> = (\<Sum>k<length ?N. (?f k / c k) * of_int (charge_of ch ?n ! k))"
    proof (intro sum.cong refl)
      fix k assume "k \<in> {..<length ?N}"
      then have k: "k < length ?N" by simp
      then have "c k \<noteq> 0" using c(1) [of k] by simp
      then show "?f k * column_value cols ((!) (?N ! k)) ?n = (?f k / c k) * of_int (charge_of ch ?n ! k)"
        by (simp add: c(2) [OF k])
    qed
    finally show ?thesis by (simp add: cnt)
  qed
  then show ?thesis by (intro exI [of _ "\<lambda>k. ?f k / c k"] ballI)
qed

section \<open>A small model\<close>

definition sample_particle :: "string \<Rightarrow> string \<Rightarrow> int \<Rightarrow> int \<Rightarrow> role_metadata \<Rightarrow> particle" where
  "sample_particle name anti pdg spin roles =
     \<lparr>p_name = name, p_antiname = anti, p_pdg_code = pdg, p_spin = spin, p_color = 1, p_mass = ''ZERO'',
      p_width = ''ZERO'', p_charge = Some 0, p_quantum_numbers = [(''electric_charge'', ''0'')], p_ghost_number = 0,
      p_propagating = True, p_goldstoneboson = False, p_propagator = None, p_component_dimension = None,
      p_auxiliary_kind = None, p_roles = roles\<rparr>"

definition sample_electron :: particle where
  "sample_electron = sample_particle ''e-'' ''e+'' 11 2
     \<lparr>r_statistics = Fermion, r_wavefunction_family = Fermion_Wf, r_color_role = Singlet,
      r_self_conjugate = False, r_source_orientation = Particle_Src\<rparr>"

definition sample_positron :: particle where
  "sample_positron = sample_particle ''e+'' ''e-'' (-11) 2
     \<lparr>r_statistics = Fermion, r_wavefunction_family = Fermion_Wf, r_color_role = Singlet,
      r_self_conjugate = False, r_source_orientation = Antiparticle_Src\<rparr>"

definition sample_photon :: particle where
  "sample_photon = sample_particle ''a'' ''a'' 22 3
     \<lparr>r_statistics = Boson, r_wavefunction_family = Vector_Wf, r_color_role = Singlet,
      r_self_conjugate = True, r_source_orientation = Self_Conjugate_Src\<rparr>"

definition sample_particles :: "particle list" where
  "sample_particles = [sample_photon, sample_electron, sample_positron]"

definition sample_terms :: "(int \<times> string list) list" where
  "sample_terms = [(0, [''e+'', ''e-'', ''a''])]"

lemma sample_charges:
  "\<exists>ch. conserved_charges sample_particles sample_terms = Inr ch \<and> ch_count ch = 1 \<and>
    charge_of ch ''e-'' = [1] \<and> charge_of ch ''e+'' = [-1] \<and> charge_of ch ''a'' = [0]"
proof -
  have n: "nullspace [] 1 = [[1]]" by code_simp
  have i: "integer_vector [1] = [1]" by code_simp
  have c: "foldl (column_step (particle_names sample_particles)) (Map.empty, 0) sample_particles =
      ([''e-'' \<mapsto> (0, 1), ''e+'' \<mapsto> (0, -1)], 1)"
    by (simp add: sample_particles_def particle_names_def column_step_def sample_electron_def sample_positron_def
        sample_photon_def sample_particle_def self_conjugate_def Let_def)
  show ?thesis
    by (simp add: conserved_charges_def c sample_terms_def term_row_def Let_def n i charge_of_def)
       (simp add: sample_particles_def particle_names_def sample_electron_def sample_positron_def
        sample_photon_def sample_particle_def n [unfolded One_nat_def] i)
qed

lemma charges_vanish_on_vertices_witness:
  "\<exists>ch. conserved_charges sample_particles sample_terms = Inr ch \<and> ch_count ch = 1 \<and>
     charge_total ch [''e+'', ''e-'', ''a''] = Inr [0]"
proof -
  obtain ch where ch: "conserved_charges sample_particles sample_terms = Inr ch" "ch_count ch = 1"
    using sample_charges by blast
  have "(0, [''e+'', ''e-'', ''a'']) \<in> set sample_terms" by (simp add: sample_terms_def)
  from charges_vanish_on_vertices [OF ch(1) this] ch show ?thesis by simp
qed

lemma charges_span_all_conserved_witness:
  "\<exists>ch coef. conserved_charges sample_particles sample_terms = Inr ch \<and>
     (\<forall>p \<in> set sample_particles. (if p_name p = ''e-'' then -1 else if p_name p = ''e+'' then 1 else (0 :: rat)) =
        (\<Sum>k<ch_count ch. coef k * of_int (charge_of ch (p_name p) ! k)))"
proof -
  let ?q = "\<lambda>n. if n = ''e-'' then -1 else if n = ''e+'' then 1 else (0 :: rat)"
  obtain ch where ch: "conserved_charges sample_particles sample_terms = Inr ch" using sample_charges by blast
  have a: "distinct (map p_name sample_particles)"
    "\<forall>p \<in> set sample_particles. self_conjugate p \<longleftrightarrow> p_name p = p_antiname p"
    by (simp_all add: sample_particles_def sample_electron_def sample_positron_def sample_photon_def
        sample_particle_def self_conjugate_def)
  have "additive_charge sample_particles sample_terms ?q"
    by (simp add: additive_charge_def sample_particles_def sample_terms_def particle_names_def
        sample_electron_def sample_positron_def sample_photon_def sample_particle_def self_conjugate_def)
  from charges_span_all_conserved [OF ch a this] ch show ?thesis by blast
qed

end
