(* ===== verification/Process_Expansion.thy ===== *)
theory Process_Expansion
  imports Conservation
begin

text \<open>
  Expansion of process sets over a model and the canonical process
  (\<open>processes/model.py\<close>, \<open>processes/ir.py\<close>).
\<close>

section \<open>Expansion with a charge prefilter\<close>

definition process_text :: "string list \<Rightarrow> string list \<Rightarrow> string" where
  "process_text initial final = join '' '' initial @ '' > '' @ join '' '' final"

text \<open>The charge key of a side: the empty tuple without charges.\<close>

definition side_key :: "conserved_charge_table option \<Rightarrow> string list \<Rightarrow> int list res" where
  "side_key charges side = (case charges of None \<Rightarrow> Inr [] | Some ch \<Rightarrow> charge_total ch side)"

definition group_finals ::
  "conserved_charge_table option \<Rightarrow> string list list \<Rightarrow> (int list \<times> string list list) list res" where
  "group_finals charges fs =
     foldE (\<lambda>finals final. bindE (side_key charges final) (\<lambda>key.
        Inr (AList.update key ((case map_of finals key of None \<Rightarrow> [] | Some l \<Rightarrow> l) @ [final]) finals))) [] fs"

definition split_collision :: "string \<Rightarrow> (string \<times> string) res" where
  "split_collision process =
     (case partition_char CHR ''>'' process of (initial_text, separator, final_text) \<Rightarrow>
        if \<not> separator \<or> CHR ''>'' \<in> set final_text
        then Inl (ValueError STR ''invalid collision format; expected 'initial > final' '')
        else Inr (initial_text, final_text))"

definition process_slots ::
  "(string \<rightharpoonup> string list) \<Rightarrow> catalog \<Rightarrow> string \<Rightarrow> (string list list \<times> string list list) res" where
  "process_slots aliases cat process =
     bindE (split_collision process) (\<lambda>(initial_text, final_text).
     bindE (expanded_slots initial_text aliases cat) (\<lambda>initial_slots.
     bindE (expanded_slots final_text aliases cat) (\<lambda>final_slots.
       if length initial_slots \<noteq> 2
       then Inl (ValueError STR ''pyAmpliCol processes require exactly two initial particles'')
       else if final_slots = []
       then Inl (ValueError STR ''pyAmpliCol processes require at least one final particle'')
       else Inr (initial_slots, final_slots))))"

text \<open>The body of the loop over the processes of the set, up to the rendering.\<close>

definition process_pairs ::
  "conserved_charge_table option \<Rightarrow> string list list \<times> string list list \<Rightarrow> (string list \<times> string list) list res" where
  "process_pairs charges = (\<lambda>(initial_slots, final_slots).
     bindE (group_finals charges (side_multisets final_slots)) (\<lambda>finals.
     bindE (mapE (\<lambda>initial. bindE (side_key charges initial) (\<lambda>key.
        Inr (map (\<lambda>final. (initial, final)) (case map_of finals key of None \<Rightarrow> [] | Some l \<Rightarrow> l))))
       (side_multisets initial_slots)) (\<lambda>blocks. Inr (concat blocks))))"

definition expansion_aliases ::
  "(string \<Rightarrow> bool) \<Rightarrow> catalog \<Rightarrow> (string \<times> string list) list option \<Rightarrow> string \<rightharpoonup> string list" where
  "expansion_aliases zero_expr cat multiparticles =
     map_of (default_multiparticles zero_expr cat)
     ++ (case multiparticles of None \<Rightarrow> Map.empty | Some ms \<Rightarrow> map_of (rev ms))"

definition expand_model_processes ::
  "(string \<Rightarrow> bool) \<Rightarrow> string \<Rightarrow> catalog \<Rightarrow> (string \<times> string list) list option \<Rightarrow>
   conserved_charge_table option \<Rightarrow> string list res" where
  "expand_model_processes zero_expr process_set cat multiparticles charges =
     bindE (split_process_set process_set) (\<lambda>processes.
     bindE (mapE (\<lambda>process.
        bindE (process_slots (expansion_aliases zero_expr cat multiparticles) cat process) (process_pairs charges))
        processes)
     (\<lambda>blocks. Inr (dedup (map (\<lambda>(i, f). process_text i f) (concat blocks)))))"

text \<open>The specification: all pairs of side representatives, filtered by charge balance.\<close>

definition balances :: "conserved_charge_table option \<Rightarrow> string list \<times> string list \<Rightarrow> bool" where
  "balances charges = (\<lambda>(i, f). (case charges of None \<Rightarrow> True | Some ch \<Rightarrow> charge_total ch i = charge_total ch f))"

definition reference_pairs ::
  "conserved_charge_table option \<Rightarrow> string list list \<times> string list list \<Rightarrow> (string list \<times> string list) list" where
  "reference_pairs charges = (\<lambda>(initial_slots, final_slots).
     filter (balances charges) (List.product (side_multisets initial_slots) (side_multisets final_slots)))"

definition charges_valid :: "conserved_charge_table option \<Rightarrow> bool" where
  "charges_valid charges = (case charges of None \<Rightarrow> True | Some ch \<Rightarrow> charges_ok ch)"

lemma side_key_total: "charges_valid charges \<Longrightarrow> \<exists>key. \<forall>side. side_key charges side = Inr (key side)"
proof (cases charges)
  case (Some ch)
  assume "charges_valid charges"
  then have "charges_ok ch" using Some by (simp add: charges_valid_def)
  from charge_total_eq [OF this] show ?thesis unfolding side_key_def Some option.case
    by (intro exI [of _ "\<lambda>names. map (\<lambda>k. \<Sum>n\<leftarrow>names. charge_of ch n ! k) [0..<ch_count ch]"]) simp
qed (auto simp: side_key_def)

lemma group_finals_spec:
  assumes "\<And>side. side_key charges side = Inr (key side)"
  shows "\<exists>g. group_finals charges fs = Inr g \<and>
    (\<forall>k. (case map_of g k of None \<Rightarrow> [] | Some l \<Rightarrow> l) = filter (\<lambda>f. key f = k) fs)"
proof -
  have "\<exists>g. foldE (\<lambda>finals final. bindE (side_key charges final) (\<lambda>key.
        Inr (AList.update key ((case map_of finals key of None \<Rightarrow> [] | Some l \<Rightarrow> l) @ [final]) finals))) g0 fs = Inr g \<and>
    (\<forall>k. (case map_of g k of None \<Rightarrow> [] | Some l \<Rightarrow> l) =
         (case map_of g0 k of None \<Rightarrow> [] | Some l \<Rightarrow> l) @ filter (\<lambda>f. key f = k) fs)" for g0
  proof (induction fs arbitrary: g0)
    case (Cons f fs)
    let ?g = "AList.update (key f) ((case map_of g0 (key f) of None \<Rightarrow> [] | Some l \<Rightarrow> l) @ [f]) g0"
    from Cons.IH [of ?g] obtain g where g: "foldE (\<lambda>finals final. bindE (side_key charges final) (\<lambda>key.
        Inr (AList.update key ((case map_of finals key of None \<Rightarrow> [] | Some l \<Rightarrow> l) @ [final]) finals))) ?g fs = Inr g"
      "\<forall>k. (case map_of g k of None \<Rightarrow> [] | Some l \<Rightarrow> l) =
         (case map_of ?g k of None \<Rightarrow> [] | Some l \<Rightarrow> l) @ filter (\<lambda>f. key f = k) fs" by blast
    have "(case map_of ?g k of None \<Rightarrow> [] | Some l \<Rightarrow> l) =
        (case map_of g0 k of None \<Rightarrow> [] | Some l \<Rightarrow> l) @ (if key f = k then [f] else [])" for k
      by (simp add: update_conv)
    with g assms show ?case by (intro exI [of _ g]) simp
  qed simp
  from this [of "[]"] show ?thesis by (simp add: group_finals_def)
qed

lemma process_pairs_reference:
  assumes "charges_valid charges"
  shows "process_pairs charges slots = Inr (reference_pairs charges slots)"
proof -
  obtain ins outs where slots: "slots = (ins, outs)" by (cases slots)
  from side_key_total [OF assms] obtain key where key: "\<And>side. side_key charges side = Inr (key side)" by blast
  from group_finals_spec [OF key] obtain g where g: "group_finals charges (side_multisets outs) = Inr g"
    "\<And>k. (case map_of g k of None \<Rightarrow> [] | Some l \<Rightarrow> l) = filter (\<lambda>f. key f = k) (side_multisets outs)" by metis
  have bal: "balances charges (i, f) \<longleftrightarrow> key f = key i" for i f
    using key by (cases charges) (auto simp: balances_def side_key_def)
  have "mapE (\<lambda>initial. bindE (side_key charges initial) (\<lambda>key.
        Inr (map (\<lambda>final. (initial, final)) (case map_of g key of None \<Rightarrow> [] | Some l \<Rightarrow> l)))) (side_multisets ins) =
      Inr (map (\<lambda>i. map (Pair i) (filter (\<lambda>f. key f = key i) (side_multisets outs))) (side_multisets ins))"
    by (rule mapE_total) (simp add: key g(2))
  moreover have "concat (map (\<lambda>i. map (Pair i) (filter (\<lambda>f. key f = key i) fs)) is') = filter (balances charges) (List.product is' fs)"
    for is' fs
    by (induction is') (simp_all add: filter_map comp_def bal)
  ultimately show ?thesis by (simp add: process_pairs_def reference_pairs_def slots g(1))
qed

text \<open>
  C27. Grouping the final states by charge key is a pure optimisation: with well-formed charges,
  \<open>expand_model_processes\<close> succeeds exactly when every process of the set has valid slots,
  and then returns, in order and without repetition, the texts of all pairs of side
  representatives whose charge totals agree; without charges, of all pairs.
\<close>
theorem charge_prefilter_equals_filter:
  assumes "charges_valid charges"
  shows "expand_model_processes zero_expr process_set cat multiparticles charges =
    bindE (split_process_set process_set) (\<lambda>processes.
    bindE (mapE (process_slots (expansion_aliases zero_expr cat multiparticles) cat) processes) (\<lambda>slots.
      Inr (dedup (map (\<lambda>(i, f). process_text i f) (concat (map (reference_pairs charges) slots))))))"
proof -
  have "mapE (\<lambda>process. bindE (S process) (process_pairs charges)) processes =
      bindE (mapE S processes) (\<lambda>slots. Inr (map (reference_pairs charges) slots))"
    for S :: "string \<Rightarrow> (string list list \<times> string list list) res" and processes
  proof (induction processes)
    case (Cons p ps)
    then show ?case
      by (cases "S p"; cases "mapE S ps") (simp_all add: process_pairs_reference [OF assms])
  qed simp
  then show ?thesis unfolding expand_model_processes_def by (simp add: bindE_assoc)
qed

lemma charge_prefilter_equals_filter_witness:
  "\<exists>ch. conserved_charges sample_particles sample_terms = Inr ch \<and> charges_valid (Some ch) \<and>
     expand_model_processes (\<lambda>_. False) ''e+ e- > a a'' \<lparr>c_model_name = ''QED'', c_particles = sample_particles, c_parameters = []\<rparr> None (Some ch) =
     bindE (split_process_set ''e+ e- > a a'') (\<lambda>processes.
     bindE (mapE (process_slots (expansion_aliases (\<lambda>_. False) \<lparr>c_model_name = ''QED'', c_particles = sample_particles, c_parameters = []\<rparr> None)
        \<lparr>c_model_name = ''QED'', c_particles = sample_particles, c_parameters = []\<rparr>) processes) (\<lambda>slots.
      Inr (dedup (map (\<lambda>(i, f). process_text i f) (concat (map (reference_pairs (Some ch)) slots))))))"
proof -
  obtain ch where ch: "conserved_charges sample_particles sample_terms = Inr ch" using sample_charges by blast
  have "charges_ok ch"
  proof (rule conserved_charges_data [OF ch])
    fix cols w rows
    assume "ch = \<lparr>ch_charges = (\<lambda>name. map_option (\<lambda>(column, sign). map (\<lambda>v. sign * v ! column)
        (map integer_vector (nullspace (kept_rows rows) w))) (cols name)),
      ch_count = length (nullspace (kept_rows rows) w)\<rparr>"
    then show "charges_ok ch" by (auto simp: charges_ok_def ran_def)
  qed
  then have v: "charges_valid (Some ch)" by (simp add: charges_valid_def)
  from charge_prefilter_equals_filter [OF v] ch v show ?thesis by blast
qed

section \<open>The canonical process\<close>

datatype leg_side = Initial_Side | Final_Side

record process_leg =
  l_label :: int
  l_side :: leg_side
  l_particle :: string
  l_outgoing_particle :: string
  l_pdg :: int
  l_outgoing_pdg :: int
  l_statistics :: statistics
  l_wavefunction_family :: wavefunction_family
  l_color_role :: color_role
  l_source_orientation :: source_orientation

definition leg_is_initial :: "process_leg \<Rightarrow> bool" where
  "leg_is_initial leg = (l_side leg = Initial_Side)"

definition leg_is_final :: "process_leg \<Rightarrow> bool" where
  "leg_is_final leg = (l_side leg = Final_Side)"

definition leg_is_colored :: "process_leg \<Rightarrow> bool" where
  "leg_is_colored leg = (l_color_role leg \<notin> {Singlet, Inclusive})"

definition leg_is_singlet :: "process_leg \<Rightarrow> bool" where
  "leg_is_singlet leg = (l_color_role leg = Singlet)"

record color_endpoints =
  e_fundamental_count :: nat
  e_antifundamental_count :: nat
  e_pair_count :: nat

definition endpoints_balanced :: "color_endpoints \<Rightarrow> bool" where
  "endpoints_balanced e = (e_fundamental_count e = e_antifundamental_count e)"

record process_ir =
  i_process :: string
  i_key :: string
  i_color_accuracy :: String.literal
  i_legs :: "process_leg list"
  i_color_endpoints :: color_endpoints

definition initial_legs :: "process_ir \<Rightarrow> process_leg list" where
  "initial_legs ir = filter leg_is_initial (i_legs ir)"

definition final_legs :: "process_ir \<Rightarrow> process_leg list" where
  "final_legs ir = filter leg_is_final (i_legs ir)"

definition outgoing_particles :: "process_ir \<Rightarrow> string list" where
  "outgoing_particles ir = map l_outgoing_particle (i_legs ir)"

definition outgoing_pdgs :: "process_ir \<Rightarrow> int list" where
  "outgoing_pdgs ir = map l_outgoing_pdg (i_legs ir)"

definition initial_pdgs :: "process_ir \<Rightarrow> int list" where
  "initial_pdgs ir = map l_pdg (initial_legs ir)"

definition final_pdgs :: "process_ir \<Rightarrow> int list" where
  "final_pdgs ir = map l_pdg (final_legs ir)"

definition labels_with_color_role :: "process_ir \<Rightarrow> color_role \<Rightarrow> int list" where
  "labels_with_color_role ir role = map l_label (filter (\<lambda>leg. l_color_role leg = role) (i_legs ir))"

definition fundamental_labels :: "process_ir \<Rightarrow> int list" where
  "fundamental_labels ir = labels_with_color_role ir Fundamental"

definition antifundamental_labels :: "process_ir \<Rightarrow> int list" where
  "antifundamental_labels ir = labels_with_color_role ir Antifundamental"

definition adjoint_labels :: "process_ir \<Rightarrow> int list" where
  "adjoint_labels ir = labels_with_color_role ir Adjoint"

definition singlet_labels :: "process_ir \<Rightarrow> int list" where
  "singlet_labels ir = labels_with_color_role ir Singlet"

definition has_inclusive_initial_state :: "process_ir \<Rightarrow> bool" where
  "has_inclusive_initial_state ir = (\<exists>leg \<in> set (initial_legs ir). l_color_role leg = Inclusive)"

record process_set_entry =
  se_key :: string
  se_process :: string
  se_ir :: process_ir

definition process_set_default_key :: "process_set_entry list \<Rightarrow> string res" where
  "process_set_default_key entries =
     (case entries of [] \<Rightarrow> Inl (ValueError STR ''process set is empty'') | e # _ \<Rightarrow> Inr (se_key e))"

definition model_leg :: "int \<Rightarrow> leg_side \<Rightarrow> particle \<Rightarrow> particle \<Rightarrow> process_leg res" where
  "model_leg label side particle outgoing =
     bindE (validate_process_role outgoing) (\<lambda>_.
       Inr \<lparr>l_label = label, l_side = side, l_particle = p_name particle, l_outgoing_particle = p_name outgoing,
         l_pdg = p_pdg_code particle, l_outgoing_pdg = p_pdg_code outgoing,
         l_statistics = r_statistics (p_roles outgoing), l_wavefunction_family = r_wavefunction_family (p_roles outgoing),
         l_color_role = r_color_role (p_roles outgoing), l_source_orientation = r_source_orientation (p_roles outgoing)\<rparr>)"

definition process_legs :: "particle list \<Rightarrow> particle list \<Rightarrow> particle list \<Rightarrow> process_leg list res" where
  "process_legs initial outgoing_initial final =
     bindE (mapE (\<lambda>(index, particle, outgoing). model_leg (int index + 1) Initial_Side particle outgoing)
       (zip [0..<length initial] (zip initial outgoing_initial))) (\<lambda>a.
     bindE (mapE (\<lambda>(index, particle). model_leg (int index + 3) Final_Side particle particle)
       (zip [0..<length final] final)) (\<lambda>b. Inr (a @ b)))"

definition count_role :: "process_leg list \<Rightarrow> color_role \<Rightarrow> nat" where
  "count_role legs role = length (filter (\<lambda>leg. l_color_role leg = role) legs)"

definition build_model_process_ir ::
  "string \<Rightarrow> string \<Rightarrow> particle list \<Rightarrow> model_parameter list \<Rightarrow> String.literal \<Rightarrow> process_ir res" where
  "build_model_process_ir process name particles parameters color_accuracy =
     bindE (make_catalog name particles parameters) (\<lambda>cat.
     bindE (split_collision process) (\<lambda>(initial_text, final_text).
     bindE (mapE (\<lambda>token. resolve cat token True) (split_ws initial_text)) (\<lambda>initial.
     bindE (mapE (\<lambda>token. resolve cat token True) (split_ws final_text)) (\<lambda>final.
       if length initial \<noteq> 2 \<or> final = []
       then Inl (ValueError STR ''process must have exactly two initial and at least one final particle'')
       else bindE (mapE (antiparticle cat) initial) (\<lambda>outgoing_initial.
         let canonical = process_text (map p_name initial) (map p_name final)
         in bindE (process_legs initial outgoing_initial final) (\<lambda>legs.
           Inr \<lparr>i_process = canonical, i_key = canonical_process_key canonical, i_color_accuracy = color_accuracy,
             i_legs = legs,
             i_color_endpoints = \<lparr>e_fundamental_count = count_role legs Fundamental,
               e_antifundamental_count = count_role legs Antifundamental,
               e_pair_count = min (count_role legs Fundamental) (count_role legs Antifundamental)\<rparr>\<rparr>))))))"

lemma resolve_exact:
  assumes "distinct (map p_name (c_particles cat))" "p \<in> set (external_particles cat)"
  shows "resolve cat (p_name p) True = Inr p"
proof -
  have d: "distinct (map p_name (external_particles cat))"
    using assms(1) unfolding external_particles_def by (rule distinct_map_filter)
  have "find (\<lambda>q. p_name q = p_name p) ps = Some p" if "distinct (map p_name ps)" "p \<in> set ps" for ps
    using that by (induction ps) force+
  with d assms(2) show ?thesis by (simp add: resolve_def)
qed

lemma resolve_member:
  assumes "resolve cat name True = Inr p"
  shows "p \<in> set (external_particles cat)"
proof (cases "find (\<lambda>p. p_name p = name) (external_particles cat)")
  case (Some q)
  with assms show ?thesis by (auto simp: resolve_def find_Some_iff)
next
  case None
  let ?c = "filter (\<lambda>p. lower (p_name p) = lower name) (external_particles cat)"
  from None assms obtain q where "?c = [q]" "p = q"
    by (auto simp: resolve_def Let_def split: list.splits)
  then have "p \<in> set ?c" by simp
  then show ?thesis by simp
qed

definition name_ok :: "string \<Rightarrow> bool" where
  "name_ok n \<longleftrightarrow> is_token n \<and> CHR ''>'' \<notin> set n"

lemma split_canonical:
  assumes "\<forall>n \<in> set ins. name_ok n" "\<forall>n \<in> set outs. name_ok n"
  shows "split_collision (process_text ins outs) = Inr (join '' '' ins @ '' '', '' '' @ join '' '' outs) \<and>
    split_ws (join '' '' ins @ '' '') = ins \<and> split_ws ('' '' @ join '' '' outs) = outs"
proof -
  have nogt: "CHR ''>'' \<notin> set (join '' '' ns)" if "\<forall>n \<in> set ns. name_ok n" for ns
    using set_join [of "'' ''" ns] that by (auto simp: name_ok_def)
  have "process_text ins outs = (join '' '' ins @ '' '') @ CHR ''>'' # ('' '' @ join '' '' outs)"
    by (simp add: process_text_def)
  moreover have "CHR ''>'' \<notin> set (join '' '' ins @ '' '')" "CHR ''>'' \<notin> set ('' '' @ join '' '' outs)"
    using nogt assms by simp_all
  ultimately have "split_collision (process_text ins outs) = Inr (join '' '' ins @ '' '', '' '' @ join '' '' outs)"
    unfolding split_collision_def by (simp only: partition_char_append prod.case if_False simp_thms)
  moreover have "split_ws (join '' '' ins @ '' '') = ins" "split_ws ('' '' @ join '' '' outs) = outs"
  proof -
    have "\<forall>n \<in> set ins. is_token n" "\<forall>n \<in> set outs. is_token n" using assms by (auto simp: name_ok_def)
    from split_ws_surround [OF this(1)] split_ws_join [OF this(2)] split_ws_leading [of "join '' '' outs"]
    show "split_ws (join '' '' ins @ '' '') = ins" "split_ws ('' '' @ join '' '' outs) = outs" by (simp_all only:)
  qed
  ultimately show ?thesis by blast
qed

lemma resolve_names:
  assumes "distinct (map p_name (c_particles cat))" "\<forall>p \<in> set ps. p \<in> set (external_particles cat)"
  shows "mapE (\<lambda>token. resolve cat token True) (map p_name ps) = Inr ps"
  using assms by (induction ps) (simp_all add: resolve_exact)

lemma model_legD:
  "model_leg label side p q = Inr leg \<Longrightarrow> l_label leg = label \<and> l_side leg = side \<and> l_particle leg = p_name p \<and>
     l_outgoing_particle leg = p_name q"
  by (auto simp: model_leg_def bindE_Inr_iff)

lemma mapE_legs:
  assumes "mapE (\<lambda>(index, particle, outgoing). model_leg (int index + k) side particle outgoing) (zip [a..<a + length ps] (zip ps os)) = Inr legs"
    "length os = length ps"
  shows "map l_label legs = map (\<lambda>i. int i + k) [a..<a + length ps] \<and> (\<forall>leg \<in> set legs. l_side leg = side) \<and>
    length legs = length ps \<and> (\<forall>i < length ps. l_particle (legs ! i) = p_name (ps ! i) \<and> l_outgoing_particle (legs ! i) = p_name (os ! i))"
proof -
  from assms(1) have la: "list_all2 (\<lambda>(index, particle, outgoing) leg. model_leg (int index + k) side particle outgoing = Inr leg)
      (zip [a..<a + length ps] (zip ps os)) legs"
    unfolding mapE_Inr_iff by (rule list_all2_mono) auto
  then have len: "length legs = length ps" using assms(2) by (auto dest: list_all2_lengthD)
  have leg: "model_leg (int (a + i) + k) side (ps ! i) (os ! i) = Inr (legs ! i)" if "i < length ps" for i
    using la that assms(2) by (auto simp: list_all2_conv_all_nth)
  have "l_label (legs ! i) = int (a + i) + k \<and> l_side (legs ! i) = side \<and> l_particle (legs ! i) = p_name (ps ! i) \<and>
      l_outgoing_particle (legs ! i) = p_name (os ! i)" if "i < length ps" for i
    using model_legD [OF leg [OF that]] by simp
  then show ?thesis using len by (auto simp: in_set_conv_nth intro!: nth_equalityI)
qed

lemma final_legs_zip:
  "mapE (\<lambda>(index, particle). model_leg (int index + k) side particle particle) (zip xs ps) =
   mapE (\<lambda>(index, particle, outgoing). model_leg (int index + k) side particle outgoing) (zip xs (zip ps ps))"
proof (induction xs arbitrary: ps)
  case (Cons x xs)
  then show ?case by (cases ps) simp_all
qed simp

lemma build_model_process_ir_data:
  assumes "build_model_process_ir process name ps qs acc = Inr ir"
  obtains ini out fin a b where "distinct (map p_name ps)"
    "\<forall>p \<in> set ini \<union> set fin. p \<in> set (external_particles \<lparr>c_model_name = name, c_particles = ps, c_parameters = qs\<rparr>)"
    "length ini = 2" "fin \<noteq> []"
    "mapE (antiparticle \<lparr>c_model_name = name, c_particles = ps, c_parameters = qs\<rparr>) ini = Inr out"
    "process_legs ini out fin = Inr (a @ b)"
    "mapE (\<lambda>(index, particle, outgoing). model_leg (int index + 1) Initial_Side particle outgoing) (zip [0..<0 + length ini] (zip ini out)) = Inr a"
    "mapE (\<lambda>(index, particle, outgoing). model_leg (int index + 3) Final_Side particle outgoing) (zip [0..<0 + length fin] (zip fin fin)) = Inr b"
    "ir = \<lparr>i_process = process_text (map p_name ini) (map p_name fin),
      i_key = canonical_process_key (process_text (map p_name ini) (map p_name fin)), i_color_accuracy = acc,
      i_legs = a @ b, i_color_endpoints = \<lparr>e_fundamental_count = count_role (a @ b) Fundamental,
        e_antifundamental_count = count_role (a @ b) Antifundamental,
        e_pair_count = min (count_role (a @ b) Fundamental) (count_role (a @ b) Antifundamental)\<rparr>\<rparr>"
proof -
  let ?cat = "\<lparr>c_model_name = name, c_particles = ps, c_parameters = qs\<rparr>"
  from assms obtain cat where cat: "make_catalog name ps qs = Inr cat" by (auto simp: build_model_process_ir_def bindE_Inr_iff)
  then have c: "cat = ?cat" "distinct (map p_name ps)" by (auto simp: make_catalog_def bindE_Inr_iff split: if_splits)
  from assms cat obtain it ft where sp: "split_collision process = Inr (it, ft)"
    by (auto simp: build_model_process_ir_def bindE_Inr_iff)
  from assms cat sp obtain ini fin where
    ri: "mapE (\<lambda>token. resolve cat token True) (split_ws it) = Inr ini" and
    rf: "mapE (\<lambda>token. resolve cat token True) (split_ws ft) = Inr fin"
    by (auto simp: build_model_process_ir_def bindE_Inr_iff)
  note as = assms [unfolded build_model_process_ir_def cat sp bindE_simps prod.case ri rf]
  then have l: "length ini = 2" "fin \<noteq> []" by (auto split: if_splits)
  then have nl: "\<not> (length ini \<noteq> 2 \<or> fin = [])" by simp
  from as nl obtain out legs where o: "mapE (antiparticle cat) ini = Inr out" "process_legs ini out fin = Inr legs"
    by (auto simp: bindE_Inr_iff Let_def)
  from o(2) obtain a b where ab:
    "mapE (\<lambda>(index, particle, outgoing). model_leg (int index + 1) Initial_Side particle outgoing) (zip [0..<0 + length ini] (zip ini out)) = Inr a"
    "mapE (\<lambda>(index, particle, outgoing). model_leg (int index + 3) Final_Side particle outgoing) (zip [0..<0 + length fin] (zip fin fin)) = Inr b"
    "legs = a @ b"
    by (auto simp: process_legs_def bindE_Inr_iff final_legs_zip)
  have mem: "\<forall>p \<in> set xs. p \<in> set (external_particles cat)" if "mapE (\<lambda>token. resolve cat token True) ts = Inr xs" for ts xs
  proof
    fix p assume "p \<in> set xs"
    then obtain k where k: "k < length xs" "xs ! k = p" unfolding in_set_conv_nth by blast
    from that have "list_all2 (\<lambda>t x. resolve cat t True = Inr x) ts xs" by (simp only: mapE_Inr_iff)
    then have "resolve cat (ts ! k) True = Inr p" using k by (simp add: list_all2_conv_all_nth)
    then show "p \<in> set (external_particles cat)" by (rule resolve_member)
  qed
  have m: "\<forall>p \<in> set ini \<union> set fin. p \<in> set (external_particles ?cat)" using mem [OF ri] mem [OF rf] c(1) by blast
  have ir: "ir = \<lparr>i_process = process_text (map p_name ini) (map p_name fin),
      i_key = canonical_process_key (process_text (map p_name ini) (map p_name fin)), i_color_accuracy = acc,
      i_legs = a @ b, i_color_endpoints = \<lparr>e_fundamental_count = count_role (a @ b) Fundamental,
        e_antifundamental_count = count_role (a @ b) Antifundamental,
        e_pair_count = min (count_role (a @ b) Fundamental) (count_role (a @ b) Antifundamental)\<rparr>\<rparr>"
    using as by (simp add: l o ab(3) Let_def)
  show thesis
    by (rule that [OF c(2) m l _ _ ab(1,2) ir]) (use o c(1) ab(3) in simp_all)
qed

text \<open>
  C28. The canonical process is a fixed point and well formed: when no particle name contains
  white space or \<open>>\<close>, rebuilding from the canonical text of a built process gives the same
  process; the legs are labelled 1, 2, ... in order, two initial legs first; every initial leg
  carries the antiparticle as its all-outgoing particle and every final leg the particle
  itself; and the endpoint summary is balanced exactly when there are as many fundamental as
  antifundamental labels.
\<close>
theorem canonical_process_fixpoint:
  assumes "build_model_process_ir process name ps qs acc = Inr ir" "\<forall>p \<in> set ps. name_ok (p_name p)"
  shows "build_model_process_ir (i_process ir) name ps qs acc = Inr ir \<and>
    map l_label (i_legs ir) = map (\<lambda>k. int k + 1) [0..<length (i_legs ir)] \<and>
    i_legs ir = initial_legs ir @ final_legs ir \<and> length (initial_legs ir) = 2 \<and> final_legs ir \<noteq> [] \<and>
    (\<forall>leg \<in> set (initial_legs ir). \<exists>p \<in> set ps. p_name p = l_particle leg \<and> p_antiname p = l_outgoing_particle leg) \<and>
    (\<forall>leg \<in> set (final_legs ir). l_outgoing_particle leg = l_particle leg) \<and>
    (endpoints_balanced (i_color_endpoints ir) \<longleftrightarrow>
      length (fundamental_labels ir) = length (antifundamental_labels ir))"
proof -
  let ?cat = "\<lparr>c_model_name = name, c_particles = ps, c_parameters = qs\<rparr>"
  obtain ini out fin a b where d: "distinct (map p_name ps)"
    "\<forall>p \<in> set ini \<union> set fin. p \<in> set (external_particles ?cat)" "length ini = 2" "fin \<noteq> []"
    "mapE (antiparticle ?cat) ini = Inr out" "process_legs ini out fin = Inr (a @ b)"
    and la: "mapE (\<lambda>(index, particle, outgoing). model_leg (int index + 1) Initial_Side particle outgoing) (zip [0..<0 + length ini] (zip ini out)) = Inr a"
    and lb: "mapE (\<lambda>(index, particle, outgoing). model_leg (int index + 3) Final_Side particle outgoing) (zip [0..<0 + length fin] (zip fin fin)) = Inr b"
    and ir: "ir = \<lparr>i_process = process_text (map p_name ini) (map p_name fin),
      i_key = canonical_process_key (process_text (map p_name ini) (map p_name fin)), i_color_accuracy = acc,
      i_legs = a @ b, i_color_endpoints = \<lparr>e_fundamental_count = count_role (a @ b) Fundamental,
        e_antifundamental_count = count_role (a @ b) Antifundamental,
        e_pair_count = min (count_role (a @ b) Fundamental) (count_role (a @ b) Antifundamental)\<rparr>\<rparr>"
    by (rule build_model_process_ir_data [OF assms(1)])
  have lo: "list_all2 (\<lambda>p q. antiparticle ?cat p = Inr q) ini out" using d(5) by (simp only: mapE_Inr_iff)
  then have len: "length out = length ini" by (auto dest: list_all2_lengthD)
  note A = mapE_legs [OF la len] and B = mapE_legs [OF lb refl]
  have ext: "p \<in> set ps" if "p \<in> set ini \<union> set fin" for p using d(2) that by (auto simp: external_particles_def)
  have fa: "filter leg_is_initial a = a" "filter leg_is_final a = []"
    using A by (auto simp: leg_is_initial_def leg_is_final_def filter_empty_conv intro: filter_True)
  have fb: "filter leg_is_initial b = []" "filter leg_is_final b = b"
    using B by (auto simp: leg_is_initial_def leg_is_final_def filter_empty_conv intro: filter_True)
  have ini: "initial_legs ir = a" and fin: "final_legs ir = b"
    by (simp_all add: ir initial_legs_def final_legs_def fa fb)
  have la2: "length a = 2" and lb0: "b \<noteq> []" using A B d(3,4) by auto
  have catok: "make_catalog name ps qs = Inr ?cat"
    using assms(1) d(1) by (auto simp: build_model_process_ir_def make_catalog_def bindE_Inr_iff)
  have nok: "\<forall>n \<in> set (map p_name ini). name_ok n" "\<forall>n \<in> set (map p_name fin). name_ok n"
    using assms(2) ext by auto
  note sp = split_canonical [OF nok]
  have rn: "mapE (\<lambda>token. resolve ?cat token True) (map p_name ini) = Inr ini"
    "mapE (\<lambda>token. resolve ?cat token True) (map p_name fin) = Inr fin"
    by (rule resolve_names; use d(1,2) in simp)+
  have "build_model_process_ir (process_text (map p_name ini) (map p_name fin)) name ps qs acc = Inr ir"
    unfolding build_model_process_ir_def catok bindE_simps sp [THEN conjunct1] prod.case
      sp [THEN conjunct2, THEN conjunct1] sp [THEN conjunct2, THEN conjunct2] rn d(5)
    using d(3,4,6) ir by (simp add: Let_def)
  moreover have "map l_label (a @ b) = map (\<lambda>k. int k + 1) [0..<length (a @ b)]"
  proof -
    have "[0..<length (a @ b)] = [0..<2] @ map (\<lambda>k. k + 2) [0..<length b]"
      using la2 by (intro nth_equalityI) (auto simp: nth_append simp del: upt_Suc)
    then show ?thesis using A B d(3) la2 by (simp add: comp_def numeral_2_eq_2)
  qed
  moreover have "\<exists>p \<in> set ps. p_name p = l_particle leg \<and> p_antiname p = l_outgoing_particle leg" if "leg \<in> set a" for leg
  proof -
    from that obtain k where k: "k < length a" "leg = a ! k" by (metis in_set_conv_nth)
    with A have k': "k < length ini" "l_particle leg = p_name (ini ! k)" "l_outgoing_particle leg = p_name (out ! k)" by auto
    from lo k'(1) have "antiparticle ?cat (ini ! k) = Inr (out ! k)" by (simp add: list_all2_conv_all_nth)
    then have "by_name ?cat (p_antiname (ini ! k)) = Some (out ! k)" by (auto simp: antiparticle_def split: option.splits)
    then have "(p_antiname (ini ! k), out ! k) \<in> set (map (\<lambda>p. (p_name p, p)) ps)"
      by (auto simp: by_name_def dest!: map_of_SomeD)
    then show ?thesis using k' ext [of "ini ! k"] by auto
  qed
  moreover have "l_outgoing_particle leg = l_particle leg" if "leg \<in> set b" for leg
    using that B by (metis in_set_conv_nth)
  moreover have "endpoints_balanced (i_color_endpoints ir) \<longleftrightarrow> length (fundamental_labels ir) = length (antifundamental_labels ir)"
    by (simp add: ir endpoints_balanced_def fundamental_labels_def antifundamental_labels_def labels_with_color_role_def count_role_def)
  ultimately show ?thesis using la2 lb0 by (simp add: ini fin) (simp add: ir)
qed

lemma sample_build:
  "\<exists>ir. build_model_process_ir ''e+  E- > a a'' ''QED'' sample_particles [] STR ''lc'' = Inr ir \<and> i_process ir = ''e+ e- > a a''"
proof -
  have "(case build_model_process_ir ''e+  E- > a a'' ''QED'' sample_particles [] STR ''lc'' of
      Inr ir \<Rightarrow> i_process ir = ''e+ e- > a a'' | Inl _ \<Rightarrow> False)" by code_simp
  then show ?thesis by (cases "build_model_process_ir ''e+  E- > a a'' ''QED'' sample_particles [] STR ''lc''") auto
qed

lemma canonical_process_fixpoint_witness:
  "\<exists>ir. build_model_process_ir ''e+  E- > a a'' ''QED'' sample_particles [] STR ''lc'' = Inr ir \<and>
     build_model_process_ir ''e+ e- > a a'' ''QED'' sample_particles [] STR ''lc'' = Inr ir \<and> length (initial_legs ir) = 2"
proof -
  obtain ir where ir: "build_model_process_ir ''e+  E- > a a'' ''QED'' sample_particles [] STR ''lc'' = Inr ir"
    "i_process ir = ''e+ e- > a a''" using sample_build by blast
  have "\<forall>p \<in> set sample_particles. name_ok (p_name p)" by code_simp
  from canonical_process_fixpoint [OF ir(1) this] ir show ?thesis by auto
qed

end
