(* ===== verification/Color_Sector.thy ===== *)
theory Color_Sector
  imports Process_Expansion
begin

text \<open>
  Colour sectors (\<open>color/plan_types.py\<close>): open colour lines, the colour word of a sector, the
  traversal words accepted during current construction and the canonical closure traversal.
\<close>

section \<open>Records\<close>

record open_line =
  ol_fundamental :: int
  ol_antifundamental :: int
  ol_adjoint :: "int list"
  ol_singlet :: "int list"

definition line_coloured_labels :: "open_line \<Rightarrow> int list" where
  "line_coloured_labels l = ol_fundamental l # ol_adjoint l @ [ol_antifundamental l]"

definition line_labels :: "open_line \<Rightarrow> int list" where
  "line_labels l = line_coloured_labels l @ ol_singlet l"

datatype sector_kind = Singlet_Sector | Open_Lines | Single_Trace

record sector =
  sc_id :: nat
  sc_kind :: sector_kind
  sc_lines :: "open_line list"
  sc_trace :: "int list"
  sc_singlets :: "int list"
  sc_word :: "int list"

definition coloured_label_groups :: "sector \<Rightarrow> int list list" where
  "coloured_label_groups s =
     (case sc_kind s of
        Open_Lines \<Rightarrow> map line_coloured_labels (sc_lines s)
      | Single_Trace \<Rightarrow> [sc_trace s]
      | Singlet_Sector \<Rightarrow> [])"

definition line_label_groups :: "sector \<Rightarrow> int list list" where
  "line_label_groups s =
     (case sc_kind s of
        Open_Lines \<Rightarrow> map line_coloured_labels (sc_lines s)
      | Single_Trace \<Rightarrow> [sc_trace s @ sc_singlets s]
      | Singlet_Sector \<Rightarrow> [sc_singlets s])"

definition color_words :: "sector \<Rightarrow> int list list" where
  "color_words s =
     (if sc_word s \<noteq> [] then [sc_word s]
      else case sc_kind s of
        Open_Lines \<Rightarrow> [concat (map line_coloured_labels (sc_lines s))]
      | Single_Trace \<Rightarrow> [sc_trace s]
      | Singlet_Sector \<Rightarrow> [[]])"

definition primary_word :: "sector \<Rightarrow> int list" where
  "primary_word s = hd (color_words s)"

text \<open>
  \<open>_canonical_open_string_product_key\<close>: the unordered identity of a product of complete open
  strings.
\<close>

definition open_string_key :: "open_line \<Rightarrow> int \<times> int list \<times> int \<times> int list" where
  "open_string_key l = (ol_fundamental l, ol_adjoint l, ol_antifundamental l, ol_singlet l)"

definition open_string_product_key :: "open_line list \<Rightarrow> (int \<times> int list \<times> int \<times> int list) list" where
  "open_string_product_key ls = sort (map open_string_key ls)"

section \<open>Open-line blocks\<close>

text \<open>
  The loop of \<open>_ordered_open_line_blocks\<close>: the first remaining line whose coloured labels
  stand at the current offset is taken; \<open>selects\<close> pairs a line with the list it is popped
  from.
\<close>

function blocks_loop :: "int list \<Rightarrow> open_line list \<Rightarrow> int list list option" where
  "blocks_loop [] remaining = (if remaining = [] then Some [] else None)"
| "blocks_loop (w # ws) remaining =
     (case find (\<lambda>(l, _). take (length (line_coloured_labels l)) (w # ws) = line_coloured_labels l) (selects remaining) of
        None \<Rightarrow> None
      | Some (l, rest) \<Rightarrow>
          map_option ((#) (line_coloured_labels l)) (blocks_loop (drop (length (line_coloured_labels l)) (w # ws)) rest))"
  by pat_completeness auto
termination
  by (relation "measure (\<lambda>(w, r). length r)") (auto dest!: find_SomeD selects_length)

definition ordered_open_line_blocks :: "int list \<Rightarrow> open_line list \<Rightarrow> int list list option" where
  "ordered_open_line_blocks word ls = blocks_loop word ls"

lemma blocks_loop_spec:
  "blocks_loop w ls = Some bs \<Longrightarrow> concat bs = w \<and> mset bs = mset (map line_coloured_labels ls)"
proof (induction w ls arbitrary: bs rule: blocks_loop.induct)
  case (1 remaining)
  then show ?case by (simp split: if_splits)
next
  case (2 w ws remaining)
  let ?P = "\<lambda>(l, _). take (length (line_coloured_labels l)) (w # ws) = line_coloured_labels l"
  from "2.prems" obtain l rest where f: "find ?P (selects remaining) = Some (l, rest)"
    by (auto split: option.splits)
  with "2.prems" obtain bs' where bs: "blocks_loop (drop (length (line_coloured_labels l)) (w # ws)) rest = Some bs'"
    "bs = line_coloured_labels l # bs'" by auto
  from "2.IH" [OF f refl bs(1)] have IH: "concat bs' = drop (length (line_coloured_labels l)) (w # ws)"
    "mset bs' = mset (map line_coloured_labels rest)" by blast+
  from f have t: "take (length (line_coloured_labels l)) (w # ws) = line_coloured_labels l"
    and m: "(l, rest) \<in> set (selects remaining)" by (auto dest!: find_SomeD)
  have "concat bs = w # ws" using IH(1) t bs(2) by (metis append_take_drop_id concat.simps(2))
  moreover have "mset bs = mset (map line_coloured_labels remaining)"
    using IH(2) selects_mset [OF m] bs(2) by simp
  ultimately show ?case ..
qed

text \<open>A word that lists the blocks of distinct lines in their order is recognised.\<close>

lemma blocks_loop_complete:
  assumes "distinct (concat (map line_coloured_labels ls))"
  shows "mset ps = mset ls \<Longrightarrow> blocks_loop (concat (map line_coloured_labels ps)) ls = Some (map line_coloured_labels ps)"
  using assms
proof (induction ps arbitrary: ls)
  case (Cons p ps)
  let ?b = "line_coloured_labels"
  let ?w = "?b p @ concat (map ?b ps)"
  have p: "p \<in> set ls" using Cons.prems(1) by (metis list.set_intros(1) mset_eq_setD)
  have only: "l = p" if l: "l \<in> set ls" "take (length (?b l)) ?w = ?b l" for l
  proof (rule ccontr)
    assume "l \<noteq> p"
    have "hd (?b l) = hd ?w" using l(2) by (simp add: line_coloured_labels_def)
    then have "ol_fundamental l = ol_fundamental p" by (simp add: line_coloured_labels_def)
    then have "ol_fundamental l \<in> set (?b l) \<inter> set (?b p)" by (simp add: line_coloured_labels_def)
    moreover have "?b l \<noteq> ?b p \<Longrightarrow> set (?b l) \<inter> set (?b p) = {}"
      using Cons.prems(2) l(1) p unfolding distinct_concat_iff by auto
    moreover have "?b l = ?b p \<Longrightarrow> False"
    proof -
      assume e: "?b l = ?b p"
      from l(1) p \<open>l \<noteq> p\<close> have "\<not> distinct (concat (map ?b ls))"
      proof (induction ls)
        case (Cons x xs)
        show ?case
        proof (cases "x = l \<or> x = p")
          case True
          with Cons.prems have "l \<in> set xs \<or> p \<in> set xs" by auto
          with True e have "\<exists>y \<in> set xs. ?b y = ?b x" by metis
          then have "set (?b x) \<inter> set (concat (map ?b xs)) \<noteq> {}" by (force simp: line_coloured_labels_def)
          then show ?thesis by auto
        next
          case False
          with Cons show ?thesis by auto
        qed
      qed simp
      with Cons.prems(2) show False by blast
    qed
    ultimately show False by blast
  qed
  obtain rest where r: "(p, rest) \<in> set (selects ls)" using selects_ex [OF p] by blast
  let ?P = "\<lambda>(l, _ :: open_line list). take (length (?b l)) ?w = ?b l"
  have "?P (p, rest)" by simp
  then have "find ?P (selects ls) \<noteq> None" using r unfolding find_None_iff by blast
  then obtain l rest' where f: "find ?P (selects ls) = Some (l, rest')" by auto
  then have m: "(l, rest') \<in> set (selects ls)" and t: "take (length (?b l)) ?w = ?b l"
    by (auto dest!: find_SomeD)
  have "l \<in> set ls" using selects_mset [OF m] by (metis set_mset_add_mset_insert insertI1 set_mset_mset)
  from only [OF this t] have lp: "l = p" .
  have ms: "mset ps = mset rest'" using selects_mset [OF m] Cons.prems(1) lp by simp
  have d: "distinct (concat (map ?b rest'))"
  proof -
    have "mset (concat (map ?b ls)) = mset (?b l) + mset (concat (map ?b rest'))"
      using selects_mset [OF m] by (simp add: mset_concat image_mset.compositionality [symmetric] flip: sum_mset_sum_list)
    then show ?thesis using Cons.prems(2) by (metis distinct_append mset_append mset_eq_imp_distinct_iff)
  qed
  obtain w ws where w: "?w = w # ws" by (simp add: line_coloured_labels_def)
  have "blocks_loop (w # ws) ls = map_option ((#) (?b p)) (blocks_loop (drop (length (?b p)) (w # ws)) rest')"
    using f unfolding w lp blocks_loop.simps(2) by (simp only: option.case prod.case)
  then have "blocks_loop ?w ls = map_option ((#) (?b p)) (blocks_loop (concat (map ?b ps)) rest')"
    unfolding w [symmetric] by simp
  with Cons.IH [OF ms d] show ?case by simp
qed simp

section \<open>Traversal words\<close>

definition admissible_traversal_words :: "sector \<Rightarrow> int list list" where
  "admissible_traversal_words s =
     (if sc_kind s \<noteq> Open_Lines \<or> length (sc_lines s) < 2 then color_words s
      else case ordered_open_line_blocks (primary_word s) (sc_lines s) of
          None \<Rightarrow> color_words s
        | Some blocks \<Rightarrow>
            (if length blocks < 2 then color_words s
             else primary_word s # dedup_on (\<lambda>w. w) [primary_word s] (map concat (perms blocks))))"

lemma color_words_single: "color_words s = [primary_word s]"
  by (simp add: color_words_def primary_word_def split: sector_kind.split)

lemma mset_map_order: "mset bs = mset (map f ls) \<Longrightarrow> \<exists>ps. mset ps = mset ls \<and> map f ps = bs"
proof (induction bs arbitrary: ls)
  case (Cons b bs)
  have "b \<in> set (map f ls)" using Cons.prems by (metis list.set_intros(1) mset_eq_setD)
  then obtain x where x: "x \<in> set ls" "f x = b" by auto
  obtain us vs where ls: "ls = us @ x # vs" using x(1) by (meson split_list)
  have "mset bs = mset (map f (us @ vs))" using Cons.prems x(2) by (simp add: ls)
  then obtain ps where "mset ps = mset (us @ vs)" "map f ps = bs" using Cons.IH [of "us @ vs"] by blast
  then show ?case using x(2) by (intro exI [of _ "x # ps"]) (simp add: ls)
qed simp

text \<open>
  C34. The words accepted during current construction never repeat and always contain the colour
  word of the sector; for an open-line sector of at least two lines whose word traverses its
  lines they are exactly the concatenations of the complete line blocks in every order, and when
  no label occurs twice the block decoder reads each of these orders back from its word.
\<close>
theorem admissible_words_are_block_orders:
  "distinct (admissible_traversal_words s) \<and> primary_word s \<in> set (admissible_traversal_words s) \<and>
   (\<forall>blocks. sc_kind s = Open_Lines \<longrightarrow> 2 \<le> length (sc_lines s) \<longrightarrow>
      ordered_open_line_blocks (primary_word s) (sc_lines s) = Some blocks \<longrightarrow>
      set (admissible_traversal_words s) = concat ` {bs. mset bs = mset (map line_coloured_labels (sc_lines s))} \<and>
      (distinct (primary_word s) \<longrightarrow> (\<forall>bs. mset bs = mset (map line_coloured_labels (sc_lines s)) \<longrightarrow>
         ordered_open_line_blocks (concat bs) (sc_lines s) = Some bs)))"
proof (intro conjI allI impI)
  have d: "distinct (dedup_on (\<lambda>w. w) seen xs)" for seen and xs :: "int list list"
    using dedup_on_distinct [of "\<lambda>w. w" seen xs] by simp
  have n: "w \<notin> set (dedup_on (\<lambda>w. w) [w] xs)" for w and xs :: "int list list"
    using dedup_on_keys [of "\<lambda>w. w" "[w]" xs] by auto
  show "distinct (admissible_traversal_words s)" "primary_word s \<in> set (admissible_traversal_words s)"
    by (auto simp: admissible_traversal_words_def color_words_single d n split: option.split)
  fix blocks
  assume k: "sc_kind s = Open_Lines" "2 \<le> length (sc_lines s)"
    and b: "ordered_open_line_blocks (primary_word s) (sc_lines s) = Some blocks"
  from blocks_loop_spec [of "primary_word s" "sc_lines s" blocks] b have sp: "concat blocks = primary_word s"
    "mset blocks = mset (map line_coloured_labels (sc_lines s))" by (auto simp: ordered_open_line_blocks_def)
  then have "length blocks = length (sc_lines s)" by (metis mset_eq_length length_map)
  with k b have "admissible_traversal_words s = primary_word s # dedup_on (\<lambda>w. w) [primary_word s] (map concat (perms blocks))"
    by (simp add: admissible_traversal_words_def)
  then have "set (admissible_traversal_words s) = insert (primary_word s) (concat ` set (perms blocks) - {primary_word s})"
    using dedup_on_keys [of "\<lambda>w. w" "[primary_word s]" "map concat (perms blocks)"] by simp
  also have "\<dots> = insert (primary_word s) (concat ` set (perms blocks))" by blast
  also have "\<dots> = concat ` set (perms blocks)"
  proof (rule insert_absorb)
    have "blocks \<in> set (perms blocks)" by (simp add: set_perms)
    then show "primary_word s \<in> concat ` set (perms blocks)" using sp(1) by (metis imageI)
  qed
  finally show "set (admissible_traversal_words s) = concat ` {bs. mset bs = mset (map line_coloured_labels (sc_lines s))}"
    by (simp add: set_perms sp(2))
  fix bs assume d: "distinct (primary_word s)" and bs: "mset bs = mset (map line_coloured_labels (sc_lines s))"
  obtain ps where ps: "mset ps = mset (sc_lines s)" "map line_coloured_labels ps = bs"
    using mset_map_order [OF bs] by blast
  have "mset (concat (map line_coloured_labels (sc_lines s))) = mset (primary_word s)"
    unfolding sp(1) [symmetric] using sp(2) by (metis mset_concat mset_map sum_mset_sum_list)
  then have "distinct (concat (map line_coloured_labels (sc_lines s)))" using d by (metis mset_eq_imp_distinct_iff)
  from blocks_loop_complete [OF this ps(1)] ps(2) show "ordered_open_line_blocks (concat bs) (sc_lines s) = Some bs"
    by (simp add: ordered_open_line_blocks_def)
qed

section \<open>The canonical closure traversal\<close>

definition find_positions :: "('a \<Rightarrow> bool) \<Rightarrow> 'a list \<Rightarrow> nat list" where
  "find_positions P xs = filter (\<lambda>i. P (xs ! i)) [0..<length xs]"

definition canonical_closure_blocks :: "sector \<Rightarrow> process_ir \<Rightarrow> int list list res" where
  "canonical_closure_blocks s process =
     (let primary = primary_word s
      in if sc_kind s \<noteq> Open_Lines \<or> sc_lines s = [] then Inr [primary]
         else case ordered_open_line_blocks primary (sc_lines s) of
             None \<Rightarrow> Inl (ValueError STR ''colour word is not a complete open-line block traversal'')
           | Some blocks \<Rightarrow>
               (if length blocks \<noteq> length (sc_lines s)
                then Inl (ValueError STR ''colour word is not a complete open-line block traversal'')
                else let coloured = concat blocks
                     in if \<not> set coloured \<subseteq> set (map l_label (i_legs process))
                        then Inl (ValueError STR ''closure line references unknown external labels'')
                        else if coloured = [] \<or> i_legs process = [] then Inr blocks
                        else case find (\<lambda>l. l \<in> set coloured) (map l_label (i_legs process)) of
                            None \<Rightarrow> Inr blocks
                          | Some label \<Rightarrow>
                              (case find_positions (\<lambda>b. label \<in> set b) blocks of
                                 [] \<Rightarrow> Inr blocks
                               | [pos] \<Rightarrow> Inr (drop pos blocks @ take pos blocks)
                               | _ \<Rightarrow> Inl (ValueError STR ''distinguished source label belongs to several open-line blocks''))))"

definition canonical_closure_traversal_word :: "sector \<Rightarrow> process_ir \<Rightarrow> int list res" where
  "canonical_closure_traversal_word s process = bindE (canonical_closure_blocks s process) (\<lambda>bs. Inr (concat bs))"

definition canonical_closure_sink_label :: "sector \<Rightarrow> process_ir \<Rightarrow> int option res" where
  "canonical_closure_sink_label s process =
     bindE (canonical_closure_traversal_word s process) (\<lambda>w. Inr (if w = [] then None else Some (last w)))"

lemma filter_upt_eq: "k < n \<Longrightarrow> filter (\<lambda>i. i = k) [0..<n] = [k]"
  by (induction n) (auto simp: less_Suc_eq filter_empty_conv)

lemma find_positions_distinct_concat:
  assumes "distinct (concat bs)" "x \<in> set (concat bs)"
  shows "\<exists>k < length bs. find_positions (\<lambda>b. x \<in> set b) bs = [k] \<and> x \<in> set (bs ! k)"
proof -
  from assms(2) obtain k where k: "k < length bs" "x \<in> set (bs ! k)" by (auto simp: in_set_conv_nth [of _ bs])
  have u: "j = k" if "j < length bs" "x \<in> set (bs ! j)" for j
  proof (rule ccontr)
    assume "j \<noteq> k"
    then have "count (mset (concat bs)) x \<ge> 2"
    proof -
      have "mset (concat bs) = (\<Sum>i\<in>{0..<length bs}. mset (bs ! i))"
        by (simp add: mset_concat sum_list_sum_nth)
      then have "count (mset (concat bs)) x = (\<Sum>i\<in>{0..<length bs}. count (mset (bs ! i)) x)"
        by (simp add: count_sum)
      moreover have "(\<Sum>i\<in>{j, k}. count (mset (bs ! i)) x) \<le> (\<Sum>i\<in>{0..<length bs}. count (mset (bs ! i)) x)"
        using that k by (intro sum_mono2) auto
      ultimately have "count (mset (bs ! j)) x + count (mset (bs ! k)) x \<le> count (mset (concat bs)) x"
        using \<open>j \<noteq> k\<close> by simp
      moreover have "1 \<le> count (mset (bs ! j)) x" "1 \<le> count (mset (bs ! k)) x"
        using that(2) k(2) by (simp_all add: count_greater_eq_one_iff)
      ultimately show ?thesis by linarith
    qed
    moreover have "count (mset (concat bs)) x \<le> 1" using assms(1) by (simp add: distinct_count_atmost_1)
    ultimately show False by simp
  qed
  have "find_positions (\<lambda>b. x \<in> set b) bs = filter (\<lambda>i. i = k) [0..<length bs]"
    unfolding find_positions_def
  proof (intro filter_cong refl iffI)
    fix i assume "i \<in> set [0..<length bs]" "x \<in> set (bs ! i)"
    then show "i = k" by (intro u) simp_all
  qed (simp add: k(2))
  also have "\<dots> = [k]" using k(1) by (rule filter_upt_eq)
  finally show ?thesis using k by blast
qed

text \<open>
  C35. For an open-line sector with distinct labels, all of them external labels of the process,
  whose word traverses its lines, the canonical closure traversal exists: it is the same cyclic
  sequence of blocks, it starts with the block that contains the first coloured external leg,
  and the sink is the antifundamental end of the preceding block in that cycle.
\<close>
theorem canonical_closure_is_rotation:
  assumes "sc_kind s = Open_Lines" "sc_lines s \<noteq> []"
    "ordered_open_line_blocks (primary_word s) (sc_lines s) = Some blocks" "distinct (primary_word s)"
    "set (primary_word s) \<subseteq> set (map l_label (i_legs process))"
  shows "\<exists>k < length blocks. canonical_closure_blocks s process = Inr (rotate k blocks) \<and>
    canonical_closure_traversal_word s process = Inr (concat (rotate k blocks)) \<and>
    find (\<lambda>l. l \<in> set (primary_word s)) (map l_label (i_legs process)) \<in> Some ` set (blocks ! k) \<and>
    canonical_closure_sink_label s process = Inr (Some (last (last (rotate k blocks))))"
proof -
  from blocks_loop_spec [of "primary_word s" "sc_lines s" blocks] assms(3) have sp: "concat blocks = primary_word s"
    "mset blocks = mset (map line_coloured_labels (sc_lines s))" by (auto simp: ordered_open_line_blocks_def)
  then have len: "length blocks = length (sc_lines s)" by (metis mset_eq_length length_map)
  have ne: "b \<noteq> []" if "b \<in> set blocks" for b
    using that mset_eq_setD [OF sp(2)] by (auto simp: line_coloured_labels_def)
  from len assms(2) obtain b0 bs0 where "blocks = b0 # bs0" by (cases blocks) auto
  with ne sp(1) have pne: "primary_word s \<noteq> []" by (metis concat.simps(2) append_is_Nil_conv list.set_intros(1))
  then obtain x0 where x0: "x0 \<in> set (primary_word s)" by (meson list.set_sel(1))
  with assms(5) have lne: "i_legs process \<noteq> []" by auto
  have "find (\<lambda>l. l \<in> set (primary_word s)) (map l_label (i_legs process)) \<noteq> None"
    using x0 assms(5) unfolding find_None_iff by blast
  then obtain x where x: "find (\<lambda>l. l \<in> set (primary_word s)) (map l_label (i_legs process)) = Some x" by auto
  then have xin: "x \<in> set (concat blocks)" using sp(1) by (auto dest!: find_SomeD)
  from find_positions_distinct_concat [OF _ xin] assms(4) sp(1) obtain k where
    k: "k < length blocks" "find_positions (\<lambda>b. x \<in> set b) blocks = [k]" "x \<in> set (blocks ! k)" by auto
  have rot: "drop k blocks @ take k blocks = rotate k blocks" using k(1) by (simp add: rotate_drop_take)
  have cb: "canonical_closure_blocks s process = Inr (rotate k blocks)"
    using assms(1,2,3,5) len pne lne x k(2) sp(1) rot by (simp add: canonical_closure_blocks_def Let_def)
  then have cw: "canonical_closure_traversal_word s process = Inr (concat (rotate k blocks))"
    by (simp add: canonical_closure_traversal_word_def)
  have rne: "rotate k blocks \<noteq> []" using k(1) by auto
  then have "last (rotate k blocks) \<in> set blocks" using last_in_set by (metis set_rotate)
  then have lastne: "last (rotate k blocks) \<noteq> []" by (rule ne)
  have "concat (rotate k blocks) = concat (butlast (rotate k blocks)) @ last (rotate k blocks)"
    using rne by (metis append_butlast_last_id concat_append concat.simps append_Nil2)
  then have "concat (rotate k blocks) \<noteq> [] \<and> last (concat (rotate k blocks)) = last (last (rotate k blocks))"
    using lastne by simp
  then have "canonical_closure_sink_label s process = Inr (Some (last (last (rotate k blocks))))"
    by (simp add: canonical_closure_sink_label_def cw)
  with cb cw k x show ?thesis by blast
qed

section \<open>Instances\<close>

definition sample_leg :: "int \<Rightarrow> color_role \<Rightarrow> process_leg" where
  "sample_leg label role =
     \<lparr>l_label = label, l_side = (if label \<le> 2 then Initial_Side else Final_Side), l_particle = ''x'', l_outgoing_particle = ''x'',
      l_pdg = 1, l_outgoing_pdg = 1, l_statistics = Fermion, l_wavefunction_family = Fermion_Wf, l_color_role = role,
      l_source_orientation = Particle_Src\<rparr>"

definition sample_process :: "String.literal \<Rightarrow> (int \<times> color_role) list \<Rightarrow> process_ir" where
  "sample_process acc roles =
     \<lparr>i_process = ''x'', i_key = ''x'', i_color_accuracy = acc, i_legs = map (\<lambda>(l, r). sample_leg l r) roles,
      i_color_endpoints = \<lparr>e_fundamental_count = 0, e_antifundamental_count = 0, e_pair_count = 0\<rparr>\<rparr>"

definition sample_lines :: "open_line list" where
  "sample_lines = [\<lparr>ol_fundamental = 4, ol_antifundamental = 5, ol_adjoint = [], ol_singlet = []\<rparr>,
     \<lparr>ol_fundamental = 1, ol_antifundamental = 2, ol_adjoint = [3], ol_singlet = []\<rparr>]"

definition sample_sector :: sector where
  "sample_sector = \<lparr>sc_id = 0, sc_kind = Open_Lines, sc_lines = sample_lines, sc_trace = [], sc_singlets = [], sc_word = []\<rparr>"

lemma sample_blocks: "ordered_open_line_blocks (primary_word sample_sector) (sc_lines sample_sector) = Some [[4, 5], [1, 3, 2]]"
  by code_simp

lemma admissible_words_are_block_orders_witness:
  "set (admissible_traversal_words sample_sector) = concat ` {bs. mset bs = mset [[4, 5], [1, 3, 2 :: int]]}"
proof -
  have "map line_coloured_labels (sc_lines sample_sector) = [[4, 5], [1, 3, 2]]" by code_simp
  moreover have "sc_kind sample_sector = Open_Lines" "2 \<le> length (sc_lines sample_sector)"
    by (simp_all add: sample_sector_def sample_lines_def)
  ultimately show ?thesis
    using admissible_words_are_block_orders [of sample_sector] sample_blocks by auto
qed

lemma canonical_closure_is_rotation_witness:
  "\<exists>k<2. canonical_closure_blocks sample_sector
     (sample_process STR ''lc'' [(1, Fundamental), (2, Antifundamental), (3, Adjoint), (4, Fundamental), (5, Antifundamental)]) =
     Inr (rotate k [[4, 5], [1, 3, 2]])"
proof -
  have "sc_kind sample_sector = Open_Lines" "sc_lines sample_sector \<noteq> []"
    by (simp_all add: sample_sector_def sample_lines_def)
  moreover have "distinct (primary_word sample_sector)" "set (primary_word sample_sector) \<subseteq>
      set (map l_label (i_legs (sample_process STR ''lc'' [(1, Fundamental), (2, Antifundamental), (3, Adjoint), (4, Fundamental), (5, Antifundamental)])))"
    by code_simp+
  ultimately show ?thesis using canonical_closure_is_rotation [OF _ _ sample_blocks] by (metis length_Cons list.size(3) numeral_2_eq_2)
qed

end
