(* ===== verification/Color_Plan.thy ===== *)
theory Color_Plan
  imports Color_Sector
begin

text \<open>
  Construction of the colour sectors of a process (\<open>color/plan_build.py\<close>) and the colour plan
  record (\<open>color/plan_types.py\<close>).
\<close>

section \<open>The colour plan\<close>

datatype color_basis = Trace_Basis | Adjoint_Basis

record color_plan =
  pl_process :: process_ir
  pl_color_accuracy :: String.literal
  pl_sectors :: "sector list"
  pl_diagnostics :: "String.literal list"
  pl_truncated :: bool
  pl_trace_reflections_folded :: bool
  pl_basis :: color_basis

definition sector_count :: "color_plan \<Rightarrow> nat" where
  "sector_count plan = length (pl_sectors plan)"

definition ready_for_leading_colour :: "color_plan \<Rightarrow> bool" where
  "ready_for_leading_colour plan \<longleftrightarrow> pl_color_accuracy plan = STR ''lc'' \<and> pl_sectors plan \<noteq> [] \<and> \<not> pl_truncated plan"

definition ready_for_requested_colour :: "color_plan \<Rightarrow> bool" where
  "ready_for_requested_colour plan \<longleftrightarrow> pl_sectors plan \<noteq> [] \<and> \<not> pl_truncated plan"

definition plan_coloured_labels :: "color_plan \<Rightarrow> int list" where
  "plan_coloured_labels plan =
     sort (remdups (fundamental_labels (pl_process plan) @ antifundamental_labels (pl_process plan) @ adjoint_labels (pl_process plan)))"

definition plan_sector :: "color_plan \<Rightarrow> nat \<Rightarrow> sector option" where
  "plan_sector plan i = map_of (rev (map (\<lambda>s. (sc_id s, s)) (pl_sectors plan))) i"

section \<open>Allocations\<close>

fun split_ordered_sequence :: "nat \<Rightarrow> 'a list \<Rightarrow> 'a list list list" where
  "split_ordered_sequence 0 s = []"
| "split_ordered_sequence (Suc 0) s = [[s]]"
| "split_ordered_sequence (Suc (Suc n)) s =
     concat (map (\<lambda>k. map ((#) (take k s)) (split_ordered_sequence (Suc n) (drop k s))) [0..<length s + 1])"

definition ordered_adjoint_allocations :: "'a list \<Rightarrow> nat \<Rightarrow> 'a list list list" where
  "ordered_adjoint_allocations labels line_count =
     (if line_count = 0 then [[]]
      else concat (map (split_ordered_sequence line_count) (perms labels)))"

fun assign_to_buckets :: "'a list \<Rightarrow> 'a list list \<Rightarrow> 'a list list list" where
  "assign_to_buckets [] buckets = [buckets]"
| "assign_to_buckets (l # ls) buckets =
     concat (map (\<lambda>i. assign_to_buckets ls (buckets[i := buckets ! i @ [l]])) [0..<length buckets])"

definition ordered_label_allocations :: "'a list \<Rightarrow> nat \<Rightarrow> 'a list list list" where
  "ordered_label_allocations labels line_count =
     (if line_count = 0 then [[]]
      else if labels = [] then [replicate line_count []]
      else assign_to_buckets labels (replicate line_count []))"

lemma split_ordered_sequence_iff:
  "t \<in> set (split_ordered_sequence (Suc n) s) \<longleftrightarrow> length t = Suc n \<and> concat t = s"
proof (induction n arbitrary: s t)
  case 0
  then show ?case by (auto simp: length_Suc_conv)
next
  case (Suc n)
  have "t \<in> set (split_ordered_sequence (Suc (Suc n)) s) \<longleftrightarrow>
      (\<exists>k \<le> length s. \<exists>t'. t = take k s # t' \<and> length t' = Suc n \<and> concat t' = drop k s)"
    by (auto simp: Suc image_iff less_Suc_eq_le simp del: upt_Suc)
  also have "\<dots> \<longleftrightarrow> length t = Suc (Suc n) \<and> concat t = s"
  proof
    assume "length t = Suc (Suc n) \<and> concat t = s"
    then obtain h t' where t: "t = h # t'" "length t' = Suc n" "h @ concat t' = s" by (auto simp: length_Suc_conv)
    then show "\<exists>k \<le> length s. \<exists>t'. t = take k s # t' \<and> length t' = Suc n \<and> concat t' = drop k s"
      by (intro exI [of _ "length h"]) auto
  qed auto
  finally show ?case .
qed

lemma distinct_split_ordered_sequence: "distinct (split_ordered_sequence n s)"
proof (induction n s rule: split_ordered_sequence.induct)
  case (3 n s)
  have "take j s \<noteq> take k s" if "j \<le> length s" "k \<le> length s" "j \<noteq> k" for j k
    using that by (metis length_take min.absorb2)
  then show ?case
    unfolding split_ordered_sequence.simps
    by (intro distinct_concat_map) (auto simp: distinct_map 3 less_Suc_eq_le simp del: upt_Suc)
qed auto

text \<open>
  \<open>_iter_ordered_adjoint_allocations\<close> enumerates exactly the ways to distribute the
  adjoint labels over the lines with an order inside each line, and none twice.
\<close>
theorem adjoint_allocations_exact:
  assumes "0 < n" "distinct labels"
  shows "set (ordered_adjoint_allocations labels n) = {a. length a = n \<and> mset (concat a) = mset labels} \<and>
    distinct (ordered_adjoint_allocations labels n)"
proof -
  obtain m where n: "n = Suc m" using assms(1) by (cases n) auto
  have "distinct (concat (map (split_ordered_sequence (Suc m)) (perms labels)))"
    by (rule distinct_concat_map)
       (auto simp: distinct_perms assms(2) distinct_split_ordered_sequence split_ordered_sequence_iff)
  then show ?thesis
    by (auto simp: ordered_adjoint_allocations_def n split_ordered_sequence_iff set_perms)
qed

lemma adjoint_allocations_exact_witness:
  "set (ordered_adjoint_allocations [5, 6 :: int] 2) = {a. length a = 2 \<and> mset (concat a) = mset [5, 6]}"
  using adjoint_allocations_exact [of 2 "[5, 6 :: int]"] by simp

section \<open>Enumeration with deduplication and a cap\<close>

type_synonym sector_key =
  "sector_kind \<times> (int \<times> int \<times> int list \<times> int list) list \<times> int list \<times> int list \<times> int list"

definition line_key :: "open_line \<Rightarrow> int \<times> int \<times> int list \<times> int list" where
  "line_key l = (ol_fundamental l, ol_antifundamental l, ol_adjoint l, ol_singlet l)"

definition sector_dedup_key :: "sector \<Rightarrow> sector_key" where
  "sector_dedup_key s = (sc_kind s, map line_key (sc_lines s), sc_trace s, sc_singlets s, sc_word s)"

text \<open>
  The body shared by the enumeration loops: a candidate gets the next id, candidates with a
  known key are skipped, and the loop stops once the cap is reached. \<open>n\<close> counts the sectors
  kept so far; the result lists the new ones.
\<close>

fun collect_sectors :: "nat option \<Rightarrow> sector_key list \<Rightarrow> nat \<Rightarrow> sector list \<Rightarrow> sector list \<times> bool" where
  "collect_sectors cap seen n [] = ([], False)"
| "collect_sectors cap seen n (c # cs) =
     (if sector_dedup_key c \<in> set seen then collect_sectors cap seen n cs
      else let s = c\<lparr>sc_id := n\<rparr>
           in if (case cap of None \<Rightarrow> False | Some m \<Rightarrow> m \<le> Suc n) then ([s], True)
              else (case collect_sectors cap (sector_dedup_key c # seen) (Suc n) cs of (ss, t) \<Rightarrow> (s # ss, t)))"

definition normalize_sector_cap :: "int option \<Rightarrow> nat option" where
  "normalize_sector_cap v = (case v of None \<Rightarrow> None | Some c \<Rightarrow> if c < 0 then None else Some (nat c))"

section \<open>Reference sectors\<close>

definition leg_by_label :: "process_ir \<Rightarrow> int \<rightharpoonup> process_leg" where
  "leg_by_label process = map_of (rev (map (\<lambda>leg. (l_label leg, leg)) (i_legs process)))"

definition legs_by_labels :: "process_ir \<Rightarrow> int list \<Rightarrow> process_leg list res" where
  "legs_by_labels process labels =
     mapE (\<lambda>l. (case leg_by_label process l of None \<Rightarrow> Inl (KeyError STR ''label'') | Some leg \<Rightarrow> Inr leg)) labels"

text \<open>
  The loop of \<open>_reference_open_lines\<close>: each block runs from one endpoint over adjoint labels
  to an endpoint of the other kind, in either orientation.
\<close>

lemma dropWhile_shorter: "dropWhile P w = y # ys \<Longrightarrow> length ys < Suc (length w)"
  by (metis length_Cons length_dropWhile_le less_Suc_eq_le Suc_le_eq le_imp_less_Suc le_Suc_eq)

function reference_lines_loop :: "process_ir \<Rightarrow> int list \<Rightarrow> open_line list option" where
  "reference_lines_loop process [] = Some []"
| "reference_lines_loop process (start # word) =
     (let funds = set (fundamental_labels process); antis = set (antifundamental_labels process);
          adjs = set (adjoint_labels process);
          middle = takeWhile (\<lambda>l. l \<in> adjs) word; rest = dropWhile (\<lambda>l. l \<in> adjs) word
      in if start \<notin> funds \<and> start \<notin> antis then None
         else case rest of
             [] \<Rightarrow> None
           | stop # rest' \<Rightarrow>
               (if (if start \<in> funds then stop \<notin> antis else stop \<notin> funds) then None
                else let f = (if start \<in> funds then start else stop); a = (if start \<in> funds then stop else start)
                     in if map_option l_color_role (leg_by_label process f) \<noteq> Some Fundamental then None
                        else if map_option l_color_role (leg_by_label process a) \<noteq> Some Antifundamental then None
                        else map_option ((#) \<lparr>ol_fundamental = f, ol_antifundamental = a, ol_adjoint = middle, ol_singlet = []\<rparr>)
                               (reference_lines_loop process rest')))"
  by pat_completeness auto
termination
  by (relation "measure (\<lambda>(p, w). length w)") (auto dest: dropWhile_shorter dropWhile_shorter [OF sym])

definition reference_open_lines :: "process_ir \<Rightarrow> int list \<Rightarrow> open_line list option" where
  "reference_open_lines process word =
     (case reference_lines_loop process word of
        None \<Rightarrow> None
      | Some ls \<Rightarrow> if length ls \<noteq> length (fundamental_labels process) then None else Some ls)"

definition reference_sectors :: "process_ir \<Rightarrow> int list option \<Rightarrow> sector list" where
  "reference_sectors process reference =
     (case reference of
        None \<Rightarrow> []
      | Some ref \<Rightarrow>
          (let coloured = remdups (fundamental_labels process @ antifundamental_labels process @ adjoint_labels process);
               word = filter (\<lambda>l. l \<in> set coloured) ref
           in if ref = [] \<or> sort word \<noteq> sort coloured then []
              else if fundamental_labels process = []
              then (if filter (\<lambda>l. l \<in> set (adjoint_labels process)) word \<noteq> word then []
                    else [\<lparr>sc_id = 0, sc_kind = Single_Trace, sc_lines = [], sc_trace = word,
                           sc_singlets = singlet_labels process, sc_word = []\<rparr>])
              else (case reference_open_lines process word of
                      None \<Rightarrow> []
                    | Some ls \<Rightarrow> [\<lparr>sc_id = 0, sc_kind = Open_Lines, sc_lines = ls, sc_trace = [],
                           sc_singlets = singlet_labels process, sc_word = concat (map line_coloured_labels ls)\<rparr>])))"

section \<open>The builders\<close>

definition open_line_color_words :: "open_line list \<Rightarrow> bool \<Rightarrow> int list list" where
  "open_line_color_words ls include_block_permutations =
     (if \<not> include_block_permutations \<or> length ls < 2 then [concat (map line_coloured_labels ls)]
      else dedup (map (\<lambda>p. concat (map line_coloured_labels p)) (perms ls)))"

definition lines_of :: "int list \<Rightarrow> int list \<Rightarrow> int list list \<Rightarrow> open_line list" where
  "lines_of funds antis allocation =
     map (\<lambda>(f, a, adj). \<lparr>ol_fundamental = f, ol_antifundamental = a, ol_adjoint = adj, ol_singlet = []\<rparr>)
       (zip funds (zip antis allocation))"

definition open_line_candidates :: "process_ir \<Rightarrow> bool \<Rightarrow> sector list" where
  "open_line_candidates process all_orders =
     [\<lparr>sc_id = 0, sc_kind = Open_Lines, sc_lines = ls, sc_trace = [], sc_singlets = singlet_labels process, sc_word = word\<rparr>.
        antis \<leftarrow> perms (antifundamental_labels process),
        allocation \<leftarrow> ordered_adjoint_allocations (adjoint_labels process) (length (fundamental_labels process)),
        ls \<leftarrow> [lines_of (fundamental_labels process) antis allocation],
        word \<leftarrow> open_line_color_words ls all_orders]"

definition trace_candidates :: "process_ir \<Rightarrow> bool \<Rightarrow> sector list" where
  "trace_candidates process fold_reflections =
     (let adj = adjoint_labels process; first = Min (set adj); rest = filter (\<lambda>l. l \<noteq> first) adj;
          orders = (if fold_reflections then dedup_on (\<lambda>p. min p (rev p)) [] (perms rest) else perms rest)
      in map (\<lambda>p. \<lparr>sc_id = 0, sc_kind = Single_Trace, sc_lines = [], sc_trace = first # p,
           sc_singlets = singlet_labels process, sc_word = []\<rparr>) orders)"

definition finish_plan ::
  "process_ir \<Rightarrow> String.literal \<Rightarrow> String.literal \<Rightarrow> bool \<Rightarrow> nat option \<Rightarrow> sector list \<Rightarrow> sector list \<Rightarrow> color_plan" where
  "finish_plan process accuracy diagnostic folded cap refs candidates =
     (case collect_sectors cap (map sector_dedup_key refs) (length refs) candidates of (new, truncated) \<Rightarrow>
        \<lparr>pl_process = process, pl_color_accuracy = accuracy, pl_sectors = refs @ new,
         pl_diagnostics = (if truncated then [diagnostic] else []), pl_truncated = truncated,
         pl_trace_reflections_folded = folded, pl_basis = Trace_Basis\<rparr>)"

definition build_no_fundamental_plan ::
  "process_ir \<Rightarrow> nat option \<Rightarrow> int list option \<Rightarrow> bool \<Rightarrow> color_plan" where
  "build_no_fundamental_plan process cap reference fold_trace_reflections =
     (if adjoint_labels process = []
      then \<lparr>pl_process = process, pl_color_accuracy = i_color_accuracy process,
            pl_sectors = [\<lparr>sc_id = 0, sc_kind = Singlet_Sector, sc_lines = [], sc_trace = [],
              sc_singlets = singlet_labels process, sc_word = []\<rparr>],
            pl_diagnostics = [], pl_truncated = False, pl_trace_reflections_folded = False, pl_basis = Trace_Basis\<rparr>
      else let folded = (i_color_accuracy process = STR ''lc'' \<and> fold_trace_reflections)
           in finish_plan process (i_color_accuracy process) STR ''leading-colour trace enumeration reached max_sectors''
                folded cap (reference_sectors process reference) (trace_candidates process folded))"

definition max_adjoint_gluons :: nat where
  "max_adjoint_gluons = 12"

text \<open>The loop of \<open>_build_adjoint_color_plan\<close>; \<open>n\<close> sectors have been kept.\<close>

fun collect_adjoint :: "nat option \<Rightarrow> int list option \<Rightarrow> int list \<Rightarrow> nat \<Rightarrow> int list list \<Rightarrow> sector list \<times> bool" where
  "collect_adjoint cap skip singlets n [] = ([], False)"
| "collect_adjoint cap skip singlets n (w # ws) =
     (if skip = Some w then collect_adjoint cap skip singlets n ws
      else if (case cap of None \<Rightarrow> False | Some m \<Rightarrow> m \<le> n) then ([], True)
      else (case collect_adjoint cap skip singlets (Suc n) ws of (ss, t) \<Rightarrow>
        (\<lparr>sc_id = n, sc_kind = Single_Trace, sc_lines = [], sc_trace = w, sc_singlets = singlets, sc_word = []\<rparr> # ss, t)))"

definition build_adjoint_plan :: "process_ir \<Rightarrow> nat option \<Rightarrow> int list option \<Rightarrow> color_plan res" where
  "build_adjoint_plan process cap reference_order =
     (let labels = sort (adjoint_labels process); singlets = singlet_labels process;
          ref = (case reference_order of None \<Rightarrow> [] | Some r \<Rightarrow> r)
      in if length labels < 2 \<or> length labels + length singlets \<noteq> length (i_legs process) \<or>
            fundamental_labels process \<noteq> [] \<or> antifundamental_labels process \<noteq> []
         then Inl (ValueError STR ''DDM colour basis requires external adjoints and optional singlets'')
         else if max_adjoint_gluons < length labels
         then Inl (ValueError STR ''adjoint colour basis supports at most 12 external gluons'')
         else if i_color_accuracy process \<notin> {STR ''nlc'', STR ''full''}
         then Inl (ValueError STR ''adjoint colour basis requires NLC or full colour'')
         else if ref \<noteq> [] \<and> (length ref \<noteq> length labels \<or> set ref \<noteq> set labels)
         then Inl (ValueError STR ''adjoint reference colour order must cover every gluon'')
         else let pivot = the (index_of (hd labels) ref); rotated = drop pivot ref @ take pivot ref
              in if ref \<noteq> [] \<and> last rotated \<noteq> last labels
                 then Inl (ValueError STR ''adjoint reference colour order must preserve both anchors'')
                 else let keep = (ref \<noteq> [] \<and> cap \<noteq> Some 0);
                          refs = (if keep then [\<lparr>sc_id = 0, sc_kind = Single_Trace, sc_lines = [], sc_trace = rotated,
                              sc_singlets = singlets, sc_word = []\<rparr>] else []);
                          words = map (\<lambda>m. hd labels # m @ [last labels]) (perms (butlast (tl labels)))
                      in (case collect_adjoint cap (if keep then Some rotated else None) singlets (length refs) words of (new, truncated) \<Rightarrow>
                          Inr \<lparr>pl_process = process, pl_color_accuracy = i_color_accuracy process, pl_sectors = refs @ new,
                            pl_diagnostics = (if truncated then [STR ''adjoint sector enumeration reached max_sectors''] else []),
                            pl_truncated = truncated, pl_trace_reflections_folded = False, pl_basis = Adjoint_Basis\<rparr>))"

definition build_color_plan ::
  "process_ir \<Rightarrow> String.literal \<Rightarrow> int option \<Rightarrow> int list option \<Rightarrow> bool \<Rightarrow> String.literal \<Rightarrow> color_plan res" where
  "build_color_plan process accuracy max_sectors reference fold_trace_reflections basis =
     (let cap = normalize_sector_cap max_sectors
      in if accuracy \<noteq> i_color_accuracy process
         then Inl (ValueError STR ''color plan accuracy must match the model-resolved process IR'')
         else if basis \<notin> {STR ''trace'', STR ''adjoint''} then Inl (ValueError STR ''unknown colour basis'')
         else if basis = STR ''adjoint'' then build_adjoint_plan process cap reference
         else bindE (legs_by_labels process (fundamental_labels process)) (\<lambda>fundamental_legs.
              bindE (legs_by_labels process (antifundamental_labels process)) (\<lambda>antifundamental_legs.
                if length fundamental_legs \<noteq> length antifundamental_legs
                then Inr \<lparr>pl_process = process, pl_color_accuracy = accuracy, pl_sectors = [],
                  pl_diagnostics = [STR ''leading-colour open-line plan requires balanced outgoing fundamental and antifundamental counts''],
                  pl_truncated = False, pl_trace_reflections_folded = False, pl_basis = Trace_Basis\<rparr>
                else if fundamental_legs = []
                then Inr (build_no_fundamental_plan process cap reference fold_trace_reflections)
                else Inr (finish_plan process accuracy STR ''leading-colour sector enumeration reached max_sectors'' False cap
                  (reference_sectors process reference) (open_line_candidates process (accuracy \<noteq> STR ''lc''))))))"

section \<open>What the enumeration loops compute\<close>

fun number_sectors :: "nat \<Rightarrow> sector list \<Rightarrow> sector list" where
  "number_sectors n [] = []"
| "number_sectors n (s # ss) = s\<lparr>sc_id := n\<rparr> # number_sectors (Suc n) ss"

lemma number_sectors_simps [simp]:
  "length (number_sectors n ss) = length ss"
  "map sc_id (number_sectors n ss) = [n..<n + length ss]"
  "map sector_dedup_key (number_sectors n ss) = map sector_dedup_key ss"
  "map sc_trace (number_sectors n ss) = map sc_trace ss"
  "map (\<lambda>s. (sc_lines s, sc_word s)) (number_sectors n ss) = map (\<lambda>s. (sc_lines s, sc_word s)) ss"
  by (induction n ss rule: number_sectors.induct) (simp_all add: upt_conv_Cons sector_dedup_key_def del: upt_Suc)

lemma dedup_on_seen_eq: "set s = set s' \<Longrightarrow> dedup_on key s xs = dedup_on key s' xs"
proof (induction xs arbitrary: s s')
  case (Cons x xs)
  have "set (key x # s) = set (key x # s')" using Cons.prems by simp
  from Cons.IH [OF this] Cons.IH [OF Cons.prems] Cons.prems show ?case by simp
qed simp

lemma collect_sectors_eq:
  "collect_sectors cap seen n cs =
     (let new = dedup_on sector_dedup_key seen cs;
          m = (case cap of None \<Rightarrow> length new | Some c \<Rightarrow> max 1 (c - n))
      in (number_sectors n (take m new), cap \<noteq> None \<and> new \<noteq> [] \<and> m \<le> length new))"
proof (induction cap seen n cs rule: collect_sectors.induct)
  case (2 cap seen n c cs)
  show ?case
  proof (cases "sector_dedup_key c \<in> set seen")
    case True
    with 2 show ?thesis by simp
  next
    case new: False
    show ?thesis
    proof (cases cap)
      case None
      with 2 new show ?thesis by (simp add: Let_def)
    next
      case (Some m)
      show ?thesis
      proof (cases "m \<le> Suc n")
        case True
        then have "max 1 (m - n) = Suc 0" by simp
        with Some new True show ?thesis by (simp add: Let_def)
      next
        case False
        let ?D = "dedup_on sector_dedup_key (sector_dedup_key c # seen) cs"
        have "max 1 (m - n) = Suc (max 1 (m - Suc n))" using False by linarith
        with 2 Some new False show ?thesis by (cases ?D) (auto simp: Let_def)
      qed
    qed
  qed
qed simp

lemma finish_plan_sectors:
  fixes process accuracy diag folded refs cands cap
  defines "P \<equiv> \<lambda>cap. finish_plan process accuracy diag folded cap refs cands"
  shows "pl_sectors (P None) = refs @ number_sectors (length refs) (dedup_on sector_dedup_key (map sector_dedup_key refs) cands)"
    and "\<not> pl_truncated (P None)"
    and "\<exists>new. pl_sectors (P cap) = refs @ number_sectors (length refs) new \<and> distinct (map sector_dedup_key new) \<and>
      set (map sector_dedup_key new) \<inter> set (map sector_dedup_key refs) = {} \<and>
      (\<forall>c. cap = Some c \<longrightarrow> length new \<le> max 1 (c - length refs))"
    and "pl_truncated (P cap) \<Longrightarrow> cap \<noteq> None"
proof -
  show "pl_sectors (P None) = refs @ number_sectors (length refs) (dedup_on sector_dedup_key (map sector_dedup_key refs) cands)"
    "\<not> pl_truncated (P None)" "pl_truncated (P cap) \<Longrightarrow> cap \<noteq> None"
    by (simp_all add: P_def finish_plan_def collect_sectors_eq Let_def)
  let ?D = "dedup_on sector_dedup_key (map sector_dedup_key refs) cands"
  let ?m = "case cap of None \<Rightarrow> length ?D | Some c \<Rightarrow> max 1 (c - length refs)"
  have "distinct (map sector_dedup_key (take ?m ?D))"
    unfolding take_map [symmetric] by (intro distinct_take dedup_on_distinct)
  moreover have "set (map sector_dedup_key (take ?m ?D)) \<inter> set (map sector_dedup_key refs) = {}"
  proof -
    have "set (map sector_dedup_key (take ?m ?D)) \<subseteq> sector_dedup_key ` set ?D"
      unfolding set_map by (rule image_mono [OF set_take_subset])
    then show ?thesis
      unfolding dedup_on_keys [of sector_dedup_key "map sector_dedup_key refs" cands] by blast
  qed
  ultimately show "\<exists>new. pl_sectors (P cap) = refs @ number_sectors (length refs) new \<and> distinct (map sector_dedup_key new) \<and>
      set (map sector_dedup_key new) \<inter> set (map sector_dedup_key refs) = {} \<and>
      (\<forall>c. cap = Some c \<longrightarrow> length new \<le> max 1 (c - length refs))"
    by (intro exI [of _ "take ?m ?D"]) (simp add: P_def finish_plan_def collect_sectors_eq Let_def)
qed

lemma reference_sectors_one: "length (reference_sectors process reference) \<le> 1 \<and>
  map sc_id (reference_sectors process reference) = [0..<length (reference_sectors process reference)]"
  by (auto simp: reference_sectors_def Let_def split: option.split)

lemma collect_adjoint_eq:
  assumes "collect_adjoint cap skip singlets n ws = (new, t)"
  shows "map sc_id new = [n..<n + length new] \<and>
    (\<forall>s \<in> set new. sector_dedup_key s = (Single_Trace, [], sc_trace s, singlets, [])) \<and>
    map sc_trace new = take (case cap of None \<Rightarrow> length ws | Some c \<Rightarrow> c - n) (filter (\<lambda>w. skip \<noteq> Some w) ws) \<and>
    (t \<longleftrightarrow> (\<exists>c. cap = Some c \<and> c - n < length (filter (\<lambda>w. skip \<noteq> Some w) ws)))"
  using assms
proof (induction cap skip singlets n ws arbitrary: new t rule: collect_adjoint.induct)
  case (2 cap skip singlets n w ws)
  show ?case
  proof (cases "skip = Some w")
    case True
    with 2 have IH: "map sc_id new = [n..<n + length new]"
      "\<forall>s \<in> set new. sector_dedup_key s = (Single_Trace, [], sc_trace s, singlets, [])"
      "map sc_trace new = take (case cap of None \<Rightarrow> length ws | Some c \<Rightarrow> c - n) (filter (\<lambda>w. skip \<noteq> Some w) ws)"
      "t \<longleftrightarrow> (\<exists>c. cap = Some c \<and> c - n < length (filter (\<lambda>w. skip \<noteq> Some w) ws))" by simp_all
    have "length (filter (\<lambda>v. \<not> w = v) ws) \<le> length ws" by (rule length_filter_le)
    with True IH show ?thesis by (cases cap) (simp_all add: le_SucI)
  next
    case ns: False
    show ?thesis
    proof (cases "case cap of None \<Rightarrow> False | Some m \<Rightarrow> m \<le> n")
      case True
      with 2 ns show ?thesis by (auto split: option.splits)
    next
      case False
      obtain new' t' where r: "collect_adjoint cap skip singlets (Suc n) ws = (new', t')"
        by (cases "collect_adjoint cap skip singlets (Suc n) ws")
      with 2 ns False have e: "new = \<lparr>sc_id = n, sc_kind = Single_Trace, sc_lines = [], sc_trace = w, sc_singlets = singlets, sc_word = []\<rparr> # new'" "t = t'"
        by auto
      from "2.IH"(2) [OF ns False r] ns False show ?thesis unfolding e
        by (cases cap) (auto simp: upt_conv_Cons sector_dedup_key_def Suc_diff_Suc take_Cons' simp del: upt_Suc)
    qed
  qed
qed simp

lemma distinct_map_inj_pair: "distinct xs \<Longrightarrow> distinct (map (\<lambda>w. (a, b, w, c, d)) xs)"
  by (simp add: distinct_map inj_on_def)

lemma adjoint_plan_shape:
  assumes "build_adjoint_plan process cap reference = Inr plan"
  obtains refs new rotated keep where
    "pl_sectors plan = refs @ new"
    "refs = (if keep then [\<lparr>sc_id = 0, sc_kind = Single_Trace, sc_lines = [], sc_trace = rotated,
        sc_singlets = singlet_labels process, sc_word = []\<rparr>] else [])"
    "keep \<longrightarrow> cap \<noteq> Some 0"
    "2 \<le> length (adjoint_labels process)"
    "collect_adjoint cap (if keep then Some rotated else None) (singlet_labels process) (length refs)
       (map (\<lambda>m. hd (sort (adjoint_labels process)) # m @ [last (sort (adjoint_labels process))])
         (perms (butlast (tl (sort (adjoint_labels process)))))) = (new, pl_truncated plan)"
proof -
  let ?labels = "sort (adjoint_labels process)"
  let ?ref = "case reference of None \<Rightarrow> [] | Some r \<Rightarrow> r"
  let ?rot = "drop (the (index_of (hd ?labels) ?ref)) ?ref @ take (the (index_of (hd ?labels) ?ref)) ?ref"
  let ?keep = "?ref \<noteq> [] \<and> cap \<noteq> Some 0"
  let ?refs = "if ?keep then [\<lparr>sc_id = 0, sc_kind = Single_Trace, sc_lines = [], sc_trace = ?rot,
        sc_singlets = singlet_labels process, sc_word = []\<rparr>] else []"
  let ?words = "map (\<lambda>m. hd ?labels # m @ [last ?labels]) (perms (butlast (tl ?labels)))"
  obtain new t where c: "collect_adjoint cap (if ?keep then Some ?rot else None) (singlet_labels process) (length ?refs) ?words = (new, t)"
    by (cases "collect_adjoint cap (if ?keep then Some ?rot else None) (singlet_labels process) (length ?refs) ?words")
  note a = assms [unfolded build_adjoint_plan_def Let_def]
  from a have l: "2 \<le> length (adjoint_labels process)" by (auto split: if_splits)
  from a c have "pl_sectors plan = ?refs @ new" "pl_truncated plan = t"
    by (auto simp del: collect_adjoint.simps split: if_splits)
  with c l show thesis by (intro that [of ?refs new ?keep ?rot]) simp_all
qed

text \<open>
  C33. For a process whose adjoint labels are distinct, every colour plan the builder returns numbers its sectors densely from 0, never holds two
  sectors with the same identity key, is marked truncated only when a cap was given, and respects
  the cap: the adjoint builder never holds more sectors than the cap, the other two builders,
  which check the cap after adding a sector, at most one sector beside the reference sector when
  the cap is smaller than that.
\<close>
theorem color_plan_sectors_wellformed:
  assumes "build_color_plan process accuracy max_sectors reference fold_refl basis = Inr plan" "distinct (adjoint_labels process)"
  shows "map sc_id (pl_sectors plan) = [0..<length (pl_sectors plan)] \<and>
    distinct (map sector_dedup_key (pl_sectors plan)) \<and>
    (pl_truncated plan \<longrightarrow> normalize_sector_cap max_sectors \<noteq> None) \<and>
    (\<forall>c. normalize_sector_cap max_sectors = Some c \<longrightarrow>
      length (pl_sectors plan) \<le> (if basis = STR ''adjoint'' then c else max c (1 + length (reference_sectors process reference))))"
proof -
  let ?cap = "normalize_sector_cap max_sectors"
  have one: "?thesis" if "basis \<noteq> STR ''adjoint''" "length (pl_sectors plan) \<le> 1" "map sc_id (pl_sectors plan) = [0..<length (pl_sectors plan)]" "\<not> pl_truncated plan"
    using that by (cases "pl_sectors plan") auto
  have fin: "?thesis" if na: "basis \<noteq> STR ''adjoint''" and "plan = finish_plan process acc diag folded ?cap (reference_sectors process reference) cands" for acc diag folded cands
  proof -
    let ?refs = "reference_sectors process reference"
    note fp3 = finish_plan_sectors(3) [where process = process and accuracy = acc and diag = diag and folded = folded and cap = ?cap and refs = ?refs and cands = cands]
      and fp4 = finish_plan_sectors(4) [where process = process and accuracy = acc and diag = diag and folded = folded and cap = ?cap and refs = ?refs and cands = cands]
    from fp3 that(2) obtain new where n: "pl_sectors plan = ?refs @ number_sectors (length ?refs) new"
      "distinct (map sector_dedup_key new)" "set (map sector_dedup_key new) \<inter> set (map sector_dedup_key ?refs) = {}"
      "\<forall>c. ?cap = Some c \<longrightarrow> length new \<le> max 1 (c - length ?refs)" by blast
    have one: "length ?refs \<le> 1" "map sc_id ?refs = [0..<length ?refs]" using reference_sectors_one by blast+
    have "distinct (map sector_dedup_key ?refs)" using one by (cases ?refs) auto
    moreover have "length ?refs + length new \<le> max c (1 + length ?refs)" if "?cap = Some c" for c
    proof -
      from n(4) that have "length new \<le> max 1 (c - length ?refs)" by blast
      then show ?thesis by linarith
    qed
    moreover have "pl_truncated plan \<Longrightarrow> ?cap \<noteq> None" using fp4 that(2) by blast
    moreover have "[0..<length ?refs] @ [length ?refs..<length ?refs + length new] = [0..<length ?refs + length new]"
      by (simp add: upt_add_eq_append [of 0])
    ultimately show ?thesis using n one(2) na by (auto simp del: upt_Suc)
  qed
  note b = assms(1) [unfolded build_color_plan_def Let_def]
  show ?thesis
  proof (cases "basis = STR ''adjoint''")
    case True
    with b have ap: "build_adjoint_plan process ?cap reference = Inr plan" by (simp split: if_splits)
    obtain refs new rotated keep where a: "pl_sectors plan = refs @ new"
      "refs = (if keep then [\<lparr>sc_id = 0, sc_kind = Single_Trace, sc_lines = [], sc_trace = rotated,
        sc_singlets = singlet_labels process, sc_word = []\<rparr>] else [])"
      "keep \<longrightarrow> ?cap \<noteq> Some 0" "2 \<le> length (adjoint_labels process)"
      "collect_adjoint ?cap (if keep then Some rotated else None) (singlet_labels process) (length refs)
       (map (\<lambda>m. hd (sort (adjoint_labels process)) # m @ [last (sort (adjoint_labels process))])
         (perms (butlast (tl (sort (adjoint_labels process)))))) = (new, pl_truncated plan)"
      by (rule adjoint_plan_shape [OF ap])
    let ?words = "map (\<lambda>m. hd (sort (adjoint_labels process)) # m @ [last (sort (adjoint_labels process))])
         (perms (butlast (tl (sort (adjoint_labels process)))))"
    let ?ws = "filter (\<lambda>w. (if keep then Some rotated else None) \<noteq> Some w) ?words"
    note ca = collect_adjoint_eq [OF a(5)]
    have "distinct (butlast (tl (sort (adjoint_labels process))))"
      using assms(2) by (intro distinct_butlast distinct_tl) simp
    then have "distinct ?words" by (simp add: distinct_map distinct_perms inj_on_def)
    then have dt: "distinct (map sc_trace new)" using ca by (simp add: distinct_filter)
    have nr: "keep \<Longrightarrow> rotated \<notin> set (map sc_trace new)" using ca by (auto dest: in_set_takeD)
    have "map sector_dedup_key new = map (\<lambda>w. (Single_Trace, [], w, singlet_labels process, [])) (map sc_trace new)"
      unfolding map_map by (rule map_cong [OF refl]) (use ca in simp)
    then have dn: "distinct (map sector_dedup_key new)"
      by (simp only: distinct_map_inj_pair [OF dt])
    have "map sc_id (pl_sectors plan) = [0..<length (pl_sectors plan)]"
      using ca a(1,2) by (auto simp: upt_conv_Cons simp del: upt_Suc)
    moreover have "distinct (map sector_dedup_key (pl_sectors plan))"
    proof (cases keep)
      case True
      have "(Single_Trace, [], rotated, singlet_labels process, []) \<notin> sector_dedup_key ` set new"
      proof
        assume "(Single_Trace, [], rotated, singlet_labels process, []) \<in> sector_dedup_key ` set new"
        then obtain x where "x \<in> set new" "sector_dedup_key x = (Single_Trace, [], rotated, singlet_labels process, [])" by auto
        moreover from ca have "\<forall>s \<in> set new. sector_dedup_key s = (Single_Trace, [], sc_trace s, singlet_labels process, [])"
          by (elim conjE)
        ultimately have "rotated = sc_trace x" by simp
        moreover have "sc_trace x \<in> set (map sc_trace new)" using \<open>x \<in> set new\<close> by (simp only: set_map imageI)
        ultimately show False using nr [OF True] by simp
      qed
      with True dn show ?thesis by (simp add: a(1,2) sector_dedup_key_def)
    qed (simp add: a(1,2) dn)
    moreover have "pl_truncated plan \<longrightarrow> ?cap \<noteq> None" using ca by auto
    moreover have "length (pl_sectors plan) \<le> c" if "?cap = Some c" for c
    proof -
      have "length new = length (map sc_trace new)" by simp
      also have "\<dots> \<le> c - length refs" using ca that by simp
      finally show ?thesis using a(1,2,3) that by (cases keep) auto
    qed
    ultimately show ?thesis using True by auto
  next
    case False
    with b have "pl_sectors plan = [] \<and> \<not> pl_truncated plan \<or>
        plan = build_no_fundamental_plan process ?cap reference fold_refl \<or>
        plan = finish_plan process accuracy STR ''leading-colour sector enumeration reached max_sectors'' False ?cap
          (reference_sectors process reference) (open_line_candidates process (accuracy \<noteq> STR ''lc''))"
      by (auto simp: bindE_Inr_iff split: if_splits)
    then show ?thesis
    proof (elim disjE conjE)
      assume "plan = build_no_fundamental_plan process ?cap reference fold_refl"
      then show ?thesis
        by (cases "adjoint_labels process = []"; intro one [OF False] fin [OF False]; simp add: build_no_fundamental_plan_def Let_def)
    qed (use one [OF False] fin [OF False] in simp_all)
  qed
qed

section \<open>Completeness of the uncapped plans\<close>

text \<open>
  The colour flows of open lines: every fundamental leg starts one line, the antifundamental
  labels are matched to them bijectively and the adjoint labels are distributed with an order.
\<close>

definition open_line_flow :: "process_ir \<Rightarrow> open_line list \<Rightarrow> bool" where
  "open_line_flow process ls \<longleftrightarrow>
     map ol_fundamental ls = fundamental_labels process \<and>
     mset (map ol_antifundamental ls) = mset (antifundamental_labels process) \<and>
     mset (concat (map ol_adjoint ls)) = mset (adjoint_labels process) \<and> (\<forall>l \<in> set ls. ol_singlet l = [])"

lemma lines_of_fields:
  "length antis = length funds \<Longrightarrow> length allocation = length funds \<Longrightarrow>
   map ol_fundamental (lines_of funds antis allocation) = funds \<and>
   map ol_antifundamental (lines_of funds antis allocation) = antis \<and>
   map ol_adjoint (lines_of funds antis allocation) = allocation \<and>
   (\<forall>l \<in> set (lines_of funds antis allocation). ol_singlet l = [])"
  by (auto simp: lines_of_def comp_def case_prod_unfold map_fst_zip map_snd_zip
      intro!: nth_equalityI)

lemma lines_of_eta:
  assumes "\<forall>l \<in> set ls. ol_singlet l = []"
  shows "lines_of (map ol_fundamental ls) (map ol_antifundamental ls) (map ol_adjoint ls) = ls"
  using assms by (intro nth_equalityI) (auto simp: lines_of_def)

lemma open_line_words_iff:
  "w \<in> set (open_line_color_words ls b) \<longleftrightarrow>
     (\<exists>p. (if b then mset p = mset ls else p = ls) \<and> w = concat (map line_coloured_labels p))"
proof (cases "\<not> b \<or> length ls < 2")
  case True
  have "mset p = mset ls \<longleftrightarrow> p = ls" if "length ls < 2" for p
  proof (cases ls)
    case (Cons l ls')
    with that have "ls = [l]" by simp
    then show ?thesis by (metis mset.simps mset_single_iff_right)
  qed simp
  with True show ?thesis by (auto simp: open_line_color_words_def)
next
  case False
  then show ?thesis by (auto simp: open_line_color_words_def set_perms image_iff)
qed

lemma line_key_inj: "inj line_key"
  by (rule injI) (simp add: line_key_def)

lemma open_line_candidates_set:
  assumes "length (antifundamental_labels process) = length (fundamental_labels process)"
    "fundamental_labels process \<noteq> []"
  shows "(\<lambda>s. (sc_lines s, sc_word s)) ` set (open_line_candidates process b) =
    {(ls, concat (map line_coloured_labels p)) | ls p. open_line_flow process ls \<and> (if b then mset p = mset ls else p = ls)}"
    and "\<forall>s \<in> set (open_line_candidates process b). sc_kind s = Open_Lines \<and> sc_trace s = [] \<and> sc_singlets s = singlet_labels process"
proof -
  let ?k = "length (fundamental_labels process)"
  let ?al = "ordered_adjoint_allocations (adjoint_labels process) ?k"
  obtain m where m: "?k = Suc m" using assms(2) by (cases "?k") auto
  have al: "a \<in> set ?al \<longleftrightarrow> length a = ?k \<and> mset (concat a) = mset (adjoint_labels process)" for a
    by (auto simp: ordered_adjoint_allocations_def m split_ordered_sequence_iff set_perms)
  have flow: "(\<exists>antis allocation. mset antis = mset (antifundamental_labels process) \<and> allocation \<in> set ?al \<and>
      ls = lines_of (fundamental_labels process) antis allocation) \<longleftrightarrow> open_line_flow process ls" for ls
  proof
    assume "\<exists>antis allocation. mset antis = mset (antifundamental_labels process) \<and> allocation \<in> set ?al \<and>
      ls = lines_of (fundamental_labels process) antis allocation"
    then obtain antis allocation where a: "mset antis = mset (antifundamental_labels process)" "length allocation = ?k"
      "mset (concat allocation) = mset (adjoint_labels process)" "ls = lines_of (fundamental_labels process) antis allocation"
      unfolding al by blast
    then have "length antis = ?k" using assms(1) by (metis mset_eq_length)
    from lines_of_fields [OF this a(2)] a show "open_line_flow process ls" by (simp add: open_line_flow_def)
  next
    assume f: "open_line_flow process ls"
    then have "length (map ol_adjoint ls) = ?k" by (metis length_map open_line_flow_def)
    moreover have "ls = lines_of (fundamental_labels process) (map ol_antifundamental ls) (map ol_adjoint ls)"
      using f lines_of_eta [of ls] by (simp add: open_line_flow_def)
    ultimately show "\<exists>antis allocation. mset antis = mset (antifundamental_labels process) \<and> allocation \<in> set ?al \<and>
      ls = lines_of (fundamental_labels process) antis allocation"
      unfolding al using f unfolding open_line_flow_def by blast
  qed
  have "(\<lambda>s. (sc_lines s, sc_word s)) ` set (open_line_candidates process b) =
      {(ls, w). (\<exists>antis allocation. mset antis = mset (antifundamental_labels process) \<and> allocation \<in> set ?al \<and>
        ls = lines_of (fundamental_labels process) antis allocation) \<and> w \<in> set (open_line_color_words ls b)}"
    by (auto simp: open_line_candidates_def image_iff set_perms) (use set_perms in blast)+
  also have "\<dots> = {(ls, concat (map line_coloured_labels p)) | ls p. open_line_flow process ls \<and> (if b then mset p = mset ls else p = ls)}"
    unfolding flow open_line_words_iff by blast
  finally show "(\<lambda>s. (sc_lines s, sc_word s)) ` set (open_line_candidates process b) =
    {(ls, concat (map line_coloured_labels p)) | ls p. open_line_flow process ls \<and> (if b then mset p = mset ls else p = ls)}" .
  show "\<forall>s \<in> set (open_line_candidates process b). sc_kind s = Open_Lines \<and> sc_trace s = [] \<and> sc_singlets s = singlet_labels process"
    by (auto simp: open_line_candidates_def)
qed

lemma build_open_lines:
  assumes "build_color_plan process accuracy max_sectors reference fold_refl STR ''trace'' = Inr plan"
    "fundamental_labels process \<noteq> []" "length (antifundamental_labels process) = length (fundamental_labels process)"
  shows "plan = finish_plan process accuracy STR ''leading-colour sector enumeration reached max_sectors'' False
      (normalize_sector_cap max_sectors) (reference_sectors process reference) (open_line_candidates process (accuracy \<noteq> STR ''lc''))"
proof -
  note b = assms(1) [unfolded build_color_plan_def Let_def]
  have ne: "STR ''trace'' \<noteq> STR ''adjoint''" by simp
  have len: "length legs = length labels" if "legs_by_labels process labels = Inr legs" for labels legs
    using that unfolding legs_by_labels_def mapE_Inr_iff by (auto dest: list_all2_lengthD)
  from b ne obtain f a where "legs_by_labels process (fundamental_labels process) = Inr f"
    "legs_by_labels process (antifundamental_labels process) = Inr a"
    by (auto simp: bindE_Inr_iff split: if_splits)
  with len [OF this(1)] len [OF this(2)] b ne assms(2,3) show ?thesis
    by (auto split: if_splits)
qed

text \<open>
  C32. Without a cap and a reference order, a process with fundamental endpoints gets exactly one
  sector per colour flow and word: every matching of the endpoints with every ordered
  distribution of the adjoint labels, carrying the primary word at leading colour and every
  order of its line blocks beyond; nothing else, and nothing twice.
\<close>
theorem open_line_plan_complete:
  assumes "build_color_plan process accuracy None None fold_refl STR ''trace'' = Inr plan"
    "fundamental_labels process \<noteq> []" "length (antifundamental_labels process) = length (fundamental_labels process)"
  shows "(\<lambda>s. (sc_lines s, sc_word s)) ` set (pl_sectors plan) =
      {(ls, concat (map line_coloured_labels p)) | ls p.
        open_line_flow process ls \<and> (if accuracy = STR ''lc'' then p = ls else mset p = mset ls)} \<and>
    distinct (map (\<lambda>s. (sc_lines s, sc_word s)) (pl_sectors plan)) \<and> \<not> pl_truncated plan"
proof -
  let ?b = "accuracy \<noteq> STR ''lc''"
  let ?c = "open_line_candidates process ?b"
  let ?D = "dedup_on sector_dedup_key [] ?c"
  let ?lw = "\<lambda>s. (sc_lines s, sc_word s)"
  have refs: "reference_sectors process None = []" "normalize_sector_cap None = None"
    by (simp_all add: reference_sectors_def normalize_sector_cap_def)
  have plan: "plan = finish_plan process accuracy STR ''leading-colour sector enumeration reached max_sectors'' False None [] ?c"
    using build_open_lines [OF assms] by (simp only: refs)
  note cand = open_line_candidates_set [OF assms(3,2), of ?b]
  have secs: "pl_sectors plan = number_sectors 0 ?D" "\<not> pl_truncated plan"
    unfolding plan using finish_plan_sectors(1) [where refs = "[]"] finish_plan_sectors(2) by simp_all
  have sub: "set ?D \<subseteq> set ?c" by (rule dedup_on_subset)
  have key: "sector_dedup_key s = sector_dedup_key t \<longleftrightarrow> ?lw s = ?lw t" if "s \<in> set ?c" "t \<in> set ?c" for s t
    using cand(2) that inj_map_eq_map [OF line_key_inj, of "sc_lines s" "sc_lines t"]
    by (auto simp: sector_dedup_key_def)
  have "?lw ` set ?D = ?lw ` set ?c"
  proof
    show "?lw ` set ?c \<subseteq> ?lw ` set ?D"
    proof
      fix x assume "x \<in> ?lw ` set ?c"
      then obtain s where s: "s \<in> set ?c" "x = ?lw s" by blast
      then have "sector_dedup_key s \<in> sector_dedup_key ` set ?D"
        using dedup_on_keys [of sector_dedup_key "[]" ?c] by simp
      then obtain t where t: "t \<in> set ?D" "sector_dedup_key s = sector_dedup_key t" by blast
      with key [OF s(1), of t] sub s show "x \<in> ?lw ` set ?D" by blast
    qed
  qed (use sub in blast)
  moreover have "distinct (map ?lw ?D)"
  proof -
    have "distinct (map sector_dedup_key ?D)" by (rule dedup_on_distinct)
    then have d: "distinct ?D" "inj_on sector_dedup_key (set ?D)" by (simp_all add: distinct_map)
    have "inj_on ?lw (set ?D)"
    proof (rule inj_onI)
      fix x y assume xy: "x \<in> set ?D" "y \<in> set ?D" "?lw x = ?lw y"
      with sub have "x \<in> set ?c" "y \<in> set ?c" by (blast intro: subsetD)+
      from key [OF this] xy(3) have "sector_dedup_key x = sector_dedup_key y" by blast
      from inj_onD [OF d(2) this xy(1,2)] show "x = y" .
    qed
    with d(1) show ?thesis by (simp only: distinct_map simp_thms)
  qed
  moreover have e: "map ?lw (pl_sectors plan) = map ?lw ?D" unfolding secs(1) by (rule number_sectors_simps(5))
  moreover have "?lw ` set (pl_sectors plan) = ?lw ` set ?D" using e unfolding list.set_map [symmetric] by (rule arg_cong)
  moreover have "?lw ` set ?c = {(ls, concat (map line_coloured_labels p)) | ls p.
        open_line_flow process ls \<and> (if accuracy = STR ''lc'' then p = ls else mset p = mset ls)}"
    unfolding cand(1) by (rule Collect_cong) auto
  ultimately show ?thesis using secs(2) by simp
qed

text \<open>
  Without endpoints, a cap and a reference order, the single-trace sectors start with the
  smallest adjoint label and run through every order of the others exactly once; when trace
  reflections are folded at leading colour, exactly one of each order and its reflection is
  kept.
\<close>
theorem trace_plan_complete:
  assumes "build_color_plan process accuracy None None fold_refl STR ''trace'' = Inr plan"
    "fundamental_labels process = []" "antifundamental_labels process = []" "adjoint_labels process \<noteq> []"
    "distinct (adjoint_labels process)"
  defines "first \<equiv> Min (set (adjoint_labels process))"
  defines "rest \<equiv> filter (\<lambda>l. l \<noteq> first) (adjoint_labels process)"
  shows "distinct (map sc_trace (pl_sectors plan)) \<and>
    sc_trace ` set (pl_sectors plan) \<subseteq> {first # p | p. mset p = mset rest} \<and>
    (\<forall>p. mset p = mset rest \<longrightarrow>
      (if accuracy = STR ''lc'' \<and> fold_refl
       then card ({first # p, first # rev p} \<inter> sc_trace ` set (pl_sectors plan)) = 1
       else first # p \<in> sc_trace ` set (pl_sectors plan)))"
proof -
  let ?folded = "accuracy = STR ''lc'' \<and> fold_refl"
  let ?orders = "if ?folded then dedup_on (\<lambda>p. min p (rev p)) [] (perms rest) else perms rest"
  let ?c = "map (\<lambda>p. \<lparr>sc_id = 0, sc_kind = Single_Trace, sc_lines = [], sc_trace = first # p,
           sc_singlets = singlet_labels process, sc_word = []\<rparr>) ?orders"
  note b = assms(1) [unfolded build_color_plan_def Let_def]
  have ne: "STR ''trace'' \<noteq> STR ''adjoint''" by simp
  have acc: "accuracy = i_color_accuracy process" using b by (simp split: if_splits)
  have refs: "reference_sectors process None = []" "normalize_sector_cap None = None"
    by (simp_all add: reference_sectors_def normalize_sector_cap_def)
  have tc: "trace_candidates process ?folded = ?c"
    by (simp add: trace_candidates_def Let_def first_def rest_def)
  have plan: "plan = finish_plan process accuracy STR ''leading-colour trace enumeration reached max_sectors'' ?folded None [] ?c"
    using b ne assms(2,3,4) acc tc
    by (simp add: legs_by_labels_def build_no_fundamental_plan_def Let_def refs split: if_splits)
  have dr: "distinct rest" using assms(5) by (simp add: rest_def)
  have dk: "distinct (map sector_dedup_key ?c)"
  proof -
    have "distinct ?orders"
      using dedup_on_distinct [of "\<lambda>p. min p (rev p)" "[]" "perms rest"] distinct_perms [OF dr]
      by (auto simp: distinct_map)
    then show ?thesis by (simp add: distinct_map inj_on_def sector_dedup_key_def)
  qed
  then have "dedup_on sector_dedup_key [] ?c = ?c" by (intro dedup_on_id) simp_all
  with finish_plan_sectors(1) [where refs = "[]"] have secs: "pl_sectors plan = number_sectors 0 ?c"
    unfolding plan by simp
  then have tr: "map sc_trace (pl_sectors plan) = map ((#) first) ?orders" by (simp add: comp_def)
  then have T: "sc_trace ` set (pl_sectors plan) = (#) first ` set ?orders" by (metis list.set_map)
  have dord: "distinct ?orders"
    using dedup_on_distinct [of "\<lambda>p. min p (rev p)" "[]" "perms rest"] distinct_perms [OF dr]
    by (auto simp: distinct_map)
  have sub: "set ?orders \<subseteq> {p. mset p = mset rest}"
    using dedup_on_subset [of "\<lambda>p. min p (rev p)" "[]" "perms rest"] by (auto simp: set_perms)
  have pair: "card ({first # p, first # rev p} \<inter> (#) first ` set ?orders) = 1" if p: "mset p = mset rest" and f: ?folded for p
  proof -
    let ?k = "\<lambda>p :: int list. min p (rev p)"
    let ?O = "dedup_on ?k [] (perms rest)"
    have O: "?orders = ?O" using f by simp
    have kk: "?k x = ?k y \<longleftrightarrow> x = y \<or> x = rev y" for x y by (auto simp: min_def)
    have "?k p \<in> ?k ` set ?O" using dedup_on_keys [of ?k "[]" "perms rest"] p by (simp add: set_perms)
    then obtain q where q0: "q \<in> set ?O" "?k p = ?k q" by (rule imageE)
    have q: "q = p \<or> q = rev p" using q0(2) unfolding kk by auto
    have inj: "inj_on ?k (set ?O)" using dedup_on_distinct [of ?k "[]" "perms rest"] by (simp add: distinct_map)
    have u: "q' = q" if "q' \<in> set ?O" "q' = p \<or> q' = rev p" for q'
    proof -
      have "?k q' = ?k q" using that(2) q unfolding kk by auto
      from inj_onD [OF inj this that(1) q0(1)] show ?thesis .
    qed
    have "{first # p, first # rev p} \<inter> (#) first ` set ?O = {first # q}"
    proof
      show "{first # p, first # rev p} \<inter> (#) first ` set ?O \<subseteq> {first # q}" using u by auto
      show "{first # q} \<subseteq> {first # p, first # rev p} \<inter> (#) first ` set ?O" using q q0(1) by auto
    qed
    then show ?thesis unfolding O by simp
  qed
  have "distinct (map sc_trace (pl_sectors plan))" unfolding tr using dord by (simp add: distinct_map)
  moreover have "first # p \<in> (#) first ` set ?orders" if "mset p = mset rest" "\<not> ?folded" for p
    using that by (auto simp: set_perms)
  ultimately show ?thesis using T sub pair by auto
qed

section \<open>Instances\<close>

abbreviation sample_qqg :: process_ir where
  "sample_qqg \<equiv> sample_process STR ''lc'' [(1, Fundamental), (2, Antifundamental), (3, Adjoint), (4, Adjoint)]"

abbreviation sample_ggg :: process_ir where
  "sample_ggg \<equiv> sample_process STR ''lc'' [(1, Adjoint), (2, Adjoint), (3, Adjoint), (4, Adjoint)]"

lemma returns_code: "(case m of Inl _ \<Rightarrow> False | Inr _ \<Rightarrow> True) \<Longrightarrow> \<exists>x. m = Inr x"
  by (cases m) auto

lemma sample_labels:
  "fundamental_labels sample_qqg = [1]" "antifundamental_labels sample_qqg = [2]"
  "adjoint_labels sample_qqg = [3, 4]" "fundamental_labels sample_ggg = []"
  "antifundamental_labels sample_ggg = []" "adjoint_labels sample_ggg = [1, 2, 3, 4]"
  "i_color_accuracy sample_qqg = STR ''lc''" "i_color_accuracy sample_ggg = STR ''lc''"
  by code_simp+

lemma sample_legs:
  "\<exists>l. legs_by_labels sample_qqg [1] = Inr [l]" "\<exists>l. legs_by_labels sample_qqg [2] = Inr [l]"
proof -
  have "(case legs_by_labels sample_qqg [1] of Inl _ \<Rightarrow> False | Inr ls \<Rightarrow> length ls = 1)"
    "(case legs_by_labels sample_qqg [2] of Inl _ \<Rightarrow> False | Inr ls \<Rightarrow> length ls = 1)" by code_simp+
  then show "\<exists>l. legs_by_labels sample_qqg [1] = Inr [l]" "\<exists>l. legs_by_labels sample_qqg [2] = Inr [l]"
    by (auto simp: length_Suc_conv split: sum.splits)
qed

lemma sample_qqg_plan:
  "build_color_plan sample_qqg STR ''lc'' cap reference b STR ''trace'' =
     Inr (finish_plan sample_qqg STR ''lc'' STR ''leading-colour sector enumeration reached max_sectors'' False
       (normalize_sector_cap cap) (reference_sectors sample_qqg reference) (open_line_candidates sample_qqg False))"
  using sample_legs by (auto simp: build_color_plan_def sample_labels simp del: One_nat_def)

lemma sample_ggg_plan:
  "build_color_plan sample_ggg STR ''lc'' None None True STR ''trace'' =
     Inr (build_no_fundamental_plan sample_ggg None None True)"
  by (simp add: build_color_plan_def sample_labels legs_by_labels_def normalize_sector_cap_def)

lemma color_plan_sectors_wellformed_witness:
  "\<exists>plan. build_color_plan sample_qqg STR ''lc'' (Some 1) (Some [1, 4, 3, 2]) False STR ''trace'' = Inr plan \<and>
     map sc_id (pl_sectors plan) = [0, 1] \<and> length (pl_sectors plan) \<le> 2"
proof -
  let ?plan = "finish_plan sample_qqg STR ''lc'' STR ''leading-colour sector enumeration reached max_sectors'' False
       (normalize_sector_cap (Some 1)) (reference_sectors sample_qqg (Some [1, 4, 3, 2])) (open_line_candidates sample_qqg False)"
  have d: "distinct (adjoint_labels sample_qqg)" by (simp add: sample_labels)
  have n: "length (pl_sectors ?plan) = 2" by code_simp
  from color_plan_sectors_wellformed [OF sample_qqg_plan d, of "Some 1" "Some [1, 4, 3, 2]"] n sample_qqg_plan show ?thesis
    by (auto simp: numeral_2_eq_2)
qed

lemma open_line_plan_complete_witness:
  "\<exists>plan. build_color_plan sample_qqg STR ''lc'' None None False STR ''trace'' = Inr plan \<and>
     (\<lambda>s. (sc_lines s, sc_word s)) ` set (pl_sectors plan) =
       {(ls, concat (map line_coloured_labels ls)) | ls. open_line_flow sample_qqg ls}"
proof -
  obtain plan where plan: "build_color_plan sample_qqg STR ''lc'' None None False STR ''trace'' = Inr plan"
    using sample_qqg_plan by blast
  have "fundamental_labels sample_qqg \<noteq> []" "length (antifundamental_labels sample_qqg) = length (fundamental_labels sample_qqg)"
    by (simp_all add: sample_labels)
  from open_line_plan_complete [OF plan this] plan show ?thesis by auto
qed

lemma trace_plan_complete_witness:
  "\<exists>plan. build_color_plan sample_ggg STR ''lc'' None None True STR ''trace'' = Inr plan \<and>
     card ({[1, 2, 3, 4], [1, 4, 3, 2]} \<inter> sc_trace ` set (pl_sectors plan)) = 1"
proof -
  obtain plan where plan: "build_color_plan sample_ggg STR ''lc'' None None True STR ''trace'' = Inr plan"
    using sample_ggg_plan by blast
  have a: "adjoint_labels sample_ggg \<noteq> []" "distinct (adjoint_labels sample_ggg)" by (simp_all add: sample_labels)
  have m: "Min (set (adjoint_labels sample_ggg)) = 1" by (simp add: sample_labels)
  from trace_plan_complete [OF plan sample_labels(4,5) a] have
    "\<forall>p. mset p = mset [2, 3, 4] \<longrightarrow> card ({1 # p, 1 # rev p} \<inter> sc_trace ` set (pl_sectors plan)) = 1"
    unfolding m by (simp add: sample_labels)
  from spec [OF this, of "[2, 3, 4]"] plan show ?thesis by auto
qed

end
