(* ===== verification/Replay_Plan.thy ===== *)
theory Replay_Plan
  imports Complex_Main Color_Plan
begin

text \<open>
  The records of colour topology replay (\<open>color/plan_types.py\<close>): replay partitions, the
  certificate bound to a colour accuracy and the leading-colour replay plan. Both carriers
  validate the same cover of the physical sectors and answer \<open>representative_for\<close> by the same
  search; what they promise is stated once, in the locale \<open>replay_cover\<close>, and both are
  interpretations of it.
\<close>

section \<open>Replay partitions\<close>

text \<open>A float that is stored, compared with zero and tested by \<open>math.isfinite\<close>.\<close>

datatype py_float = Finite rat | Non_Finite

definition positive_finite :: "py_float \<Rightarrow> bool" where
  "positive_finite w = (case w of Finite x \<Rightarrow> 0 < x | Non_Finite \<Rightarrow> False)"

record replay_partition =
  rp_representative :: nat
  rp_active :: "nat list"
  rp_permutations :: "(int \<times> int) list list"
  rp_replay_weights :: "py_float list"
  rp_replay_signs :: "int list"
  rp_materialized :: nat
  rp_algorithm :: "string option"
  rp_digest :: "string option"

definition rp_weights :: "replay_partition \<Rightarrow> py_float list" where
  "rp_weights p = (if rp_replay_weights p = [] then replicate (length (rp_active p)) (Finite 1) else rp_replay_weights p)"

definition rp_signs :: "replay_partition \<Rightarrow> int list" where
  "rp_signs p = (if rp_replay_signs p = [] then replicate (length (rp_active p)) 1 else rp_replay_signs p)"

definition hex_digest :: "string \<Rightarrow> bool" where
  "hex_digest d \<longleftrightarrow> length d = 64 \<and> set d \<subseteq> set ''0123456789abcdef''"

text \<open>
  \<open>LCColorSectorReplayPartition.__post_init__\<close>. The first argument is the value given for
  \<open>materialized_sector_id\<close>, \<open>None\<close> when it is omitted; the field of the raw record is not read.
\<close>

definition make_partition :: "nat option \<Rightarrow> replay_partition \<Rightarrow> replay_partition res" where
  "make_partition materialized raw =
     (let p = raw\<lparr>rp_materialized := (case materialized of None \<Rightarrow> rp_representative raw | Some m \<Rightarrow> m)\<rparr>;
          count = length (rp_active p)
      in if length (rp_permutations p) \<noteq> count
         then Inl (ValueError STR ''LC replay partition permutations do not match active sectors'')
         else if rp_replay_weights p \<noteq> [] \<and> length (rp_replay_weights p) \<noteq> count
         then Inl (ValueError STR ''LC replay partition weights do not match active sectors'')
         else if rp_replay_signs p \<noteq> [] \<and> length (rp_replay_signs p) \<noteq> count
         then Inl (ValueError STR ''LC replay partition signs do not match active sectors'')
         else if \<exists>w \<in> set (rp_weights p). \<not> positive_finite w
         then Inl (ValueError STR ''LC replay partition weights must be positive and finite'')
         else if \<exists>s \<in> set (rp_signs p). s \<notin> {-1, 1}
         then Inl (ValueError STR ''LC replay partition signs must be -1 or 1'')
         else if rp_representative p \<notin> set (rp_active p)
         then Inl (ValueError STR ''LC replay partition does not contain its representative'')
         else if rp_materialized p \<noteq> rp_representative p
         then Inl (ValueError STR ''LC replay currently materializes the partition representative'')
         else if (rp_algorithm p = None) \<noteq> (rp_digest p = None)
         then Inl (ValueError STR ''LC replay proof algorithm and digest must be present together'')
         else if (case rp_digest p of None \<Rightarrow> False | Some d \<Rightarrow> \<not> hex_digest d)
         then Inl (ValueError STR ''LC replay proof digest must be a lowercase SHA-256'')
         else Inr p)"

text \<open>The condition under which construction succeeds, and what every constructed partition satisfies.\<close>

definition partition_ok :: "replay_partition \<Rightarrow> bool" where
  "partition_ok p \<longleftrightarrow>
     length (rp_permutations p) = length (rp_active p) \<and> length (rp_weights p) = length (rp_active p) \<and>
     length (rp_signs p) = length (rp_active p) \<and> (\<forall>w \<in> set (rp_weights p). positive_finite w) \<and>
     set (rp_signs p) \<subseteq> {-1, 1} \<and> rp_representative p \<in> set (rp_active p) \<and>
     rp_materialized p = rp_representative p \<and> (rp_algorithm p = None \<longleftrightarrow> rp_digest p = None) \<and>
     (\<forall>d. rp_digest p = Some d \<longrightarrow> hex_digest d)"

lemma length_rp_weights:
  "length (rp_weights p) = length (rp_active p) \<longleftrightarrow> \<not> (rp_replay_weights p \<noteq> [] \<and> length (rp_replay_weights p) \<noteq> length (rp_active p))"
  by (simp add: rp_weights_def)

lemma length_rp_signs:
  "length (rp_signs p) = length (rp_active p) \<longleftrightarrow> \<not> (rp_replay_signs p \<noteq> [] \<and> length (rp_replay_signs p) \<noteq> length (rp_active p))"
  by (simp add: rp_signs_def)

lemma make_partition_iff:
  "make_partition m raw = Inr p \<longleftrightarrow>
     p = raw\<lparr>rp_materialized := (case m of None \<Rightarrow> rp_representative raw | Some k \<Rightarrow> k)\<rparr> \<and> partition_ok p"
proof -
  let ?q = "raw\<lparr>rp_materialized := (case m of None \<Rightarrow> rp_representative raw | Some k \<Rightarrow> k)\<rparr>"
  have d: "\<not> (case rp_digest ?q of None \<Rightarrow> False | Some d \<Rightarrow> \<not> hex_digest d) \<longleftrightarrow> (\<forall>d. rp_digest ?q = Some d \<longrightarrow> hex_digest d)"
    by (cases "rp_digest ?q") simp_all
  have s: "\<not> (\<exists>s \<in> set (rp_signs ?q). s \<notin> {-1, 1}) \<longleftrightarrow> set (rp_signs ?q) \<subseteq> {-1, 1}" by blast
  show ?thesis
    unfolding make_partition_def Let_def if_raise_Inr_iff d s partition_ok_def sum.inject length_rp_weights length_rp_signs
    by metis
qed

text \<open>\<open>to_runtime_manifest\<close>: the rows of \<open>sector_permutations\<close>; the \<open>zip\<close> is strict.\<close>

record replay_row =
  rr_sector :: nat
  rr_weight :: py_float
  rr_sign :: int
  rr_factor :: py_float
  rr_permutation :: "(int \<times> int) list"

definition scale_float :: "py_float \<Rightarrow> int \<Rightarrow> py_float" where
  "scale_float w s = (case w of Finite x \<Rightarrow> Finite (x * of_int s) | Non_Finite \<Rightarrow> Non_Finite)"

definition runtime_rows :: "replay_partition \<Rightarrow> replay_row list res" where
  "runtime_rows p =
     (if length (rp_permutations p) = length (rp_active p) \<and> length (rp_weights p) = length (rp_active p) \<and>
         length (rp_signs p) = length (rp_active p)
      then Inr (map (\<lambda>(i, perm, w, s). \<lparr>rr_sector = i, rr_weight = w, rr_sign = s, rr_factor = scale_float w s, rr_permutation = perm\<rparr>)
        (zip (rp_active p) (zip (rp_permutations p) (zip (rp_weights p) (rp_signs p)))))
      else Inl (ValueError STR ''zip() argument is shorter than argument 1''))"

section \<open>Covers of the physical sectors\<close>

definition replayed_ids :: "replay_partition list \<Rightarrow> nat list" where
  "replayed_ids ps = concat (map rp_active ps)"

datatype cover_defect =
  Physical_Duplicates | Residual_Duplicates | Unproven_Partition | Partitions_Overlap | Residual_Overlap | Not_Covered

definition cover_defect_of :: "nat list \<Rightarrow> replay_partition list \<Rightarrow> nat list \<Rightarrow> cover_defect option" where
  "cover_defect_of physical ps residual =
     (if has_duplicates physical then Some Physical_Duplicates
      else if has_duplicates residual then Some Residual_Duplicates
      else if \<exists>p \<in> set ps. rp_algorithm p = None \<or> rp_digest p = None then Some Unproven_Partition
      else if has_duplicates (replayed_ids ps) then Some Partitions_Overlap
      else if set (replayed_ids ps) \<inter> set residual \<noteq> {} then Some Residual_Overlap
      else if set (replayed_ids ps) \<union> set residual \<noteq> set physical then Some Not_Covered
      else None)"

definition covers :: "nat list \<Rightarrow> replay_partition list \<Rightarrow> nat list \<Rightarrow> bool" where
  "covers physical ps residual \<longleftrightarrow>
     distinct physical \<and> distinct (replayed_ids ps @ residual) \<and> set (replayed_ids ps @ residual) = set physical \<and>
     (\<forall>p \<in> set ps. rp_algorithm p \<noteq> None \<and> rp_digest p \<noteq> None)"

lemma cover_defect_None: "cover_defect_of physical ps residual = None \<longleftrightarrow> covers physical ps residual"
  by (auto simp: cover_defect_of_def covers_def)

definition replayed_sector_count :: "replay_partition list \<Rightarrow> nat" where
  "replayed_sector_count ps = sum_list (map (length \<circ> rp_active) ps)"

definition materialized_sector_ids :: "replay_partition list \<Rightarrow> nat list \<Rightarrow> nat list" where
  "materialized_sector_ids ps residual = sort (remdups (map rp_materialized ps @ residual))"

definition replay_optimized :: "replay_partition list \<Rightarrow> bool" where
  "replay_optimized ps \<longleftrightarrow> (\<exists>p \<in> set ps. 1 < length (rp_active p))"

definition representative_in :: "String.literal \<Rightarrow> replay_partition list \<Rightarrow> nat list \<Rightarrow> nat \<Rightarrow> nat res" where
  "representative_in missing ps residual i =
     (case find (\<lambda>p. i \<in> set (rp_active p)) ps of
        Some p \<Rightarrow> Inr (rp_materialized p)
      | None \<Rightarrow> if i \<in> set residual then Inr i else Inl (KeyError missing))"

section \<open>The certificate and the leading-colour plan\<close>

text \<open>A diagnostic is the constant part of its message and the representative it names.\<close>

type_synonym diagnostic = "String.literal \<times> nat"

record replay_certificate =
  rc_accuracy :: String.literal
  rc_physical :: "nat list"
  rc_partitions :: "replay_partition list"
  rc_residual :: "nat list"
  rc_diagnostics :: "diagnostic list"

fun certificate_message :: "cover_defect \<Rightarrow> String.literal" where
  "certificate_message Physical_Duplicates = STR ''topology replay physical sectors contain duplicates''"
| "certificate_message Residual_Duplicates = STR ''topology replay residual sectors contain duplicates''"
| "certificate_message Unproven_Partition = STR ''topology replay certificate contains an unproven partition''"
| "certificate_message Partitions_Overlap = STR ''topology replay certificate partitions overlap''"
| "certificate_message Residual_Overlap = STR ''topology replay sectors overlap residual coverage''"
| "certificate_message Not_Covered = STR ''topology replay certificate does not cover every physical sector''"

definition make_certificate :: "replay_certificate \<Rightarrow> replay_certificate res" where
  "make_certificate raw =
     (if rc_accuracy raw \<notin> {STR ''lc'', STR ''nlc'', STR ''full''}
      then Inl (ValueError STR ''unsupported topology replay accuracy'')
      else (let physical = sort (rc_physical raw); residual = sort (rc_residual raw)
            in case cover_defect_of physical (rc_partitions raw) residual of
                 Some d \<Rightarrow> Inl (ValueError (certificate_message d))
               | None \<Rightarrow> Inr (raw\<lparr>rc_physical := physical, rc_residual := residual\<rparr>)))"

definition certificate_representative_for :: "replay_certificate \<Rightarrow> nat \<Rightarrow> nat res" where
  "certificate_representative_for c i =
     representative_in STR ''topology replay certificate has no sector'' (rc_partitions c) (rc_residual c) i"

record lc_replay_plan =
  lp_physical :: "nat list"
  lp_partitions :: "replay_partition list"
  lp_residual :: "nat list"
  lp_diagnostics :: "diagnostic list"

fun lc_plan_message :: "cover_defect \<Rightarrow> String.literal" where
  "lc_plan_message Physical_Duplicates = STR ''LC replay physical sectors contain duplicates''"
| "lc_plan_message Residual_Duplicates = STR ''LC replay residual sectors contain duplicates''"
| "lc_plan_message Unproven_Partition = STR ''LC replay plan contains an unproven partition''"
| "lc_plan_message Partitions_Overlap = STR ''LC replay partitions overlap''"
| "lc_plan_message Residual_Overlap = STR ''LC replay sectors overlap residual coverage''"
| "lc_plan_message Not_Covered = STR ''LC replay plan does not cover every physical sector''"

definition make_lc_replay_plan :: "lc_replay_plan \<Rightarrow> lc_replay_plan res" where
  "make_lc_replay_plan raw =
     (let physical = sort (lp_physical raw); residual = sort (lp_residual raw)
      in case cover_defect_of physical (lp_partitions raw) residual of
           Some d \<Rightarrow> Inl (ValueError (lc_plan_message d))
         | None \<Rightarrow> Inr (raw\<lparr>lp_physical := physical, lp_residual := residual\<rparr>))"

definition lc_representative_for :: "lc_replay_plan \<Rightarrow> nat \<Rightarrow> nat res" where
  "lc_representative_for c i =
     representative_in STR ''LC replay plan has no physical sector'' (lp_partitions c) (lp_residual c) i"

section \<open>What a cover promises\<close>

lemma distinct_concat_owner:
  "distinct (concat (map f ps)) \<Longrightarrow> p \<in> set ps \<Longrightarrow> q \<in> set ps \<Longrightarrow> x \<in> set (f p) \<Longrightarrow> x \<in> set (f q) \<Longrightarrow> p = q"
  by (induction ps) auto

lemma materialized_distinct:
  "distinct (replayed_ids ps) \<Longrightarrow> \<forall>p \<in> set ps. rp_materialized p \<in> set (rp_active p) \<Longrightarrow> distinct (map rp_materialized ps)"
proof (induction ps)
  case (Cons p ps)
  then have IH: "distinct (map rp_materialized ps)" by (simp add: replayed_ids_def)
  have "rp_materialized p \<notin> set (rp_active q)" if "q \<in> set ps" for q
    using Cons.prems that unfolding replayed_ids_def by (auto simp: disjoint_iff)
  then have "rp_materialized p \<notin> rp_materialized ` set ps"
    using Cons.prems(2) by (metis image_iff list.set_intros(2))
  with IH show ?case by simp
qed simp

text \<open>
  The contract of the two carriers: what construction establishes and how look-ups are answered.
\<close>

locale replay_cover =
  fixes valid :: "'c \<Rightarrow> bool" and physical :: "'c \<Rightarrow> nat list" and parts :: "'c \<Rightarrow> replay_partition list"
    and residual :: "'c \<Rightarrow> nat list" and representative :: "'c \<Rightarrow> nat \<Rightarrow> nat res" and missing :: String.literal
  assumes covered: "valid c \<Longrightarrow> covers (physical c) (parts c) (residual c)"
    and built: "valid c \<Longrightarrow> p \<in> set (parts c) \<Longrightarrow> partition_ok p"
    and looked_up: "representative c i = representative_in missing (parts c) (residual c) i"
begin

lemma in_part:
  assumes "valid c" "p \<in> set (parts c)" "i \<in> set (rp_active p)"
  shows "representative c i = Inr (rp_materialized p)"
proof -
  have d: "distinct (concat (map rp_active (parts c)))"
    using covered [OF assms(1)] by (simp add: covers_def replayed_ids_def)
  obtain q where q: "find (\<lambda>p. i \<in> set (rp_active p)) (parts c) = Some q"
    using assms(2,3) by (metis find_None_iff option.exhaust)
  then have "q \<in> set (parts c)" "i \<in> set (rp_active q)" by (auto dest: find_SomeD)
  with distinct_concat_owner [OF d this(1) assms(2) this(2) assms(3)] q show ?thesis
    by (simp add: looked_up representative_in_def)
qed

lemma in_residual:
  assumes "valid c" "i \<in> set (residual c)"
  shows "representative c i = Inr i"
proof -
  have "\<forall>p \<in> set (parts c). i \<notin> set (rp_active p)"
    using covered [OF assms(1)] assms(2) by (auto simp: covers_def replayed_ids_def)
  then have "find (\<lambda>p. i \<in> set (rp_active p)) (parts c) = None" by (simp add: find_None_iff)
  with assms(2) show ?thesis by (simp add: looked_up representative_in_def)
qed

lemma total:
  assumes "valid c"
  shows "returns (representative c i) \<longleftrightarrow> i \<in> set (physical c)"
proof
  assume "i \<in> set (physical c)"
  then have "i \<in> set (replayed_ids (parts c)) \<or> i \<in> set (residual c)"
    using covered [OF assms] by (auto simp: covers_def)
  then consider p where "p \<in> set (parts c)" "i \<in> set (rp_active p)" | "i \<in> set (residual c)"
    by (auto simp: replayed_ids_def)
  then show "returns (representative c i)" by cases (use in_part in_residual assms in blast)+
next
  assume "returns (representative c i)"
  then show "i \<in> set (physical c)"
    using covered [OF assms]
    by (auto simp: looked_up representative_in_def covers_def replayed_ids_def dest!: find_SomeD split: option.splits if_splits)
qed

lemma materialized:
  assumes "valid c"
  shows "{r. \<exists>i. representative c i = Inr r} = set (materialized_sector_ids (parts c) (residual c))"
proof (intro equalityI subsetI)
  fix r assume "r \<in> {r. \<exists>i. representative c i = Inr r}"
  then obtain i where "representative_in missing (parts c) (residual c) i = Inr r" by (auto simp: looked_up)
  then show "r \<in> set (materialized_sector_ids (parts c) (residual c))"
    unfolding representative_in_def materialized_sector_ids_def
    by (cases "find (\<lambda>p. i \<in> set (rp_active p)) (parts c)") (auto dest!: find_SomeD split: if_splits)
next
  fix r assume "r \<in> set (materialized_sector_ids (parts c) (residual c))"
  then consider p where "p \<in> set (parts c)" "r = rp_materialized p" | "r \<in> set (residual c)"
    by (auto simp: materialized_sector_ids_def)
  then show "r \<in> {r. \<exists>i. representative c i = Inr r}"
  proof cases
    case 1
    then have "r \<in> set (rp_active p)" using built [OF assms 1(1)] by (simp add: partition_ok_def)
    with in_part [OF assms 1(1)] 1(2) show ?thesis by blast
  qed (use in_residual assms in blast)
qed

lemma fixed:
  assumes "valid c" "r \<in> set (materialized_sector_ids (parts c) (residual c))"
  shows "representative c r = Inr r"
proof -
  from assms(2) consider p where "p \<in> set (parts c)" "r = rp_materialized p" | "r \<in> set (residual c)"
    by (auto simp: materialized_sector_ids_def)
  then show ?thesis
  proof cases
    case 1
    then have "r \<in> set (rp_active p)" using built [OF assms(1) 1(1)] by (simp add: partition_ok_def)
    with in_part [OF assms(1) 1(1)] 1(2) show ?thesis by blast
  qed (use in_residual assms in blast)
qed

lemma counted:
  assumes "valid c"
  shows "length (physical c) = replayed_sector_count (parts c) + length (residual c)"
    "length (materialized_sector_ids (parts c) (residual c)) = length (parts c) + length (residual c)"
proof -
  have c: "distinct (physical c)" "distinct (replayed_ids (parts c) @ residual c)"
    "set (replayed_ids (parts c) @ residual c) = set (physical c)"
    using covered [OF assms] by (simp_all add: covers_def)
  from c have "length (physical c) = length (replayed_ids (parts c) @ residual c)"
    by (metis distinct_card)
  then show "length (physical c) = replayed_sector_count (parts c) + length (residual c)"
    by (simp add: replayed_ids_def replayed_sector_count_def length_concat comp_def)
  note materialized_distinct [of "parts c"]
  moreover have m: "\<forall>p \<in> set (parts c). rp_materialized p \<in> set (rp_active p)"
    using built [OF assms] by (simp add: partition_ok_def)
  ultimately have "distinct (map rp_materialized (parts c))" using c(2) by simp
  moreover have "set (map rp_materialized (parts c)) \<inter> set (residual c) = {}"
    using c(2) m by (auto simp: replayed_ids_def)
  ultimately have "distinct (map rp_materialized (parts c) @ residual c)" using c(2) by simp
  then show "length (materialized_sector_ids (parts c) (residual c)) = length (parts c) + length (residual c)"
    by (simp add: materialized_sector_ids_def distinct_remdups_id)
qed

end

text \<open>A carrier is valid when its constructor and those of its partitions returned it.\<close>

definition built_partition :: "replay_partition \<Rightarrow> bool" where
  "built_partition p \<longleftrightarrow> (\<exists>m raw. make_partition m raw = Inr p)"

definition valid_certificate :: "replay_certificate \<Rightarrow> bool" where
  "valid_certificate c \<longleftrightarrow> (\<exists>raw. make_certificate raw = Inr c) \<and> (\<forall>p \<in> set (rc_partitions c). built_partition p)"

definition valid_lc_plan :: "lc_replay_plan \<Rightarrow> bool" where
  "valid_lc_plan c \<longleftrightarrow> (\<exists>raw. make_lc_replay_plan raw = Inr c) \<and> (\<forall>p \<in> set (lp_partitions c). built_partition p)"

lemma built_partition_ok: "built_partition p \<Longrightarrow> partition_ok p"
  by (auto simp: built_partition_def make_partition_iff)

lemma make_certificate_iff:
  "make_certificate raw = Inr c \<longleftrightarrow>
     rc_accuracy raw \<in> {STR ''lc'', STR ''nlc'', STR ''full''} \<and>
     c = raw\<lparr>rc_physical := sort (rc_physical raw), rc_residual := sort (rc_residual raw)\<rparr> \<and>
     covers (rc_physical c) (rc_partitions c) (rc_residual c)"
  unfolding make_certificate_def Let_def cover_defect_None [symmetric]
  by (auto split: option.splits)

lemma make_lc_replay_plan_iff:
  "make_lc_replay_plan raw = Inr c \<longleftrightarrow>
     c = raw\<lparr>lp_physical := sort (lp_physical raw), lp_residual := sort (lp_residual raw)\<rparr> \<and>
     covers (lp_physical c) (lp_partitions c) (lp_residual c)"
  unfolding make_lc_replay_plan_def Let_def cover_defect_None [symmetric]
  by (auto split: option.splits)

interpretation certificate: replay_cover valid_certificate rc_physical rc_partitions rc_residual
    certificate_representative_for "STR ''topology replay certificate has no sector''"
  by unfold_locales (auto simp: valid_certificate_def make_certificate_iff built_partition_ok certificate_representative_for_def)

interpretation lc_plan: replay_cover valid_lc_plan lp_physical lp_partitions lp_residual
    lc_representative_for "STR ''LC replay plan has no physical sector''"
  by unfold_locales (auto simp: valid_lc_plan_def make_lc_replay_plan_iff built_partition_ok lc_representative_for_def)

section \<open>Properties\<close>

lemma runtime_rows_ok:
  assumes "partition_ok p"
  shows "\<exists>rows. runtime_rows p = Inr rows \<and> map rr_sector rows = rp_active p \<and> map rr_permutation rows = rp_permutations p \<and>
    (\<forall>row \<in> set rows. \<exists>x. rr_weight row = Finite x \<and> 0 < x \<and> rr_sign row \<in> {-1, 1} \<and> rr_factor row = Finite (x * of_int (rr_sign row)))"
proof -
  let ?z = "zip (rp_active p) (zip (rp_permutations p) (zip (rp_weights p) (rp_signs p)))"
  let ?f = "\<lambda>(i, perm, w, s). \<lparr>rr_sector = i, rr_weight = w, rr_sign = s, rr_factor = scale_float w s, rr_permutation = perm\<rparr>"
  have len: "length (rp_permutations p) = length (rp_active p)" "length (rp_weights p) = length (rp_active p)"
    "length (rp_signs p) = length (rp_active p)" using assms by (simp_all add: partition_ok_def)
  then have "runtime_rows p = Inr (map ?f ?z)" by (simp add: runtime_rows_def)
  moreover have "map rr_sector (map ?f ?z) = rp_active p" "map rr_permutation (map ?f ?z) = rp_permutations p"
    using len by (auto intro!: nth_equalityI)
  moreover have "\<exists>x. rr_weight (?f z) = Finite x \<and> 0 < x \<and> rr_sign (?f z) \<in> {-1, 1} \<and> rr_factor (?f z) = Finite (x * of_int (rr_sign (?f z)))"
    if "z \<in> set ?z" for z
  proof -
    obtain i perm w sg where z: "z = (i, perm, w, sg)" by (cases z)
    with that have "w \<in> set (rp_weights p)" "sg \<in> set (rp_signs p)" by (meson in_set_zipE)+
    with assms have "positive_finite w" "sg \<in> {-1, 1}" by (auto simp: partition_ok_def)
    then show ?thesis unfolding z by (cases w) (simp_all add: positive_finite_def scale_float_def)
  qed
  ultimately show ?thesis by (intro exI [of _ "map ?f ?z"]) auto
qed

text \<open>
  Construction of a replay partition succeeds exactly on aligned, positively weighted and
  signed member lists that contain the materialised representative and carry an algorithm and a
  SHA-256 digest together or not at all; the strict zip of the runtime manifest then always
  yields one row per active sector, with factor weight times sign.
\<close>
theorem partition_constructor_exact:
  "(make_partition m raw = Inr p \<longleftrightarrow>
     p = raw\<lparr>rp_materialized := (case m of None \<Rightarrow> rp_representative raw | Some k \<Rightarrow> k)\<rparr> \<and> partition_ok p) \<and>
   (make_partition m raw = Inr p \<longrightarrow>
     (\<exists>rows. runtime_rows p = Inr rows \<and> map rr_sector rows = rp_active p \<and> map rr_permutation rows = rp_permutations p \<and>
      (\<forall>row \<in> set rows. \<exists>x. rr_weight row = Finite x \<and> 0 < x \<and> rr_sign row \<in> {-1, 1} \<and>
         rr_factor row = Finite (x * of_int (rr_sign row)))))"
  using make_partition_iff [of m raw p] runtime_rows_ok [of p] by blast

text \<open>
  C39. A topology replay certificate built from constructed partitions represents every physical
  sector and nothing else: \<open>representative_for\<close> returns on exactly the physical sectors and
  raises on any other id, its values are exactly the materialised sectors, each of which
  represents itself, and replay saves exactly one materialisation per replayed sector beyond
  the first of its partition.
\<close>
theorem certificate_represents_physical:
  assumes "make_certificate raw = Inr c" "\<forall>p \<in> set (rc_partitions raw). built_partition p"
  shows "(returns (certificate_representative_for c i) \<longleftrightarrow> i \<in> set (rc_physical raw)) \<and>
    {r. \<exists>i. certificate_representative_for c i = Inr r} = set (materialized_sector_ids (rc_partitions c) (rc_residual c)) \<and>
    (certificate_representative_for c i = Inr r \<longrightarrow> certificate_representative_for c r = Inr r) \<and>
    length (rc_physical c) + length (rc_partitions c) =
      length (materialized_sector_ids (rc_partitions c) (rc_residual c)) + replayed_sector_count (rc_partitions c)"
proof -
  have c: "c = raw\<lparr>rc_physical := sort (rc_physical raw), rc_residual := sort (rc_residual raw)\<rparr>"
    using assms(1) by (simp add: make_certificate_iff)
  with assms have v: "valid_certificate c" by (auto simp: valid_certificate_def)
  have "set (rc_physical c) = set (rc_physical raw)" by (simp add: c)
  then show ?thesis
    using certificate.total [OF v, of i] certificate.materialized [OF v] certificate.fixed [OF v]
      certificate.counted [OF v] by auto
qed

text \<open>The leading-colour replay plan keeps the same promise.\<close>
theorem lc_plan_represents_physical:
  assumes "make_lc_replay_plan raw = Inr c" "\<forall>p \<in> set (lp_partitions raw). built_partition p"
  shows "(returns (lc_representative_for c i) \<longleftrightarrow> i \<in> set (lp_physical raw)) \<and>
    {r. \<exists>i. lc_representative_for c i = Inr r} = set (materialized_sector_ids (lp_partitions c) (lp_residual c)) \<and>
    (lc_representative_for c i = Inr r \<longrightarrow> lc_representative_for c r = Inr r)"
proof -
  have c: "c = raw\<lparr>lp_physical := sort (lp_physical raw), lp_residual := sort (lp_residual raw)\<rparr>"
    using assms(1) by (simp add: make_lc_replay_plan_iff)
  with assms have v: "valid_lc_plan c" by (auto simp: valid_lc_plan_def)
  have "set (lp_physical c) = set (lp_physical raw)" by (simp add: c)
  then show ?thesis
    using lc_plan.total [OF v, of i] lc_plan.materialized [OF v] lc_plan.fixed [OF v] by auto
qed

section \<open>Instances\<close>

definition sample_partition :: replay_partition where
  "sample_partition = \<lparr>rp_representative = 1, rp_active = [1, 2], rp_permutations = [[(3, 3), (4, 4)], [(3, 4), (4, 3)]],
     rp_replay_weights = [], rp_replay_signs = [1, -1], rp_materialized = 1,
     rp_algorithm = Some ''label-equivariance'', rp_digest = Some (replicate 64 CHR ''a'')\<rparr>"

definition sample_certificate :: replay_certificate where
  "sample_certificate = \<lparr>rc_accuracy = STR ''full'', rc_physical = [0, 1, 2], rc_partitions = [sample_partition],
     rc_residual = [0], rc_diagnostics = []\<rparr>"

lemma sample_partition_ok: "partition_ok sample_partition"
  by (simp add: partition_ok_def sample_partition_def rp_weights_def rp_signs_def positive_finite_def hex_digest_def)

lemma sample_partition_built: "built_partition sample_partition"
proof -
  have "make_partition None sample_partition = Inr sample_partition"
    using sample_partition_ok by (simp add: make_partition_iff sample_partition_def)
  then show ?thesis unfolding built_partition_def by blast
qed

lemma sample_covers: "covers [0, 1, 2] [sample_partition] [0]"
  by (auto simp: covers_def replayed_ids_def sample_partition_def)

lemma partition_constructor_exact_witness:
  "make_partition None sample_partition = Inr sample_partition \<and> (\<exists>rows. runtime_rows sample_partition = Inr rows)"
proof -
  have e: "sample_partition = sample_partition\<lparr>rp_materialized := (case None of None \<Rightarrow> rp_representative sample_partition | Some k \<Rightarrow> k)\<rparr>"
    by (simp add: sample_partition_def)
  from partition_constructor_exact [of None sample_partition sample_partition] e sample_partition_ok show ?thesis by blast
qed

lemma certificate_represents_physical_witness:
  "certificate_representative_for sample_certificate 2 = Inr 1 \<and>
     (\<exists>e. certificate_representative_for sample_certificate 7 = Inl e)"
proof -
  have m: "make_certificate sample_certificate = Inr sample_certificate"
    using sample_covers by (simp add: make_certificate_iff sample_certificate_def)
  have b: "\<forall>p \<in> set (rc_partitions sample_certificate). built_partition p"
    using sample_partition_built by (simp add: sample_certificate_def)
  have "\<not> returns (certificate_representative_for sample_certificate 7)"
    using certificate_represents_physical [OF m b, of 7] by (simp add: sample_certificate_def)
  moreover have "certificate_representative_for sample_certificate 2 = Inr 1"
    by (simp add: certificate_representative_for_def representative_in_def sample_certificate_def sample_partition_def)
  ultimately show ?thesis by (metis sum.exhaust)
qed

lemma lc_plan_represents_physical_witness:
  "\<exists>c. make_lc_replay_plan \<lparr>lp_physical = [2, 0, 1], lp_partitions = [sample_partition], lp_residual = [0], lp_diagnostics = []\<rparr> = Inr c \<and>
     (\<forall>i. returns (lc_representative_for c i) \<longleftrightarrow> i \<in> {0, 1, 2})"
proof -
  let ?raw = "\<lparr>lp_physical = [2, 0, 1], lp_partitions = [sample_partition], lp_residual = [0], lp_diagnostics = []\<rparr>"
  let ?c = "?raw\<lparr>lp_physical := [0, 1, 2]\<rparr>"
  have m: "make_lc_replay_plan ?raw = Inr ?c"
    using sample_covers by (simp add: make_lc_replay_plan_iff)
  have b: "\<forall>p \<in> set (lp_partitions ?raw). built_partition p" using sample_partition_built by simp
  have "returns (lc_representative_for ?c i) \<longleftrightarrow> i \<in> {0, 1, 2}" for i
    using lc_plan_represents_physical [OF m b, of i] by auto
  with m show ?thesis by blast
qed

end
