(* ===== verification/Py_Dict.thy ===== *)
theory Py_Dict
  imports Prelude "HOL-Library.AList"
begin

text \<open>
  Python dictionaries as association lists in insertion order: a dict comprehension over pairs,
  look-ups that raise, and the idiom \<open>d.setdefault(key(x), []).append(x)\<close> that groups a sequence.
\<close>

section \<open>Comprehensions and look-ups\<close>

definition dict_of :: "('k \<times> 'v) list \<Rightarrow> ('k \<times> 'v) list" where
  "dict_of ps = foldl (\<lambda>d (k, v). AList.update k v d) [] ps"

definition lookupE :: "('k \<times> 'v) list \<Rightarrow> 'k \<Rightarrow> 'v res" where
  "lookupE d k = (case map_of d k of None \<Rightarrow> Inl (KeyError STR ''key'') | Some v \<Rightarrow> Inr v)"

lemma lookupE_Inr_iff [simp]: "lookupE d k = Inr v \<longleftrightarrow> map_of d k = Some v"
  by (auto simp: lookupE_def split: option.splits)

lemma lookupE_the: "k \<in> fst ` set d \<Longrightarrow> lookupE d k = Inr (the (map_of d k))"
  by (auto simp: lookupE_def split: option.splits dest: map_of_SomeD simp: map_of_eq_None_iff)

lemma foldl_update_map_of:
  "map_of (foldl (\<lambda>d (k, v). AList.update k v d) d ps) = map_of d ++ map_of (rev ps)"
proof (induction ps arbitrary: d)
  case (Cons p ps)
  obtain k v where p: "p = (k, v)" by (cases p)
  show ?case by (simp add: p Cons.IH update_conv' fun_upd_def map_add_def fun_eq_iff split: option.splits)
qed simp

lemma foldl_update_distinct:
  "distinct (map fst d) \<Longrightarrow> distinct (map fst (foldl (\<lambda>d (k, v). AList.update k v d) d ps))"
proof (induction ps arbitrary: d)
  case (Cons p ps)
  then show ?case by (cases p) (simp add: distinct_update)
qed simp

lemma map_of_dict_of [simp]: "map_of (dict_of ps) = map_of (rev ps)"
  by (simp add: dict_of_def foldl_update_map_of)

lemma distinct_dict_of [simp]: "distinct (map fst (dict_of ps))"
  by (simp add: dict_of_def foldl_update_distinct)

lemma keys_dict_of [simp]: "fst ` set (dict_of ps) = fst ` set ps"
  by (metis dom_map_of_conv_image_fst image_set map_of_dict_of set_rev)

lemma dict_of_items: "(k, v) \<in> set (dict_of ps) \<longleftrightarrow> map_of (rev ps) k = Some v"
  by (metis distinct_dict_of map_of_dict_of map_of_eq_Some_iff)

lemma dict_of_update_append:
  "distinct (map fst (d @ ps)) \<Longrightarrow> foldl (\<lambda>d (k, v). AList.update k v d) d ps = d @ ps"
proof (induction ps arbitrary: d)
  case (Cons p ps)
  obtain k v where p: "p = (k, v)" by (cases p)
  from Cons.prems have k: "k \<notin> fst ` set d" by (auto simp: p)
  then have "AList.update k v d = d @ [(k, v)]" by (induction d) auto
  with Cons show ?case by (simp add: p)
qed simp

lemma dict_of_id: "distinct (map fst ps) \<Longrightarrow> dict_of ps = ps"
  unfolding dict_of_def using dict_of_update_append [of "[]" ps] by simp

lemma map_of_rev: "distinct (map fst ps) \<Longrightarrow> map_of (rev ps) = map_of ps"
  by (metis dict_of_id map_of_dict_of)

section \<open>Grouping\<close>

fun group_insert :: "'k \<Rightarrow> 'a \<Rightarrow> ('k \<times> 'a list) list \<Rightarrow> ('k \<times> 'a list) list" where
  "group_insert k x [] = [(k, [x])]"
| "group_insert k x ((k', xs) # gs) = (if k = k' then (k', xs @ [x]) # gs else (k', xs) # group_insert k x gs)"

definition group_by :: "('a \<times> 'k) list \<Rightarrow> ('k \<times> 'a list) list" where
  "group_by ps = foldl (\<lambda>gs (x, k). group_insert k x gs) [] ps"

definition grouped :: "('a \<times> 'k) list \<Rightarrow> 'k list \<Rightarrow> ('k \<times> 'a list) list" where
  "grouped ps ks = map (\<lambda>k. (k, map fst (filter (\<lambda>p. snd p = k) ps))) ks"

lemma group_insert_grouped:
  assumes "distinct ks" "set ks = snd ` set ps"
  shows "group_insert k x (grouped ps ks) = grouped (ps @ [(x, k)]) (if k \<in> set ks then ks else ks @ [k])"
proof -
  have in_ks: "group_insert k x (grouped ps ks) = grouped (ps @ [(x, k)]) ks" if "distinct ks" "k \<in> set ks" for ks
    using that by (induction ks) (auto simp: grouped_def)
  have out: "group_insert k x (grouped ps ks) = grouped (ps @ [(x, k)]) ks @ [(k, [x])]" if "k \<notin> set ks" for ks
    using that by (induction ks) (auto simp: grouped_def)
  show ?thesis
  proof (cases "k \<in> set ks")
    case False
    with assms(2) have "filter (\<lambda>p. snd p = k) ps = []" by (auto simp: filter_empty_conv)
    then have "grouped (ps @ [(x, k)]) [k] = [(k, [x])]" by (simp add: grouped_def)
    with out [OF False] False show ?thesis by (simp add: grouped_def)
  qed (use in_ks assms in simp)
qed

lemma dedup_snoc: "dedup_on key s (xs @ [x]) = dedup_on key s xs @ (if key x \<in> set s \<union> key ` set xs then [] else [x])"
  by (induction xs arbitrary: s) auto

lemma group_by_eq: "group_by ps = grouped ps (dedup (map snd ps))"
proof (induction ps rule: rev_induct)
  case Nil
  show ?case by (simp add: group_by_def grouped_def)
next
  case (snoc p ps)
  obtain x k where p: "p = (x, k)" by (cases p)
  have "group_by (ps @ [p]) = group_insert k x (group_by ps)" by (simp add: group_by_def p)
  also have "\<dots> = grouped (ps @ [p]) (if k \<in> set (dedup (map snd ps)) then dedup (map snd ps) else dedup (map snd ps) @ [k])"
    unfolding snoc.IH p by (rule group_insert_grouped) simp_all
  also have "\<dots> = grouped (ps @ [p]) (dedup (map snd (ps @ [p])))"
    by (simp add: dedup_snoc p)
  finally show ?case .
qed

lemma group_by_keys: "map fst (group_by ps) = dedup (map snd ps)"
  by (simp add: group_by_eq grouped_def comp_def)

lemma group_by_member:
  "(k, xs) \<in> set (group_by ps) \<longleftrightarrow> k \<in> snd ` set ps \<and> xs = map fst (filter (\<lambda>p. snd p = k) ps)"
  by (auto simp: group_by_eq grouped_def)

lemma mset_partition_by:
  assumes "distinct ks" "f ` set xs \<subseteq> set ks"
  shows "mset (concat (map (\<lambda>k. filter (\<lambda>x. f x = k) xs) ks)) = mset xs"
  using assms
proof (induction ks arbitrary: xs)
  case (Cons k ks)
  let ?r = "filter (\<lambda>x. f x \<noteq> k) xs"
  have eq: "map (\<lambda>k'. filter (\<lambda>x. f x = k') xs) ks = map (\<lambda>k'. filter (\<lambda>x. f x = k') ?r) ks"
    using Cons.prems(1) by (auto intro!: filter_cong)
  have "mset (concat (map (\<lambda>k'. filter (\<lambda>x. f x = k') xs) ks)) = mset ?r"
    unfolding eq using Cons.prems by (intro Cons.IH) auto
  then show ?case by (simp del: mset_concat)
qed simp

lemma mset_group_by: "mset (concat (map snd (group_by ps))) = mset (map fst ps)"
proof -
  have "mset (concat (map (\<lambda>k. filter (\<lambda>p. snd p = k) ps) (dedup (map snd ps)))) = mset ps"
    by (rule mset_partition_by) simp_all
  then have "mset (map fst (concat (map (\<lambda>k. filter (\<lambda>p. snd p = k) ps) (dedup (map snd ps))))) = mset (map fst ps)"
    by (simp only: mset_map)
  then show ?thesis by (simp add: group_by_eq grouped_def map_concat comp_def)
qed

end
