(* ===== verification/Topology_Groups.thy ===== *)
theory Topology_Groups
  imports Replay_Plan Py_Dict
begin

text \<open>
  Topology groups of colour sectors and their replay partitions (\<open>color/plan_replay.py\<close>, first
  half): sectors with the same particle content share a group, and a group splits into blocks
  whose relative relabellings keep the set of initial legs.
\<close>

section \<open>Signatures and label words\<close>

text \<open>The signature tuple; its leading sector kind is the constructor.\<close>

datatype topology_signature =
    Lines_Signature "(int \<times> int list \<times> int \<times> int list) list"
  | Trace_Signature "int list" "int list"
  | Singlet_Signature "int list"

record topology_group =
  tg_signature :: topology_signature
  tg_representative :: nat
  tg_sector_ids :: "nat list"
  tg_permutations :: "(int \<times> int) list list"

definition pdg_by_label :: "process_ir \<Rightarrow> (int \<times> int) list" where
  "pdg_by_label process = dict_of (map (\<lambda>leg. (l_label leg, l_outgoing_pdg leg)) (i_legs process))"

definition ordered_topology_lines :: "sector \<Rightarrow> open_line list res" where
  "ordered_topology_lines s =
     (let line_by_coloured = dict_of (map (\<lambda>l. (line_coloured_labels l, l)) (sc_lines s))
      in case (if sc_word s \<noteq> [] then ordered_open_line_blocks (sc_word s) (sc_lines s) else None) of
           Some blocks \<Rightarrow> mapE (lookupE line_by_coloured) blocks
         | None \<Rightarrow> Inr (sc_lines s))"

definition line_signature :: "(int \<times> int) list \<Rightarrow> open_line \<Rightarrow> (int \<times> int list \<times> int \<times> int list) res" where
  "line_signature pdgs l =
     bindE (lookupE pdgs (ol_fundamental l)) (\<lambda>f.
     bindE (mapE (lookupE pdgs) (ol_adjoint l)) (\<lambda>as.
     bindE (lookupE pdgs (ol_antifundamental l)) (\<lambda>a.
     bindE (mapE (lookupE pdgs) (ol_singlet l)) (\<lambda>ss. Inr (f, as, a, ss)))))"

definition sector_topology_signature :: "process_ir \<Rightarrow> sector \<Rightarrow> topology_signature res" where
  "sector_topology_signature process s =
     (let pdgs = pdg_by_label process
      in case sc_kind s of
           Open_Lines \<Rightarrow>
             bindE (ordered_topology_lines s) (\<lambda>ls. bindE (mapE (line_signature pdgs) ls) (\<lambda>sigs. Inr (Lines_Signature sigs)))
         | Single_Trace \<Rightarrow>
             bindE (mapE (lookupE pdgs) (sc_trace s)) (\<lambda>ts.
             bindE (mapE (lookupE pdgs) (sc_singlets s)) (\<lambda>ss. Inr (Trace_Signature ts ss)))
         | Singlet_Sector \<Rightarrow>
             bindE (mapE (lookupE pdgs) (sc_singlets s)) (\<lambda>ss. Inr (Singlet_Signature ss)))"

definition sector_topology_labels :: "sector \<Rightarrow> int list res" where
  "sector_topology_labels s =
     (case sc_kind s of
        Open_Lines \<Rightarrow> bindE (ordered_topology_lines s) (\<lambda>ls. Inr (concat (map line_labels ls)))
      | Single_Trace \<Rightarrow> Inr (sc_trace s @ sc_singlets s)
      | Singlet_Sector \<Rightarrow> Inr (sc_singlets s))"

section \<open>Groups\<close>

definition topology_group_of :: "topology_signature \<times> sector list \<Rightarrow> topology_group res" where
  "topology_group_of = (\<lambda>(sig, members).
     case members of
       [] \<Rightarrow> Inl (IndexError STR ''list index out of range'')
     | representative # _ \<Rightarrow>
         bindE (sector_topology_labels representative) (\<lambda>representative_labels.
         bindE (mapE (\<lambda>s. bindE (sector_topology_labels s) (\<lambda>labels.
            if length labels \<noteq> length representative_labels
            then Inl (ValueError STR ''isomorphic colour sectors have mismatched labels'')
            else Inr (zip representative_labels labels))) members) (\<lambda>permutations.
         Inr \<lparr>tg_signature = sig, tg_representative = sc_id representative,
              tg_sector_ids = map sc_id members, tg_permutations = permutations\<rparr>)))"

definition sector_topology_groups :: "process_ir \<Rightarrow> sector list \<Rightarrow> topology_group list res" where
  "sector_topology_groups process sectors =
     bindE (mapE (\<lambda>s. bindE (sector_topology_signature process s) (\<lambda>sig. Inr (s, sig))) sectors) (\<lambda>pairs.
       mapE topology_group_of (group_by pairs))"

definition topology_groups :: "color_plan \<Rightarrow> topology_group list res" where
  "topology_groups plan = sector_topology_groups (pl_process plan) (pl_sectors plan)"

section \<open>The signature determines the particles of the label word\<close>

fun signature_pdgs :: "topology_signature \<Rightarrow> int list" where
  "signature_pdgs (Lines_Signature sigs) = concat (map (\<lambda>(f, as, a, ss). f # as @ a # ss) sigs)"
| "signature_pdgs (Trace_Signature ts ss) = ts @ ss"
| "signature_pdgs (Singlet_Signature ss) = ss"

lemma mapE_lookupE_iff: "mapE (lookupE d) ks = Inr vs \<longleftrightarrow> map (map_of d) ks = map Some vs"
proof (induction ks arbitrary: vs)
  case (Cons k ks)
  then show ?case by (cases vs) (auto simp: bindE_Inr_iff)
qed auto

lemma ordered_topology_lines_total: "\<exists>ls. ordered_topology_lines s = Inr ls \<and> mset (map line_coloured_labels ls) = mset (map line_coloured_labels (sc_lines s))"
proof (cases "if sc_word s \<noteq> [] then ordered_open_line_blocks (sc_word s) (sc_lines s) else None")
  case (Some bs)
  let ?d = "dict_of (map (\<lambda>l. (line_coloured_labels l, l)) (sc_lines s))"
  have m: "mset bs = mset (map line_coloured_labels (sc_lines s))"
    using Some blocks_loop_spec by (auto simp: ordered_open_line_blocks_def split: if_splits)
  have k: "fst ` set ?d = set bs" using mset_eq_setD [OF m] by (simp add: image_image comp_def)
  have v: "line_coloured_labels v = b" if "map_of ?d b = Some v" for b v
    using that map_of_SomeD by (fastforce simp: set_rev)
  let ?ls = "map (\<lambda>b. the (map_of ?d b)) bs"
  have o: "mapE (lookupE ?d) bs = Inr ?ls" by (intro mapE_total lookupE_the) (simp only: k)
  have "line_coloured_labels (the (map_of ?d b)) = b" if "b \<in> set bs" for b
  proof -
    from that have "b \<in> fst ` set ?d" by (simp only: k)
    then obtain l where l: "map_of ?d b = Some l" by (cases "map_of ?d b") (simp_all add: map_of_eq_None_iff)
    from v [OF l] show ?thesis unfolding l option.sel .
  qed
  then have b: "map line_coloured_labels ?ls = bs" by (simp add: map_idI)
  have "ordered_topology_lines s = Inr ?ls" unfolding ordered_topology_lines_def Let_def Some option.case o ..
  with b m show ?thesis by metis
qed (auto simp: ordered_topology_lines_def Let_def)

lemma line_signature_pdgs:
  "line_signature pdgs l = Inr (f, as, a, ss) \<Longrightarrow> map (map_of pdgs) (line_labels l) = map Some (f # as @ a # ss)"
  by (auto simp: line_signature_def bindE_Inr_iff mapE_lookupE_iff line_labels_def line_coloured_labels_def)

lemma lines_signature_pdgs:
  "mapE (line_signature pdgs) ls = Inr sigs \<Longrightarrow>
   map (map_of pdgs) (concat (map line_labels ls)) = map Some (signature_pdgs (Lines_Signature sigs))"
proof (induction ls arbitrary: sigs)
  case (Cons l ls)
  then obtain sig sigs' where s: "line_signature pdgs l = Inr sig" "mapE (line_signature pdgs) ls = Inr sigs'" "sigs = sig # sigs'"
    by (auto simp: bindE_Inr_iff)
  obtain f as a ss where sig: "sig = (f, as, a, ss)" by (cases sig)
  from line_signature_pdgs [OF s(1) [unfolded sig]] Cons.IH [OF s(2)] show ?case by (simp add: s(3) sig)
qed simp

lemma signature_labels:
  assumes "sector_topology_signature process s = Inr sig"
  shows "\<exists>labels. sector_topology_labels s = Inr labels \<and> map (map_of (pdg_by_label process)) labels = map Some (signature_pdgs sig)"
proof (cases "sc_kind s")
  case Open_Lines
  from ordered_topology_lines_total obtain ls where "ordered_topology_lines s = Inr ls" by blast
  with assms Open_Lines lines_signature_pdgs show ?thesis
    by (auto simp: Let_def sector_topology_signature_def sector_topology_labels_def bindE_Inr_iff)
qed (use assms in \<open>auto simp: Let_def sector_topology_signature_def sector_topology_labels_def bindE_Inr_iff mapE_lookupE_iff\<close>)

definition labels_of :: "sector \<Rightarrow> int list" where
  "labels_of s = (case sector_topology_labels s of Inr ls \<Rightarrow> ls | Inl _ \<Rightarrow> [])"

lemma sector_topology_labels_total: "sector_topology_labels s = Inr (labels_of s)"
  using ordered_topology_lines_total [of s]
  by (auto simp: labels_of_def sector_topology_labels_def split: sector_kind.splits)

lemma signature_labels_of:
  "sector_topology_signature process s = Inr sig \<Longrightarrow> map (map_of (pdg_by_label process)) (labels_of s) = map Some (signature_pdgs sig)"
  using signature_labels sector_topology_labels_total by (metis sum.inject(2))

text \<open>The groups in closed form; the internal length check of the source never fires.\<close>

definition group_reference :: "topology_signature \<Rightarrow> sector list \<Rightarrow> topology_group" where
  "group_reference sig members =
     \<lparr>tg_signature = sig, tg_representative = sc_id (hd members), tg_sector_ids = map sc_id members,
      tg_permutations = map (\<lambda>s. zip (labels_of (hd members)) (labels_of s)) members\<rparr>"

lemma topology_group_of_eq:
  assumes "members \<noteq> []" "\<forall>s \<in> set members. sector_topology_signature process s = Inr sig"
  shows "topology_group_of (sig, members) = Inr (group_reference sig members)"
proof -
  obtain r rs where g: "members = r # rs" using assms(1) by (cases members) auto
  have len: "length (labels_of s) = length (labels_of r)" if "s \<in> set members" for s
    using signature_labels_of assms(2) that g by (metis length_map list.set_intros(1))
  have "mapE (\<lambda>s. bindE (sector_topology_labels s) (\<lambda>labels.
            if length labels \<noteq> length (labels_of r)
            then Inl (ValueError STR ''isomorphic colour sectors have mismatched labels'')
            else Inr (zip (labels_of r) labels))) members = Inr (map (\<lambda>s. zip (labels_of r) (labels_of s)) members)"
    by (intro mapE_total) (simp add: sector_topology_labels_total len)
  then show ?thesis by (simp add: topology_group_of_def g group_reference_def sector_topology_labels_total)
qed

definition signature_of :: "process_ir \<Rightarrow> sector \<Rightarrow> topology_signature" where
  "signature_of process s = (case sector_topology_signature process s of Inr sig \<Rightarrow> sig | Inl _ \<Rightarrow> Singlet_Signature [])"

definition same_topology :: "process_ir \<Rightarrow> sector list \<Rightarrow> topology_signature \<Rightarrow> sector list" where
  "same_topology process sectors sig = filter (\<lambda>s. signature_of process s = sig) sectors"

lemma sector_topology_groups_eq:
  assumes "\<forall>s \<in> set sectors. returns (sector_topology_signature process s)"
  shows "sector_topology_groups process sectors =
    Inr (map (\<lambda>sig. group_reference sig (same_topology process sectors sig)) (dedup (map (signature_of process) sectors)))"
proof -
  let ?ps = "map (\<lambda>s. (s, signature_of process s)) sectors"
  have sig: "sector_topology_signature process s = Inr (signature_of process s)" if "s \<in> set sectors" for s
    using assms that by (auto simp: signature_of_def)
  have "mapE (\<lambda>s. bindE (sector_topology_signature process s) (\<lambda>sig. Inr (s, sig))) sectors = Inr ?ps"
    by (intro mapE_total) (simp add: sig)
  moreover have g: "group_by ?ps = map (\<lambda>k. (k, same_topology process sectors k)) (dedup (map (signature_of process) sectors))"
    by (simp add: group_by_eq grouped_def same_topology_def filter_map comp_def)
  have "mapE topology_group_of (group_by ?ps) =
      Inr (map (\<lambda>(k, g). group_reference k g) (group_by ?ps))"
  proof (rule mapE_total)
    fix z assume "z \<in> set (group_by ?ps)"
    then obtain k where k: "k \<in> signature_of process ` set sectors" "z = (k, same_topology process sectors k)"
      unfolding g by auto
    moreover have "same_topology process sectors k \<noteq> []" using k(1) by (auto simp: same_topology_def filter_empty_conv)
    moreover have "\<forall>s \<in> set (same_topology process sectors k). sector_topology_signature process s = Inr k"
      using sig by (auto simp: same_topology_def)
    ultimately show "topology_group_of z = Inr ((\<lambda>(k, g). group_reference k g) z)"
      using topology_group_of_eq by simp
  qed
  ultimately show ?thesis by (simp add: sector_topology_groups_def g comp_def)
qed

lemma sector_topology_groups_returns:
  "returns (sector_topology_groups process sectors) \<longleftrightarrow> (\<forall>s \<in> set sectors. returns (sector_topology_signature process s))"
proof
  assume "returns (sector_topology_groups process sectors)"
  then obtain ps where "mapE (\<lambda>s. bindE (sector_topology_signature process s) (\<lambda>sig. Inr (s, sig))) sectors = Inr ps"
    by (auto simp: sector_topology_groups_def bindE_Inr_iff)
  then show "\<forall>s \<in> set sectors. returns (sector_topology_signature process s)"
    by (fastforce simp: mapE_Inr_iff bindE_Inr_iff in_set_conv_nth list_all2_conv_all_nth)
qed (use sector_topology_groups_eq in blast)

lemma topology_groups_mset:
  assumes "sector_topology_groups process sectors = Inr gs"
  shows "mset (concat (map tg_sector_ids gs)) = mset (map sc_id sectors)"
proof -
  let ?ks = "dedup (map (signature_of process) sectors)"
  from assms sector_topology_groups_returns have ok: "\<forall>s \<in> set sectors. returns (sector_topology_signature process s)" by blast
  have gs_eq: "gs = map (\<lambda>k. group_reference k (same_topology process sectors k)) ?ks"
    using sector_topology_groups_eq [OF ok] assms by simp
  have "mset (concat (map (\<lambda>k. filter (\<lambda>s. signature_of process s = k) sectors) ?ks)) = mset sectors"
    by (rule mset_partition_by) simp_all
  then have "mset (map sc_id (concat (map (same_topology process sectors) ?ks))) = mset (map sc_id sectors)"
    unfolding same_topology_def by (simp only: mset_map)
  then show ?thesis by (simp add: gs_eq group_reference_def map_concat comp_def)
qed

text \<open>
  Topology groups exist exactly when every sector can be signed (all its labels are legs).
  They partition the sectors by signature, keep the plan's order, take the first member as
  representative, and each label permutation relates the representative's legs to legs that
  carry the same outgoing particle.
\<close>
theorem topology_groups_exact:
  "(returns (sector_topology_groups process sectors) \<longleftrightarrow> (\<forall>s \<in> set sectors. returns (sector_topology_signature process s))) \<and>
   (\<forall>gs. sector_topology_groups process sectors = Inr gs \<longrightarrow>
     mset (concat (map tg_sector_ids gs)) = mset (map sc_id sectors) \<and> distinct (map tg_signature gs) \<and>
     (\<forall>g \<in> set gs. \<exists>r ss. filter (\<lambda>s. sector_topology_signature process s = Inr (tg_signature g)) sectors = r # ss \<and>
        tg_representative g = sc_id r \<and> tg_sector_ids g = map sc_id (r # ss) \<and>
        length (tg_permutations g) = length (r # ss) \<and>
        (\<forall>perm \<in> set (tg_permutations g). \<forall>(a, b) \<in> set perm.
           map_of (pdg_by_label process) a \<noteq> None \<and> map_of (pdg_by_label process) a = map_of (pdg_by_label process) b)))"
proof (intro conjI allI impI sector_topology_groups_returns)
  fix gs assume gs: "sector_topology_groups process sectors = Inr gs"
  let ?ks = "dedup (map (signature_of process) sectors)"
  from gs sector_topology_groups_returns have ok: "\<forall>s \<in> set sectors. returns (sector_topology_signature process s)" by blast
  then have sig: "sector_topology_signature process s = Inr (signature_of process s)" if "s \<in> set sectors" for s
    using that by (auto simp: signature_of_def)
  have gs_eq: "gs = map (\<lambda>k. group_reference k (same_topology process sectors k)) ?ks"
    using sector_topology_groups_eq [OF ok] gs by simp
  show "mset (concat (map tg_sector_ids gs)) = mset (map sc_id sectors)"
    using gs by (rule topology_groups_mset)
  show "distinct (map tg_signature gs)" by (simp add: gs_eq group_reference_def comp_def)
  show "\<forall>g \<in> set gs. \<exists>r ss. filter (\<lambda>s. sector_topology_signature process s = Inr (tg_signature g)) sectors = r # ss \<and>
        tg_representative g = sc_id r \<and> tg_sector_ids g = map sc_id (r # ss) \<and>
        length (tg_permutations g) = length (r # ss) \<and>
        (\<forall>perm \<in> set (tg_permutations g). \<forall>(a, b) \<in> set perm.
           map_of (pdg_by_label process) a \<noteq> None \<and> map_of (pdg_by_label process) a = map_of (pdg_by_label process) b)"
  proof
    fix g assume "g \<in> set gs"
    then obtain k where k: "k \<in> signature_of process ` set sectors" and g: "g = group_reference k (same_topology process sectors k)"
      by (auto simp: gs_eq)
    have f: "filter (\<lambda>s. sector_topology_signature process s = Inr k) sectors = same_topology process sectors k"
      unfolding same_topology_def using sig by (intro filter_cong) auto
    have "same_topology process sectors k \<noteq> []" using k by (auto simp: same_topology_def filter_empty_conv)
    then obtain r ss where rs: "same_topology process sectors k = r # ss" by (cases "same_topology process sectors k") auto
    have m: "map (map_of (pdg_by_label process)) (labels_of s) = map Some (signature_pdgs k)" if "s \<in> set (r # ss)" for s
    proof -
      from that have "sector_topology_signature process s = Inr k" unfolding rs [symmetric] f [symmetric] by simp
      then show ?thesis by (rule signature_labels_of)
    qed
    have "map_of (pdg_by_label process) a \<noteq> None \<and> map_of (pdg_by_label process) a = map_of (pdg_by_label process) b"
      if ab: "(a, b) \<in> set (zip (labels_of r) (labels_of s))" and s: "s \<in> set (r # ss)" for a b s
    proof -
      from ab obtain n where n: "n < length (labels_of r)" "n < length (labels_of s)" "a = labels_of r ! n" "b = labels_of s ! n"
        by (auto simp: in_set_zip)
      have "map_of (pdg_by_label process) (labels_of t ! n) = Some (signature_pdgs k ! n)" if "t \<in> {r, s}" "n < length (labels_of t)" for t
      proof -
        from that(1) s have "t \<in> set (r # ss)" by auto
        from m [OF this] that(2) show ?thesis by (metis length_map nth_map)
      qed
      with n show ?thesis by simp
    qed
    then show "\<exists>r ss. filter (\<lambda>s. sector_topology_signature process s = Inr (tg_signature g)) sectors = r # ss \<and>
        tg_representative g = sc_id r \<and> tg_sector_ids g = map sc_id (r # ss) \<and>
        length (tg_permutations g) = length (r # ss) \<and>
        (\<forall>perm \<in> set (tg_permutations g). \<forall>(a, b) \<in> set perm.
           map_of (pdg_by_label process) a \<noteq> None \<and> map_of (pdg_by_label process) a = map_of (pdg_by_label process) b)"
      using f rs by (intro exI [of _ r] exI [of _ ss]) (auto simp: g group_reference_def)
  qed
qed

section \<open>Replay-safe groups and partitions\<close>

definition initial_label_set :: "process_ir \<Rightarrow> int list" where
  "initial_label_set process = remdups (map l_label (initial_legs process))"

definition plan_sectors_of :: "color_plan \<Rightarrow> nat list \<Rightarrow> sector list" where
  "plan_sectors_of plan ids = List.map_filter (plan_sector plan) ids"

definition lc_topology_group_replay_safe :: "color_plan \<Rightarrow> topology_group \<Rightarrow> bool" where
  "lc_topology_group_replay_safe plan g =
     (let sectors = plan_sectors_of plan (tg_sector_ids g); initial = initial_label_set (pl_process plan)
      in length sectors = length (tg_sector_ids g) \<and> (\<forall>s \<in> set sectors. sc_kind s = Open_Lines) \<and> initial \<noteq> [] \<and>
         (\<forall>perm \<in> set (tg_permutations g). map_of (dict_of perm) ` set initial = Some ` set initial))"

definition lc_topology_replay_safe_groups :: "color_plan \<Rightarrow> topology_group list res" where
  "lc_topology_replay_safe_groups plan =
     (if pl_color_accuracy plan \<noteq> STR ''lc'' then Inr []
      else bindE (topology_groups plan) (\<lambda>gs. Inr (filter (lc_topology_group_replay_safe plan) gs)))"

definition replay_sector_weight :: "color_plan \<Rightarrow> sector \<Rightarrow> py_float" where
  "replay_sector_weight plan s =
     (if pl_color_accuracy plan = STR ''lc'' \<and> pl_trace_reflections_folded plan \<and> sc_kind s = Single_Trace \<and> length (sc_trace s) > 2
      then Finite 2 else Finite 1)"

text \<open>The dictionaries of one group: its label maps by sector id, and their inverses.\<close>

type_synonym label_map = "(int \<times> int) list"

definition base_maps :: "topology_group \<Rightarrow> (nat \<times> label_map) list res" where
  "base_maps g =
     (if length (tg_sector_ids g) = length (tg_permutations g)
      then Inr (dict_of (zip (tg_sector_ids g) (map dict_of (tg_permutations g))))
      else Inl (ValueError STR ''zip() argument is shorter than argument 1''))"

definition inverse_map :: "label_map \<Rightarrow> label_map" where
  "inverse_map d = dict_of (map (\<lambda>(a, b). (b, a)) d)"

fun initial_preimages :: "int list \<Rightarrow> (nat \<times> label_map) list \<Rightarrow> nat list \<Rightarrow> (nat \<times> int list) list option res" where
  "initial_preimages initial maps [] = Inr (Some [])"
| "initial_preimages initial maps (i # is) =
     bindE (lookupE maps i) (\<lambda>sector_map.
       let inv = inverse_map sector_map
       in if \<not> set initial \<subseteq> fst ` set inv then Inr None
          else bindE (mapE (lookupE inv) initial) (\<lambda>preimage.
            bindE (initial_preimages initial maps is) (\<lambda>rest. Inr (map_option ((#) (i, sort preimage)) rest))))"

definition relative_map :: "label_map \<Rightarrow> label_map \<Rightarrow> label_map res" where
  "relative_map representative_map sector_map =
     bindE (mapE (\<lambda>l. bindE (lookupE (inverse_map representative_map) l) (\<lambda>k.
              bindE (lookupE sector_map k) (\<lambda>v. Inr (l, v)))) (sort (map snd representative_map)))
       (\<lambda>pairs. Inr (dict_of pairs))"

text \<open>One member of a block: \<open>None\<close> where the source skips a sector the plan does not hold.\<close>

definition replay_member ::
  "color_plan \<Rightarrow> int list \<Rightarrow> (nat \<times> label_map) list \<Rightarrow> label_map \<Rightarrow> nat \<Rightarrow> (nat \<times> label_map \<times> py_float) option res" where
  "replay_member plan initial maps representative_map i =
     (case plan_sector plan i of
        None \<Rightarrow> Inr None
      | Some s \<Rightarrow>
          bindE (lookupE maps i) (\<lambda>sector_map.
          bindE (relative_map representative_map sector_map) (\<lambda>rel.
          bindE (mapE (lookupE rel) initial) (\<lambda>images.
          if set images \<noteq> set initial
          then Inl (RuntimeError STR ''internal LC replay partitioning error: sectors grouped by initial-label preimage do not preserve the initial set'')
          else Inr (Some (i, sort rel, replay_sector_weight plan s))))))"

definition replay_block ::
  "color_plan \<Rightarrow> topology_group \<Rightarrow> int list \<Rightarrow> (nat \<times> label_map) list \<Rightarrow> nat list \<Rightarrow> replay_partition res" where
  "replay_block plan g initial maps grouped_ids =
     (let representative = Min (set grouped_ids)
      in bindE (lookupE maps representative) (\<lambda>representative_map.
         bindE (mapE (replay_member plan initial maps representative_map) (filter (\<lambda>i. i \<in> set grouped_ids) (tg_sector_ids g))) (\<lambda>rows.
         let active = List.map_filter (\<lambda>r. r) rows
         in if active = []
            then Inl (RuntimeError STR ''internal LC replay partitioning error: representative sector did not produce a non-empty replay block'')
            else make_partition None \<lparr>rp_representative = representative, rp_active = map fst active,
                   rp_permutations = map (fst \<circ> snd) active, rp_replay_weights = map (snd \<circ> snd) active,
                   rp_replay_signs = [], rp_materialized = representative, rp_algorithm = None, rp_digest = None\<rparr>)))"

definition group_partitions :: "color_plan \<Rightarrow> int list \<Rightarrow> topology_group \<Rightarrow> replay_partition list res" where
  "group_partitions plan initial g =
     (let sectors = plan_sectors_of plan (tg_sector_ids g)
      in if length sectors \<noteq> length (tg_sector_ids g) then Inr []
         else if \<exists>s \<in> set sectors. sc_kind s \<notin> {Open_Lines, Single_Trace} then Inr []
         else bindE (base_maps g) (\<lambda>maps.
              bindE (initial_preimages initial maps (tg_sector_ids g)) (\<lambda>preimages.
              case preimages of
                None \<Rightarrow> Inr []
              | Some pairs \<Rightarrow>
                  mapE (replay_block plan g initial maps) (sort_key (\<lambda>ids. Min (set ids)) (map snd (group_by pairs))))))"

definition color_topology_replay_partitions :: "color_plan \<Rightarrow> replay_partition list res" where
  "color_topology_replay_partitions plan =
     (let initial = initial_label_set (pl_process plan)
      in if pl_color_accuracy plan \<notin> {STR ''lc'', STR ''nlc'', STR ''full''} then Inr []
         else if initial = [] then Inr []
         else bindE (topology_groups plan) (\<lambda>gs. bindE (mapE (group_partitions plan initial) gs) (\<lambda>blocks. Inr (concat blocks))))"

definition lc_topology_replay_partitions :: "color_plan \<Rightarrow> replay_partition list res" where
  "lc_topology_replay_partitions plan =
     (if pl_color_accuracy plan \<noteq> STR ''lc'' then Inr [] else color_topology_replay_partitions plan)"

section \<open>The partitioning never fails its internal checks\<close>

lemma inverse_map_keys: "fst ` set (inverse_map d) = snd ` set d"
  by (force simp: inverse_map_def image_iff)

lemma inverse_mapD: "map_of (inverse_map d) l = Some k \<Longrightarrow> (k, l) \<in> set d"
  unfolding inverse_map_def map_of_dict_of by (auto dest!: map_of_SomeD)

lemma inverse_map_total: "l \<in> snd ` set d \<Longrightarrow> \<exists>k. map_of (inverse_map d) l = Some k"
  using inverse_map_keys by (metis map_of_eq_None_iff not_Some_eq)

lemma map_of_tabulated: "x \<in> set xs \<Longrightarrow> map_of (rev (map (\<lambda>x. (x, f x)) xs)) x = Some (f x)"
  by (simp add: rev_map map_of_map_restrict)

lemma relative_map_spec:
  assumes "distinct (map fst sm)" "fst ` set rm = fst ` set sm"
  shows "\<exists>rel. relative_map rm sm = Inr rel \<and> distinct (map fst rel) \<and> fst ` set rel = snd ` set rm \<and>
    (\<forall>l k. map_of (inverse_map rm) l = Some k \<longrightarrow> map_of rel l = map_of sm k \<and> map_of sm k \<noteq> None)"
proof -
  let ?h = "\<lambda>l. the (map_of sm (the (map_of (inverse_map rm) l)))"
  let ?ps = "map (\<lambda>l. (l, ?h l)) (sort (map snd rm))"
  have sm: "map_of sm k \<noteq> None" if "map_of (inverse_map rm) l = Some k" for l k
  proof -
    have "k \<in> fst ` set sm" using inverse_mapD [OF that] unfolding assms(2) [symmetric] by force
    then show ?thesis by (simp add: map_of_eq_None_iff)
  qed
  have "mapE (\<lambda>l. bindE (lookupE (inverse_map rm) l) (\<lambda>k. bindE (lookupE sm k) (\<lambda>v. Inr (l, v)))) (sort (map snd rm)) = Inr ?ps"
  proof (rule mapE_total)
    fix l assume "l \<in> set (sort (map snd rm))"
    then obtain k where k: "map_of (inverse_map rm) l = Some k" using inverse_map_total by force
    moreover obtain v where "map_of sm k = Some v" using sm [OF k] by blast
    ultimately show "bindE (lookupE (inverse_map rm) l) (\<lambda>k. bindE (lookupE sm k) (\<lambda>v. Inr (l, v))) = Inr (l, ?h l)"
      by (simp add: bindE_Inr_iff)
  qed
  then have r: "relative_map rm sm = Inr (dict_of ?ps)" by (simp add: relative_map_def)
  have v: "map_of (dict_of ?ps) l = map_of sm k" if k: "map_of (inverse_map rm) l = Some k" for l k
  proof -
    have l: "l \<in> set (sort (map snd rm))" using inverse_mapD [OF k] by force
    obtain v where "map_of sm k = Some v" using sm [OF k] by blast
    with map_of_tabulated [OF l, of ?h] k show ?thesis unfolding map_of_dict_of by simp
  qed
  have ks: "fst ` set (dict_of ?ps) = snd ` set rm" unfolding keys_dict_of by (simp add: image_image)
  show ?thesis using r v sm ks by (intro exI [of _ "dict_of ?ps"]) simp
qed

text \<open>Two maps with the same preimage of the initial set relate it to itself.\<close>

definition preimage_set :: "int list \<Rightarrow> label_map \<Rightarrow> int set" where
  "preimage_set initial m = (\<lambda>l. the (map_of (inverse_map m) l)) ` set initial"

lemma relative_map_preserves:
  assumes "distinct (map fst sm)" "distinct (map fst rm)" "fst ` set rm = fst ` set sm" "relative_map rm sm = Inr rel"
    "set initial \<subseteq> snd ` set rm" "set initial \<subseteq> snd ` set sm" "preimage_set initial rm = preimage_set initial sm"
  shows "map_of rel ` set initial = Some ` set initial"
proof -
  from relative_map_spec [OF assms(1,3)] assms(4)
  have v: "map_of rel l = map_of sm k" if "map_of (inverse_map rm) l = Some k" for l k
    using that by auto
  have inv: "map_of (inverse_map m) l = Some (the (map_of (inverse_map m) l))" if "l \<in> snd ` set m" for m l
    using inverse_map_total [OF that] by auto
  have undo: "map_of sm (the (map_of (inverse_map sm) l)) = Some l" if "l \<in> set initial" for l
    using inverse_mapD [OF inv [of l sm]] assms(1,6) that by (simp add: subset_iff)
  show ?thesis
  proof (intro equalityI subsetI)
    fix y assume "y \<in> map_of rel ` set initial"
    then obtain l where l: "l \<in> set initial" "y = map_of rel l" by blast
    then have "y = map_of sm (the (map_of (inverse_map rm) l))" using v inv assms(5) by blast
    moreover have "the (map_of (inverse_map rm) l) \<in> preimage_set initial sm"
      using l(1) assms(7) by (auto simp: preimage_set_def)
    ultimately show "y \<in> Some ` set initial" using undo by (auto simp: preimage_set_def)
  next
    fix y assume "y \<in> Some ` set initial"
    then obtain l where l: "l \<in> set initial" "y = Some l" by blast
    then have "the (map_of (inverse_map sm) l) \<in> preimage_set initial rm"
      using assms(7) by (auto simp: preimage_set_def)
    then obtain l' where l': "l' \<in> set initial" "the (map_of (inverse_map sm) l) = the (map_of (inverse_map rm) l')"
      by (auto simp: preimage_set_def)
    then have "map_of rel l' = map_of sm (the (map_of (inverse_map rm) l'))" using v inv assms(5) by blast
    with undo [OF l(1)] l l' show "y \<in> map_of rel ` set initial" by (metis image_eqI)
  qed
qed

lemma initial_preimages_total:
  "set is \<subseteq> fst ` set maps \<Longrightarrow> returns (initial_preimages initial maps is)"
proof (induction "is")
  case (Cons i "is")
  then obtain m where m: "map_of maps i = Some m" by (metis insert_subset list.simps(15) map_of_eq_None_iff not_Some_eq)
  have "mapE (lookupE (inverse_map m)) initial = Inr (map (\<lambda>l. the (map_of (inverse_map m) l)) initial)"
    if "set initial \<subseteq> fst ` set (inverse_map m)"
    using that by (intro mapE_total lookupE_the) blast
  moreover obtain r where "initial_preimages initial maps is = Inr r" using Cons by auto
  moreover have l: "lookupE maps i = Inr m" using m by simp
  ultimately show ?case unfolding initial_preimages.simps l bindE_simps Let_def by auto
qed simp

lemma initial_preimages_spec:
  "initial_preimages initial maps is = Inr (Some pairs) \<Longrightarrow>
   map fst pairs = is \<and> (\<forall>(i, P) \<in> set pairs. \<exists>m. map_of maps i = Some m \<and> set initial \<subseteq> snd ` set m \<and> set P = preimage_set initial m)"
proof (induction "is" arbitrary: pairs)
  case (Cons i "is")
  from Cons.prems obtain m ps rest where m: "map_of maps i = Some m" "set initial \<subseteq> fst ` set (inverse_map m)"
    "mapE (lookupE (inverse_map m)) initial = Inr ps" "initial_preimages initial maps is = Inr (Some rest)"
    "pairs = (i, sort ps) # rest"
    by (auto simp: bindE_Inr_iff Let_def split: if_splits)
  from m(3) have "map Some ps = map (map_of (inverse_map m)) initial" by (simp add: mapE_lookupE_iff)
  then have "ps = map (\<lambda>l. the (map_of (inverse_map m) l)) initial" by (metis (no_types, lifting) list.map_comp map_idI o_apply option.sel list.map_cong0)
  then have "set (sort ps) = preimage_set initial m" by (simp add: preimage_set_def)
  with Cons.IH [OF m(4)] m(1,2,5) show ?case by (auto simp: inverse_map_keys)
qed simp

lemma map_filter_Some: "List.map_filter (\<lambda>r. r) (map (Some \<circ> f) xs) = map f xs"
  by (induction xs) (simp_all add: List.map_filter_simps)

lemma length_map_filter: "length (List.map_filter f xs) = length xs \<Longrightarrow> x \<in> set xs \<Longrightarrow> f x \<noteq> None"
proof (induction xs)
  case (Cons y ys)
  have "length (List.map_filter f ys) \<le> length ys" by (simp add: List.map_filter_def)
  with Cons show ?case by (auto simp: List.map_filter_simps split: option.splits)
qed simp

lemma map_of_sort: "distinct (map fst d) \<Longrightarrow> map_of (sort d) = map_of (d :: (int \<times> int) list)"
proof -
  assume d: "distinct (map fst d)"
  then have "distinct d" "inj_on fst (set d)" by (simp_all add: distinct_map)
  then have "distinct (map fst (sort d))" by (simp add: distinct_map)
  with d show ?thesis by (intro map_of_eqI) (auto simp: map_of_eq_Some_iff dom_map_of_conv_image_fst intro!: map_of_eqI)
qed

lemma replay_member_spec:
  assumes "plan_sector plan i = Some s" "map_of maps i = Some sm"
    "distinct (map fst sm)" "distinct (map fst rm)" "fst ` set rm = fst ` set sm"
    "set initial \<subseteq> snd ` set rm" "set initial \<subseteq> snd ` set sm" "preimage_set initial rm = preimage_set initial sm"
  shows "\<exists>rel. relative_map rm sm = Inr rel \<and> map_of (sort rel) ` set initial = Some ` set initial \<and>
    replay_member plan initial maps rm i = Inr (Some (i, sort rel, replay_sector_weight plan s))"
proof -
  obtain rel where rel: "relative_map rm sm = Inr rel" "distinct (map fst rel)" "fst ` set rel = snd ` set rm"
    using relative_map_spec [OF assms(3,5)] by blast
  note pres = relative_map_preserves [OF assms(3-5) rel(1) assms(6-8)]
  have k: "mapE (lookupE rel) initial = Inr (map (\<lambda>l. the (map_of rel l)) initial)"
    using assms(6) rel(3) by (intro mapE_total lookupE_the) blast
  have "set (map (\<lambda>l. the (map_of rel l)) initial) = the ` map_of rel ` set initial" by (simp add: image_image)
  also have "\<dots> = set initial" unfolding pres by (simp add: image_image)
  finally have "replay_member plan initial maps rm i = Inr (Some (i, sort rel, replay_sector_weight plan s))"
    using assms(1,2) by (simp add: replay_member_def rel(1) k lookupE_def)
  with rel(1) pres map_of_sort [OF rel(2)] show ?thesis by auto
qed

lemma make_block_partition:
  assumes "active \<noteq> []" "r \<in> set (map fst active)" "\<forall>(i, perm, w) \<in> set active. w \<in> {Finite 1, Finite 2}"
  defines "raw \<equiv> \<lparr>rp_representative = r, rp_active = map fst active, rp_permutations = map (fst \<circ> snd) active,
      rp_replay_weights = map (snd \<circ> snd) active, rp_replay_signs = [], rp_materialized = r, rp_algorithm = None, rp_digest = None\<rparr>"
  shows "make_partition None raw = Inr raw"
proof -
  have "partition_ok raw"
    using assms(1-3) by (fastforce simp: raw_def partition_ok_def rp_weights_def rp_signs_def positive_finite_def)
  then show ?thesis by (simp add: make_partition_iff raw_def)
qed

text \<open>What a block looks like once built.\<close>

definition block_of :: "int list \<Rightarrow> (nat \<times> label_map) list \<Rightarrow> nat list \<Rightarrow> nat list \<Rightarrow> replay_partition \<Rightarrow> bool" where
  "block_of initial maps ids is p \<longleftrightarrow>
     built_partition p \<and> rp_algorithm p = None \<and> rp_representative p = Min (set is) \<and> rp_active p = filter (\<lambda>i. i \<in> set is) ids \<and>
     list_all2 (\<lambda>i perm. \<exists>rm sm rel. map_of maps (Min (set is)) = Some rm \<and> map_of maps i = Some sm \<and>
        relative_map rm sm = Inr rel \<and> perm = sort rel \<and> map_of perm ` set initial = Some ` set initial)
       (rp_active p) (rp_permutations p)"

lemma replay_block_spec:
  assumes keys: "\<And>i m. map_of maps i = Some m \<Longrightarrow> distinct (map fst m) \<and> fst ` set m = K"
    and "is": "is \<noteq> []" "set is \<subseteq> set (tg_sector_ids g)"
    and members: "\<And>i. i \<in> set is \<Longrightarrow> plan_sector plan i \<noteq> None \<and>
      (\<exists>m. map_of maps i = Some m \<and> set initial \<subseteq> snd ` set m \<and> preimage_set initial m = Q)"
  shows "\<exists>p. replay_block plan g initial maps is = Inr p \<and> block_of initial maps (tg_sector_ids g) is p"
proof -
  let ?r = "Min (set is)"
  let ?ids = "filter (\<lambda>i. i \<in> set is) (tg_sector_ids g)"
  have r: "?r \<in> set is" using "is"(1) by simp
  obtain rm where rm: "map_of maps ?r = Some rm" "set initial \<subseteq> snd ` set rm" "preimage_set initial rm = Q"
    using members [OF r] by blast
  have "\<exists>row. replay_member plan initial maps rm i = Inr (Some row) \<and> fst row = i \<and> snd (snd row) \<in> {Finite 1, Finite 2} \<and>
     (\<exists>sm rel. map_of maps i = Some sm \<and> relative_map rm sm = Inr rel \<and> fst (snd row) = sort rel \<and>
        map_of (fst (snd row)) ` set initial = Some ` set initial)" if "i \<in> set ?ids" for i
  proof -
    from that have i: "i \<in> set is" by simp
    obtain s sm where s: "plan_sector plan i = Some s" "map_of maps i = Some sm" "set initial \<subseteq> snd ` set sm" "preimage_set initial sm = Q"
      using members [OF i] by auto
    have "distinct (map fst sm)" "distinct (map fst rm)" "fst ` set rm = fst ` set sm"
      using keys [OF s(2)] keys [OF rm(1)] by simp_all
    from replay_member_spec [OF s(1,2) this rm(2) s(3)] rm(3) s(2,4) show ?thesis
      by (auto simp: replay_sector_weight_def)
  qed
  then obtain row where row: "\<And>i. i \<in> set ?ids \<Longrightarrow> replay_member plan initial maps rm i = Inr (Some (row i))"
    "\<And>i. i \<in> set ?ids \<Longrightarrow> fst (row i) = i" "\<And>i. i \<in> set ?ids \<Longrightarrow> snd (snd (row i)) \<in> {Finite 1, Finite 2}"
    "\<And>i. i \<in> set ?ids \<Longrightarrow> \<exists>sm rel. map_of maps i = Some sm \<and> relative_map rm sm = Inr rel \<and> fst (snd (row i)) = sort rel \<and>
        map_of (fst (snd (row i))) ` set initial = Some ` set initial"
    by metis
  let ?active = "map row ?ids"
  have m: "mapE (replay_member plan initial maps rm) ?ids = Inr (map (Some \<circ> row) ?ids)"
    using row(1) by (intro mapE_total) simp
  have a: "List.map_filter (\<lambda>r. r) (map (Some \<circ> row) ?ids) = ?active" by (rule map_filter_Some)
  have f: "map fst ?active = ?ids" unfolding list.map_comp by (rule map_idI) (simp add: row(2))
  have ne: "?ids \<noteq> []" using r "is"(2) by (auto simp: filter_empty_conv)
  let ?p = "\<lparr>rp_representative = ?r, rp_active = map fst ?active, rp_permutations = map (fst \<circ> snd) ?active,
      rp_replay_weights = map (snd \<circ> snd) ?active, rp_replay_signs = [], rp_materialized = ?r, rp_algorithm = None, rp_digest = None\<rparr>"
  have w: "\<forall>(i, perm, w) \<in> set ?active. w \<in> {Finite 1, Finite 2}"
  proof
    fix z assume "z \<in> set ?active"
    then obtain i where "i \<in> set ?ids" "z = row i" by auto
    with row(3) [of i] show "case z of (i, perm, w) \<Rightarrow> w \<in> {Finite 1, Finite 2}" by (simp add: case_prod_unfold)
  qed
  have "make_partition None ?p = Inr ?p"
  proof (rule make_block_partition [OF _ _ w])
    show "?active \<noteq> []" using ne by simp
    show "?r \<in> set (map fst ?active)" unfolding f using r "is"(2) by auto
  qed
  moreover from this have "replay_block plan g initial maps is = Inr ?p"
    using rm(1) ne by (simp add: replay_block_def Let_def lookupE_def m a)
  moreover have "block_of initial maps (tg_sector_ids g) is ?p"
  proof -
    have "built_partition ?p" using calculation(1) unfolding built_partition_def by blast
    moreover have "list_all2 (\<lambda>i perm. \<exists>rm sm rel. map_of maps ?r = Some rm \<and> map_of maps i = Some sm \<and>
        relative_map rm sm = Inr rel \<and> perm = sort rel \<and> map_of perm ` set initial = Some ` set initial) ?ids (map (fst \<circ> snd) ?active)"
      unfolding list.map_comp list_all2_map2 list_all2_same using row(4) rm(1) by fastforce
    ultimately show ?thesis unfolding block_of_def f by simp
  qed
  ultimately show ?thesis by blast
qed

lemma mapE_exists:
  assumes "\<And>x. x \<in> set xs \<Longrightarrow> \<exists>y. f x = Inr y \<and> P x y"
  shows "\<exists>ys. mapE f xs = Inr ys \<and> list_all2 P xs ys"
  using assms
proof (induction xs)
  case (Cons x xs)
  then obtain y ys where "f x = Inr y" "P x y" "mapE f xs = Inr ys" "list_all2 P xs ys" by (meson list.set_intros)
  then show ?case by (intro exI [of _ "y # ys"]) simp
qed simp

lemma group_partitions_spec:
  assumes maps: "base_maps g = Inr maps" "fst ` set maps = set (tg_sector_ids g)"
    and keys: "\<forall>i m. map_of maps i = Some m \<longrightarrow> distinct (map fst m) \<and> fst ` set m = K"
    and ids: "distinct (tg_sector_ids g)"
  shows "\<exists>ps. group_partitions plan initial g = Inr ps \<and> (ps = [] \<or> mset (replayed_ids ps) = mset (tg_sector_ids g)) \<and>
    (\<forall>p \<in> set ps. \<exists>is. is \<noteq> [] \<and> set is \<subseteq> set (tg_sector_ids g) \<and> block_of initial maps (tg_sector_ids g) is p)"
proof -
  let ?ids = "tg_sector_ids g"
  have "returns (initial_preimages initial maps ?ids)" using maps(2) by (intro initial_preimages_total) simp
  then obtain pre where pre: "initial_preimages initial maps ?ids = Inr pre" by blast
  show ?thesis
  proof (cases "length (plan_sectors_of plan ?ids) = length ?ids \<and> (\<forall>s \<in> set (plan_sectors_of plan ?ids). sc_kind s \<in> {Open_Lines, Single_Trace}) \<and> pre \<noteq> None")
    case False
    then have "group_partitions plan initial g = Inr []"
      using maps(1) pre by (auto simp: group_partitions_def Let_def split: option.splits)
    then show ?thesis by simp
  next
    case True
    then obtain pairs where pairs: "pre = Some pairs" by auto
    have sec: "plan_sector plan i \<noteq> None" if "i \<in> set ?ids" for i
      using True length_map_filter [OF _ that, of "plan_sector plan"] by (simp add: plan_sectors_of_def)
    note spec = initial_preimages_spec [OF pre [unfolded pairs]]
    let ?G = "sort_key (\<lambda>ids. Min (set ids)) (map snd (group_by pairs))"
    have G: "is \<noteq> [] \<and> set is \<subseteq> set ?ids \<and> (\<exists>Q. \<forall>i \<in> set is. plan_sector plan i \<noteq> None \<and>
       (\<exists>m. map_of maps i = Some m \<and> set initial \<subseteq> snd ` set m \<and> preimage_set initial m = Q))" if "is \<in> set ?G" for "is"
    proof -
      from that obtain k where "(k, is) \<in> set (group_by pairs)" by auto
      then have k: "k \<in> snd ` set pairs" and i: "is = map fst (filter (\<lambda>p. snd p = k) pairs)" by (simp_all add: group_by_member)
      then have "is \<noteq> []" by (force simp: filter_empty_conv)
      moreover have sub: "set is \<subseteq> set ?ids"
        using arg_cong [OF conjunct1 [OF spec], of set] unfolding i by auto
      moreover have "plan_sector plan j \<noteq> None \<and>
          (\<exists>m. map_of maps j = Some m \<and> set initial \<subseteq> snd ` set m \<and> preimage_set initial m = set k)" if "j \<in> set is" for j
      proof -
        from that have "(j, k) \<in> set pairs" by (auto simp: i)
        with spec that sub sec show ?thesis by fastforce
      qed
      ultimately show ?thesis by blast
    qed
    have blocks: "\<exists>p. replay_block plan g initial maps is = Inr p \<and> block_of initial maps ?ids is p" if "is \<in> set ?G" for "is"
    proof -
      from G [OF that] obtain Q where q: "is \<noteq> []" "set is \<subseteq> set ?ids"
        "\<And>i. i \<in> set is \<Longrightarrow> plan_sector plan i \<noteq> None \<and>
          (\<exists>m. map_of maps i = Some m \<and> set initial \<subseteq> snd ` set m \<and> preimage_set initial m = Q)" by blast
      from keys [rule_format] q show ?thesis by (rule replay_block_spec)
    qed
    obtain ps where ps: "mapE (replay_block plan g initial maps) ?G = Inr ps"
      "list_all2 (block_of initial maps ?ids) ?G ps"
      using mapE_exists [of ?G "replay_block plan g initial maps" "block_of initial maps ?ids"] blocks by blast
    have "mset (concat ?G) = mset ?ids"
    proof -
      have m: "mset (concat xs) = (\<Sum>x\<in>#mset xs. mset x)" for xs :: "nat list list" by (induction xs) auto
      have "mset (concat ?G) = mset (concat (map snd (group_by pairs)))" unfolding m mset_sort ..
      also have "\<dots> = mset (map fst pairs)" by (rule mset_group_by)
      finally show ?thesis using spec by simp
    qed
    then have dG: "distinct (concat ?G)" using ids by (metis mset_eq_imp_distinct_iff)
    have "mset (replayed_ids ps') = mset (concat Gs)"
      if "list_all2 (block_of initial maps ?ids) Gs ps'" "distinct (concat Gs)" "set (concat Gs) \<subseteq> set ?ids" for Gs ps'
      using that
    proof (induction rule: list_all2_induct)
      case (Cons "is" Gs p ps')
      have "set (filter (\<lambda>i. i \<in> set is) ?ids) = set is" using Cons.prems(2) by auto
      then have "mset (filter (\<lambda>i. i \<in> set is) ?ids) = mset is"
        using ids Cons.prems(1) by (simp only: set_eq_iff_mset_eq_distinct [symmetric] distinct_filter concat.simps distinct_append)
      with Cons show ?case by (simp add: replayed_ids_def block_of_def)
    qed (simp add: replayed_ids_def)
    from this [OF ps(2) dG] \<open>mset (concat ?G) = mset ?ids\<close> have "mset (replayed_ids ps) = mset ?ids"
      by (metis mset_eq_setD subset_refl)
    moreover have "\<forall>p \<in> set ps. \<exists>is. is \<noteq> [] \<and> set is \<subseteq> set ?ids \<and> block_of initial maps ?ids is p"
      using ps(2) G by (metis in_set_conv_nth list_all2_conv_all_nth nth_mem)
    moreover have "group_partitions plan initial g = Inr ps"
      using True maps(1) pre pairs ps(1) by (auto simp: group_partitions_def Let_def)
    ultimately show ?thesis by blast
  qed
qed

lemma fst_zip_keys: "length xs = length ys \<Longrightarrow> fst ` set (zip xs ys) = set xs"
  by (metis image_set map_fst_zip)

lemma base_maps_reference:
  assumes "\<forall>s \<in> set ms. length (labels_of s) = length (labels_of (hd ms))"
  obtains maps where "base_maps (group_reference k ms) = Inr maps" "fst ` set maps = sc_id ` set ms"
    "\<forall>i m. map_of maps i = Some m \<longrightarrow> (\<exists>s \<in> set ms. sc_id s = i \<and> m = dict_of (zip (labels_of (hd ms)) (labels_of s)))"
    "\<forall>i m. map_of maps i = Some m \<longrightarrow> distinct (map fst m) \<and> fst ` set m = set (labels_of (hd ms))"
proof -
  let ?m = "\<lambda>s. dict_of (zip (labels_of (hd ms)) (labels_of s))"
  let ?maps = "dict_of (zip (map sc_id ms) (map ?m ms))"
  have 1: "base_maps (group_reference k ms) = Inr ?maps" by (simp add: base_maps_def group_reference_def comp_def)
  have 2: "fst ` set ?maps = sc_id ` set ms" unfolding keys_dict_of by (subst fst_zip_keys) simp_all
  have 3: "\<exists>s \<in> set ms. sc_id s = i \<and> m = ?m s" if "map_of ?maps i = Some m" for i m
  proof -
    have "(i, m) \<in> set (rev (zip (map sc_id ms) (map ?m ms)))" using that unfolding map_of_dict_of by (rule map_of_SomeD)
    then obtain n where "n < length ms" "i = sc_id (ms ! n)" "m = ?m (ms ! n)" by (auto simp: set_zip)
    then show ?thesis by (intro bexI [of _ "ms ! n"]) simp_all
  qed
  have k: "fst ` set (?m s) = set (labels_of (hd ms))" if "s \<in> set ms" for s
    unfolding keys_dict_of using assms that by (intro fst_zip_keys) simp
  have 4: "distinct (map fst m) \<and> fst ` set m = set (labels_of (hd ms))" if m: "map_of ?maps i = Some m" for i m
  proof -
    obtain s where s: "s \<in> set ms" "m = ?m s" using 3 [OF m] by blast
    show ?thesis unfolding s(2) using k [OF s(1)] distinct_dict_of by blast
  qed
  from that [of ?maps, OF 1 2] 3 4 show ?thesis by blast
qed

lemma relative_map_labels:
  assumes "length (labels_of r) = length L" "length (labels_of s) = length L" "distinct L" "distinct (labels_of r)"
    "relative_map (dict_of (zip L (labels_of r))) (dict_of (zip L (labels_of s))) = Inr rel"
  shows "map (map_of (sort rel)) (labels_of r) = map Some (labels_of s)"
proof (rule nth_equalityI)
  let ?R = "labels_of r" and ?S = "labels_of s"
  have d: "dict_of (zip L ?R) = zip L ?R" "dict_of (zip L ?S) = zip L ?S"
    using assms(1-3) by (auto intro!: dict_of_id)
  have "\<exists>rel'. relative_map (zip L ?R) (zip L ?S) = Inr rel' \<and> distinct (map fst rel') \<and> fst ` set rel' = snd ` set (zip L ?R) \<and>
    (\<forall>l k. map_of (inverse_map (zip L ?R)) l = Some k \<longrightarrow> map_of rel' l = map_of (zip L ?S) k \<and> map_of (zip L ?S) k \<noteq> None)"
    using assms(1-3) by (intro relative_map_spec) (simp_all add: fst_zip_keys)
  with assms(5) [unfolded d] have rel: "distinct (map fst rel)"
    "\<And>l k. map_of (inverse_map (zip L ?R)) l = Some k \<Longrightarrow> map_of rel l = map_of (zip L ?S) k" by auto
  show "length (map (map_of (sort rel)) ?R) = length (map Some ?S)" using assms(1,2) by simp
  fix j assume "j < length (map (map_of (sort rel)) ?R)"
  then have j: "j < length ?R" "j < length L" "j < length ?S" using assms(1,2) by simp_all
  have "map (\<lambda>(a, b). (b, a)) (zip L ?R) = zip ?R L"
    using assms(1) by (intro nth_equalityI) auto
  then have "inverse_map (zip L ?R) = zip ?R L"
    using assms(1,4) by (simp add: inverse_map_def dict_of_id)
  then have "map_of (inverse_map (zip L ?R)) (?R ! j) = Some (L ! j)"
    using j assms(1,4) by (simp add: map_of_zip_nth)
  from rel(2) [OF this] have "map_of rel (?R ! j) = Some (?S ! j)"
    using j assms(2,3) by (simp add: map_of_zip_nth)
  then show "map (map_of (sort rel)) ?R ! j = map Some ?S ! j" using j by (simp add: map_of_sort [OF rel(1)])
qed

lemma topology_groups_member:
  assumes "topology_groups plan = Inr gs" "g \<in> set gs"
  shows "\<exists>k ms. ms \<noteq> [] \<and> set ms \<subseteq> set (pl_sectors plan) \<and> g = group_reference k ms \<and>
    (\<forall>s \<in> set ms. length (labels_of s) = length (labels_of (hd ms)))"
proof -
  let ?p = "pl_process plan" and ?S = "pl_sectors plan"
  from assms(1) have ok: "\<forall>s \<in> set ?S. returns (sector_topology_signature ?p s)"
    using sector_topology_groups_returns unfolding topology_groups_def by blast
  then have sig: "sector_topology_signature ?p s = Inr (signature_of ?p s)" if "s \<in> set ?S" for s
    using that by (auto simp: signature_of_def)
  from assms sector_topology_groups_eq [OF ok] have "g \<in> (\<lambda>k. group_reference k (same_topology ?p ?S k)) ` signature_of ?p ` set ?S"
    unfolding topology_groups_def by auto
  then obtain k where k: "k \<in> signature_of ?p ` set ?S" "g = group_reference k (same_topology ?p ?S k)" by blast
  let ?ms = "same_topology ?p ?S k"
  have ne: "?ms \<noteq> []" using k(1) by (auto simp: same_topology_def filter_empty_conv)
  have "length (labels_of s) = length (signature_pdgs k)" if "s \<in> set ?ms" for s
  proof -
    have "s \<in> set ?S" "signature_of ?p s = k" using that by (simp_all add: same_topology_def)
    with sig have "sector_topology_signature ?p s = Inr k" by blast
    from signature_labels_of [OF this] show ?thesis by (metis length_map)
  qed
  then have "\<forall>s \<in> set ?ms. length (labels_of s) = length (labels_of (hd ?ms))" using ne by (metis list.set_sel(1))
  moreover have "set ?ms \<subseteq> set ?S" by (auto simp: same_topology_def)
  ultimately show ?thesis using ne k(2) by blast
qed

lemma plan_sector_id:
  assumes "distinct (map sc_id (pl_sectors plan))" "s \<in> set (pl_sectors plan)"
  shows "plan_sector plan (sc_id s) = Some s"
proof -
  have "distinct (map fst (rev (map (\<lambda>s. (sc_id s, s)) (pl_sectors plan))))" using assms(1) by (simp add: rev_map [symmetric] comp_def)
  with assms(2) show ?thesis unfolding plan_sector_def by (subst map_of_eq_Some_iff) auto
qed

lemma topology_groups_ids:
  assumes "topology_groups plan = Inr gs" "distinct (map sc_id (pl_sectors plan))"
  shows "distinct (concat (map tg_sector_ids gs))" "set (concat (map tg_sector_ids gs)) = sc_id ` set (pl_sectors plan)"
proof -
  have m: "mset (concat (map tg_sector_ids gs)) = mset (map sc_id (pl_sectors plan))"
    using topology_groups_mset assms(1) unfolding topology_groups_def by blast
  from m assms(2) show "distinct (concat (map tg_sector_ids gs))" by (metis mset_eq_imp_distinct_iff)
  from mset_eq_setD [OF m] show "set (concat (map tg_sector_ids gs)) = sc_id ` set (pl_sectors plan)" by simp
qed

text \<open>What one replay partition of a plan promises about its relabellings.\<close>

definition replay_sound :: "color_plan \<Rightarrow> replay_partition \<Rightarrow> bool" where
  "replay_sound plan p \<longleftrightarrow>
     built_partition p \<and> rp_representative p = Min (set (rp_active p)) \<and>
     list_all2 (\<lambda>i perm. \<exists>r s. plan_sector plan (rp_representative p) = Some r \<and> plan_sector plan i = Some s \<and>
        map_of perm ` set (initial_label_set (pl_process plan)) = Some ` set (initial_label_set (pl_process plan)) \<and>
        ((\<forall>t \<in> set (pl_sectors plan). distinct (labels_of t)) \<longrightarrow> map (map_of perm) (labels_of r) = map Some (labels_of s)))
       (rp_active p) (rp_permutations p)"

lemma group_partitions_sound:
  assumes "topology_groups plan = Inr gs" "distinct (map sc_id (pl_sectors plan))" "g \<in> set gs"
  shows "\<exists>ps. group_partitions plan (initial_label_set (pl_process plan)) g = Inr ps \<and>
    (ps = [] \<or> mset (replayed_ids ps) = mset (tg_sector_ids g)) \<and> (\<forall>p \<in> set ps. replay_sound plan p \<and> rp_algorithm p = None)"
proof -
  let ?I = "initial_label_set (pl_process plan)"
  obtain k ms where g: "set ms \<subseteq> set (pl_sectors plan)" "g = group_reference k ms"
    "\<forall>s \<in> set ms. length (labels_of s) = length (labels_of (hd ms))" "ms \<noteq> []"
    using topology_groups_member [OF assms(1,3)] by blast
  have ids: "tg_sector_ids g = map sc_id ms" by (simp add: g(2) group_reference_def)
  have d: "distinct (tg_sector_ids g)" using topology_groups_ids(1) [OF assms(1,2)] assms(3) by (auto simp: distinct_concat_iff)
  obtain maps where maps0: "base_maps g = Inr maps" "fst ` set maps = sc_id ` set ms"
    "\<forall>i m. map_of maps i = Some m \<longrightarrow> (\<exists>s \<in> set ms. sc_id s = i \<and> m = dict_of (zip (labels_of (hd ms)) (labels_of s)))"
    "\<forall>i m. map_of maps i = Some m \<longrightarrow> distinct (map fst m) \<and> fst ` set m = set (labels_of (hd ms))"
    by (rule base_maps_reference [OF g(3), of k, folded g(2)])
  note maps = maps0(1,2) maps0(3) [rule_format] maps0(4) [rule_format]
  have m2: "fst ` set maps = set (tg_sector_ids g)" using maps(2) ids by simp
  obtain ps where ps: "group_partitions plan ?I g = Inr ps" "ps = [] \<or> mset (replayed_ids ps) = mset (tg_sector_ids g)"
    "\<forall>p \<in> set ps. \<exists>is. is \<noteq> [] \<and> set is \<subseteq> set (tg_sector_ids g) \<and> block_of ?I maps (tg_sector_ids g) is p"
    using group_partitions_spec [OF maps(1) m2 maps0(4) d, of plan ?I] by (elim exE conjE) (rule that)
  have "replay_sound plan p \<and> rp_algorithm p = None" if "p \<in> set ps" for p
  proof -
    from ps(3) that obtain "is" where i: "is \<noteq> []" "set is \<subseteq> set (tg_sector_ids g)" "block_of ?I maps (tg_sector_ids g) is p" by blast
    then have b: "built_partition p" "rp_algorithm p = None" "rp_representative p = Min (set is)"
      "rp_active p = filter (\<lambda>i. i \<in> set is) (tg_sector_ids g)"
      "list_all2 (\<lambda>i perm. \<exists>rm sm rel. map_of maps (Min (set is)) = Some rm \<and> map_of maps i = Some sm \<and>
        relative_map rm sm = Inr rel \<and> perm = sort rel \<and> map_of perm ` set ?I = Some ` set ?I) (rp_active p) (rp_permutations p)"
      unfolding block_of_def by blast+
    have act: "set (rp_active p) = set is" using i(2) unfolding b(4) by auto
    have one: "\<exists>r s. plan_sector plan (rp_representative p) = Some r \<and> plan_sector plan j = Some s \<and>
        map_of perm ` set ?I = Some ` set ?I \<and>
        ((\<forall>t \<in> set (pl_sectors plan). distinct (labels_of t)) \<longrightarrow> map (map_of perm) (labels_of r) = map Some (labels_of s))"
      if j: "map_of maps (Min (set is)) = Some rm" "map_of maps j = Some sm" "relative_map rm sm = Inr rel" "perm = sort rel"
        "map_of perm ` set ?I = Some ` set ?I" for j perm rm sm rel
    proof -
      obtain r where r: "r \<in> set ms" "sc_id r = Min (set is)" "rm = dict_of (zip (labels_of (hd ms)) (labels_of r))"
        using maps(3) [OF j(1)] by blast
      obtain s where s: "s \<in> set ms" "sc_id s = j" "sm = dict_of (zip (labels_of (hd ms)) (labels_of s))"
        using maps(3) [OF j(2)] by blast
      have "plan_sector plan (rp_representative p) = Some r" "plan_sector plan j = Some s"
        using plan_sector_id [OF assms(2), of r] plan_sector_id [OF assms(2), of s] r(1,2) s(1,2) g(1) b(3) by auto
      moreover have "map (map_of perm) (labels_of r) = map Some (labels_of s)" if "\<forall>t \<in> set (pl_sectors plan). distinct (labels_of t)"
      proof -
        have "hd ms \<in> set ms" using g(4) by simp
        with that g(1) r(1) have dd: "distinct (labels_of (hd ms))" "distinct (labels_of r)" by blast+
        have ll: "length (labels_of r) = length (labels_of (hd ms))" "length (labels_of s) = length (labels_of (hd ms))"
          using g(3) r(1) s(1) by blast+
        show ?thesis unfolding j(4) using relative_map_labels [OF ll dd] j(3) r(3) s(3) by blast
      qed
      ultimately show ?thesis using j(5) by blast
    qed
    have "list_all2 (\<lambda>j perm. \<exists>r s. plan_sector plan (rp_representative p) = Some r \<and> plan_sector plan j = Some s \<and>
        map_of perm ` set ?I = Some ` set ?I \<and>
        ((\<forall>t \<in> set (pl_sectors plan). distinct (labels_of t)) \<longrightarrow> map (map_of perm) (labels_of r) = map Some (labels_of s)))
       (rp_active p) (rp_permutations p)"
      using b(5) by (rule list_all2_mono) (elim exE conjE, rule one)
    with b(1,2,3) act show ?thesis by (simp add: replay_sound_def)
  qed
  with ps(1,2) show ?thesis by blast
qed

lemma replayed_ids_concat: "replayed_ids (concat pss) = concat (map replayed_ids pss)"
  by (induction pss) (simp_all add: replayed_ids_def)

lemma partitions_safe:
  assumes "returns (topology_groups plan)" "distinct (map sc_id (pl_sectors plan))"
  shows "\<exists>ps. color_topology_replay_partitions plan = Inr ps \<and> distinct (replayed_ids ps) \<and>
    set (replayed_ids ps) \<subseteq> sc_id ` set (pl_sectors plan) \<and> (\<forall>p \<in> set ps. replay_sound plan p \<and> rp_algorithm p = None)"
proof -
  let ?I = "initial_label_set (pl_process plan)"
  obtain gs where gs: "topology_groups plan = Inr gs" using assms(1) by blast
  show ?thesis
  proof (cases "pl_color_accuracy plan \<notin> {STR ''lc'', STR ''nlc'', STR ''full''} \<or> ?I = []")
    case True
    then have "color_topology_replay_partitions plan = Inr []"
      by (auto simp: color_topology_replay_partitions_def Let_def)
    then show ?thesis by (simp add: replayed_ids_def)
  next
    case False
    let ?P = "\<lambda>g ps. (ps = [] \<or> mset (replayed_ids ps) = mset (tg_sector_ids g)) \<and> (\<forall>p \<in> set ps. replay_sound plan p \<and> rp_algorithm p = None)"
    obtain pss where pss: "mapE (group_partitions plan ?I) gs = Inr pss" "list_all2 ?P gs pss"
      using mapE_exists [of gs "group_partitions plan ?I" ?P] group_partitions_sound [OF gs assms(2)] by blast
    have "distinct (concat (map replayed_ids qss)) \<and> set (concat (map replayed_ids qss)) \<subseteq> set (concat (map tg_sector_ids hs)) \<and>
        (\<forall>p \<in> set (concat qss). replay_sound plan p \<and> rp_algorithm p = None)"
      if "list_all2 ?P hs qss" "distinct (concat (map tg_sector_ids hs))" for hs qss
      using that
    proof (induction rule: list_all2_induct)
      case (Cons h hs qs qss)
      then have IH: "distinct (concat (map replayed_ids qss))" "set (concat (map replayed_ids qss)) \<subseteq> set (concat (map tg_sector_ids hs))"
        "\<forall>p \<in> set (concat qss). replay_sound plan p \<and> rp_algorithm p = None" by simp_all
      have q: "distinct (replayed_ids qs) \<and> set (replayed_ids qs) \<subseteq> set (tg_sector_ids h)"
      proof (cases "qs = []")
        case False
        with Cons(1) have m: "mset (replayed_ids qs) = mset (tg_sector_ids h)" by blast
        from mset_eq_imp_distinct_iff [OF m] mset_eq_setD [OF m] Cons.prems show ?thesis by simp
      qed (simp add: replayed_ids_def)
      have disj: "set (tg_sector_ids h) \<inter> set (concat (map tg_sector_ids hs)) = {}" using Cons.prems by simp
      have "set (replayed_ids qs) \<inter> set (concat (map replayed_ids qss)) = {}" using q IH(2) disj by blast
      with q IH Cons(1) show ?case by auto
    qed simp
    from this [OF pss(2) topology_groups_ids(1) [OF gs assms(2)]] topology_groups_ids(2) [OF gs assms(2)]
    have "distinct (replayed_ids (concat pss)) \<and> set (replayed_ids (concat pss)) \<subseteq> sc_id ` set (pl_sectors plan) \<and>
        (\<forall>p \<in> set (concat pss). replay_sound plan p \<and> rp_algorithm p = None)"
      unfolding replayed_ids_concat by simp
    moreover have "color_topology_replay_partitions plan = Inr (concat pss)"
      using False gs pss(1) by (simp add: color_topology_replay_partitions_def Let_def)
    ultimately show ?thesis by blast
  qed
qed

text \<open>
  C38. On a plan with distinct sector ids whose sectors can be signed, the partitioning returns:
  none of its internal consistency errors and none of the partition constructor's errors can
  occur. The partitions are disjoint sets of plan sectors, each led by its smallest member, and
  every relative relabelling maps the initial legs onto themselves and, when no sector repeats a
  label, the label word of the representative to the label word of its sector.
\<close>
theorem replay_partitions_safe:
  assumes "returns (topology_groups plan)" "distinct (map sc_id (pl_sectors plan))"
  shows "\<exists>ps. color_topology_replay_partitions plan = Inr ps \<and> distinct (replayed_ids ps) \<and>
    set (replayed_ids ps) \<subseteq> sc_id ` set (pl_sectors plan) \<and> (\<forall>p \<in> set ps. replay_sound plan p \<and> rp_algorithm p = None)"
  using assms by (rule partitions_safe)

section \<open>Instances\<close>

definition sample_trace :: "nat \<Rightarrow> int list \<Rightarrow> sector" where
  "sample_trace i labels = \<lparr>sc_id = i, sc_kind = Single_Trace, sc_lines = [], sc_trace = labels, sc_singlets = [], sc_word = []\<rparr>"

definition sample_trace_plan :: color_plan where
  "sample_trace_plan = \<lparr>pl_process = sample_process STR ''full'' (map (\<lambda>l. (l, Adjoint)) [1, 2, 3, 4]), pl_color_accuracy = STR ''full'',
     pl_sectors = [sample_trace 0 [1, 2, 3, 4], sample_trace 1 [1, 2, 4, 3], sample_trace 2 [1, 3, 2, 4]],
     pl_diagnostics = [], pl_truncated = False, pl_trace_reflections_folded = False, pl_basis = Trace_Basis\<rparr>"

lemma sample_trace_groups:
  "\<exists>gs. topology_groups sample_trace_plan = Inr gs \<and> map tg_sector_ids gs = [[0, 1, 2]]"
proof -
  have "(case topology_groups sample_trace_plan of Inl _ \<Rightarrow> False | Inr gs \<Rightarrow> map tg_sector_ids gs = [[0, 1, 2]])"
    by code_simp
  then show ?thesis by (auto split: sum.splits)
qed

lemma topology_groups_exact_witness:
  "\<exists>gs. topology_groups sample_trace_plan = Inr gs \<and> mset (concat (map tg_sector_ids gs)) = mset [0, 1, 2]"
proof -
  obtain gs where gs: "topology_groups sample_trace_plan = Inr gs" using sample_trace_groups by blast
  from topology_groups_exact [of "pl_process sample_trace_plan" "pl_sectors sample_trace_plan"] gs
  have "mset (concat (map tg_sector_ids gs)) = mset (map sc_id (pl_sectors sample_trace_plan))"
    unfolding topology_groups_def by blast
  also have "map sc_id (pl_sectors sample_trace_plan) = [0, 1, 2]" by (simp add: sample_trace_plan_def sample_trace_def)
  finally show ?thesis using gs by blast
qed

lemma replay_partitions_safe_witness:
  "\<exists>ps. color_topology_replay_partitions sample_trace_plan = Inr ps \<and> map rp_active ps = [[0, 1], [2]] \<and>
     (\<forall>p \<in> set ps. replay_sound sample_trace_plan p)"
proof -
  have r: "returns (topology_groups sample_trace_plan)" using sample_trace_groups by blast
  have d: "distinct (map sc_id (pl_sectors sample_trace_plan))" by (simp add: sample_trace_plan_def sample_trace_def)
  obtain ps where ps: "color_topology_replay_partitions sample_trace_plan = Inr ps" "\<forall>p \<in> set ps. replay_sound sample_trace_plan p"
    using replay_partitions_safe [OF r d] by blast
  have a: "pl_color_accuracy sample_trace_plan = STR ''full''" by (simp add: sample_trace_plan_def)
  have "(case topology_groups sample_trace_plan of Inl _ \<Rightarrow> False | Inr gs \<Rightarrow>
      (case mapE (group_partitions sample_trace_plan [1, 2]) gs of Inl _ \<Rightarrow> False | Inr pss \<Rightarrow> map rp_active (concat pss) = [[0, 1], [2]]))"
    by code_simp
  moreover have "initial_label_set (pl_process sample_trace_plan) = [1, 2]" by code_simp
  ultimately have "map rp_active ps = [[0, 1], [2]]"
    using ps(1) by (auto simp: color_topology_replay_partitions_def a split: sum.splits)
  with ps show ?thesis by (intro exI [of _ ps] conjI)
qed

end
