(* ===== verification/Source_IR.thy ===== *)
theory Source_IR
  imports Complex_Main Process_Model Py_String Py_Dict
begin

text \<open>
  Source contracts of the model layer: oriented particle identities, spin states, crossing and
  the source record (\<open>models/_physics_ir.py\<close>), and the methods of the model base class that
  build them (\<open>models/base.py\<close>). The abstract methods a concrete model overrides are fields of
  the model record; memoisation of \<open>_source_ir\<close> is left out, since it returns the same value.
\<close>

section \<open>Particle identities\<close>

record particle_identity =
  id_canonical :: string
  id_species :: string
  id_anti_canonical :: string
  id_display :: string
  id_anti_display :: string
  id_pdg :: int
  id_anti_pdg :: int
  id_orientation :: source_orientation
  id_self_conjugate :: bool

definition make_identity :: "particle_identity \<Rightarrow> particle_identity res" where
  "make_identity i =
     (if id_canonical i = [] \<or> id_species i = [] \<or> id_anti_canonical i = [] \<or> id_display i = [] \<or> id_anti_display i = []
      then Inl (ValueError STR ''particle identity field must not be empty'')
      else if id_self_conjugate i \<noteq> (id_canonical i = id_anti_canonical i)
      then Inl (ValueError STR ''particle self-conjugacy must agree with its canonical anti relation'')
      else if id_self_conjugate i \<noteq> (id_pdg i = id_anti_pdg i)
      then Inl (ValueError STR ''particle self-conjugacy must agree with its PDG-label anti relation'')
      else if (id_orientation i = Self_Conjugate_Src) \<noteq> id_self_conjugate i
      then Inl (ValueError STR ''self-conjugate source orientation must agree with particle identity'')
      else Inr i)"

text \<open>
  The values of a decoded JSON payload that this code reads; \<open>str\<close> of a string is itself, of a
  number its decimal form and of a boolean its name.
\<close>

datatype json = J_Str string | J_Int int | J_Bool bool | J_Null

definition py_str :: "json \<Rightarrow> string" where
  "py_str v = (case v of J_Str s \<Rightarrow> s | J_Int k \<Rightarrow> str_int k | J_Bool b \<Rightarrow> (if b then ''True'' else ''False'') | J_Null \<Rightarrow> ''None'')"

definition json_integer :: "json \<Rightarrow> int res" where
  "json_integer v = (case v of J_Int k \<Rightarrow> Inr k | _ \<Rightarrow> Inl (TypeError STR ''must be an integer''))"

definition json_boolean :: "json \<Rightarrow> bool res" where
  "json_boolean v = (case v of J_Bool b \<Rightarrow> Inr b | _ \<Rightarrow> Inl (TypeError STR ''must be a boolean''))"

definition orientation_name :: "source_orientation \<Rightarrow> string" where
  "orientation_name ort = (case ort of Particle_Src \<Rightarrow> ''particle'' | Antiparticle_Src \<Rightarrow> ''antiparticle'' | Self_Conjugate_Src \<Rightarrow> ''self-conjugate'')"

definition particle_orientation :: "json \<Rightarrow> source_orientation res" where
  "particle_orientation v =
     (if v = J_Str ''particle'' then Inr Particle_Src
      else if v = J_Str ''antiparticle'' then Inr Antiparticle_Src
      else if v = J_Str ''self-conjugate'' then Inr Self_Conjugate_Src
      else Inl (ValueError STR ''invalid particle orientation''))"

definition identity_to_json :: "particle_identity \<Rightarrow> (string \<times> json) list" where
  "identity_to_json i =
     [(''canonical_id'', J_Str (id_canonical i)), (''species_id'', J_Str (id_species i)),
      (''anti_canonical_id'', J_Str (id_anti_canonical i)), (''display_name'', J_Str (id_display i)),
      (''anti_display_name'', J_Str (id_anti_display i)), (''pdg_label'', J_Int (id_pdg i)),
      (''anti_pdg_label'', J_Int (id_anti_pdg i)), (''orientation'', J_Str (orientation_name (id_orientation i))),
      (''self_conjugate'', J_Bool (id_self_conjugate i))]"

definition identity_from_json :: "(string \<times> json) list \<Rightarrow> particle_identity res" where
  "identity_from_json d =
     bindE (lookupE d ''canonical_id'') (\<lambda>c. bindE (lookupE d ''species_id'') (\<lambda>s.
     bindE (lookupE d ''anti_canonical_id'') (\<lambda>a. bindE (lookupE d ''display_name'') (\<lambda>n.
     bindE (lookupE d ''anti_display_name'') (\<lambda>an.
     bindE (bindE (lookupE d ''pdg_label'') json_integer) (\<lambda>p.
     bindE (bindE (lookupE d ''anti_pdg_label'') json_integer) (\<lambda>ap.
     bindE (bindE (lookupE d ''orientation'') particle_orientation) (\<lambda>ort.
     bindE (bindE (lookupE d ''self_conjugate'') json_boolean) (\<lambda>sc.
     make_identity \<lparr>id_canonical = py_str c, id_species = py_str s, id_anti_canonical = py_str a, id_display = py_str n,
       id_anti_display = py_str an, id_pdg = p, id_anti_pdg = ap, id_orientation = ort, id_self_conjugate = sc\<rparr>)))))))))"

section \<open>Source states and crossing\<close>

datatype spin_value = Spin_Int int | Spin_Tuple "int list"

record source_state =
  ss_helicity :: int
  ss_chirality :: int
  ss_spin :: spin_value

datatype momentum_transform = Identity_Momentum | Negate_Momentum

text \<open>The phase is a pair of finite floats, modelled as rationals.\<close>

record crossing =
  cr_momentum :: momentum_transform
  cr_helicity :: int
  cr_chirality :: int
  cr_spin :: int
  cr_phase :: "rat \<times> rat"

definition make_crossing :: "crossing \<Rightarrow> crossing res" where
  "make_crossing c =
     (if cr_helicity c \<notin> {-1, 1} \<or> cr_chirality c \<notin> {-1, 1} \<or> cr_spin c \<notin> {-1, 1}
      then Inl (ValueError STR ''crossing factor must be -1 or 1'')
      else if cr_phase c = (0, 0) then Inl (ValueError STR ''crossing phase must be nonzero'')
      else Inr c)"

definition default_crossing :: crossing where
  "default_crossing = \<lparr>cr_momentum = Negate_Momentum, cr_helicity = 1, cr_chirality = 1, cr_spin = 1, cr_phase = (1, 0)\<rparr>"

definition identity_crossing :: crossing where
  "identity_crossing = default_crossing\<lparr>cr_momentum := Identity_Momentum\<rparr>"

definition apply_crossing :: "crossing \<Rightarrow> source_state \<Rightarrow> source_state res" where
  "apply_crossing c s =
     bindE (if cr_spin c \<noteq> 1
            then (case ss_spin s of
                    Spin_Int k \<Rightarrow> Inr (Spin_Int (k * cr_spin c))
                  | Spin_Tuple _ \<Rightarrow> Inl (TypeError STR ''crossing cannot multiply a structured source spin state''))
            else Inr (ss_spin s))
       (\<lambda>spin. Inr \<lparr>ss_helicity = ss_helicity s * cr_helicity c, ss_chirality = ss_chirality s * cr_chirality c, ss_spin = spin\<rparr>)"

record source_ir =
  so_identity :: particle_identity
  so_statistics :: statistics
  so_family :: wavefunction_family
  so_dimension :: int
  so_states :: "source_state list"
  so_crossing :: crossing
  so_basis :: string
  so_mass_parameter :: "string option"
  so_width_parameter :: "string option"

definition family_statistics :: "wavefunction_family \<Rightarrow> statistics" where
  "family_statistics f = (case f of Fermion_Wf \<Rightarrow> Fermion | Ghost_Wf \<Rightarrow> Ghost | Auxiliary_Wf \<Rightarrow> Auxiliary | _ \<Rightarrow> Boson)"

definition make_source :: "source_ir \<Rightarrow> source_ir res" where
  "make_source s =
     (if so_statistics s \<noteq> family_statistics (so_family s)
      then Inl (ValueError STR ''source wavefunction family requires other statistics'')
      else if so_dimension s < 1 then Inl (ValueError STR ''source component dimension must be positive'')
      else if so_states s = [] then Inl (ValueError STR ''source metadata must declare at least one spin state'')
      else if so_basis s = [] then Inl (ValueError STR ''source basis must not be empty'')
      else Inr s)"

section \<open>The model base class\<close>

record particle_species =
  pt_pdg :: int
  pt_anti_pdg :: int
  pt_spin :: int
  pt_dimension :: int
  pt_color_rep :: int

record model =
  md_name :: string
  md_particles :: "particle_species list"
  md_is_fermion :: "int \<Rightarrow> bool"
  md_is_chiral :: "int \<Rightarrow> bool"
  md_color_rep :: "int \<Rightarrow> int"
  md_current_dimension :: "int \<Rightarrow> int \<Rightarrow> int"
  md_auxiliary_kind :: "int \<Rightarrow> string option"
  md_mass_name :: "int \<Rightarrow> string option"
  md_width_name :: "int \<Rightarrow> string option"

definition species_by_pdg :: "model \<Rightarrow> (int \<times> particle_species) list" where
  "species_by_pdg m = concat (map (\<lambda>p. [(pt_pdg p, p), (pt_anti_pdg p, p)]) (md_particles m))"

definition model_particle :: "model \<Rightarrow> int \<Rightarrow> particle_species res" where
  "model_particle m pdg =
     (case map_of (species_by_pdg m) pdg of None \<Rightarrow> Inl (KeyError STR ''particle not in model'') | Some p \<Rightarrow> Inr p)"

definition anti_particle :: "model \<Rightarrow> int \<Rightarrow> int res" where
  "anti_particle m pdg = bindE (model_particle m pdg) (\<lambda>p. Inr (if pt_pdg p = pdg then pt_anti_pdg p else pt_pdg p))"

definition model_spin :: "model \<Rightarrow> int \<Rightarrow> int res" where
  "model_spin m pdg = bindE (model_particle m pdg) (\<lambda>p.
     if pt_spin p < 0 then Inl (ValueError STR ''spin is ill-defined for particle'') else Inr (pt_spin p))"

definition source_orientation_of :: "model \<Rightarrow> int \<Rightarrow> source_orientation res" where
  "source_orientation_of m pid =
     bindE (model_particle m pid) (\<lambda>particle.
     bindE (anti_particle m pid) (\<lambda>anti.
     bindE (anti_particle m anti) (\<lambda>anti_anti.
     if anti_anti \<noteq> pid then Inl (ValueError STR ''particle/antiparticle relation is not involutive for source particle'')
     else bindE (if anti = pid then Inr Self_Conjugate_Src
                 else if pid = pt_pdg particle \<and> anti = pt_anti_pdg particle then Inr Particle_Src
                 else if pid = pt_anti_pdg particle \<and> anti = pt_pdg particle then Inr Antiparticle_Src
                 else Inl (ValueError STR ''source particle is inconsistent with its model-owned particle/antiparticle relation''))
       (\<lambda>ort. if ort = Self_Conjugate_Src \<and> md_is_fermion m pid
              then Inl (ValueError STR ''unsupported self-conjugate fermion source: Majorana/FNV source wavefunctions are not implemented'')
              else Inr ort))))"

definition particle_identity_ir :: "model \<Rightarrow> int \<Rightarrow> particle_identity res" where
  "particle_identity_ir m pid =
     bindE (model_particle m pid) (\<lambda>particle.
     bindE (anti_particle m pid) (\<lambda>anti.
     bindE (source_orientation_of m pid) (\<lambda>ort.
     make_identity
       \<lparr>id_canonical = ''model:'' @ md_name m @ '':state:'' @ str_int pid,
        id_species = ''model:'' @ md_name m @ '':species:'' @ str_int (pt_pdg particle),
        id_anti_canonical = ''model:'' @ md_name m @ '':state:'' @ str_int anti,
        id_display = ''pdg_'' @ str_int pid, id_anti_display = ''pdg_'' @ str_int anti,
        id_pdg = pid, id_anti_pdg = anti, id_orientation = ort, id_self_conjugate = (pid = anti)\<rparr>)))"

definition source_spin_states :: "model \<Rightarrow> int \<Rightarrow> source_state list res" where
  "source_spin_states m pid =
     (let st = \<lambda>h c k. \<lparr>ss_helicity = h, ss_chirality = c, ss_spin = Spin_Int k\<rparr>
      in if md_is_chiral m pid then Inr [st (-1) (-1) (-1), st 1 1 1]
         else bindE (model_spin m pid) (\<lambda>spin. Inr
           (if spin = 1 then [st 0 0 0]
            else if spin = 2 then [st (-1) 0 (-1), st 1 0 1]
            else if spin = 3 then [st (-1) 0 (-1), st 0 0 0, st 1 0 1]
            else [st 0 0 0])))"

text \<open>\<open>None\<close> is the answer ``unknown''; the chirality of a current defaults to 0.\<close>

definition source_wavefunction_kind :: "model \<Rightarrow> int \<Rightarrow> wavefunction_family option" where
  "source_wavefunction_kind m pid =
     (let dimension = md_current_dimension m pid 0
      in if md_is_fermion m pid then Some Fermion_Wf
         else if dimension = 1 then Some Scalar_Wf
         else if dimension \<in> {2, 4} then Some Vector_Wf
         else if dimension = 16 then Some Spin2_Wf
         else None)"

definition current_basis :: "model \<Rightarrow> int \<Rightarrow> int \<Rightarrow> string" where
  "current_basis m pid chirality =
     (let dimension = md_current_dimension m pid chirality; family = source_wavefunction_kind m pid
      in case md_auxiliary_kind m pid of
           Some auxiliary \<Rightarrow> ''auxiliary:'' @ auxiliary
         | None \<Rightarrow>
             if md_is_fermion m pid then (if dimension = 2 then ''weyl-chiral'' else ''dirac'')
             else if family = Some Scalar_Wf \<and> dimension = 1 then ''scalar''
             else if family = Some Vector_Wf \<and> dimension = 4 then ''lorentz-vector''
             else if family = Some Spin2_Wf \<and> dimension = 16 then ''lorentz-rank-2''
             else if dimension = 6 then ''antisymmetric-lorentz-pair''
             else ''components:'' @ str_int dimension)"

definition source_crossing_ir :: "model \<Rightarrow> int \<Rightarrow> crossing res" where
  "source_crossing_ir m pid =
     make_crossing
       (if md_is_chiral m pid then default_crossing\<lparr>cr_chirality := -1, cr_spin := -1\<rparr>
        else if source_wavefunction_kind m pid \<in> {Some Vector_Wf, Some Spin2_Wf}
        then default_crossing\<lparr>cr_helicity := -1, cr_spin := -1\<rparr>
        else default_crossing)"

definition build_source_ir :: "model \<Rightarrow> int \<Rightarrow> source_ir res" where
  "build_source_ir m pid =
     bindE (source_spin_states m pid) (\<lambda>states.
     case dedup (map (\<lambda>s. md_current_dimension m pid (ss_chirality s)) states) of
       [dimension] \<Rightarrow>
         (case source_wavefunction_kind m pid of
            None \<Rightarrow> Inl (ValueError STR ''source has unsupported wavefunction family'')
          | Some family \<Rightarrow>
              bindE (if md_auxiliary_kind m pid \<noteq> None then Inr Auxiliary
                     else bindE (model_spin m pid) (\<lambda>spin.
                       Inr (if spin < 0 then Ghost else if md_is_fermion m pid then Fermion else Boson))) (\<lambda>stats.
              bindE (particle_identity_ir m pid) (\<lambda>ident.
              bindE (source_crossing_ir m pid) (\<lambda>crossing.
              make_source \<lparr>so_identity = ident, so_statistics = stats, so_family = family, so_dimension = dimension,
                so_states = states, so_crossing = crossing, so_basis = current_basis m pid (ss_chirality (hd states)),
                so_mass_parameter = md_mass_name m pid, so_width_parameter = md_width_name m pid\<rparr>))))
     | _ \<Rightarrow> Inl (ValueError STR ''source has state-dependent component dimensions''))"

section \<open>Properties\<close>

lemma make_identity_iff:
  "make_identity i = Inr j \<longleftrightarrow> j = i \<and>
     [] \<notin> {id_canonical i, id_species i, id_anti_canonical i, id_display i, id_anti_display i} \<and>
     (id_self_conjugate i \<longleftrightarrow> id_canonical i = id_anti_canonical i) \<and> (id_self_conjugate i \<longleftrightarrow> id_pdg i = id_anti_pdg i) \<and>
     (id_orientation i = Self_Conjugate_Src \<longleftrightarrow> id_self_conjugate i)"
  unfolding make_identity_def by auto

lemma identity_json: "identity_from_json (identity_to_json i) = make_identity i"
  by (cases i; cases "id_orientation i")
    (simp_all add: identity_from_json_def identity_to_json_def lookupE_def py_str_def json_integer_def json_boolean_def
      particle_orientation_def orientation_name_def)

lemma identity_from_json_valid: "identity_from_json d = Inr i \<Longrightarrow> make_identity i = Inr i"
  unfolding identity_from_json_def by (auto simp: bindE_Inr_iff make_identity_iff)

text \<open>
  Encoding is a right inverse of decoding: a payload that decodes gives an identity that
  passes the constructor's checks, and re-encoding it decodes to the same identity; encoding an
  identity that violates a check is rejected when decoded.
\<close>
theorem identity_json_roundtrip:
  "(\<forall>d i. identity_from_json d = Inr i \<longrightarrow> make_identity i = Inr i \<and> identity_from_json (identity_to_json i) = Inr i) \<and>
   (\<forall>i. returns (identity_from_json (identity_to_json i)) \<longleftrightarrow> make_identity i = Inr i)"
proof (intro conjI allI impI)
  fix d i assume "identity_from_json d = Inr i"
  then show "make_identity i = Inr i" by (rule identity_from_json_valid)
  then show "identity_from_json (identity_to_json i) = Inr i" by (simp add: identity_json)
next
  fix i show "returns (identity_from_json (identity_to_json i)) \<longleftrightarrow> make_identity i = Inr i"
    by (auto simp: identity_json make_identity_iff)
qed

text \<open>The first species that mentions a particle also is the first that mentions its antiparticle.\<close>

lemma map_of_pairs_first:
  "map_of (concat (map (\<lambda>p. [(f p, p), (g p, p)]) ps)) x = find (\<lambda>p. f p = x \<or> g p = x) ps"
  by (induction ps) auto

lemma model_particle_find:
  "model_particle m pid = Inr p \<longleftrightarrow> find (\<lambda>p. pt_pdg p = pid \<or> pt_anti_pdg p = pid) (md_particles m) = Some p"
  by (simp add: model_particle_def species_by_pdg_def map_of_pairs_first split: option.splits)

lemma find_same:
  assumes "find P xs = Some x" "find Q xs = Some y" "Q x" "P y"
  shows "x = y"
  using assms by (induction xs) (auto split: if_splits)

lemma anti_particle_species:
  assumes "model_particle m pid = Inr p" "anti_particle m pid = Inr a" "anti_particle m a = Inr pid"
  shows "model_particle m a = Inr p \<and> {pid, a} = {pt_pdg p, pt_anti_pdg p}"
proof -
  have a: "a = (if pt_pdg p = pid then pt_anti_pdg p else pt_pdg p)" using assms(1,2) by (simp add: anti_particle_def)
  from assms(1) have f: "find (\<lambda>p. pt_pdg p = pid \<or> pt_anti_pdg p = pid) (md_particles m) = Some p" by (simp add: model_particle_find)
  then have mem: "pt_pdg p = pid \<or> pt_anti_pdg p = pid" by (auto dest: find_SomeD)
  from assms(3) obtain q where q: "model_particle m a = Inr q" "pid = (if pt_pdg q = a then pt_anti_pdg q else pt_pdg q)"
    by (auto simp: anti_particle_def bindE_Inr_iff)
  from q(1) have fq: "find (\<lambda>p. pt_pdg p = a \<or> pt_anti_pdg p = a) (md_particles m) = Some q" by (simp add: model_particle_find)
  have "pt_pdg p = a \<or> pt_anti_pdg p = a" unfolding a by simp
  moreover have "pt_pdg q = pid \<or> pt_anti_pdg q = pid" unfolding q(2) by simp
  ultimately have "p = q" using find_same [OF f fq] by blast
  moreover have "{pid, a} = {pt_pdg p, pt_anti_pdg p}" using mem unfolding a by (cases "pt_pdg p = pid") auto
  ultimately show ?thesis using q(1) by blast
qed

lemma str_int_eq_iff: "str_int a = str_int b \<longleftrightarrow> a = b"
  using py_int_str_int by (metis option.inject)

definition flip_orientation :: "source_orientation \<Rightarrow> source_orientation" where
  "flip_orientation ort = (case ort of Particle_Src \<Rightarrow> Antiparticle_Src | Antiparticle_Src \<Rightarrow> Particle_Src | Self_Conjugate_Src \<Rightarrow> Self_Conjugate_Src)"

lemma source_orientation_flips:
  assumes "source_orientation_of m pid = Inr ort" "anti_particle m pid = Inr a"
  shows "anti_particle m a = Inr pid \<and> source_orientation_of m a = Inr (flip_orientation ort)"
proof -
  obtain p where p: "model_particle m pid = Inr p" using assms(1) by (auto simp: source_orientation_of_def bindE_Inr_iff)
  with assms have aa: "anti_particle m a = Inr pid" by (auto simp: source_orientation_of_def bindE_Inr_iff split: if_splits)
  from anti_particle_species [OF p assms(2) this] have q: "model_particle m a = Inr p" "{pid, a} = {pt_pdg p, pt_anti_pdg p}" by auto
  show ?thesis
  proof (cases "a = pid")
    case True
    then have "ort = Self_Conjugate_Src" using assms by (auto simp: source_orientation_of_def bindE_Inr_iff split: if_splits)
    with assms(1) aa True show ?thesis by (simp add: flip_orientation_def)
  next
    case False
    with q(2) have "pid = pt_pdg p \<and> a = pt_anti_pdg p \<or> pid = pt_anti_pdg p \<and> a = pt_pdg p" by (auto simp: doubleton_eq_iff)
    with assms p q(1) aa False show ?thesis
      by (auto simp: source_orientation_of_def bindE_Inr_iff flip_orientation_def split: if_splits)
  qed
qed

text \<open>
  When a particle has an oriented identity, so has its antiparticle, and the two are
  conjugate: canonical ids, PDG labels and display names are exchanged, the orientation is
  flipped, the species agrees, and a particle equals its antiparticle exactly when the identity
  is self-conjugate (which no fermion is).
\<close>
theorem conjugate_identity:
  assumes "particle_identity_ir m pid = Inr i"
  shows "\<exists>j. particle_identity_ir m (id_anti_pdg i) = Inr j \<and> id_pdg i = pid \<and> id_anti_pdg j = pid \<and>
    id_canonical j = id_anti_canonical i \<and> id_anti_canonical j = id_canonical i \<and>
    id_display j = id_anti_display i \<and> id_species j = id_species i \<and>
    id_orientation j = flip_orientation (id_orientation i) \<and> id_self_conjugate j = id_self_conjugate i \<and>
    (id_self_conjugate i \<longleftrightarrow> anti_particle m pid = Inr pid) \<and> (md_is_fermion m pid \<longrightarrow> \<not> id_self_conjugate i)"
proof -
  from assms obtain p a ort where p: "model_particle m pid = Inr p" "anti_particle m pid = Inr a" "source_orientation_of m pid = Inr ort"
    by (auto simp: particle_identity_ir_def bindE_Inr_iff)
  with assms have i: "i = \<lparr>id_canonical = ''model:'' @ md_name m @ '':state:'' @ str_int pid,
        id_species = ''model:'' @ md_name m @ '':species:'' @ str_int (pt_pdg p),
        id_anti_canonical = ''model:'' @ md_name m @ '':state:'' @ str_int a,
        id_display = ''pdg_'' @ str_int pid, id_anti_display = ''pdg_'' @ str_int a,
        id_pdg = pid, id_anti_pdg = a, id_orientation = ort, id_self_conjugate = (pid = a)\<rparr>"
    and ok: "ort = Self_Conjugate_Src \<longleftrightarrow> pid = a"
    by (auto simp: particle_identity_ir_def make_identity_iff)
  from source_orientation_flips [OF p(3,2)] have q: "anti_particle m a = Inr pid" "source_orientation_of m a = Inr (flip_orientation ort)" by auto
  with anti_particle_species [OF p(1,2)] have "model_particle m a = Inr p" by blast
  with q have "particle_identity_ir m a = make_identity \<lparr>id_canonical = ''model:'' @ md_name m @ '':state:'' @ str_int a,
        id_species = ''model:'' @ md_name m @ '':species:'' @ str_int (pt_pdg p),
        id_anti_canonical = ''model:'' @ md_name m @ '':state:'' @ str_int pid,
        id_display = ''pdg_'' @ str_int a, id_anti_display = ''pdg_'' @ str_int pid,
        id_pdg = a, id_anti_pdg = pid, id_orientation = flip_orientation ort, id_self_conjugate = (a = pid)\<rparr>"
    by (simp add: particle_identity_ir_def)
  also have "\<dots> = Inr \<lparr>id_canonical = ''model:'' @ md_name m @ '':state:'' @ str_int a,
        id_species = ''model:'' @ md_name m @ '':species:'' @ str_int (pt_pdg p),
        id_anti_canonical = ''model:'' @ md_name m @ '':state:'' @ str_int pid,
        id_display = ''pdg_'' @ str_int a, id_anti_display = ''pdg_'' @ str_int pid,
        id_pdg = a, id_anti_pdg = pid, id_orientation = flip_orientation ort, id_self_conjugate = (a = pid)\<rparr>"
    using ok by (cases ort) (auto simp: make_identity_iff str_int_eq_iff flip_orientation_def)
  finally show ?thesis
    using p ok by (auto simp: i source_orientation_of_def bindE_Inr_iff split: if_splits)
qed

lemma make_source_iff:
  "make_source s = Inr t \<longleftrightarrow> t = s \<and> so_statistics s = family_statistics (so_family s) \<and> 1 \<le> so_dimension s \<and> so_states s \<noteq> [] \<and> so_basis s \<noteq> []"
  unfolding make_source_def by auto

lemma dedup_singleton: "dedup xs = [d] \<Longrightarrow> x \<in> set xs \<Longrightarrow> x = d"
  by (metis set_dedup set_ConsD empty_iff empty_set)

lemma source_spin_states_shape:
  assumes "source_spin_states m pid = Inr states"
  shows "distinct states \<and> (\<forall>s \<in> set states. \<exists>k. ss_spin s = Spin_Int k)"
  using assms by (auto simp: source_spin_states_def Let_def bindE_Inr_iff split: if_splits)

lemma apply_crossing_twice:
  assumes "make_crossing c0 = Inr c" "ss_spin s = Spin_Int k"
  shows "\<exists>t. apply_crossing c s = Inr t \<and> apply_crossing c t = Inr s"
proof -
  from assms(1) have c: "cr_helicity c \<in> {-1, 1}" "cr_chirality c \<in> {-1, 1}" "cr_spin c \<in> {-1, 1}"
    by (auto simp: make_crossing_def split: if_splits)
  then have "x * cr_helicity c * cr_helicity c = x" "x * cr_chirality c * cr_chirality c = x" "x * cr_spin c * cr_spin c = x" for x
    by auto
  with assms(2) c(3) show ?thesis by (cases s) (auto simp: apply_crossing_def)
qed

text \<open>
  C40. A source contract is built only for a particle whose spin states all have one component
  dimension; the contract then carries the particle's identity, distinct spin states,
  statistics that fit its wavefunction family (fermions exactly where the model says so, never
  ghosts or auxiliaries), and a crossing that is defined on each state and undoes itself.
\<close>
theorem source_contract_consistent:
  assumes "build_source_ir m pid = Inr s"
  shows "particle_identity_ir m pid = Inr (so_identity s) \<and> source_spin_states m pid = Inr (so_states s) \<and>
    so_states s \<noteq> [] \<and> distinct (so_states s) \<and> 1 \<le> so_dimension s \<and>
    (\<forall>st \<in> set (so_states s). md_current_dimension m pid (ss_chirality st) = so_dimension s) \<and>
    so_statistics s = (if md_is_fermion m pid then Fermion else Boson) \<and> so_statistics s = family_statistics (so_family s) \<and>
    (\<forall>st \<in> set (so_states s). \<exists>t. apply_crossing (so_crossing s) st = Inr t \<and> apply_crossing (so_crossing s) t = Inr st)"
proof -
  from assms obtain states dims where st: "source_spin_states m pid = Inr states"
    and dims: "dims = dedup (map (\<lambda>s. md_current_dimension m pid (ss_chirality s)) states)"
    by (auto simp: build_source_ir_def bindE_Inr_iff)
  with assms obtain d where d: "dims = [d]" by (auto simp: build_source_ir_def split: list.splits)
  from assms obtain family where f: "source_wavefunction_kind m pid = Some family"
    unfolding build_source_ir_def st bindE_simps dims [symmetric] d list.case
    by (cases "source_wavefunction_kind m pid") auto
  obtain stats ident crossing where r: "(if md_auxiliary_kind m pid \<noteq> None then Inr Auxiliary
       else bindE (model_spin m pid) (\<lambda>spin. Inr (if spin < 0 then Ghost else if md_is_fermion m pid then Fermion else Boson))) = Inr stats"
    "particle_identity_ir m pid = Inr ident" "source_crossing_ir m pid = Inr crossing"
    "make_source \<lparr>so_identity = ident, so_statistics = stats, so_family = family, so_dimension = d,
       so_states = states, so_crossing = crossing, so_basis = current_basis m pid (ss_chirality (hd states)),
       so_mass_parameter = md_mass_name m pid, so_width_parameter = md_width_name m pid\<rparr> = Inr s"
    using assms unfolding build_source_ir_def st bindE_simps dims [symmetric] d list.case f option.case
    by (auto simp: bindE_Inr_iff)
  from r(4) have s: "so_identity s = ident" "so_statistics s = stats" "so_family s = family" "so_dimension s = d"
    "so_states s = states" "so_crossing s = crossing" "stats = family_statistics family" "1 \<le> d" "states \<noteq> []"
    by (auto simp: make_source_iff)
  have "family \<in> {Fermion_Wf, Scalar_Wf, Vector_Wf, Spin2_Wf}"
    using f by (auto simp: source_wavefunction_kind_def Let_def split: if_splits)
  then have "stats \<in> {Fermion, Boson}" using s(7) by (auto simp: family_statistics_def)
  with r(1) have stats: "stats = (if md_is_fermion m pid then Fermion else Boson)"
    by (auto simp: bindE_Inr_iff split: if_splits)
  have dim: "md_current_dimension m pid (ss_chirality t) = d" if "t \<in> set states" for t
    using dedup_singleton [OF dims [symmetric, unfolded d]] that by auto
  obtain c0 where "make_crossing c0 = Inr crossing" using r(3) by (auto simp: source_crossing_ir_def)
  then have cross: "\<exists>u. apply_crossing crossing t = Inr u \<and> apply_crossing crossing u = Inr t" if "t \<in> set states" for t
    using apply_crossing_twice source_spin_states_shape [OF st] that by blast
  show ?thesis
    using st r(2) s stats dim cross source_spin_states_shape [OF st] by simp
qed

section \<open>Instances\<close>

definition sample_model :: model where
  "sample_model = \<lparr>md_name = ''toy'', md_particles =
       [\<lparr>pt_pdg = 1, pt_anti_pdg = -1, pt_spin = 2, pt_dimension = 2, pt_color_rep = 3\<rparr>,
        \<lparr>pt_pdg = 21, pt_anti_pdg = 21, pt_spin = 3, pt_dimension = 4, pt_color_rep = 8\<rparr>],
     md_is_fermion = (\<lambda>p. p \<in> {1, -1}), md_is_chiral = (\<lambda>p. p \<in> {1, -1}),
     md_color_rep = (\<lambda>p. if p = 21 then 8 else 3), md_current_dimension = (\<lambda>p c. if p = 21 then 4 else 2),
     md_auxiliary_kind = (\<lambda>_. None), md_mass_name = (\<lambda>_. None), md_width_name = (\<lambda>_. None)\<rparr>"

lemma identity_json_roundtrip_witness:
  "\<exists>i. particle_identity_ir sample_model 1 = Inr i \<and> identity_from_json (identity_to_json i) = Inr i"
proof -
  have "(case particle_identity_ir sample_model 1 of Inl _ \<Rightarrow> False | Inr i \<Rightarrow> make_identity i = Inr i)" by code_simp
  then obtain i where i: "particle_identity_ir sample_model 1 = Inr i" "make_identity i = Inr i"
    by (cases "particle_identity_ir sample_model 1") simp_all
  from conjunct1 [OF identity_json_roundtrip, rule_format, of "identity_to_json i" i] i(2)
  have "identity_from_json (identity_to_json i) = Inr i" unfolding identity_json by blast
  with i(1) show ?thesis by blast
qed

lemma conjugate_identity_witness:
  "\<exists>i j. particle_identity_ir sample_model 1 = Inr i \<and> particle_identity_ir sample_model (-1) = Inr j \<and>
     id_canonical j = id_anti_canonical i \<and> id_orientation j = Antiparticle_Src"
proof -
  have "(case particle_identity_ir sample_model 1 of Inl _ \<Rightarrow> False | Inr i \<Rightarrow> id_anti_pdg i = -1 \<and> id_orientation i = Particle_Src)"
    by code_simp
  then obtain i where i: "particle_identity_ir sample_model 1 = Inr i" "id_anti_pdg i = -1" "id_orientation i = Particle_Src"
    by (auto split: sum.splits)
  from conjugate_identity [OF i(1)] i show ?thesis by (auto simp: flip_orientation_def)
qed

lemma source_contract_consistent_witness:
  "\<exists>s. build_source_ir sample_model 21 = Inr s \<and> distinct (so_states s) \<and> so_statistics s = Boson"
proof -
  have "(case build_source_ir sample_model 21 of Inl _ \<Rightarrow> False | Inr s \<Rightarrow> True)" by code_simp
  then obtain s where s: "build_source_ir sample_model 21 = Inr s" by (auto split: sum.splits)
  from source_contract_consistent [OF s] s show ?thesis by (auto simp: sample_model_def)
qed

end
