(* ===== verification/Inversions.thy ===== *)
theory Inversions
  imports Prelude
begin

text \<open>
  Inversions of integer words and the sign of a permutation: crossings between two words, the
  sign of a concatenation, and the fact that the sign of a composition is the product of the
  signs. Shared by the external-fermion signs of replay and of current merging.
\<close>

section \<open>Inversions and crossings\<close>

fun inversions :: "'a :: linorder list \<Rightarrow> nat" where
  "inversions [] = 0"
| "inversions (x # xs) = length (filter (\<lambda>y. y < x) xs) + inversions xs"

definition crossings :: "'a :: linorder list \<Rightarrow> 'a list \<Rightarrow> nat" where
  "crossings xs ys = (\<Sum>x\<leftarrow>xs. length (filter (\<lambda>y. y < x) ys))"

definition parity_sign :: "nat \<Rightarrow> int" where
  "parity_sign n = (if n mod 2 = 0 then 1 else -1)"

lemma parity_sign_add [simp]: "parity_sign (m + n) = parity_sign m * parity_sign n"
  by (cases "even m"; cases "even n") (auto simp: parity_sign_def even_iff_mod_2_eq_zero [symmetric] odd_iff_mod_2_eq_one [symmetric])

lemma parity_sign_0 [simp]: "parity_sign 0 = 1"
  by (simp add: parity_sign_def)

lemma parity_sign_values: "parity_sign n = 1 \<or> parity_sign n = -1"
  by (simp add: parity_sign_def)

lemma parity_sign_power: "parity_sign n = (-1) ^ n"
  by (simp add: parity_sign_def minus_one_power_iff even_iff_mod_2_eq_zero)

lemma inversions_append: "inversions (xs @ ys) = inversions xs + inversions ys + crossings xs ys"
  by (induction xs) (auto simp: crossings_def)

lemma crossings_simps [simp]:
  "crossings [] ys = 0" "crossings xs [] = 0" "crossings (x # xs) ys = length (filter (\<lambda>y. y < x) ys) + crossings xs ys"
  by (induction xs) (simp_all add: crossings_def)

lemma crossings_append:
  "crossings (xs @ xs') ys = crossings xs ys + crossings xs' ys"
  "crossings xs (ys @ ys') = crossings xs ys + crossings xs ys'"
  by (simp_all add: crossings_def sum_list_addf)

lemma crossings_mset:
  assumes "mset xs = mset xs'" "mset ys = mset ys'"
  shows "crossings xs ys = crossings xs' ys'"
proof -
  have "length (filter (\<lambda>y. y < x) ys) = length (filter (\<lambda>y. y < x) ys')" for x
    using assms(2) by (metis mset_filter size_mset)
  moreover have "(\<Sum>x\<leftarrow>xs. f x) = (\<Sum>x\<leftarrow>xs'. f x)" for f :: "_ \<Rightarrow> nat"
    using assms(1) by (metis mset_map sum_mset_sum_list)
  ultimately show ?thesis by (simp add: crossings_def)
qed

lemma crossings_swap:
  "set xs \<inter> set ys = {} \<Longrightarrow> crossings xs ys + crossings ys xs = length xs * length ys"
proof (induction xs)
  case (Cons x xs)
  have one: "length (filter (\<lambda>y. y < x) ys) + crossings ys [x] = length ys" if "x \<notin> set ys" for ys
    using that by (induction ys) auto
  have "crossings ys (x # xs) = crossings ys [x] + crossings ys xs"
    using crossings_append(2) [of ys "[x]" xs] by simp
  with Cons one [of ys] show ?case by simp
qed simp

lemma inversions_sorted: "sorted xs \<Longrightarrow> inversions xs = 0"
  by (induction xs) (auto simp: filter_empty_conv not_less)

section \<open>The sign of a composition\<close>

text \<open>The sign of a function on an initial segment, as a product over the pairs below the diagonal.\<close>

definition index_pairs :: "nat \<Rightarrow> (nat \<times> nat) set" where
  "index_pairs n = {(i, j). i < j \<and> j < n}"

definition pair_sign :: "(nat \<Rightarrow> nat) \<Rightarrow> nat \<times> nat \<Rightarrow> int" where
  "pair_sign p = (\<lambda>(i, j). if p i < p j then 1 else -1)"

lemma finite_index_pairs: "finite (index_pairs n)"
  by (rule finite_subset [of _ "{..<n} \<times> {..<n}"]) (auto simp: index_pairs_def)

lemma inversions_snoc: "inversions (xs @ [x]) = inversions xs + length (filter (\<lambda>y. x < y) xs)"
  by (induction xs) auto

lemma parity_sign_inversions:
  assumes "inj_on p {..<n}"
  shows "parity_sign (inversions (map p [0..<n])) = (\<Prod>z \<in> index_pairs n. pair_sign p z)"
  using assms
proof (induction n)
  case 0
  then show ?case by (simp add: index_pairs_def)
next
  case (Suc n)
  have split: "index_pairs (Suc n) = index_pairs n \<union> (\<lambda>i. (i, n)) ` {..<n}"
    by (auto simp: index_pairs_def less_Suc_eq)
  have disj: "index_pairs n \<inter> (\<lambda>i. (i, n)) ` {..<n} = {}" by (auto simp: index_pairs_def)
  have inj: "inj_on (\<lambda>i. (i, n)) {..<n}" by (simp add: inj_on_def)
  have ne: "p i \<noteq> p n" if "i < n" for i using Suc.prems that by (auto simp: inj_on_def)
  have last: "parity_sign (length (filter (\<lambda>y. p n < y) (map p [0..<n]))) = (\<Prod>i<n. pair_sign p (i, n))"
  proof -
    have "parity_sign (length (filter (\<lambda>y. p n < y) (map p [0..<m]))) = (\<Prod>i<m. pair_sign p (i, n))" if "m \<le> n" for m
      using that
    proof (induction m)
      case (Suc m)
      then have "p m \<noteq> p n" using ne by simp
      with Suc show ?case by (auto simp: pair_sign_def parity_sign_def [of "Suc 0"])
    qed simp
    then show ?thesis by simp
  qed
  have "parity_sign (inversions (map p [0..<Suc n])) =
      parity_sign (inversions (map p [0..<n])) * parity_sign (length (filter (\<lambda>y. p n < y) (map p [0..<n])))"
    by (simp add: inversions_snoc)
  also have "\<dots> = (\<Prod>z \<in> index_pairs n. pair_sign p z) * (\<Prod>i<n. pair_sign p (i, n))"
    unfolding last using Suc.IH [OF inj_on_subset [OF Suc.prems]] by (simp add: lessThan_Suc subset_insertI)
  also have "\<dots> = (\<Prod>z \<in> index_pairs (Suc n). pair_sign p z)"
    unfolding split by (subst prod.union_disjoint) (simp_all add: finite_index_pairs disj prod.reindex [OF inj])
  finally show ?case .
qed

text \<open>A permutation \<open>q\<close> maps the pairs onto themselves, up to order.\<close>

definition pair_map :: "(nat \<Rightarrow> nat) \<Rightarrow> nat \<times> nat \<Rightarrow> nat \<times> nat" where
  "pair_map q = (\<lambda>(i, j). (min (q i) (q j), max (q i) (q j)))"

lemma pair_map_inj:
  assumes "inj_on q {..<n}"
  shows "inj_on (pair_map q) (index_pairs n)"
proof (rule inj_onI)
  fix z w assume zw: "z \<in> index_pairs n" "w \<in> index_pairs n" "pair_map q z = pair_map q w"
  obtain i j where z: "z = (i, j)" by (cases z)
  obtain k l where w: "w = (k, l)" by (cases w)
  have lt: "i < j" "j < n" "k < l" "l < n" using zw(1,2) by (auto simp: z w index_pairs_def)
  have "{q i, q j} = {q k, q l}" using zw(3) by (auto simp: z w pair_map_def min_def max_def split: if_splits)
  then have "q i = q k \<and> q j = q l \<or> q i = q l \<and> q j = q k" by (auto simp: doubleton_eq_iff)
  then show "z = w"
  proof
    assume "q i = q k \<and> q j = q l"
    with assms lt have "i = k" "j = l" by (auto simp: inj_on_def)
    then show ?thesis by (simp add: z w)
  next
    assume "q i = q l \<and> q j = q k"
    with assms lt have "i = l" "j = k" by (auto simp: inj_on_def)
    with lt show ?thesis by simp
  qed
qed

lemma pair_map_range:
  assumes "inj_on q {..<n}" "q ` {..<n} \<subseteq> {..<n}"
  shows "pair_map q ` index_pairs n = index_pairs n"
proof (rule endo_inj_surj [OF finite_index_pairs _ pair_map_inj [OF assms(1)]])
  show "pair_map q ` index_pairs n \<subseteq> index_pairs n"
  proof
    fix y assume "y \<in> pair_map q ` index_pairs n"
    then obtain i j where y: "y = (min (q i) (q j), max (q i) (q j))" "i < j" "j < n" by (auto simp: pair_map_def index_pairs_def)
    then have ij: "i \<in> {..<n}" "j \<in> {..<n}" "i \<noteq> j" by auto
    have "q i \<noteq> q j" using inj_onD [OF assms(1) _ ij(1,2)] ij(3) by blast
    moreover have "q i < n" "q j < n" using assms(2) ij(1,2) by blast+
    ultimately show "y \<in> index_pairs n" unfolding y(1) index_pairs_def
      by (cases "q i < q j") (simp_all add: min_def max_def)
  qed
qed

lemma inversions_compose:
  fixes p q :: "nat \<Rightarrow> nat"
  assumes "inj_on p {..<n}" "inj_on q {..<n}" "q ` {..<n} \<subseteq> {..<n}"
  shows "parity_sign (inversions (map (\<lambda>i. p (q i)) [0..<n])) =
    parity_sign (inversions (map p [0..<n])) * parity_sign (inversions (map q [0..<n]))"
proof -
  have pq: "inj_on (\<lambda>i. p (q i)) {..<n}"
    using comp_inj_on [OF assms(2) inj_on_subset [OF assms(1,3)]] by (simp add: comp_def)
  have "pair_sign (\<lambda>i. p (q i)) z = pair_sign q z * pair_sign p (pair_map q z)" if "z \<in> index_pairs n" for z
  proof -
    obtain i j where z: "z = (i, j)" "i < j" "j < n" using \<open>z \<in> index_pairs n\<close> by (auto simp: index_pairs_def)
    then have ij: "i \<in> {..<n}" "j \<in> {..<n}" "i \<noteq> j" by auto
    have ne: "q i \<noteq> q j" using inj_onD [OF assms(2) _ ij(1,2)] ij(3) by metis
    have ne': "p (q i) \<noteq> p (q j)" using inj_onD [OF pq _ ij(1,2)] ij(3) by metis
    from ne ne' show ?thesis unfolding z(1) pair_sign_def pair_map_def
      by (cases "q i < q j"; cases "p (q i) < p (q j)") (simp_all add: min_def max_def)
  qed
  then have "(\<Prod>z \<in> index_pairs n. pair_sign (\<lambda>i. p (q i)) z) =
      (\<Prod>z \<in> index_pairs n. pair_sign q z) * (\<Prod>z \<in> index_pairs n. pair_sign p (pair_map q z))"
    by (simp add: prod.distrib)
  also have "(\<Prod>z \<in> index_pairs n. pair_sign p (pair_map q z)) = (\<Prod>z \<in> pair_map q ` index_pairs n. pair_sign p z)"
    using pair_map_inj [OF assms(2)] by (simp add: prod.reindex)
  finally show ?thesis
    by (simp add: parity_sign_inversions assms(1,2) pq pair_map_range [OF assms(2,3)])
qed

section \<open>Signs of permutations of an initial segment\<close>

definition perm_sign :: "nat \<Rightarrow> (nat \<Rightarrow> nat) \<Rightarrow> int" where
  "perm_sign n p = parity_sign (inversions (map p [0..<n]))"

lemma perm_sign_cong: "(\<And>i. i < n \<Longrightarrow> p i = q i) \<Longrightarrow> perm_sign n p = perm_sign n q"
  unfolding perm_sign_def by (rule arg_cong [of _ _ "\<lambda>xs. parity_sign (inversions xs)"]) simp

lemma perm_sign_compose:
  "bij_betw p {..<n} {..<n} \<Longrightarrow> bij_betw q {..<n} {..<n} \<Longrightarrow> perm_sign n (\<lambda>i. p (q i)) = perm_sign n p * perm_sign n q"
  unfolding perm_sign_def bij_betw_def by (intro inversions_compose) simp_all

lemma perm_sign_values: "perm_sign n p = 1 \<or> perm_sign n p = -1"
  by (simp add: perm_sign_def parity_sign_values)

lemma perm_sign_id: "perm_sign n (\<lambda>i. i) = 1"
  by (simp add: perm_sign_def inversions_sorted)

lemma perm_sign_square: "perm_sign n p * perm_sign n p = 1"
  unfolding perm_sign_def using parity_sign_values [of "inversions (map p [0..<n])"] by auto

abbreviation exchange :: "nat \<Rightarrow> nat \<Rightarrow> nat \<Rightarrow> nat" where
  "exchange i j \<equiv> (\<lambda>k. if k = i then j else if k = j then i else k)"

lemma exchange_bij: "i < n \<Longrightarrow> j < n \<Longrightarrow> bij_betw (exchange i j) {..<n} {..<n}"
  by (rule bij_betw_byWitness [where f' = "exchange i j"]) auto

lemma perm_sign_first_exchange:
  assumes "2 \<le> n"
  shows "perm_sign n (exchange 0 1) = -1"
proof -
  have l: "[0..<n] = 0 # 1 # [2..<n]" using assms by (simp add: upt_conv_Cons numeral_2_eq_2)
  have m: "map (exchange 0 1) [2..<n] = [2..<n]" by (rule map_idI) auto
  have "map (exchange 0 1) [0..<n] = 1 # 0 # [2..<n]" unfolding l using m by simp
  moreover have "inversions (1 # 0 # [2..<n]) = 1" by (simp add: inversions_sorted filter_empty_conv)
  ultimately show ?thesis by (simp add: perm_sign_def parity_sign_def)
qed

lemma perm_sign_exchange:
  assumes "i < n" "j < n" "i \<noteq> j"
  shows "perm_sign n (exchange i j) = -1"
proof -
  obtain k where kd: "k = exchange 0 i j" by simp
  let ?h = "\<lambda>x. exchange 0 i (exchange 1 k x)"
  let ?g = "\<lambda>x. exchange 1 k (exchange 0 i x)"
  let ?t = "exchange 0 1"
  have n: "2 \<le> n" using assms by linarith
  then have k: "k < n" "k \<noteq> 0" using assms by (auto simp: kd)
  have b: "bij_betw (exchange 0 i) {..<n} {..<n}" "bij_betw (exchange 1 k) {..<n} {..<n}" "bij_betw ?t {..<n} {..<n}"
    using exchange_bij [of 0 n i] exchange_bij [of 1 n k] exchange_bij [of 0 n 1] n assms(1) k(1) by simp_all
  have h: "bij_betw ?h {..<n} {..<n}" and g: "bij_betw ?g {..<n} {..<n}"
    using bij_betw_trans [OF b(2,1)] bij_betw_trans [OF b(1,2)] unfolding comp_def by blast+
  have hg: "?h (?t (?g x)) = exchange i j x" for x
  proof -
    consider "x = i" | "x = j" "x \<noteq> i" | "x \<noteq> i" "x \<noteq> j" by blast
    then show ?thesis
    proof cases
      case 1
      with k have "?g x = 0" by simp
      then have "?t (?g x) = 1" by simp
      with 1 k(2) kd show ?thesis by (simp split: if_splits)
    next
      case 2
      then have "exchange 0 i x = k" by (simp add: kd)
      then have "?g x = 1" by simp
      then have "?t (?g x) = 0" by simp
      with 2 k(2) show ?thesis by simp
    next
      case 3
      have y: "exchange 0 i x \<noteq> 0" "exchange 0 i x \<noteq> k" using 3 assms(3) by (auto simp: kd)
      then have "?g x \<noteq> 0" "?g x \<noteq> 1" using k(2) by auto
      then have "?t (?g x) = ?g x" by simp
      moreover have "exchange 1 k (?g x) = exchange 0 i x" by simp
      ultimately have "?h (?t (?g x)) = exchange 0 i (exchange 0 i x)" by presburger
      then show ?thesis using 3 by simp
    qed
  qed
  have tg: "bij_betw (\<lambda>x. ?t (?g x)) {..<n} {..<n}" using bij_betw_trans [OF g b(3)] unfolding comp_def .
  have "?h (?g x) = x" for x by auto
  then have one: "perm_sign n ?h * perm_sign n ?g = 1"
    using perm_sign_compose [OF h g] perm_sign_id [of n] by simp
  have "perm_sign n (exchange i j) = perm_sign n (\<lambda>x. ?h (?t (?g x)))" unfolding hg ..
  also have "\<dots> = perm_sign n ?h * (perm_sign n ?t * perm_sign n ?g)"
    by (subst perm_sign_compose [OF h tg], subst perm_sign_compose [OF b(3) g]) (rule refl)
  also have "\<dots> = perm_sign n ?t" using one by (simp add: mult.left_commute mult.commute)
  finally show ?thesis using perm_sign_first_exchange [OF n] by simp
qed

end
