(* ===== verification/Replay_Proof.thy ===== *)
theory Replay_Proof
  imports Topology_Groups Source_IR Inversions
begin

text \<open>
  Proof and certification of replay partitions (\<open>color/plan_replay.py\<close>, second half): the
  label-equivariance check of a partition, the sign of the fermion relabelling, the builders of
  the certificate and of the leading-colour plan, and the line-pairing representatives.

  The digest of a proof payload (SHA-256 of its canonical JSON) and the digest of the model's
  replay contract are arguments. What is used of the former is that it is 64 lowercase
  hexadecimal characters.
\<close>

section \<open>Contracts\<close>

record source_contract =
  sk_initial :: bool
  sk_source :: source_ir

definition canonical_source_contract :: "model \<Rightarrow> process_leg \<Rightarrow> source_contract res" where
  "canonical_source_contract m leg =
     bindE (build_source_ir m (l_outgoing_pdg leg)) (\<lambda>s. Inr \<lparr>sk_initial = leg_is_initial leg, sk_source = s\<rparr>)"

record sector_contract =
  sn_kind :: sector_kind
  sn_lines :: "(int \<times> int \<times> int list \<times> int list) list"
  sn_trace :: "int list"
  sn_singlets :: "int list"
  sn_word :: "int list"

definition contract_of_sector :: "sector \<Rightarrow> sector_contract" where
  "contract_of_sector s =
     \<lparr>sn_kind = sc_kind s, sn_lines = sort (map line_key (sc_lines s)), sn_trace = sc_trace s,
      sn_singlets = sc_singlets s, sn_word = sc_word s\<rparr>"

definition remapped_line :: "label_map \<Rightarrow> open_line \<Rightarrow> (int \<times> int \<times> int list \<times> int list) res" where
  "remapped_line mapping l =
     bindE (lookupE mapping (ol_fundamental l)) (\<lambda>f.
     bindE (lookupE mapping (ol_antifundamental l)) (\<lambda>a.
     bindE (mapE (lookupE mapping) (ol_adjoint l)) (\<lambda>as.
     bindE (mapE (lookupE mapping) (ol_singlet l)) (\<lambda>ss. Inr (f, a, as, ss)))))"

definition remapped_sector_contract :: "sector \<Rightarrow> label_map \<Rightarrow> sector_contract res" where
  "remapped_sector_contract s mapping =
     bindE (mapE (remapped_line mapping) (sc_lines s)) (\<lambda>ls.
     bindE (mapE (lookupE mapping) (sc_trace s)) (\<lambda>ts.
     bindE (mapE (lookupE mapping) (sc_singlets s)) (\<lambda>ss.
     bindE (mapE (lookupE mapping) (sc_word s)) (\<lambda>ws.
     Inr \<lparr>sn_kind = sc_kind s, sn_lines = sort ls, sn_trace = ts, sn_singlets = ss, sn_word = ws\<rparr>))))"

section \<open>The sign of a fermion relabelling\<close>

definition fermion_classes :: "int list \<Rightarrow> (int \<times> source_contract) list \<Rightarrow> ((bool \<times> string) \<times> int list) list res" where
  "fermion_classes labels contracts =
     bindE (mapE (\<lambda>l. bindE (lookupE contracts l) (\<lambda>c. Inr (l, c))) labels) (\<lambda>ps.
       Inr (group_by (map (\<lambda>(l, c). (l, (sk_initial c, id_canonical (so_identity (sk_source c)))))
         (filter (\<lambda>(l, c). so_statistics (sk_source c) = Fermion) ps))))"

definition class_sign :: "label_map \<Rightarrow> int list \<Rightarrow> int res" where
  "class_sign mapping class_labels =
     (let ordered = sort class_labels; positions = dict_of (zip ordered [0..<length ordered])
      in bindE (mapE (\<lambda>l. bindE (lookupE mapping l) (lookupE positions)) ordered) (\<lambda>permutation.
           Inr (parity_sign (inversions permutation))))"

definition external_fermion_permutation_sign ::
  "int list \<Rightarrow> label_map \<Rightarrow> (int \<times> source_contract) list \<Rightarrow> int res" where
  "external_fermion_permutation_sign labels mapping contracts =
     bindE (fermion_classes labels contracts) (\<lambda>classes.
       foldE (\<lambda>sign class_labels. bindE (class_sign mapping class_labels) (\<lambda>s. Inr (sign * s))) 1 (map snd classes))"

section \<open>Proof of one partition\<close>

record mapping_contract =
  mc_sector :: nat
  mc_weight :: py_float
  mc_sign :: int
  mc_permutation :: "(int \<times> int) list"
  mc_contract :: sector_contract

record proof_payload =
  pp_algorithm :: string
  pp_initial :: "int list"
  pp_sources :: "(int \<times> source_contract option) list"
  pp_representative :: nat
  pp_representative_contract :: sector_contract
  pp_mappings :: "mapping_contract list"
  pp_model_digest :: string
  pp_accuracy :: "String.literal option"

text \<open>
  One pass of the loop over \<open>zip(active_sector_ids, label_permutations, weights)\<close>; \<open>None\<close> is the
  early return of \<open>None\<close>.
\<close>

definition full_mapping :: "int list \<Rightarrow> label_map \<Rightarrow> label_map" where
  "full_mapping labels explicit =
     dict_of (map (\<lambda>l. (l, case map_of explicit l of None \<Rightarrow> l | Some k \<Rightarrow> k)) labels)"

definition prove_row ::
  "color_plan \<Rightarrow> sector \<Rightarrow> int list \<Rightarrow> int set \<Rightarrow> (int \<times> source_contract) list \<Rightarrow> nat \<times> (int \<times> int) list \<times> py_float
   \<Rightarrow> mapping_contract option res" where
  "prove_row plan representative labels initial contracts = (\<lambda>(i, permutation, weight).
     case plan_sector plan i of
       None \<Rightarrow> Inr None
     | Some s \<Rightarrow>
         let explicit = dict_of permutation; mapping = full_mapping labels explicit
         in if fst ` set explicit \<noteq> snd ` set explicit then Inr None
            else if \<not> fst ` set explicit \<subseteq> set labels then Inr None
            else if snd ` set mapping \<noteq> set labels then Inr None
            else if map_of mapping ` initial \<noteq> Some ` initial then Inr None
            else bindE (remapped_sector_contract representative mapping) (\<lambda>remapped.
              if remapped \<noteq> contract_of_sector s then Inr None
              else if \<exists>(a, b) \<in> set mapping. map_of contracts a \<noteq> map_of contracts b then Inr None
              else bindE (external_fermion_permutation_sign labels mapping contracts) (\<lambda>sign.
                Inr (Some \<lparr>mc_sector = i, mc_weight = weight, mc_sign = sign, mc_permutation = sort explicit,
                  mc_contract = contract_of_sector s\<rparr>))))"

fun collect_rows :: "('a \<Rightarrow> 'b option res) \<Rightarrow> 'a list \<Rightarrow> 'b list option res" where
  "collect_rows f [] = Inr (Some [])"
| "collect_rows f (x # xs) =
     bindE (f x) (\<lambda>r. case r of None \<Rightarrow> Inr None
       | Some y \<Rightarrow> bindE (collect_rows f xs) (\<lambda>rest. Inr (map_option ((#) y) rest)))"

definition process_labels :: "color_plan \<Rightarrow> int list" where
  "process_labels plan = sort (map l_label (i_legs (pl_process plan)))"

definition source_contracts :: "color_plan \<Rightarrow> model \<Rightarrow> (int \<times> source_contract) list res" where
  "source_contracts plan m =
     bindE (mapE (\<lambda>l. case leg_by_label (pl_process plan) l of
              None \<Rightarrow> Inl (KeyError STR ''key'')
            | Some leg \<Rightarrow> bindE (canonical_source_contract m leg) (\<lambda>c. Inr (l, c))) (process_labels plan))
       (\<lambda>ps. Inr (dict_of ps))"

definition prove_topology_replay_partition ::
  "(proof_payload \<Rightarrow> string) \<Rightarrow> color_plan \<Rightarrow> replay_partition \<Rightarrow> model \<Rightarrow> string \<Rightarrow> string \<Rightarrow> bool
   \<Rightarrow> (string \<times> int list) option res" where
  "prove_topology_replay_partition digest plan p m model_digest algorithm bind_accuracy =
     (case plan_sector plan (rp_representative p) of
        None \<Rightarrow> Inr None
      | Some representative \<Rightarrow>
          (let labels = process_labels plan; initial = set (initial_label_set (pl_process plan))
           in bindE (source_contracts plan m) (\<lambda>contracts.
              if length (rp_permutations p) \<noteq> length (rp_active p) \<or> length (rp_weights p) \<noteq> length (rp_active p)
              then Inl (ValueError STR ''zip() argument is shorter than argument 1'')
              else bindE (collect_rows (prove_row plan representative labels initial contracts)
                      (zip (rp_active p) (zip (rp_permutations p) (rp_weights p)))) (\<lambda>rows.
                case rows of
                  None \<Rightarrow> Inr None
                | Some ms \<Rightarrow> Inr (Some (digest \<lparr>pp_algorithm = algorithm, pp_initial = sort (initial_label_set (pl_process plan)),
                    pp_sources = map (\<lambda>l. (l, map_of contracts l)) labels, pp_representative = rp_representative p,
                    pp_representative_contract = contract_of_sector representative, pp_mappings = ms,
                    pp_model_digest = model_digest,
                    pp_accuracy = (if bind_accuracy then Some (pl_color_accuracy plan) else None)\<rparr>, map mc_sign ms))))))"

section \<open>The builders\<close>

text \<open>
  The loop both builders run over the candidate partitions. The state is the residual set (as a
  list), the proven partitions and the diagnostics; a raised proof counts as a failed one, while
  the construction of the proven partition (\<open>dataclasses.replace\<close>) may raise. The messages are
  the two that the builder in question appends.
\<close>

record certify_state =
  ce_residual :: "nat list"
  ce_proven :: "replay_partition list"
  ce_diagnostics :: "diagnostic list"

definition certify_step ::
  "(replay_partition \<Rightarrow> (string \<times> int list) option res) \<Rightarrow> string \<Rightarrow> String.literal \<times> String.literal
   \<Rightarrow> certify_state \<Rightarrow> replay_partition \<Rightarrow> certify_state res" where
  "certify_step prove algorithm messages st cand =
     (let r = rp_representative cand; kept = st\<lparr>ce_diagnostics := ce_diagnostics st @ [(snd messages, r)]\<rparr>
      in if length (rp_active cand) < 2 then Inr st
         else case prove cand of
           Inl _ \<Rightarrow> Inr (st\<lparr>ce_diagnostics := ce_diagnostics st @ [(fst messages, r), (snd messages, r)]\<rparr>)
         | Inr None \<Rightarrow> Inr kept
         | Inr (Some (d, signs)) \<Rightarrow>
             bindE (make_partition (Some r) (cand\<lparr>rp_replay_signs := signs, rp_algorithm := Some algorithm, rp_digest := Some d\<rparr>)) (\<lambda>p.
               Inr \<lparr>ce_residual = filter (\<lambda>i. i \<notin> set (rp_active p)) (ce_residual st),
                    ce_proven = ce_proven st @ [p], ce_diagnostics = ce_diagnostics st\<rparr>))"

definition color_replay_algorithm :: string where
  "color_replay_algorithm = ''canonical-model-contract-color-label-equivariance-v2''"

definition lc_replay_algorithm :: string where
  "lc_replay_algorithm = ''canonical-model-contract-label-equivariance-v1''"

definition physical_ids :: "color_plan \<Rightarrow> nat list" where
  "physical_ids plan = sort (map sc_id (pl_sectors plan))"

definition build_color_topology_replay_certificate ::
  "(proof_payload \<Rightarrow> string) \<Rightarrow> string res \<Rightarrow> color_plan \<Rightarrow> model \<Rightarrow> replay_certificate option res" where
  "build_color_topology_replay_certificate digest model_digest plan m =
     (if pl_color_accuracy plan \<notin> {STR ''lc'', STR ''nlc'', STR ''full''} \<or> pl_truncated plan \<or> length (pl_sectors plan) < 2
      then Inr None
      else case model_digest of
        Inl _ \<Rightarrow> Inr None
      | Inr md \<Rightarrow>
          bindE (color_topology_replay_partitions plan) (\<lambda>cands.
          bindE (foldE (certify_step (\<lambda>p. prove_topology_replay_partition digest plan p m md color_replay_algorithm True)
                    color_replay_algorithm
                    (STR ''color replay partition proof failed closed'', STR ''color replay partition remains materialized''))
                  \<lparr>ce_residual = physical_ids plan, ce_proven = [], ce_diagnostics = []\<rparr> cands) (\<lambda>st.
          if ce_proven st = [] then Inr None
          else bindE (make_certificate \<lparr>rc_accuracy = pl_color_accuracy plan, rc_physical = physical_ids plan,
                 rc_partitions = ce_proven st, rc_residual = sort (ce_residual st), rc_diagnostics = ce_diagnostics st\<rparr>)
                 (\<lambda>c. Inr (Some c)))))"

definition build_lc_topology_replay_plan ::
  "(proof_payload \<Rightarrow> string) \<Rightarrow> string res \<Rightarrow> color_plan \<Rightarrow> model \<Rightarrow> lc_replay_plan option res" where
  "build_lc_topology_replay_plan digest model_digest plan m =
     (if pl_color_accuracy plan \<noteq> STR ''lc'' \<or> pl_truncated plan \<or> length (pl_sectors plan) < 2
      then Inr None
      else case model_digest of
        Inl _ \<Rightarrow> Inr None
      | Inr md \<Rightarrow>
          bindE (lc_topology_replay_partitions plan) (\<lambda>cands.
          bindE (foldE (certify_step (\<lambda>p. prove_topology_replay_partition digest plan p m md lc_replay_algorithm False)
                    lc_replay_algorithm
                    (STR ''LC replay partition proof failed closed'', STR ''LC replay partition remains materialized''))
                  \<lparr>ce_residual = physical_ids plan, ce_proven = [], ce_diagnostics = []\<rparr> cands) (\<lambda>st.
          if ce_proven st = [] then Inr None
          else bindE (make_lc_replay_plan \<lparr>lp_physical = physical_ids plan, lp_partitions = ce_proven st,
                 lp_residual = sort (ce_residual st), lp_diagnostics = ce_diagnostics st\<rparr>)
                 (\<lambda>c. Inr (Some c)))))"

section \<open>Line-pairing representatives\<close>

datatype pairing_signature =
    Lines_Pairing "(int \<times> int option \<times> int \<times> int option \<times> (int \<times> int option) list \<times> (int \<times> int option) list) list"
  | Trace_Pairing "(int \<times> int option) list" "(int \<times> int option) list"
  | Singlet_Pairing "(int \<times> int option) list"

text \<open>
  Python sorts the line tuples. Particle ids are functions of the labels, so two tuples first
  differ at a label and the order is the order of the label parts, \<open>line_key\<close>.
\<close>

definition with_pdg :: "(int \<times> int) list \<Rightarrow> int \<Rightarrow> int \<times> int option" where
  "with_pdg pdgs l = (l, map_of pdgs l)"

definition pairing_line ::
  "(int \<times> int) list \<Rightarrow> open_line \<Rightarrow> int \<times> int option \<times> int \<times> int option \<times> (int \<times> int option) list \<times> (int \<times> int option) list" where
  "pairing_line pdgs l =
     (ol_fundamental l, map_of pdgs (ol_fundamental l), ol_antifundamental l, map_of pdgs (ol_antifundamental l),
      map (with_pdg pdgs) (ol_adjoint l), map (with_pdg pdgs) (ol_singlet l))"

definition sector_line_pairing_signature :: "(int \<times> int) list \<Rightarrow> sector \<Rightarrow> pairing_signature" where
  "sector_line_pairing_signature pdgs s =
     (case sc_kind s of
        Open_Lines \<Rightarrow> Lines_Pairing (map (pairing_line pdgs) (sort_key line_key (sc_lines s)))
      | Single_Trace \<Rightarrow>
          Trace_Pairing (map (with_pdg pdgs) (min (sc_trace s) (rev (sc_trace s)))) (map (with_pdg pdgs) (sc_singlets s))
      | Singlet_Sector \<Rightarrow> Singlet_Pairing (map (with_pdg pdgs) (sc_singlets s)))"

definition lc_line_pairing_representative_ids :: "color_plan \<Rightarrow> nat list" where
  "lc_line_pairing_representative_ids plan =
     (if pl_color_accuracy plan \<noteq> STR ''lc'' then []
      else map sc_id (dedup_on (sector_line_pairing_signature (pdg_by_label (pl_process plan))) [] (pl_sectors plan)))"

section \<open>Fermion signs multiply\<close>

text \<open>A relabelling as the dictionary the source builds from it.\<close>

definition tabulated :: "(int \<Rightarrow> int) \<Rightarrow> int list \<Rightarrow> label_map" where
  "tabulated f labels = map (\<lambda>l. (l, f l)) labels"

definition relabelled_sign :: "int list \<Rightarrow> (int \<times> source_contract) list \<Rightarrow> (int \<Rightarrow> int) \<Rightarrow> int res" where
  "relabelled_sign labels contracts f = external_fermion_permutation_sign labels (tabulated f labels) contracts"

text \<open>A symmetry of the sources permutes the labels and keeps every source contract.\<close>

definition source_symmetry :: "int list \<Rightarrow> (int \<times> source_contract) list \<Rightarrow> (int \<Rightarrow> int) \<Rightarrow> bool" where
  "source_symmetry labels contracts f \<longleftrightarrow>
     f ` set labels = set labels \<and> (\<forall>l \<in> set labels. map_of contracts (f l) = map_of contracts l)"

lemma map_of_tabulated_in: "l \<in> set labels \<Longrightarrow> map_of (tabulated f labels) l = Some (f l)"
  by (simp add: tabulated_def map_of_map_restrict)

lemma map_of_positions: "distinct xs \<Longrightarrow> map_of (zip xs [0..<length xs]) x = index_of x xs"
proof (cases "x \<in> set xs")
  case True
  assume d: "distinct xs"
  from True obtain i where i: "i < length xs" "x = xs ! i" by (auto simp: in_set_conv_nth)
  with d show ?thesis using map_of_zip_nth [of xs "[0..<length xs]" i] index_of_nth [OF d i(1)] by simp
next
  case False
  then have i: "index_of x xs = None" by simp
  have m: "map_of (zip xs [0..<length xs]) x = None" using False map_of_zip_is_None [of xs "[0..<length xs]" x] by simp
  show ?thesis unfolding i m ..
qed

text \<open>The permutation of positions a relabelling induces on a class.\<close>

definition position_map :: "int list \<Rightarrow> (int \<Rightarrow> int) \<Rightarrow> nat \<Rightarrow> nat" where
  "position_map ordered f i = the (index_of (f (ordered ! i)) ordered)"

lemma position_map_spec:
  assumes "distinct xs" "f ` set xs \<subseteq> set xs" "i < length xs"
  shows "position_map xs f i < length xs" "xs ! position_map xs f i = f (xs ! i)"
    "index_of (f (xs ! i)) xs = Some (position_map xs f i)"
proof -
  have "f (xs ! i) \<in> set xs" using assms(2,3) by (metis image_subset_iff nth_mem)
  then obtain k where k: "index_of (f (xs ! i)) xs = Some k" by (metis index_of_None_iff not_Some_eq)
  then show "index_of (f (xs ! i)) xs = Some (position_map xs f i)" by (simp add: position_map_def)
  with index_of_SomeD [OF this] show "position_map xs f i < length xs" "xs ! position_map xs f i = f (xs ! i)" by simp_all
qed

lemma position_map_bij:
  assumes "distinct xs" "f ` set xs = set xs"
  shows "bij_betw (position_map xs f) {..<length xs} {..<length xs}"
proof -
  have s: "f ` set xs \<subseteq> set xs" using assms(2) by simp
  have inj: "inj_on f (set xs)" using assms(2) by (simp add: eq_card_imp_inj_on)
  have "inj_on (position_map xs f) {..<length xs}"
  proof (rule inj_onI)
    fix i j assume ij: "i \<in> {..<length xs}" "j \<in> {..<length xs}" "position_map xs f i = position_map xs f j"
    then have "f (xs ! i) = f (xs ! j)" using position_map_spec(2) [OF assms(1) s] by (metis lessThan_iff)
    with inj ij have "xs ! i = xs ! j" by (meson inj_onD lessThan_iff nth_mem)
    with assms(1) ij show "i = j" by (simp add: nth_eq_iff_index_eq)
  qed
  moreover have "position_map xs f ` {..<length xs} \<subseteq> {..<length xs}" using position_map_spec(1) [OF assms(1) s] by auto
  ultimately show ?thesis by (simp add: bij_betw_def endo_inj_surj)
qed

lemma class_sign_eq:
  assumes "distinct cl" "f ` set cl = set cl" "\<And>l. l \<in> set cl \<Longrightarrow> map_of d l = Some (f l)"
  shows "class_sign d cl = Inr (perm_sign (length cl) (position_map (sort cl) f))"
proof -
  let ?xs = "sort cl"
  have d: "distinct ?xs" and s: "f ` set ?xs \<subseteq> set ?xs" using assms(1,2) by auto
  have len: "length ?xs = length cl" by simp
  have pos: "dict_of (zip ?xs [0..<length ?xs]) = zip ?xs [0..<length ?xs]" using d by (intro dict_of_id) simp
  have "mapE (\<lambda>l. bindE (lookupE d l) (lookupE (zip ?xs [0..<length ?xs]))) ?xs = Inr (map (position_map ?xs f) [0..<length ?xs])"
    unfolding mapE_Inr_iff
  proof (rule list_all2_all_nthI)
    fix n assume n: "n < length ?xs"
    then have "map_of d (?xs ! n) = Some (f (?xs ! n))" using assms(3) nth_mem [OF n] by simp
    moreover have "map_of (zip ?xs [0..<length ?xs]) (f (?xs ! n)) = Some (position_map ?xs f n)"
      unfolding map_of_positions [OF d] by (rule position_map_spec(3) [OF d s n])
    ultimately show "bindE (lookupE d (?xs ! n)) (lookupE (zip ?xs [0..<length ?xs])) = Inr (map (position_map ?xs f) [0..<length ?xs] ! n)"
      using n by (simp add: bindE_Inr_iff del: length_sort)
  qed simp
  then show ?thesis unfolding class_sign_def Let_def pos perm_sign_def len [symmetric] by (simp only: bindE_simps)
qed

lemma class_sign_compose:
  assumes "distinct cl" "f ` set cl = set cl" "g ` set cl = set cl"
  shows "perm_sign (length cl) (position_map (sort cl) (\<lambda>l. g (f l))) =
    perm_sign (length cl) (position_map (sort cl) g) * perm_sign (length cl) (position_map (sort cl) f)"
proof -
  let ?xs = "sort cl"
  have d: "distinct ?xs" and s: "f ` set ?xs = set ?xs" "g ` set ?xs = set ?xs" using assms by auto
  have "position_map ?xs (\<lambda>l. g (f l)) i = position_map ?xs g (position_map ?xs f i)" if "i < length cl" for i
    using position_map_spec(2) [OF d, of f i] s(1) that by (simp add: position_map_def)
  then have "perm_sign (length cl) (position_map ?xs (\<lambda>l. g (f l))) =
      perm_sign (length cl) (\<lambda>i. position_map ?xs g (position_map ?xs f i))" by (rule perm_sign_cong)
  also have "\<dots> = perm_sign (length cl) (position_map ?xs g) * perm_sign (length cl) (position_map ?xs f)"
    using position_map_bij [OF d s(1)] position_map_bij [OF d s(2)] by (intro perm_sign_compose) simp_all
  finally show ?thesis .
qed

text \<open>The classes of a labelled process, and the closed form of the sign.\<close>

definition fermion_class_list :: "int list \<Rightarrow> (int \<times> source_contract) list \<Rightarrow> int list list" where
  "fermion_class_list labels contracts =
     (case fermion_classes labels contracts of Inr classes \<Rightarrow> map snd classes | Inl _ \<Rightarrow> [])"

lemma fermion_classes_total:
  assumes "\<forall>l \<in> set labels. map_of contracts l \<noteq> None"
  shows "\<exists>classes. fermion_classes labels contracts = Inr classes \<and> map snd classes = fermion_class_list labels contracts"
proof -
  have "mapE (\<lambda>l. bindE (lookupE contracts l) (\<lambda>c. Inr (l, c))) labels = Inr (map (\<lambda>l. (l, the (map_of contracts l))) labels)"
    using assms by (intro mapE_total) (auto simp: bindE_Inr_iff)
  then show ?thesis by (simp add: fermion_class_list_def fermion_classes_def)
qed

lemma fermion_class_member:
  assumes "\<forall>l \<in> set labels. map_of contracts l \<noteq> None" "cl \<in> set (fermion_class_list labels contracts)"
  shows "\<exists>P. cl = filter (\<lambda>l. P (map_of contracts l)) labels"
proof -
  have "mapE (\<lambda>l. bindE (lookupE contracts l) (\<lambda>c. Inr (l, c))) labels = Inr (map (\<lambda>l. (l, the (map_of contracts l))) labels)"
    using assms(1) by (intro mapE_total) (auto simp: bindE_Inr_iff)
  with assms(2) obtain k where k: "cl = map fst (filter (\<lambda>p. snd p = k) (map (\<lambda>(l, c). (l, (sk_initial c, id_canonical (so_identity (sk_source c)))))
         (filter (\<lambda>(l, c). so_statistics (sk_source c) = Fermion) (map (\<lambda>l. (l, the (map_of contracts l))) labels))))"
    by (auto simp: fermion_class_list_def fermion_classes_def group_by_member)
  also have "\<dots> = filter (\<lambda>l. so_statistics (sk_source (the (map_of contracts l))) = Fermion \<and>
      (sk_initial (the (map_of contracts l)), id_canonical (so_identity (sk_source (the (map_of contracts l))))) = k) labels"
    by (induction labels) auto
  finally show ?thesis by (intro exI [of _ "\<lambda>c. so_statistics (sk_source (the c)) = Fermion \<and>
      (sk_initial (the c), id_canonical (so_identity (sk_source (the c)))) = k"])
qed

lemma symmetry_permutes_class:
  assumes "source_symmetry labels contracts f" "cl = filter (\<lambda>l. P (map_of contracts l)) labels"
  shows "f ` set cl = set cl"
proof -
  have f: "f ` set labels = set labels" and c: "\<And>l. l \<in> set labels \<Longrightarrow> map_of contracts (f l) = map_of contracts l"
    using assms(1) by (auto simp: source_symmetry_def)
  have sub: "f ` set cl \<subseteq> set cl" using f c by (auto simp: assms(2))
  have "inj_on f (set labels)" using f by (simp add: eq_card_imp_inj_on)
  then have "inj_on f (set cl)" by (rule inj_on_subset) (auto simp: assms(2))
  with sub show ?thesis by (intro endo_inj_surj) simp_all
qed

lemma foldE_signs:
  "(\<And>c. c \<in> set cs \<Longrightarrow> class_sign d c = Inr (h c)) \<Longrightarrow>
   foldE (\<lambda>sign c. bindE (class_sign d c) (\<lambda>s. Inr (sign * s))) z cs = Inr (z * prod_list (map h cs))"
  by (induction cs arbitrary: z) (simp_all add: mult.assoc)

lemma relabelled_sign_eq:
  assumes "distinct labels" "\<forall>l \<in> set labels. map_of contracts l \<noteq> None" "source_symmetry labels contracts f"
  shows "relabelled_sign labels contracts f =
    Inr (prod_list (map (\<lambda>cl. perm_sign (length cl) (position_map (sort cl) f)) (fermion_class_list labels contracts)))"
proof -
  obtain classes where c: "fermion_classes labels contracts = Inr classes" "map snd classes = fermion_class_list labels contracts"
    using fermion_classes_total [OF assms(2)] by blast
  have "class_sign (tabulated f labels) cl = Inr (perm_sign (length cl) (position_map (sort cl) f))"
    if cl: "cl \<in> set (fermion_class_list labels contracts)" for cl
  proof -
    obtain P where P: "cl = filter (\<lambda>l. P (map_of contracts l)) labels" using fermion_class_member [OF assms(2) cl] by blast
    show ?thesis
      using assms(1) symmetry_permutes_class [OF assms(3) P] by (intro class_sign_eq map_of_tabulated_in) (auto simp: P)
  qed
  with foldE_signs [of "fermion_class_list labels contracts" "tabulated f labels" _ 1] c show ?thesis
    by (simp add: relabelled_sign_def external_fermion_permutation_sign_def)
qed

lemma source_symmetry_compose:
  "source_symmetry labels contracts f \<Longrightarrow> source_symmetry labels contracts g \<Longrightarrow> source_symmetry labels contracts (\<lambda>l. g (f l))"
  unfolding source_symmetry_def by (metis image_eqI image_image)

text \<open>
  On symmetries of the external sources the replay sign is a character: it exists, is plus or
  minus one, is one on the identity, and the sign of a composition is the product of the signs.
\<close>
theorem replay_sign_multiplies:
  assumes "distinct labels" "\<forall>l \<in> set labels. map_of contracts l \<noteq> None"
    "source_symmetry labels contracts f" "source_symmetry labels contracts g"
  shows "\<exists>a b. relabelled_sign labels contracts f = Inr a \<and> relabelled_sign labels contracts g = Inr b \<and>
    relabelled_sign labels contracts (\<lambda>l. g (f l)) = Inr (b * a) \<and> a \<in> {1, -1} \<and> b \<in> {1, -1} \<and>
    relabelled_sign labels contracts (\<lambda>l. l) = Inr 1"
proof -
  let ?cs = "fermion_class_list labels contracts"
  let ?h = "\<lambda>f cl. perm_sign (length cl) (position_map (sort cl) f)"
  have perm: "?h (\<lambda>l. g (f l)) cl = ?h g cl * ?h f cl" "?h (\<lambda>l. l) cl = 1" if cl: "cl \<in> set ?cs" for cl
  proof -
    obtain P where P: "cl = filter (\<lambda>l. P (map_of contracts l)) labels" using fermion_class_member [OF assms(2) cl] by blast
    then have d: "distinct cl" using assms(1) by simp
    show "?h (\<lambda>l. g (f l)) cl = ?h g cl * ?h f cl"
      by (rule class_sign_compose [OF d symmetry_permutes_class [OF assms(3) P] symmetry_permutes_class [OF assms(4) P]])
    have "position_map (sort cl) (\<lambda>l. l) i = i" if "i < length cl" for i
      using index_of_nth [of "sort cl" i] d that by (simp add: position_map_def)
    then show "?h (\<lambda>l. l) cl = 1" using perm_sign_cong [of "length cl"] perm_sign_id by metis
  qed
  have "prod_list (map (?h (\<lambda>l. g (f l))) cs) = prod_list (map (?h g) cs) * prod_list (map (?h f) cs)"
    "prod_list (map (?h (\<lambda>l. l)) cs) = 1" if "set cs \<subseteq> set ?cs" for cs
    using that by (induction cs) (auto simp: perm)
  moreover have "prod_list (map (?h f) cs) \<in> {1, -1}" for f cs
  proof (induction cs)
    case (Cons c cs)
    with perm_sign_values [of "length c" "position_map (sort c) f"] show ?case by auto
  qed simp
  moreover have "source_symmetry labels contracts (\<lambda>l. l)" by (simp add: source_symmetry_def)
  ultimately show ?thesis
    using relabelled_sign_eq [OF assms(1,2)] assms(3,4) source_symmetry_compose [OF assms(3,4)] by simp
qed

lemma fermion_class_list_keys:
  assumes "\<forall>l \<in> set labels. map_of contracts l \<noteq> None"
  defines "fermion \<equiv> \<lambda>l. so_statistics (sk_source (the (map_of contracts l))) = Fermion"
  defines "key \<equiv> \<lambda>l. (sk_initial (the (map_of contracts l)), id_canonical (so_identity (sk_source (the (map_of contracts l)))))"
  shows "fermion_class_list labels contracts =
    map (\<lambda>k. filter (\<lambda>l. fermion l \<and> key l = k) labels) (dedup (map key (filter fermion labels)))"
proof -
  have "mapE (\<lambda>l. bindE (lookupE contracts l) (\<lambda>c. Inr (l, c))) labels = Inr (map (\<lambda>l. (l, the (map_of contracts l))) labels)"
    using assms(1) by (intro mapE_total) (auto simp: bindE_Inr_iff)
  moreover have "map (\<lambda>(l, c). (l, (sk_initial c, id_canonical (so_identity (sk_source c)))))
         (filter (\<lambda>(l, c). so_statistics (sk_source c) = Fermion) (map (\<lambda>l. (l, the (map_of contracts l))) labels)) =
      map (\<lambda>l. (l, key l)) (filter fermion labels)"
    by (induction labels) (simp_all add: fermion_def key_def)
  ultimately have "fermion_class_list labels contracts = map snd (group_by (map (\<lambda>l. (l, key l)) (filter fermion labels)))"
    by (simp add: fermion_class_list_def fermion_classes_def)
  also have "\<dots> = map (\<lambda>k. filter (\<lambda>l. fermion l \<and> key l = k) labels) (dedup (map key (filter fermion labels)))"
    by (simp add: group_by_eq grouped_def comp_def filter_map conj_commute)
  finally show ?thesis .
qed

lemma position_map_swap:
  assumes "distinct xs" "i < length xs" "j < length xs" "k < length xs"
  shows "position_map xs (id(xs ! i := xs ! j, xs ! j := xs ! i)) k = exchange i j k"
  using assms by (auto simp: position_map_def index_of_nth nth_eq_iff_index_eq)

text \<open>
  Exchanging two external fermions of one class (same side, same particle, same source
  contract) flips the sign.
\<close>
theorem fermion_exchange_sign:
  assumes "distinct labels" "\<forall>l \<in> set labels. map_of contracts l \<noteq> None"
    "a \<in> set labels" "b \<in> set labels" "a \<noteq> b" "map_of contracts a = Some c" "map_of contracts b = Some c"
    "so_statistics (sk_source c) = Fermion"
  shows "relabelled_sign labels contracts (id(a := b, b := a)) = Inr (-1)"
proof -
  let ?f = "id(a := b, b := a)"
  let ?fermion = "\<lambda>l. so_statistics (sk_source (the (map_of contracts l))) = Fermion"
  let ?key = "\<lambda>l. (sk_initial (the (map_of contracts l)), id_canonical (so_identity (sk_source (the (map_of contracts l)))))"
  let ?cl = "\<lambda>k. filter (\<lambda>l. ?fermion l \<and> ?key l = k) labels"
  let ?ks = "dedup (map ?key (filter ?fermion labels))"
  let ?h = "\<lambda>cl. perm_sign (length cl) (position_map (sort cl) ?f)"
  have sym: "source_symmetry labels contracts ?f" using assms by (auto simp: source_symmetry_def image_iff)
  have in_cl: "a \<in> set (?cl k) \<and> b \<in> set (?cl k) \<longleftrightarrow> k = ?key a" "a \<in> set (?cl k) \<longleftrightarrow> b \<in> set (?cl k)" for k
    using assms by auto
  have mem: "?key a \<in> set ?ks"
    unfolding set_dedup set_map by (rule imageI) (use assms in simp)
  have one: "?h (?cl k) = (if k = ?key a then -1 else 1)" for k
  proof -
    let ?xs = "sort (?cl k)"
    have d: "distinct ?xs" using assms(1) by simp
    show ?thesis
    proof (cases "k = ?key a")
      case True
      then have ab: "a \<in> set ?xs" "b \<in> set ?xs" using in_cl(1) [of k] by simp_all
      obtain i where i: "i < length ?xs" "?xs ! i = a" using ab(1) unfolding in_set_conv_nth by blast
      obtain j where j: "j < length ?xs" "?xs ! j = b" using ab(2) unfolding in_set_conv_nth by blast
      note ij = i(1) i(2) [symmetric] j(1) j(2) [symmetric]
      have "i \<noteq> j" using assms(5) i(2) j(2) by metis
      have "?h (?cl k) = perm_sign (length ?xs) (exchange i j)"
        unfolding length_sort ij(2,4) using position_map_swap [OF d ij(1,3)] by (intro perm_sign_cong) simp
      also have "\<dots> = -1" by (rule perm_sign_exchange [OF ij(1,3) \<open>i \<noteq> j\<close>])
      finally show ?thesis using True by simp
    next
      case False
      then have ab: "a \<notin> set ?xs" "b \<notin> set ?xs" using in_cl [of k] by auto
      have "position_map ?xs ?f i = i" if "i < length (?cl k)" for i
      proof -
        have i: "i < length ?xs" using that by simp
        then have "?f (?xs ! i) = ?xs ! i" using ab nth_mem [OF i] by auto
        then show ?thesis using index_of_nth [OF d i] unfolding position_map_def by simp
      qed
      then have "?h (?cl k) = perm_sign (length (?cl k)) (\<lambda>i. i)" by (rule perm_sign_cong)
      then show ?thesis using False by (simp add: perm_sign_id)
    qed
  qed
  have "prod_list (map ?h (fermion_class_list labels contracts)) = prod_list (map (\<lambda>k. ?h (?cl k)) ?ks)"
    unfolding fermion_class_list_keys [OF assms(2)] list.map_comp comp_def ..
  also have "\<dots> = (\<Prod>k \<in> set ?ks. if k = ?key a then -1 else 1)"
    unfolding one by (rule prod.distinct_set_conv_list [symmetric]) simp
  also have "\<dots> = -1" using mem by (subst prod.delta) simp_all
  finally show ?thesis using relabelled_sign_eq [OF assms(1,2) sym] by simp
qed

section \<open>A proved partition relabels the representative\<close>

definition relabel :: "(int \<times> int) list \<Rightarrow> int \<Rightarrow> int" where
  "relabel perm l = (case map_of (dict_of perm) l of None \<Rightarrow> l | Some k \<Rightarrow> k)"

definition relabelled_line :: "(int \<Rightarrow> int) \<Rightarrow> open_line \<Rightarrow> int \<times> int \<times> int list \<times> int list" where
  "relabelled_line f l = (f (ol_fundamental l), f (ol_antifundamental l), map f (ol_adjoint l), map f (ol_singlet l))"

text \<open>The sector \<open>s\<close> is the image of \<open>r\<close> under the relabelling, its lines up to order.\<close>

definition sector_image :: "(int \<Rightarrow> int) \<Rightarrow> sector \<Rightarrow> sector \<Rightarrow> bool" where
  "sector_image f r s \<longleftrightarrow>
     sc_kind s = sc_kind r \<and> mset (map line_key (sc_lines s)) = mset (map (relabelled_line f) (sc_lines r)) \<and>
     sc_trace s = map f (sc_trace r) \<and> sc_singlets s = map f (sc_singlets r) \<and> sc_word s = map f (sc_word r)"

definition certified_member ::
  "color_plan \<Rightarrow> (int \<times> source_contract) list \<Rightarrow> sector \<Rightarrow> nat \<Rightarrow> (int \<times> int) list \<times> int \<Rightarrow> bool" where
  "certified_member plan contracts r i = (\<lambda>(perm, sign).
     let labels = process_labels plan; initial = initial_label_set (pl_process plan)
     in \<exists>s. plan_sector plan i = Some s \<and> sector_image (relabel perm) r s \<and> source_symmetry labels contracts (relabel perm) \<and>
        relabel perm ` set initial = set initial \<and> sign \<in> {1, -1} \<and>
        external_fermion_permutation_sign labels (full_mapping labels (dict_of perm)) contracts = Inr sign)"

definition certified_partition :: "color_plan \<Rightarrow> model \<Rightarrow> replay_partition \<Rightarrow> bool" where
  "certified_partition plan m p \<longleftrightarrow>
     (\<exists>r contracts. plan_sector plan (rp_representative p) = Some r \<and> source_contracts plan m = Inr contracts \<and>
        length (rp_permutations p) = length (rp_active p) \<and> length (rp_replay_signs p) = length (rp_active p) \<and>
        list_all2 (certified_member plan contracts r) (rp_active p) (zip (rp_permutations p) (rp_replay_signs p)))"

lemma full_mapping_map_of:
  "map_of (full_mapping labels (dict_of perm)) l = (if l \<in> set labels then Some (relabel perm l) else None)"
proof -
  let ?f = "\<lambda>l. case map_of (dict_of perm) l of None \<Rightarrow> l | Some k \<Rightarrow> k"
  have "map_of (rev (map (\<lambda>l. (l, ?f l)) labels)) = (\<lambda>l. if l \<in> set labels then Some (?f l) else None)"
    unfolding rev_map by (simp add: map_of_map_restrict restrict_map_def fun_eq_iff)
  then show ?thesis unfolding full_mapping_def map_of_dict_of relabel_def by simp
qed

lemma full_mapping_set:
  "set (full_mapping labels (dict_of perm)) = (\<lambda>l. (l, relabel perm l)) ` set labels"
proof -
  have "distinct (map fst (full_mapping labels (dict_of perm)))" by (simp add: full_mapping_def)
  then have "(a, b) \<in> set (full_mapping labels (dict_of perm)) \<longleftrightarrow> a \<in> set labels \<and> b = relabel perm a" for a b
    using map_of_eq_Some_iff [of "full_mapping labels (dict_of perm)" a b] by (auto simp: full_mapping_map_of split: if_splits)
  then show ?thesis by auto
qed

lemma mapE_full_mapping:
  "mapE (lookupE (full_mapping labels (dict_of perm))) xs = Inr ys \<Longrightarrow> ys = map (relabel perm) xs"
  unfolding mapE_lookupE_iff
proof (induction xs arbitrary: ys)
  case (Cons x xs)
  then show ?case by (cases ys) (auto simp: full_mapping_map_of split: if_splits)
qed simp

lemma remapped_line_eq:
  "remapped_line (full_mapping labels (dict_of perm)) l = Inr k \<Longrightarrow> k = relabelled_line (relabel perm) l"
  by (auto simp: remapped_line_def relabelled_line_def bindE_Inr_iff full_mapping_map_of dest!: mapE_full_mapping split: if_splits)

lemma remapped_sector_image:
  assumes "remapped_sector_contract r (full_mapping labels (dict_of perm)) = Inr (contract_of_sector s)"
  shows "sector_image (relabel perm) r s"
proof -
  from assms obtain ls ts ss ws where r: "mapE (remapped_line (full_mapping labels (dict_of perm))) (sc_lines r) = Inr ls"
    "mapE (lookupE (full_mapping labels (dict_of perm))) (sc_trace r) = Inr ts"
    "mapE (lookupE (full_mapping labels (dict_of perm))) (sc_singlets r) = Inr ss"
    "mapE (lookupE (full_mapping labels (dict_of perm))) (sc_word r) = Inr ws"
    and c: "contract_of_sector s = \<lparr>sn_kind = sc_kind r, sn_lines = sort ls, sn_trace = ts, sn_singlets = ss, sn_word = ws\<rparr>"
    by (auto simp: remapped_sector_contract_def bindE_Inr_iff)
  have "ls = map (relabelled_line (relabel perm)) (sc_lines r)"
    using r(1) unfolding mapE_Inr_iff by (auto simp: list_all2_conv_all_nth intro!: nth_equalityI remapped_line_eq)
  moreover have "sort (map line_key (sc_lines s)) = sort ls" using c by (simp add: contract_of_sector_def)
  then have "mset (map line_key (sc_lines s)) = mset ls" by (metis mset_sort)
  ultimately show ?thesis
    using c mapE_full_mapping [OF r(2)] mapE_full_mapping [OF r(3)] mapE_full_mapping [OF r(4)]
    by (simp add: sector_image_def contract_of_sector_def)
qed

lemma permutation_sign_values:
  assumes "external_fermion_permutation_sign labels mapping contracts = Inr s"
  shows "s \<in> {1, -1}"
proof -
  from assms obtain cs where "foldE (\<lambda>sign c. bindE (class_sign mapping c) (\<lambda>s. Inr (sign * s))) 1 cs = Inr s"
    by (auto simp: external_fermion_permutation_sign_def bindE_Inr_iff)
  then show ?thesis
  proof (rule foldE_invariant [where I = "\<lambda>s. s \<in> {1, -1}"])
    fix st c st' assume "st \<in> {1, -1 :: int}" "bindE (class_sign mapping c) (\<lambda>s. Inr (st * s)) = Inr st'"
    moreover from this(2) obtain n where "st' = st * parity_sign n" by (auto simp: class_sign_def Let_def bindE_Inr_iff)
    ultimately show "st' \<in> {1, -1}" using parity_sign_values [of n] by auto
  qed simp
qed

lemma prove_row_certified:
  assumes "prove_row plan r (process_labels plan) (set (initial_label_set (pl_process plan))) contracts (i, perm, w) = Inr (Some mc)"
  shows "certified_member plan contracts r i (perm, mc_sign mc)"
proof -
  let ?labels = "process_labels plan" and ?I = "set (initial_label_set (pl_process plan))"
  let ?m = "full_mapping ?labels (dict_of perm)"
  from assms obtain s where s: "plan_sector plan i = Some s" by (auto simp: prove_row_def split: option.splits)
  from assms have c: "snd ` set ?m = set ?labels" "map_of ?m ` ?I = Some ` ?I"
      "remapped_sector_contract r ?m = Inr (contract_of_sector s)"
      "\<forall>(a, b) \<in> set ?m. map_of contracts a = map_of contracts b"
      "external_fermion_permutation_sign ?labels ?m contracts = Inr (mc_sign mc)"
    unfolding prove_row_def s prod.case option.case Let_def
    by (auto simp: bindE_Inr_iff split: if_splits)
  have img: "relabel perm ` set ?labels = set ?labels" using c(1) by (simp add: full_mapping_set image_image)
  have sym: "source_symmetry ?labels contracts (relabel perm)"
    using img c(4) by (auto simp: source_symmetry_def full_mapping_set)
  have sub: "?I \<subseteq> set ?labels" by (auto simp: initial_label_set_def process_labels_def initial_legs_def)
  have "relabel perm ` ?I = ?I"
  proof -
    have "map_of ?m ` ?I = Some ` relabel perm ` ?I" unfolding image_image
      using sub by (intro image_cong) (auto simp: full_mapping_map_of)
    with c(2) show ?thesis by (metis inj_Some inj_image_eq_iff)
  qed
  then show ?thesis
    using s remapped_sector_image [OF c(3)] sym permutation_sign_values [OF c(5)] c(5)
    by (simp add: certified_member_def Let_def)
qed

lemma collect_rows_Some: "collect_rows f xs = Inr (Some ys) \<longleftrightarrow> list_all2 (\<lambda>x y. f x = Inr (Some y)) xs ys"
proof (induction xs arbitrary: ys)
  case (Cons x xs)
  show ?case
    by (cases ys) (auto simp: bindE_Inr_iff Cons.IH split: option.splits)
qed auto

text \<open>
  C36. A successful proof certifies every member: its relabelling permutes the process labels,
  keeps the initial legs and the source contract of every leg, carries the representative's
  colour sector to the member's (lines up to order, traces, singlets and words exactly), and the
  recorded sign is the fermion sign of that relabelling.
\<close>
theorem replay_proof_sound:
  assumes "prove_topology_replay_partition digest plan p m md algorithm b = Inr (Some (d, signs))"
  shows "certified_partition plan m (p\<lparr>rp_replay_signs := signs\<rparr>)"
proof -
  let ?labels = "process_labels plan" and ?I = "set (initial_label_set (pl_process plan))"
  from assms obtain r where r: "plan_sector plan (rp_representative p) = Some r"
    by (auto simp: prove_topology_replay_partition_def split: option.splits)
  from assms obtain contracts where c: "source_contracts plan m = Inr contracts"
    unfolding prove_topology_replay_partition_def r option.case Let_def by (auto simp: bindE_Inr_iff)
  from assms have len: "length (rp_permutations p) = length (rp_active p)" "length (rp_weights p) = length (rp_active p)"
    unfolding prove_topology_replay_partition_def r option.case Let_def c bindE_simps by (auto split: if_splits)
  with assms obtain ms where ms: "collect_rows (prove_row plan r ?labels ?I contracts)
      (zip (rp_active p) (zip (rp_permutations p) (rp_weights p))) = Inr (Some ms)" "signs = map mc_sign ms"
    unfolding prove_topology_replay_partition_def r option.case Let_def c bindE_simps
    by (auto simp: bindE_Inr_iff split: option.splits)
  then have rows: "list_all2 (\<lambda>x y. prove_row plan r ?labels ?I contracts x = Inr (Some y))
      (zip (rp_active p) (zip (rp_permutations p) (rp_weights p))) ms" by (simp add: collect_rows_Some)
  have n: "length ms = length (rp_active p)" using list_all2_lengthD [OF rows] len by simp
  have "list_all2 (certified_member plan contracts r) (rp_active p) (zip (rp_permutations p) signs)"
  proof (rule list_all2_all_nthI)
    fix k assume k: "k < length (rp_active p)"
    with list_all2_nthD [OF rows, of k] len
    have "prove_row plan r ?labels ?I contracts (rp_active p ! k, rp_permutations p ! k, rp_weights p ! k) = Inr (Some (ms ! k))"
      by simp
    from prove_row_certified [OF this] k len n show "certified_member plan contracts r (rp_active p ! k) (zip (rp_permutations p) signs ! k)"
      by (simp add: ms(2))
  qed (simp add: len n ms(2))
  with r c len n ms(2) show ?thesis by (simp add: certified_partition_def)
qed

section \<open>The builders return\<close>

text \<open>The invariant of the certification loop, with the candidates still to come.\<close>

definition certifying ::
  "color_plan \<Rightarrow> model \<Rightarrow> nat set \<Rightarrow> certify_state \<Rightarrow> replay_partition list \<Rightarrow> bool" where
  "certifying plan m P st cands \<longleftrightarrow>
     distinct (replayed_ids (ce_proven st @ cands)) \<and> set (replayed_ids (ce_proven st @ cands)) \<subseteq> P \<and>
     distinct (ce_residual st) \<and> set (ce_residual st) = P - set (replayed_ids (ce_proven st)) \<and>
     (\<forall>p \<in> set (ce_proven st). built_partition p \<and> rp_algorithm p \<noteq> None \<and> rp_digest p \<noteq> None \<and>
        2 \<le> length (rp_active p) \<and> certified_partition plan m p)"

lemma replayed_ids_append: "replayed_ids (ps @ qs) = replayed_ids ps @ replayed_ids qs"
  by (simp add: replayed_ids_def)

lemma certify_step_invariant:
  assumes "certifying plan m P st (cand # cands)" "built_partition cand" "rp_algorithm cand = None"
    "\<forall>x. hex_digest (digest x)"
  shows "\<exists>st'. certify_step (\<lambda>p. prove_topology_replay_partition digest plan p m md algorithm b) algorithm messages st cand = Inr st' \<and>
    certifying plan m P st' cands"
proof -
  let ?prove = "\<lambda>p. prove_topology_replay_partition digest plan p m md algorithm b"
  let ?step = "certify_step ?prove algorithm messages st cand"
  have ids: "replayed_ids (ce_proven st @ cand # cands) = replayed_ids (ce_proven st) @ rp_active cand @ replayed_ids cands"
    by (simp add: replayed_ids_def)
  have skip: "certifying plan m P (st\<lparr>ce_diagnostics := ds\<rparr>) cands" for ds
    using assms(1) unfolding certifying_def ids by (auto simp: replayed_ids_append)
  have skip': "certifying plan m P st cands"
    using assms(1) unfolding certifying_def ids by (auto simp: replayed_ids_append)
  consider (short) "length (rp_active cand) < 2" | (failed) e where "2 \<le> length (rp_active cand)" "?prove cand = Inl e"
    | (kept) "2 \<le> length (rp_active cand)" "?prove cand = Inr None"
    | (proved) d signs where "2 \<le> length (rp_active cand)" "?prove cand = Inr (Some (d, signs))"
    by (cases "?prove cand") (force, metis not_le_imp_less option.exhaust prod.exhaust)
  then show ?thesis
  proof cases
    case short
    then show ?thesis using skip' by (simp add: certify_step_def Let_def)
  next
    case failed
    then show ?thesis using skip by (simp add: certify_step_def Let_def)
  next
    case kept
    then show ?thesis using skip by (simp add: certify_step_def Let_def)
  next
    case proved
    let ?p = "cand\<lparr>rp_replay_signs := signs, rp_algorithm := Some algorithm, rp_digest := Some d\<rparr>"
    have cert: "certified_partition plan m (cand\<lparr>rp_replay_signs := signs\<rparr>)" using proved(2) by (rule replay_proof_sound)
   then have cp: "certified_partition plan m ?p" by (simp add: certified_partition_def)
    from cert have len: "length signs = length (rp_active cand)" by (auto simp: certified_partition_def)
    obtain r contracts where l: "list_all2 (certified_member plan contracts r) (rp_active cand) (zip (rp_permutations cand) signs)"
      "length (rp_permutations cand) = length (rp_active cand)"
      using cert unfolding certified_partition_def by auto
    have sg: "set signs \<subseteq> {-1, 1}"
    proof
      fix x assume "x \<in> set signs"
      then obtain k where k: "k < length signs" "x = signs ! k" by (auto simp: in_set_conv_nth)
      with list_all2_nthD [OF l(1), of k] len l(2) have "certified_member plan contracts r (rp_active cand ! k) (rp_permutations cand ! k, x)"
        by simp
      then show "x \<in> {-1, 1}" by (auto simp: certified_member_def Let_def)
    qed
    have ok: "partition_ok cand" using assms(2) by (rule built_partition_ok)
    have hex: "hex_digest d"
      using proved(2) assms(4) by (auto simp: prove_topology_replay_partition_def Let_def bindE_Inr_iff split: option.splits if_splits)
    have "signs \<noteq> []" using len proved(1) by auto
    then have okp: "partition_ok ?p"
      using ok len sg hex by (auto simp: partition_ok_def rp_weights_def rp_signs_def)
    have mat: "?p\<lparr>rp_materialized := rp_representative cand\<rparr> = ?p" using ok by (simp add: partition_ok_def)
    have mk: "make_partition (Some (rp_representative cand)) ?p = Inr ?p"
      using okp mat by (simp add: make_partition_iff)
    let ?st = "\<lparr>ce_residual = filter (\<lambda>i. i \<notin> set (rp_active ?p)) (ce_residual st),
                    ce_proven = ce_proven st @ [?p], ce_diagnostics = ce_diagnostics st\<rparr>"
    have "?step = Inr ?st" using proved mk by (simp add: certify_step_def Let_def)
    moreover have "certifying plan m P ?st cands"
    proof -
      have "replayed_ids (ce_proven ?st @ cands) = replayed_ids (ce_proven st) @ rp_active cand @ replayed_ids cands"
        by (simp add: replayed_ids_def)
      moreover have "set (ce_residual ?st) = P - set (replayed_ids (ce_proven ?st))"
        using assms(1) by (auto simp: certifying_def replayed_ids_def)
      moreover have "built_partition ?p" using mk unfolding built_partition_def by blast
      ultimately show ?thesis
        using assms(1) cp proved(1) unfolding certifying_def ids by auto
    qed
    ultimately show ?thesis by blast
  qed
qed

lemma certify_fold:
  assumes "certifying plan m P st cands" "\<forall>p \<in> set cands. built_partition p \<and> rp_algorithm p = None" "\<forall>x. hex_digest (digest x)"
  shows "\<exists>st'. foldE (certify_step (\<lambda>p. prove_topology_replay_partition digest plan p m md algorithm b) algorithm messages) st cands = Inr st' \<and>
    certifying plan m P st' []"
  using assms(1,2)
proof (induction cands arbitrary: st)
  case (Cons c cs)
  from certify_step_invariant [OF Cons.prems(1) _ _ assms(3), where md = md and algorithm = algorithm and b = b and messages = messages] Cons.prems(2)
  obtain st' where st': "certify_step (\<lambda>p. prove_topology_replay_partition digest plan p m md algorithm b) algorithm messages st c = Inr st'"
    "certifying plan m P st' cs" by auto
  with Cons.IH [OF st'(2)] Cons.prems(2) show ?case by simp
qed auto

lemma certified_cover:
  assumes "certifying plan m (set P) st []" "distinct P"
  shows "covers (sort P) (ce_proven st) (sort (sort (ce_residual st)))"
  using assms by (auto simp: covers_def certifying_def)

lemma certification_run:
  assumes "\<forall>x. hex_digest (digest x)" "returns (topology_groups plan)" "distinct (map sc_id (pl_sectors plan))"
  shows "\<exists>cands st. color_topology_replay_partitions plan = Inr cands \<and>
    foldE (certify_step (\<lambda>p. prove_topology_replay_partition digest plan p m md algorithm b) algorithm messages)
      \<lparr>ce_residual = physical_ids plan, ce_proven = [], ce_diagnostics = []\<rparr> cands = Inr st \<and>
    covers (physical_ids plan) (ce_proven st) (sort (sort (ce_residual st))) \<and>
    (\<forall>p \<in> set (ce_proven st). built_partition p \<and> 2 \<le> length (rp_active p) \<and> certified_partition plan m p)"
proof -
  let ?ids = "map sc_id (pl_sectors plan)"
  obtain cands where c: "color_topology_replay_partitions plan = Inr cands" "distinct (replayed_ids cands)"
    "set (replayed_ids cands) \<subseteq> sc_id ` set (pl_sectors plan)" "\<forall>p \<in> set cands. replay_sound plan p \<and> rp_algorithm p = None"
    using partitions_safe [OF assms(2,3)] by blast
  let ?st = "\<lparr>ce_residual = physical_ids plan, ce_proven = [], ce_diagnostics = []\<rparr>"
  have "certifying plan m (set ?ids) ?st cands"
    using c(2,3) assms(3) by (simp add: certifying_def physical_ids_def replayed_ids_def)
  moreover have "\<forall>p \<in> set cands. built_partition p \<and> rp_algorithm p = None" using c(4) by (simp add: replay_sound_def)
  ultimately obtain st where st: "foldE (certify_step (\<lambda>p. prove_topology_replay_partition digest plan p m md algorithm b) algorithm messages) ?st cands = Inr st"
    "certifying plan m (set ?ids) st []" 
    using certify_fold [OF _ _ assms(1), where md = md and algorithm = algorithm and b = b and messages = messages] by blast
  moreover have "covers (physical_ids plan) (ce_proven st) (sort (sort (ce_residual st)))"
    unfolding physical_ids_def using certified_cover [OF st(2) assms(3)] .
  moreover have "\<forall>p \<in> set (ce_proven st). built_partition p \<and> 2 \<le> length (rp_active p) \<and> certified_partition plan m p"
    using st(2) by (simp add: certifying_def)
  ultimately show ?thesis using c(1) by blast
qed

text \<open>
  C37. For a plan with distinct sector ids whose sectors can be signed, the certificate builder
  never raises, whatever proofs fail: it returns nothing or a valid certificate that covers
  exactly the plan's sectors, each of which has a representative, and whose partitions all
  replay at least two sectors and are certified.
\<close>
theorem certificate_builder_fails_closed:
  assumes "\<forall>x. hex_digest (digest x)" "returns (topology_groups plan)" "distinct (map sc_id (pl_sectors plan))"
  shows "\<exists>result. build_color_topology_replay_certificate digest model_digest plan m = Inr result \<and>
    (\<forall>c. result = Some c \<longrightarrow> valid_certificate c \<and> rc_physical c = physical_ids plan \<and>
      (\<forall>i \<in> set (physical_ids plan). returns (certificate_representative_for c i)) \<and>
      (\<forall>p \<in> set (rc_partitions c). 2 \<le> length (rp_active p) \<and> certified_partition plan m p))"
proof (cases "pl_color_accuracy plan \<notin> {STR ''lc'', STR ''nlc'', STR ''full''} \<or> pl_truncated plan \<or> length (pl_sectors plan) < 2 \<or> (\<exists>e. model_digest = Inl e)")
  case True
  then have "build_color_topology_replay_certificate digest model_digest plan m = Inr None"
    unfolding build_color_topology_replay_certificate_def by (auto split: sum.splits)
  then show ?thesis by blast
next
  case False
  then obtain md where md: "model_digest = Inr md" by (metis sum.exhaust)
  let ?messages = "(STR ''color replay partition proof failed closed'', STR ''color replay partition remains materialized'')"
  obtain cands st where r: "color_topology_replay_partitions plan = Inr cands"
    "foldE (certify_step (\<lambda>p. prove_topology_replay_partition digest plan p m md color_replay_algorithm True) color_replay_algorithm ?messages)
      \<lparr>ce_residual = physical_ids plan, ce_proven = [], ce_diagnostics = []\<rparr> cands = Inr st"
    "covers (physical_ids plan) (ce_proven st) (sort (sort (ce_residual st)))"
    "\<forall>p \<in> set (ce_proven st). built_partition p \<and> 2 \<le> length (rp_active p) \<and> certified_partition plan m p"
    using certification_run [OF assms, where m = m and md = md and algorithm = color_replay_algorithm and b = True and messages = ?messages]
    by (elim exE conjE) (rule that)
  let ?raw = "\<lparr>rc_accuracy = pl_color_accuracy plan, rc_physical = physical_ids plan,
                 rc_partitions = ce_proven st, rc_residual = sort (ce_residual st), rc_diagnostics = ce_diagnostics st\<rparr>"
  let ?c = "?raw\<lparr>rc_residual := sort (sort (ce_residual st))\<rparr>"
  have ph: "sort (physical_ids plan) = physical_ids plan" by (simp add: physical_ids_def sorted_sort_id)
  have mk: "make_certificate ?raw = Inr ?c" using False r(3) by (auto simp: make_certificate_iff ph)
  show ?thesis
  proof (cases "ce_proven st = []")
    case True
    then have "build_color_topology_replay_certificate digest model_digest plan m = Inr None"
      using False by (simp add: build_color_topology_replay_certificate_def md r(1,2))
    then show ?thesis by blast
  next
    case ne: False
    then have b: "build_color_topology_replay_certificate digest model_digest plan m = Inr (Some ?c)"
      using False mk by (simp add: build_color_topology_replay_certificate_def md r(1,2))
    have v: "valid_certificate ?c" using mk r(4) unfolding valid_certificate_def by auto
    show ?thesis using b v certificate.total [OF v] r(4) by simp
  qed
qed

text \<open>The leading-colour builder fails closed in the same way.\<close>
theorem lc_plan_builder_fails_closed:
  assumes "\<forall>x. hex_digest (digest x)" "returns (topology_groups plan)" "distinct (map sc_id (pl_sectors plan))"
  shows "\<exists>result. build_lc_topology_replay_plan digest model_digest plan m = Inr result \<and>
    (\<forall>c. result = Some c \<longrightarrow> valid_lc_plan c \<and> lp_physical c = physical_ids plan \<and>
      (\<forall>i \<in> set (physical_ids plan). returns (lc_representative_for c i)) \<and>
      (\<forall>p \<in> set (lp_partitions c). 2 \<le> length (rp_active p) \<and> certified_partition plan m p))"
proof (cases "pl_color_accuracy plan \<noteq> STR ''lc'' \<or> pl_truncated plan \<or> length (pl_sectors plan) < 2 \<or> (\<exists>e. model_digest = Inl e)")
  case True
  then have "build_lc_topology_replay_plan digest model_digest plan m = Inr None"
    unfolding build_lc_topology_replay_plan_def by (auto split: sum.splits)
  then show ?thesis by blast
next
  case False
  then obtain md where md: "model_digest = Inr md" by (metis sum.exhaust)
  let ?messages = "(STR ''LC replay partition proof failed closed'', STR ''LC replay partition remains materialized'')"
  obtain cands st where r: "color_topology_replay_partitions plan = Inr cands"
    "foldE (certify_step (\<lambda>p. prove_topology_replay_partition digest plan p m md lc_replay_algorithm False) lc_replay_algorithm ?messages)
      \<lparr>ce_residual = physical_ids plan, ce_proven = [], ce_diagnostics = []\<rparr> cands = Inr st"
    "covers (physical_ids plan) (ce_proven st) (sort (sort (ce_residual st)))"
    "\<forall>p \<in> set (ce_proven st). built_partition p \<and> 2 \<le> length (rp_active p) \<and> certified_partition plan m p"
    using certification_run [OF assms, where m = m and md = md and algorithm = lc_replay_algorithm and b = False and messages = ?messages]
    by (elim exE conjE) (rule that)
  have lc: "lc_topology_replay_partitions plan = Inr cands" using False r(1) by (simp add: lc_topology_replay_partitions_def)
  let ?raw = "\<lparr>lp_physical = physical_ids plan, lp_partitions = ce_proven st, lp_residual = sort (ce_residual st), lp_diagnostics = ce_diagnostics st\<rparr>"
  let ?c = "?raw\<lparr>lp_residual := sort (sort (ce_residual st))\<rparr>"
  have ph: "sort (physical_ids plan) = physical_ids plan" by (simp add: physical_ids_def sorted_sort_id)
  have mk: "make_lc_replay_plan ?raw = Inr ?c" using r(3) by (simp add: make_lc_replay_plan_iff ph)
  show ?thesis
  proof (cases "ce_proven st = []")
    case True
    then have "build_lc_topology_replay_plan digest model_digest plan m = Inr None"
      using False by (simp add: build_lc_topology_replay_plan_def md lc r(2))
    then show ?thesis by blast
  next
    case ne: False
    then have b: "build_lc_topology_replay_plan digest model_digest plan m = Inr (Some ?c)"
      using False mk by (simp add: build_lc_topology_replay_plan_def md lc r(2))
    have v: "valid_lc_plan ?c" using mk r(4) unfolding valid_lc_plan_def by auto
    show ?thesis using b v lc_plan.total [OF v] r(4) by simp
  qed
qed

section \<open>Line pairings\<close>

lemma line_key_pairing: "pairing_line pdgs l = pairing_line pdgs k \<longleftrightarrow> line_key l = line_key k"
proof
  have lab: "map fst (map (with_pdg pdgs) xs) = xs" for xs by (simp add: with_pdg_def comp_def)
  assume e: "pairing_line pdgs l = pairing_line pdgs k"
  then have "map (with_pdg pdgs) (ol_adjoint l) = map (with_pdg pdgs) (ol_adjoint k)"
    "map (with_pdg pdgs) (ol_singlet l) = map (with_pdg pdgs) (ol_singlet k)" by (simp_all add: pairing_line_def)
  then have "ol_adjoint l = ol_adjoint k" "ol_singlet l = ol_singlet k" by (metis lab)+
  with e show "line_key l = line_key k" by (simp add: pairing_line_def line_key_def)
qed (simp add: pairing_line_def line_key_def)

lemma open_line_signature_iff:
  assumes "sc_kind s = Open_Lines" "sc_kind t = Open_Lines"
  shows "sector_line_pairing_signature pdgs s = sector_line_pairing_signature pdgs t \<longleftrightarrow>
    mset (map line_key (sc_lines s)) = mset (map line_key (sc_lines t))"
proof -
  have m: "map (pairing_line pdgs) xs = map (pairing_line pdgs) ys \<longleftrightarrow> map line_key xs = map line_key ys" for xs ys
    unfolding list.rel_eq [symmetric] list.rel_map line_key_pairing ..
  have k: "map line_key (sort_key line_key xs) = sort (map line_key xs)" for xs
    by (rule properties_for_sort [symmetric]) simp_all
  have "sector_line_pairing_signature pdgs s = sector_line_pairing_signature pdgs t \<longleftrightarrow>
      sort (map line_key (sc_lines s)) = sort (map line_key (sc_lines t))"
    using assms by (simp add: sector_line_pairing_signature_def m k)
  also have "\<dots> \<longleftrightarrow> mset (map line_key (sc_lines s)) = mset (map line_key (sc_lines t))"
  proof
    assume "sort (map line_key (sc_lines s)) = sort (map line_key (sc_lines t))"
    then show "mset (map line_key (sc_lines s)) = mset (map line_key (sc_lines t))" by (metis mset_sort)
  next
    assume "mset (map line_key (sc_lines s)) = mset (map line_key (sc_lines t))"
    then show "sort (map line_key (sc_lines s)) = sort (map line_key (sc_lines t))"
      by (intro properties_for_sort) simp_all
  qed
  finally show ?thesis .
qed

text \<open>
  At leading colour the pairing representatives are one plan sector per pairing: the first of
  each, in plan order. Two open-line sectors share a pairing exactly when they hold the same
  lines (with the same adjoint and singlet attachments) in some order.
\<close>
theorem line_pairing_representatives:
  assumes "pl_color_accuracy plan = STR ''lc''"
  shows "\<exists>reps. lc_line_pairing_representative_ids plan = map sc_id reps \<and> set reps \<subseteq> set (pl_sectors plan) \<and>
    (\<forall>s \<in> set (pl_sectors plan). sc_kind s = Open_Lines \<longrightarrow>
      (\<exists>!r. r \<in> set reps \<and> sc_kind r = Open_Lines \<and> mset (map line_key (sc_lines r)) = mset (map line_key (sc_lines s))))"
proof -
  let ?sig = "sector_line_pairing_signature (pdg_by_label (pl_process plan))"
  let ?reps = "dedup_on ?sig [] (pl_sectors plan)"
  have d: "distinct (map ?sig ?reps)" by (rule dedup_on_distinct)
  have keys: "?sig ` set ?reps = ?sig ` set (pl_sectors plan)" using dedup_on_keys [of ?sig "[]"] by simp
  have sub: "set ?reps \<subseteq> set (pl_sectors plan)" by (rule dedup_on_subset)
  have kind: "sc_kind r = Open_Lines" if "?sig r = ?sig s" "sc_kind s = Open_Lines" for r s
    using that by (cases "sc_kind r") (simp_all add: sector_line_pairing_signature_def)
  have "\<exists>!r. r \<in> set ?reps \<and> sc_kind r = Open_Lines \<and> mset (map line_key (sc_lines r)) = mset (map line_key (sc_lines s))"
    if s: "s \<in> set (pl_sectors plan)" "sc_kind s = Open_Lines" for s
  proof -
    have "?sig s \<in> ?sig ` set ?reps" using s(1) unfolding keys by blast
    then obtain r where r: "r \<in> set ?reps" "?sig r = ?sig s" by (metis imageE)
    show ?thesis
    proof (rule ex1I [of _ r])
      show "r \<in> set ?reps \<and> sc_kind r = Open_Lines \<and> mset (map line_key (sc_lines r)) = mset (map line_key (sc_lines s))"
        using r kind [OF r(2) s(2)] open_line_signature_iff [of r s] s(2) by blast
      fix t assume t: "t \<in> set ?reps \<and> sc_kind t = Open_Lines \<and> mset (map line_key (sc_lines t)) = mset (map line_key (sc_lines s))"
      then have "?sig t = ?sig r" using open_line_signature_iff [of t s] s(2) r(2) by metis
      with d t r(1) show "t = r" by (auto simp: distinct_map dest: inj_onD)
    qed
  qed
  then have u: "\<forall>s \<in> set (pl_sectors plan). sc_kind s = Open_Lines \<longrightarrow>
      (\<exists>!r. r \<in> set ?reps \<and> sc_kind r = Open_Lines \<and> mset (map line_key (sc_lines r)) = mset (map line_key (sc_lines s)))" by blast
  have "lc_line_pairing_representative_ids plan = map sc_id ?reps"
    by (simp add: lc_line_pairing_representative_ids_def assms)
  with sub u show ?thesis by (intro exI [of _ ?reps] conjI)
qed

section \<open>Instances\<close>

definition sample_digest :: "proof_payload \<Rightarrow> string" where
  "sample_digest x = replicate 64 CHR ''0''"

lemma sample_digest_hex: "\<forall>x. hex_digest (sample_digest x)"
  by (simp add: sample_digest_def hex_digest_def)

lemma sample_plan_ok:
  "returns (topology_groups sample_trace_plan)" "distinct (map sc_id (pl_sectors sample_trace_plan))"
  using sample_trace_groups by (blast, simp add: sample_trace_plan_def sample_trace_def)

definition sample_candidate :: replay_partition where
  "sample_candidate = \<lparr>rp_representative = 0, rp_active = [0, 1],
     rp_permutations = [[(1, 1), (2, 2), (3, 3), (4, 4)], [(1, 1), (2, 2), (3, 4), (4, 3)]],
     rp_replay_weights = [Finite 1, Finite 1], rp_replay_signs = [], rp_materialized = 0, rp_algorithm = None, rp_digest = None\<rparr>"

lemma replay_proof_sound_witness:
  "\<exists>d. prove_topology_replay_partition sample_digest sample_trace_plan sample_candidate sample_model ''m'' ''a'' True = Inr (Some (d, [1, -1])) \<and>
     certified_partition sample_trace_plan sample_model (sample_candidate\<lparr>rp_replay_signs := [1, -1]\<rparr>)"
proof -
  have "(case prove_topology_replay_partition sample_digest sample_trace_plan sample_candidate sample_model ''m'' ''a'' True of
      Inl _ \<Rightarrow> False | Inr None \<Rightarrow> False | Inr (Some z) \<Rightarrow> snd z = [1, -1])" by code_simp
  then obtain d where d: "prove_topology_replay_partition sample_digest sample_trace_plan sample_candidate sample_model ''m'' ''a'' True = Inr (Some (d, [1, -1]))"
    by (auto split: sum.splits option.splits)
  from replay_proof_sound [OF d] d show ?thesis by blast
qed

lemma certificate_builder_fails_closed_witness:
  "\<exists>result. build_color_topology_replay_certificate sample_digest (Inr ''m'') sample_trace_plan sample_model = Inr result \<and>
     (\<forall>c. result = Some c \<longrightarrow> rc_physical c = [0, 1, 2])"
proof -
  have "physical_ids sample_trace_plan = [0, 1, 2]" by code_simp
  with certificate_builder_fails_closed [OF sample_digest_hex sample_plan_ok, of "Inr ''m''" sample_model] show ?thesis by auto
qed

lemma lc_plan_builder_fails_closed_witness:
  "\<exists>result. build_lc_topology_replay_plan sample_digest (Inr ''m'') sample_trace_plan sample_model = Inr result"
  using lc_plan_builder_fails_closed [OF sample_digest_hex sample_plan_ok, of "Inr ''m''" sample_model] by blast

definition sample_source :: source_contract where
  "sample_source = \<lparr>sk_initial = False, sk_source = \<lparr>so_identity = \<lparr>id_canonical = ''c'', id_species = ''s'', id_anti_canonical = ''a'',
     id_display = ''d'', id_anti_display = ''e'', id_pdg = 1, id_anti_pdg = -1, id_orientation = Particle_Src, id_self_conjugate = False\<rparr>,
     so_statistics = Fermion, so_family = Fermion_Wf, so_dimension = 4, so_states = [], so_crossing = default_crossing, so_basis = ''dirac'',
     so_mass_parameter = None, so_width_parameter = None\<rparr>\<rparr>"

lemma fermion_exchange_sign_witness:
  "relabelled_sign [3, 4, 5] (map (\<lambda>l. (l, sample_source)) [3, 4, 5]) (id(3 := 5, 5 := 3)) = Inr (-1)"
  by (rule fermion_exchange_sign [where c = sample_source]) (simp_all add: sample_source_def)

lemma replay_sign_multiplies_witness:
  "\<exists>a. relabelled_sign [3, 4] (map (\<lambda>l. (l, sample_source)) [3, 4]) (id(3 := 4, 4 := 3)) = Inr a \<and> a \<in> {1, -1}"
proof -
  let ?c = "map (\<lambda>l. (l, sample_source)) [3, 4 :: int]"
  have d: "distinct [3, 4 :: int]" "\<forall>l \<in> set [3, 4]. map_of ?c l \<noteq> None" by simp_all
  have f: "source_symmetry [3, 4] ?c (id(3 := 4, 4 := 3))" by (auto simp: source_symmetry_def)
  from replay_sign_multiplies [OF d f f] show ?thesis by blast
qed

lemma line_pairing_representatives_witness:
  "\<exists>reps :: sector list. lc_line_pairing_representative_ids (sample_trace_plan\<lparr>pl_color_accuracy := STR ''lc''\<rparr>) = map sc_id reps \<and>
     set reps \<subseteq> set (pl_sectors sample_trace_plan)"
proof -
  have lc: "pl_color_accuracy (sample_trace_plan\<lparr>pl_color_accuracy := STR ''lc''\<rparr>) = STR ''lc''" by simp
  show ?thesis by (rule ex_forward [OF line_pairing_representatives [OF lc]]) simp
qed

end
