(* ===== verification/Coupling_Orders.thy ===== *)
theory Coupling_Orders
  imports Current_Table Py_Dict
begin

text \<open>
  Coupling-order tuples, after \<open>generation/dag_reachability.py\<close> and
  \<open>Model.combine_coupling_orders\<close>: normalisation of user limits, the limit test, the sum of
  several tuples, the degree and the envelope used by minimal-order inference, dominance and the
  Pareto filter. A tuple is the list of its \<open>(name, value)\<close> rows, a dictionary the list of its
  items in insertion order. The lemmas read a tuple as the function from upper-cased names to
  integers it stands for: a combination is the pointwise sum in canonical form, dominance is the
  strict pointwise order, and the Pareto filter keeps exactly the minimal tuples, one below every
  tuple it was given.
\<close>

type_synonym orders = "(string \<times> int) list"

section \<open>The operations\<close>

definition dict_get :: "('k \<times> int) list \<Rightarrow> 'k \<Rightarrow> int \<Rightarrow> int" where
  "dict_get d k dflt = (case map_of d k of None \<Rightarrow> dflt | Some v \<Rightarrow> v)"

definition normalize_coupling_order_limits :: "orders option \<Rightarrow> orders" where
  "normalize_coupling_order_limits limits =
     (case limits of
        None \<Rightarrow> []
      | Some items \<Rightarrow> dict_of (map (\<lambda>(name, value). (upper name, value)) (filter (\<lambda>(name, value). 0 \<le> value) items)))"

definition coupling_orders_within_limits :: "orders \<Rightarrow> orders \<Rightarrow> bool" where
  "coupling_orders_within_limits os limits =
     (if limits = [] then True
      else let order_map = dict_of (map (\<lambda>(name, value). (upper name, value)) os)
           in \<forall>(name, limit) \<in> set limits. dict_get order_map name 0 \<le> limit)"

definition add_order :: "orders \<Rightarrow> string \<times> int \<Rightarrow> orders" where
  "add_order totals = (\<lambda>(name, value). AList.update (upper name) (dict_get totals (upper name) 0 + value) totals)"

definition combine_coupling_order_tuples :: "orders list \<Rightarrow> orders" where
  "combine_coupling_order_tuples tuples =
     sort (filter (\<lambda>(name, value). value \<noteq> 0) (foldl (foldl add_order) [] tuples))"

definition coupling_order_degree :: "orders \<Rightarrow> orders option \<Rightarrow> int" where
  "coupling_order_degree os hierarchies =
     (let priorities = (case hierarchies of None \<Rightarrow> [] | Some h \<Rightarrow> h)
      in sum_list (map (\<lambda>(name, value). value * max 1 (dict_get priorities (upper name) 1)) os))"

definition widen_envelope :: "orders \<Rightarrow> string \<times> int \<Rightarrow> orders" where
  "widen_envelope envelope = (\<lambda>(name, value).
     AList.update (upper name) (max (dict_get envelope (upper name) 0) value) envelope)"

definition coupling_order_envelope :: "orders list \<Rightarrow> orders" where
  "coupling_order_envelope tuples = foldl (foldl widen_envelope) [] tuples"

definition coupling_orders_dominate :: "orders \<Rightarrow> orders \<Rightarrow> bool" where
  "coupling_orders_dominate left right =
     (let left_map = dict_of left; right_map = dict_of right;
          keys = map fst left_map @ map fst right_map
      in (\<forall>key \<in> set keys. dict_get left_map key 0 \<le> dict_get right_map key 0) \<and>
         (\<exists>key \<in> set keys. dict_get left_map key 0 < dict_get right_map key 0))"

definition pareto_minimal_coupling_orders :: "orders list \<Rightarrow> orders list" where
  "pareto_minimal_coupling_orders tuples =
     (let normalized = sort (remdups tuples)
      in filter (\<lambda>candidate. \<not> (\<exists>other \<in> set normalized. other \<noteq> candidate \<and> coupling_orders_dominate other candidate))
           normalized)"

text \<open>\<open>Model.combine_coupling_orders\<close> on the orders of two indices and of the vertex.\<close>

definition model_combine_coupling_orders :: "current_index \<Rightarrow> current_index \<Rightarrow> orders \<Rightarrow> orders" where
  "model_combine_coupling_orders left right vertex_orders =
     combine_coupling_order_tuples [ci_coupling_orders left, ci_coupling_orders right, vertex_orders]"

text \<open>
  The last part of \<open>_infer_minimal_coupling_order_limits_from_color_plan\<close>
  (\<open>generation/dag_algorithms.py\<close>): from the closure totals and the hierarchies of the
  model to the inferred limits.
\<close>

definition minimal_totals :: "orders list \<Rightarrow> orders \<Rightarrow> orders list" where
  "minimal_totals totals hierarchies =
     (let minimum = Min (set (map (\<lambda>t. coupling_order_degree t (Some hierarchies)) totals))
      in filter (\<lambda>t. coupling_order_degree t (Some hierarchies) = minimum) totals)"

definition infer_minimal_limits :: "orders list \<Rightarrow> orders \<Rightarrow> orders" where
  "infer_minimal_limits totals model_hierarchies =
     (if totals = [] then []
      else let hierarchies = dict_of (map (\<lambda>(name, value). (upper name, max 1 value)) model_hierarchies);
               envelope = coupling_order_envelope (minimal_totals totals hierarchies);
               order_names = map fst hierarchies @ map fst envelope @ map fst (concat totals)
           in map (\<lambda>name. (name, dict_get envelope name 0)) (sort (remdups order_names)))"

section \<open>Tuples as functions\<close>

text \<open>\<open>amount\<close> adds every row of a name, \<open>order_value\<close> is the dictionary reading.\<close>

definition amount :: "orders \<Rightarrow> string \<Rightarrow> int" where
  "amount os n = sum_list (map snd (filter (\<lambda>p. upper (fst p) = n) os))"

definition order_value :: "orders \<Rightarrow> string \<Rightarrow> int" where
  "order_value os n = dict_get (dict_of os) n 0"

definition normal_orders :: "orders \<Rightarrow> bool" where
  "normal_orders os \<longleftrightarrow> sorted os \<and> distinct (map fst os) \<and> (\<forall>(n, v) \<in> set os. upper n = n \<and> v \<noteq> 0)"

definition orders_le :: "orders \<Rightarrow> orders \<Rightarrow> bool" where
  "orders_le a b \<longleftrightarrow> (\<forall>n. order_value a n \<le> order_value b n)"

lemma orders_le_refl [simp]: "orders_le a a"
  by (simp add: orders_le_def)

lemma orders_le_trans [trans]: "orders_le a b \<Longrightarrow> orders_le b c \<Longrightarrow> orders_le a c"
  unfolding orders_le_def by (meson order_trans)

lemma dict_get_update [simp]:
  "dict_get (AList.update k v d) j x = (if j = k then v else dict_get d j x)"
  by (simp add: dict_get_def update_conv')

lemma dict_get_Nil [simp]: "dict_get [] k x = x"
  by (simp add: dict_get_def)

lemma amount_Nil [simp]: "amount [] n = 0"
  by (simp add: amount_def)

lemma amount_Cons [simp]: "amount (p # os) n = (if upper (fst p) = n then snd p else 0) + amount os n"
  by (simp add: amount_def)

lemma amount_append [simp]: "amount (as @ bs) n = amount as n + amount bs n"
  by (simp add: amount_def)

lemma amount_mset: "mset as = mset bs \<Longrightarrow> amount as n = amount bs n"
proof -
  have "amount xs n = sum_mset (image_mset snd (filter_mset (\<lambda>p. upper (fst p) = n) (mset xs)))" for xs
    unfolding amount_def sum_mset_sum_list [symmetric] by (simp flip: mset_filter)
  then show "mset as = mset bs \<Longrightarrow> amount as n = amount bs n" by simp
qed

lemma add_order_get: "dict_get (add_order d p) n 0 = dict_get d n 0 + (if upper (fst p) = n then snd p else 0)"
  by (cases p) (auto simp: add_order_def)

lemma foldl_add_order:
  "distinct (map fst d) \<Longrightarrow> \<forall>k \<in> fst ` set d. upper k = k \<Longrightarrow>
   (\<forall>n. dict_get (foldl add_order d os) n 0 = dict_get d n 0 + amount os n) \<and>
   distinct (map fst (foldl add_order d os)) \<and> (\<forall>k \<in> fst ` set (foldl add_order d os). upper k = k)"
proof (induction os arbitrary: d)
  case (Cons p os)
  have d: "distinct (map fst (add_order d p))"
    using Cons.prems(1) by (cases p) (simp add: add_order_def distinct_update)
  have u: "\<forall>k \<in> fst ` set (add_order d p). upper k = k"
    using Cons.prems(2) by (cases p) (simp add: add_order_def dom_update ball_Un comp_def)
  from Cons.IH [OF d u] show ?case by (simp add: add_order_get)
qed simp

lemma foldl_foldl_concat: "foldl (foldl f) d xss = foldl f d (concat xss)"
  by (induction xss arbitrary: d) simp_all

lemma order_value_distinct: "distinct (map fst os) \<Longrightarrow> order_value os n = dict_get os n 0"
  by (simp add: order_value_def dict_of_id)

lemma distinct_map_sort: "distinct (map f (sort xs)) \<longleftrightarrow> distinct (map f xs)"
proof (rule mset_eq_imp_distinct_iff)
  show "mset (map f (sort xs)) = mset (map f xs)" unfolding mset_map by simp
qed

lemma dict_get_filter_sort:
  assumes "distinct (map fst d)"
  shows "dict_get (sort (filter (\<lambda>(n, v). v \<noteq> (0 :: int)) d)) k 0 = dict_get d k 0"
proof -
  let ?f = "filter (\<lambda>(n, v). v \<noteq> 0) d"
  have df: "distinct (map fst ?f)" using assms by (simp add: distinct_map_filter)
  have "map_of (sort ?f) = map_of ?f"
    by (rule map_of_inject_set [THEN iffD2]) (simp_all add: df distinct_map_sort)
  moreover have "map_of ?f k = (case map_of d k of None \<Rightarrow> None | Some v \<Rightarrow> if v \<noteq> 0 then Some v else None)"
    using assms by (induction d) (auto split: option.splits dest: map_of_SomeD intro: rev_image_eqI)
  ultimately show ?thesis by (simp add: dict_get_def split: option.splits)
qed

section \<open>Combination\<close>

lemma combine_facts:
  "normal_orders (combine_coupling_order_tuples ts) \<and>
   order_value (combine_coupling_order_tuples ts) n = amount (concat ts) n"
proof -
  let ?d = "foldl add_order [] (concat ts)"
  have d: "(\<forall>n. dict_get ?d n 0 = amount (concat ts) n) \<and> distinct (map fst ?d) \<and> (\<forall>k \<in> fst ` set ?d. upper k = k)"
    using foldl_add_order [of "[]" "concat ts"] by simp
  have c: "combine_coupling_order_tuples ts = sort (filter (\<lambda>(n, v). v \<noteq> 0) ?d)"
    by (simp add: combine_coupling_order_tuples_def foldl_foldl_concat)
  have dd: "distinct (map fst (combine_coupling_order_tuples ts))"
    using d by (simp add: c distinct_map_sort distinct_map_filter)
  moreover have "\<forall>(n, v) \<in> set (combine_coupling_order_tuples ts). upper n = n \<and> v \<noteq> 0"
    using d by (auto simp: c)
  moreover have "sorted (combine_coupling_order_tuples ts)" by (simp add: c)
  moreover have "order_value (combine_coupling_order_tuples ts) n = amount (concat ts) n"
    using d dict_get_filter_sort [of ?d n] by (simp add: order_value_distinct dd) (simp add: c)
  ultimately show ?thesis by (simp add: normal_orders_def)
qed

lemmas combine_normal [simp, intro] = combine_facts [THEN conjunct1]
  and combine_value [simp] = combine_facts [THEN conjunct2]

lemma normal_Nil [simp]: "normal_orders []"
  by (simp add: normal_orders_def)

lemma order_value_Nil [simp]: "order_value [] n = 0"
  by (simp add: order_value_def dict_of_def)

lemma normal_mem_iff:
  assumes "normal_orders os"
  shows "(n, v) \<in> set os \<longleftrightarrow> v \<noteq> 0 \<and> order_value os n = v"
proof -
  have d: "distinct (map fst os)" using assms by (simp add: normal_orders_def)
  have "(n, v) \<in> set os \<longleftrightarrow> map_of os n = Some v" using d by simp
  moreover have "(n, v) \<in> set os \<Longrightarrow> v \<noteq> 0" using assms by (auto simp: normal_orders_def)
  moreover have "v \<noteq> 0 \<Longrightarrow> map_of os n = Some v \<longleftrightarrow> order_value os n = v"
    unfolding order_value_distinct [OF d] dict_get_def by (cases "map_of os n") simp_all
  ultimately show ?thesis by blast
qed

lemma normal_orders_eqI:
  assumes "normal_orders a" "normal_orders b" "\<forall>n. order_value a n = order_value b n"
  shows "a = b"
proof (rule sorted_distinct_set_unique)
  show "set a = set b" using assms by (auto simp: normal_mem_iff)
qed (use assms in \<open>simp_all add: normal_orders_def distinct_map\<close>)

lemma amount_normal: "normal_orders os \<Longrightarrow> amount os n = order_value os n"
proof -
  assume a: "normal_orders os"
  then have d: "distinct (map fst os)" and u: "\<forall>p \<in> set os. upper (fst p) = fst p"
    by (auto simp: normal_orders_def)
  have "distinct (map fst ps) \<Longrightarrow> \<forall>p \<in> set ps. upper (fst p) = fst p \<Longrightarrow> amount ps n = dict_get ps n 0"
    for ps :: orders
  proof (induction ps)
    case (Cons p ps)
    have "dict_get ps n 0 = 0" if "fst p = n"
      using Cons.prems(1) that by (simp add: dict_get_def map_of_eq_None_iff [THEN iffD2])
    with Cons show ?case by (auto simp: dict_get_def)
  qed simp
  with d u show ?thesis by (simp add: order_value_distinct)
qed

lemma within_limits_iff:
  assumes "normal_orders os"
  shows "coupling_orders_within_limits os limits \<longleftrightarrow> (\<forall>(n, l) \<in> set limits. order_value os n \<le> l)"
proof -
  have "map (\<lambda>(n, v). (upper n, v)) os = os"
    using assms by (intro map_idI) (auto simp: normal_orders_def)
  then show ?thesis by (simp add: coupling_orders_within_limits_def order_value_def)
qed

lemma combine_le:
  "orders_le a a' \<Longrightarrow> orders_le b b' \<Longrightarrow> normal_orders a \<Longrightarrow> normal_orders a' \<Longrightarrow> normal_orders b \<Longrightarrow> normal_orders b' \<Longrightarrow>
   orders_le (combine_coupling_order_tuples [a, b, c]) (combine_coupling_order_tuples [a', b', c])"
  unfolding orders_le_def by (simp add: amount_normal add_mono)

lemma within_limits_le:
  assumes "orders_le a b" "normal_orders a" "normal_orders b" "coupling_orders_within_limits b limits"
  shows "coupling_orders_within_limits a limits"
  unfolding within_limits_iff [OF assms(2)]
proof (clarify)
  fix n l assume "(n, l) \<in> set limits"
  then have "order_value b n \<le> l" using assms(4) by (simp only: within_limits_iff [OF assms(3)]) blast
  then show "order_value a n \<le> l" using assms(1) by (metis orders_le_def order_trans)
qed

section \<open>Dominance and the Pareto filter\<close>

lemma dominate_iff:
  "coupling_orders_dominate a b \<longleftrightarrow> orders_le a b \<and> (\<exists>n. order_value a n < order_value b n)"
proof -
  have z: "dict_get d k 0 = 0" if "k \<notin> set (map fst d)" for d :: orders and k
    using that by (simp add: dict_get_def map_of_eq_None_iff [THEN iffD2])
  let ?K = "set (map fst (dict_of a) @ map fst (dict_of b))"
  have "(\<forall>k \<in> ?K. P (order_value a k) (order_value b k)) \<longleftrightarrow> (\<forall>k. P (order_value a k) (order_value b k))"
    if "P 0 0" for P :: "int \<Rightarrow> int \<Rightarrow> bool"
  proof (intro iffI allI ballI)
    fix k assume k: "\<forall>k \<in> ?K. P (order_value a k) (order_value b k)"
    show "P (order_value a k) (order_value b k)"
    proof (cases "k \<in> ?K")
      case False
      then have "order_value a k = 0" "order_value b k = 0" by (auto simp: order_value_def intro!: z)
      with that show ?thesis by simp
    qed (use k in blast)
  qed simp
  from this [of "(\<le>)"] this [of "\<lambda>x y. \<not> x < y"] show ?thesis
    unfolding coupling_orders_dominate_def orders_le_def Let_def order_value_def by (simp only: order_refl less_irrefl) blast
qed

lemma dominate_le: "coupling_orders_dominate a b \<Longrightarrow> orders_le a b"
  by (simp add: dominate_iff)

lemma dominate_irrefl [simp]: "\<not> coupling_orders_dominate a a"
  by (simp add: dominate_iff)

lemma dominate_trans: "coupling_orders_dominate a b \<Longrightarrow> orders_le b c \<Longrightarrow> coupling_orders_dominate a c"
  unfolding dominate_iff orders_le_def by (meson order_trans less_le_trans)

lemma dominate_asym: "coupling_orders_dominate a b \<Longrightarrow> \<not> coupling_orders_dominate b a"
  by (metis dominate_irrefl dominate_le dominate_trans)

lemma le_dominate: "orders_le a b \<Longrightarrow> coupling_orders_dominate b c \<Longrightarrow> coupling_orders_dominate a c"
  unfolding dominate_iff orders_le_def by (meson order_trans le_less_trans)

lemma le_not_dominate:
  "normal_orders a \<Longrightarrow> normal_orders b \<Longrightarrow> orders_le a b \<Longrightarrow> \<not> coupling_orders_dominate a b \<Longrightarrow> a = b"
  by (rule normal_orders_eqI) (auto simp: dominate_iff orders_le_def order.order_iff_strict)

lemma set_pareto:
  "set (pareto_minimal_coupling_orders ts) = {c \<in> set ts. \<forall>other \<in> set ts. \<not> coupling_orders_dominate other c}"
  by (auto simp: pareto_minimal_coupling_orders_def)

lemma pareto_sorted: "sorted_wrt (<) (pareto_minimal_coupling_orders ts)"
  unfolding pareto_minimal_coupling_orders_def Let_def
  by (rule sorted_wrt_filter) (simp add: strict_sorted_iff)

lemma pareto_cover: "c \<in> set ts \<Longrightarrow> \<exists>m \<in> set (pareto_minimal_coupling_orders ts). orders_le m c"
proof -
  assume c: "c \<in> set ts"
  let ?A = "{t \<in> set ts. orders_le t c}"
  have "\<exists>m \<in> ?A. \<forall>x \<in> ?A. x \<noteq> m \<longrightarrow> \<not> coupling_orders_dominate x m"
  proof (rule Finite_Set.bex_min_element)
    show "asymp_on ?A coupling_orders_dominate"
      by (intro asymp_onI dominate_asym)
    show "transp_on ?A coupling_orders_dominate"
      by (rule transp_onI) (rule dominate_trans [OF _ dominate_le])
    show "?A \<noteq> {}" using c by auto
  qed simp
  then obtain m where m: "m \<in> set ts" "orders_le m c" "\<forall>x \<in> ?A. x \<noteq> m \<longrightarrow> \<not> coupling_orders_dominate x m" by blast
  have "\<not> coupling_orders_dominate x m" if "x \<in> set ts" for x
  proof
    assume x: "coupling_orders_dominate x m"
    then have "orders_le x c" using m(2) by (blast dest: dominate_le orders_le_trans)
    with m(3) that x show False by auto
  qed
  with m show ?thesis by (auto simp: set_pareto)
qed

section \<open>Minimal-order inference\<close>

lemma foldl_envelope:
  "(\<forall>v n'. (n', v) \<in> set os \<and> upper n' = n \<longrightarrow> v \<le> dict_get (foldl widen_envelope d os) n 0) \<and>
   dict_get d n 0 \<le> dict_get (foldl widen_envelope d os) n 0 \<and>
   (dict_get (foldl widen_envelope d os) n 0 = dict_get d n 0 \<or> dict_get (foldl widen_envelope d os) n 0 = 0 \<or>
    (\<exists>n'. (n', dict_get (foldl widen_envelope d os) n 0) \<in> set os \<and> upper n' = n))"
proof (induction os arbitrary: d)
  case (Cons p os)
  obtain m v where p: "p = (m, v)" by (cases p)
  have step: "dict_get (widen_envelope d p) n 0 = (if n = upper m then max (dict_get d n 0) v else dict_get d n 0)"
    by (simp add: p widen_envelope_def)
  show ?case using Cons.IH [of "widen_envelope d p"] unfolding step
    by (auto simp: p max_def split: if_splits)
qed simp

lemma envelope_bound: "(n, v) \<in> set t \<Longrightarrow> t \<in> set ts \<Longrightarrow> upper n = n \<Longrightarrow> v \<le> dict_get (coupling_order_envelope ts) n 0"
  using foldl_envelope [of "concat ts" n "[]"] by (auto simp: coupling_order_envelope_def foldl_foldl_concat)

lemma envelope_names: "fst ` set (coupling_order_envelope ts) = (upper \<circ> fst) ` set (concat ts)"
proof -
  have w: "fst ` set (widen_envelope d p) = insert (upper (fst p)) (fst ` set d)" for d p
    by (cases p) (simp add: widen_envelope_def dom_update)
  have "fst ` set (foldl widen_envelope d os) = fst ` set d \<union> (upper \<circ> fst) ` set os" for d os
    by (induction os arbitrary: d) (simp_all add: w)
  from this [of "[]" "concat ts"] show ?thesis by (simp add: coupling_order_envelope_def foldl_foldl_concat)
qed

lemma envelope_nonneg: "0 \<le> dict_get (coupling_order_envelope ts) n 0"
  using foldl_envelope [of "concat ts" n "[]"] by (auto simp: coupling_order_envelope_def foldl_foldl_concat)

lemma envelope_attained:
  "dict_get (coupling_order_envelope ts) n 0 = 0 \<or>
   (\<exists>t \<in> set ts. \<exists>n'. (n', dict_get (coupling_order_envelope ts) n 0) \<in> set t \<and> upper n' = n)"
  using foldl_envelope [of "concat ts" n "[]"] by (auto simp: coupling_order_envelope_def foldl_foldl_concat)

lemma normal_within_envelope:
  assumes "normal_orders t" "t \<in> set ts"
  shows "order_value t n \<le> dict_get (coupling_order_envelope ts) n 0"
proof (cases "order_value t n = 0")
  case False
  then have m: "(n, order_value t n) \<in> set t" using assms(1) by (simp add: normal_mem_iff)
  with assms(1) have "upper n = n" by (auto simp: normal_orders_def)
  from envelope_bound [OF m assms(2) this] show ?thesis .
qed (simp add: envelope_nonneg)

lemma infer_limits_within:
  assumes "normal_orders t" "t \<in> set (minimal_totals totals (dict_of (map (\<lambda>(n, v). (upper n, max 1 v)) hs)))"
  shows "coupling_orders_within_limits t (infer_minimal_limits totals hs)"
  using normal_within_envelope [OF assms] unfolding within_limits_iff [OF assms(1)]
  by (auto simp: infer_minimal_limits_def Let_def)

section \<open>Properties\<close>

text \<open>
  \<open>_combine_coupling_order_tuples\<close> returns the one canonical tuple (sorted, distinct
  upper-cased names, no zero) whose value at every name is the sum of all rows of that name; so
  the total of a tree of combinations depends only on the multiset of the rows combined, and
  combining in stages is combining at once.
\<close>

theorem combine_orders_canonical:
  "normal_orders (combine_coupling_order_tuples ts) \<and>
   (\<forall>n. order_value (combine_coupling_order_tuples ts) n = amount (concat ts) n) \<and>
   (mset (concat ts) = mset (concat us) \<longrightarrow> combine_coupling_order_tuples ts = combine_coupling_order_tuples us) \<and>
   combine_coupling_order_tuples (combine_coupling_order_tuples ts # us) = combine_coupling_order_tuples (ts @ us)"
proof (intro conjI impI)
  assume m: "mset (concat ts) = mset (concat us)"
  show "combine_coupling_order_tuples ts = combine_coupling_order_tuples us"
    by (intro normal_orders_eqI allI) (simp_all only: combine_normal combine_value amount_mset [OF m])
next
  show "combine_coupling_order_tuples (combine_coupling_order_tuples ts # us) = combine_coupling_order_tuples (ts @ us)"
    by (intro normal_orders_eqI) (simp_all add: amount_normal)
qed simp_all

theorem combine_orders_canonical_witness:
  "combine_coupling_order_tuples [[(''qcd'', 2), (''QED'', 1)], [(''QCD'', 1), (''qed'', -1)]]
     = combine_coupling_order_tuples [[(''QCD'', 1), (''qed'', -1)], [(''qcd'', 2), (''QED'', 1)]] \<and>
   combine_coupling_order_tuples [[(''qcd'', 2), (''QED'', 1)], [(''QCD'', 1), (''qed'', -1)]] = [(''QCD'', 3)]"
  (is "?c [?a, ?b] = _ \<and> _")
proof
  have "mset (concat [?a, ?b]) = mset (concat [?b, ?a])"
    unfolding concat.simps mset_append append_Nil2 by (rule union_commute)
  then show "?c [?a, ?b] = ?c [?b, ?a]"
    by (rule combine_orders_canonical [THEN conjunct2, THEN conjunct2, THEN conjunct1, THEN mp])
  show "?c [?a, ?b] = [(''QCD'', 3)]" by code_simp
qed

text \<open>
  The limits inferred by \<open>infer_minimal_coupling_order_limits\<close> admit every closure total
  of minimal degree, they are tight (a nonzero limit is the value of some minimal total), and they
  name exactly the orders of the model hierarchies and of the totals.
\<close>

theorem minimal_order_limits_exact:
  assumes "totals \<noteq> []" "\<forall>t \<in> set totals. normal_orders t"
    and hs: "hs = dict_of (map (\<lambda>(name, value). (upper name, max 1 value)) model_hierarchies)"
    and limits: "limits = infer_minimal_limits totals model_hierarchies"
  shows "minimal_totals totals hs \<noteq> [] \<and>
    (\<forall>t \<in> set (minimal_totals totals hs). coupling_orders_within_limits t limits) \<and>
    (\<forall>(n, l) \<in> set limits. l = 0 \<or> (\<exists>t \<in> set (minimal_totals totals hs). order_value t n = l)) \<and>
    fst ` set limits = fst ` set hs \<union> fst ` set (concat totals) \<and> sorted (map fst limits) \<and> distinct (map fst limits)"
proof (intro conjI ballI)
  let ?ms = "minimal_totals totals hs" and ?deg = "\<lambda>t. coupling_order_degree t (Some hs)"
  let ?env = "coupling_order_envelope ?ms"
  have sub: "set ?ms \<subseteq> set totals" by (auto simp: minimal_totals_def)
  have lim: "limits = map (\<lambda>n. (n, dict_get ?env n 0)) (sort (remdups (map fst hs @ map fst ?env @ map fst (concat totals))))"
    using assms(1) by (simp add: limits infer_minimal_limits_def Let_def hs)
  have "Min (?deg ` set totals) \<in> ?deg ` set totals" using assms(1) by simp
  then obtain t where "t \<in> set totals" "?deg t = Min (?deg ` set totals)" by force
  then show "?ms \<noteq> []" by (auto simp: minimal_totals_def filter_empty_conv)
  show "coupling_orders_within_limits t limits" if "t \<in> set ?ms" for t
    using infer_limits_within that sub assms(2) unfolding limits hs by blast
  show "case p of (n, l) \<Rightarrow> l = 0 \<or> (\<exists>t \<in> set ?ms. order_value t n = l)" if hp: "p \<in> set limits" for p
  proof -
    from hp obtain n where p: "p = (n, dict_get ?env n 0)" unfolding lim set_map by (elim imageE)
    have "dict_get ?env n 0 = 0 \<or> (\<exists>t \<in> set ?ms. order_value t n = dict_get ?env n 0)"
      using envelope_attained [of ?ms n]
    proof (elim disjE bexE exE conjE)
      fix t n' assume t: "t \<in> set ?ms" "(n', dict_get ?env n 0) \<in> set t" "upper n' = n"
      have "normal_orders t" using t(1) sub assms(2) by blast
      moreover from this have "upper n' = n'" using t(2) by (auto simp: normal_orders_def)
      ultimately show ?thesis using t by (auto simp: normal_mem_iff)
    qed simp
    then show ?thesis by (simp add: p)
  qed
  have "fst ` set ?env \<subseteq> fst ` set (concat totals)"
  proof
    fix n assume "n \<in> fst ` set ?env"
    then obtain t v n' where t: "t \<in> set ?ms" "(n', v) \<in> set t" "n = upper n'" by (auto simp: envelope_names)
    with sub have t': "t \<in> set totals" by blast
    with assms(2) have "normal_orders t" by blast
    with t have "n = n'" by (auto simp: normal_orders_def)
    with t t' show "n \<in> fst ` set (concat totals)" by force
  qed
  then show "fst ` set limits = fst ` set hs \<union> fst ` set (concat totals)"
    by (auto simp: lim image_image)
  show "sorted (map fst limits)" "distinct (map fst limits)" by (simp_all add: lim comp_def)
qed

theorem minimal_order_limits_exact_witness:
  "\<exists>limits. limits = infer_minimal_limits [[(''QCD'', 2)], [(''QED'', 2)]] [(''QED'', 2), (''qcd'', 1)] \<and>
    coupling_orders_within_limits [(''QCD'', 2)] limits \<and> \<not> coupling_orders_within_limits [(''QED'', 2)] limits"
proof -
  have n: "\<forall>t \<in> set [[(''QCD'', 2 :: int)], [(''QED'', 2)]]. normal_orders t" by code_simp
  have m: "[(''QCD'', 2)] \<in> set (minimal_totals [[(''QCD'', 2)], [(''QED'', 2)]]
      (dict_of (map (\<lambda>(name, value). (upper name, max 1 value)) [(''QED'', 2), (''qcd'', 1)])))" by code_simp
  have "coupling_orders_within_limits [(''QCD'', 2)] (infer_minimal_limits [[(''QCD'', 2)], [(''QED'', 2)]] [(''QED'', 2), (''qcd'', 1)])"
    by (rule minimal_order_limits_exact [OF list.distinct(2) n refl refl, THEN conjunct2, THEN conjunct1, THEN bspec, OF m])
  moreover have "\<not> coupling_orders_within_limits [(''QED'', 2)]
      (infer_minimal_limits [[(''QCD'', 2)], [(''QED'', 2)]] [(''QED'', 2), (''qcd'', 1)])" by code_simp
  ultimately show ?thesis by blast
qed

end
