(* ===== verification/Model_Vertices.thy ===== *)
theory Model_Vertices
  imports Source_IR Process_Expansion Coupling_Orders
begin

text \<open>
  The vertex table of a model as the DAG compiler reads it: the vertex methods of
  \<open>models/base.py\<close>, the sparse partner tables of \<open>generation/dag_reachability.py\<close> and the
  vertex filter of the colour engine (\<open>generation/dag_color.py\<close>). The methods a concrete model
  overrides are fields of the model record, contraction records are an opaque type, and the
  memo of \<open>vertices_for_inputs\<close> is left out, since it stores what it would recompute. The
  locale states what the sweeps rely on: a partner table may list more species than the vertices
  need, never fewer.
\<close>

record vertex =
  vx_kind :: int
  vx_particles :: "int \<times> int \<times> int"
  vx_coupling :: "rat \<times> rat"

record 'c vertex_model =
  vm_base :: model
  vm_vertices :: "vertex list"
  vm_direct :: "((int \<times> int \<times> int \<times> int) \<times> 'c option) list"
  vm_closure :: "((int \<times> int) \<times> 'c option) list"
  vm_skip_duplicate :: "vertex \<Rightarrow> bool"
  vm_vertex_orders :: "vertex \<Rightarrow> orders"
  vm_color_structure :: "vertex \<Rightarrow> string"

definition vx_left :: "vertex \<Rightarrow> int" where "vx_left v = fst (vx_particles v)"
definition vx_right :: "vertex \<Rightarrow> int" where "vx_right v = fst (snd (vx_particles v))"
definition vx_result :: "vertex \<Rightarrow> int" where "vx_result v = snd (snd (vx_particles v))"

section \<open>Vertex lookup\<close>

definition iter_vertices :: "'c vertex_model \<Rightarrow> String.literal \<Rightarrow> vertex list res" where
  "iter_vertices m accuracy =
     (if accuracy = STR ''lc'' then Inr (vm_vertices m)
      else if accuracy \<in> {STR ''nlc'', STR ''full''} then Inr (vm_vertices m)
      else Inl (ValueError STR ''unknown colour accuracy''))"

definition accepting :: "vertex list \<Rightarrow> int \<Rightarrow> int \<Rightarrow> vertex list" where
  "accepting vs left right = filter (\<lambda>v. vx_left v = left \<and> vx_right v = right) vs"

definition vertices_accepting :: "'c vertex_model \<Rightarrow> String.literal \<Rightarrow> int \<Rightarrow> int \<Rightarrow> vertex list res" where
  "vertices_accepting m accuracy left right = bindE (iter_vertices m accuracy) (\<lambda>vs. Inr (accepting vs left right))"

definition direct_contraction_possible :: "'c vertex_model \<Rightarrow> int \<Rightarrow> int \<Rightarrow> bool" where
  "direct_contraction_possible m left right =
     (\<exists>((l, _, r, _), contraction) \<in> set (vm_direct m). contraction \<noteq> None \<and> l = left \<and> r = right)"

definition direct_contraction_ir :: "'c vertex_model \<Rightarrow> int \<Rightarrow> int \<Rightarrow> int \<Rightarrow> int \<Rightarrow> 'c option" where
  "direct_contraction_ir m left right left_chirality right_chirality =
     (case map_of (vm_direct m) (left, left_chirality, right, right_chirality) of None \<Rightarrow> None | Some c \<Rightarrow> c)"

definition closure_contraction_ir :: "'c vertex_model \<Rightarrow> int \<Rightarrow> int \<Rightarrow> 'c option" where
  "closure_contraction_ir m pid chirality = (case map_of (vm_closure m) (pid, chirality) of None \<Rightarrow> None | Some c \<Rightarrow> c)"

section \<open>Sparse partner tables\<close>

type_synonym partner_table = "(int \<times> int list) list"

definition partner_rows :: "(int \<times> int) list \<Rightarrow> partner_table" where
  "partner_rows pairs = map (\<lambda>(left, rights). (left, sort (remdups rights))) (group_by (map (\<lambda>(left, right). (right, left)) pairs))"

definition right_particles_by_left :: "vertex list \<Rightarrow> partner_table" where
  "right_particles_by_left vs = partner_rows (map (\<lambda>v. (vx_left v, vx_right v)) vs)"

definition closure_right_particles_by_left :: "vertex list \<Rightarrow> particle_species list \<Rightarrow> partner_table" where
  "closure_right_particles_by_left vs ps =
     partner_rows (map (\<lambda>v. (vx_left v, vx_right v)) vs @
       concat (map (\<lambda>p. [(pt_pdg p, pt_anti_pdg p), (pt_anti_pdg p, pt_pdg p)]) ps))"

definition partners_of :: "partner_table \<Rightarrow> int \<Rightarrow> int list" where
  "partners_of table left = (case map_of table left of None \<Rightarrow> [] | Some rights \<Rightarrow> rights)"

section \<open>The vertex filter of the colour engine\<close>

definition is_fundamental_colored_fermion :: "model \<Rightarrow> int \<Rightarrow> bool" where
  "is_fundamental_colored_fermion m pid = (\<bar>md_color_rep m pid\<bar> = 3 \<and> md_is_fermion m pid)"

definition is_fundamental_line_auxiliary :: "model \<Rightarrow> int \<Rightarrow> bool" where
  "is_fundamental_line_auxiliary m pid = (md_auxiliary_kind m pid = Some ''u1-subtraction-color-flow-vector'')"

definition vertex_pids :: "vertex \<Rightarrow> int list" where
  "vertex_pids v = [vx_left v, vx_right v, vx_result v]"

definition find_fundamental_line_auxiliary_ids :: "'c vertex_model \<Rightarrow> int list" where
  "find_fundamental_line_auxiliary_ids m =
     dedup [vertex_pids v ! i. v \<leftarrow> vm_vertices m, i \<leftarrow> [0..<3], is_fundamental_line_auxiliary (vm_base m) (vertex_pids v ! i),
       list_all (is_fundamental_colored_fermion (vm_base m)) (take i (vertex_pids v) @ drop (Suc i) (vertex_pids v))]"

definition external_fundamental_fermion_pair_count :: "model \<Rightarrow> process_leg list \<Rightarrow> nat" where
  "external_fundamental_fermion_pair_count m legs =
     (let pids = filter (is_fundamental_colored_fermion m) (map (l_outgoing_pdg \<circ> snd) (dict_of (map (\<lambda>leg. (l_label leg, leg)) legs)));
          reps = map (md_color_rep m) pids
      in min (length (filter (\<lambda>r. r = 3) reps)) (length (filter (\<lambda>r. r = -3) reps)))"

record color_engine =
  ce_auxiliary_ids :: "int list"
  ce_pair_count :: nat

definition make_color_engine :: "'c vertex_model \<Rightarrow> process_leg list \<Rightarrow> color_engine" where
  "make_color_engine m legs =
     \<lparr>ce_auxiliary_ids = find_fundamental_line_auxiliary_ids m,
      ce_pair_count = external_fundamental_fermion_pair_count (vm_base m) legs\<rparr>"

definition vertex_allowed :: "'c vertex_model \<Rightarrow> color_engine \<Rightarrow> vertex \<Rightarrow> bool" where
  "vertex_allowed m engine v =
     (if \<exists>pid \<in> set (vertex_pids v). pid \<in> set (ce_auxiliary_ids engine) then 2 \<le> ce_pair_count engine
      else if ce_auxiliary_ids engine \<noteq> [] \<and> 2 \<le> ce_pair_count engine \<and> vm_color_structure m v = ''fundamental-generator''
      then let reps = map (md_color_rep (vm_base m)) (vertex_pids v)
           in if count_list reps 8 = 1 \<and> sort (map abs (filter (\<lambda>r. r \<noteq> 8) reps)) = [3, 3]
              then reps \<in> {[3, 8, 3], [8, -3, -3], [-3, 3, 8]} else True
      else True)"

section \<open>The partner tables lose no vertex\<close>

lemma set_accepting [simp]: "v \<in> set (accepting vs l r) \<longleftrightarrow> v \<in> set vs \<and> vx_left v = l \<and> vx_right v = r"
  by (auto simp: accepting_def)

lemma partner_rows_iff: "r \<in> set (partners_of (partner_rows pairs) l) \<longleftrightarrow> (l, r) \<in> set pairs"
proof -
  let ?ps = "map (\<lambda>(l, r). (r, l)) pairs"
  have d: "distinct (map fst (group_by ?ps))" by (simp add: group_by_keys)
  have m: "map_of (partner_rows pairs) l = map_option (\<lambda>rs. sort (remdups rs)) (map_of (group_by ?ps) l)"
    unfolding partner_rows_def by (simp add: map_of_map)
  show ?thesis
  proof (cases "map_of (group_by ?ps) l")
    case None
    then have "l \<notin> set (map fst (group_by ?ps))" by (simp add: map_of_eq_None_iff)
    then have "l \<notin> set (map snd ?ps)" by (simp add: group_by_keys)
    with None show ?thesis by (force simp: partners_of_def m)
  next
    case (Some rs)
    then have "(l, rs) \<in> set (group_by ?ps)" by (rule map_of_SomeD)
    then have rs: "rs = map fst (filter (\<lambda>p. snd p = l) ?ps)" by (auto simp: group_by_eq grouped_def)
    have "set rs = {x. (l, x) \<in> set pairs}" unfolding rs by force
    then show ?thesis using Some by (auto simp: partners_of_def m)
  qed
qed

locale vertex_partners =
  fixes vs :: "vertex list" and partners :: "int \<Rightarrow> int list"
  assumes covers: "v \<in> set vs \<Longrightarrow> vx_right v \<in> set (partners (vx_left v))"
begin

text \<open>A search over the partners of the left species meets the same vertices as one over all pairs.\<close>

lemma search_complete:
  "(\<exists>r \<in> set (partners l). P r \<and> (\<exists>v \<in> set (accepting vs l r). Q r v)) \<longleftrightarrow>
   (\<exists>v \<in> set vs. vx_left v = l \<and> P (vx_right v) \<and> Q (vx_right v) v)"
  using covers by fastforce

end

interpretation vertex_rights: vertex_partners vs "partners_of (right_particles_by_left vs)" for vs
  by unfold_locales (auto simp: right_particles_by_left_def partner_rows_iff)

interpretation closure_rights: vertex_partners vs "partners_of (closure_right_particles_by_left vs ps)" for vs ps
  by unfold_locales (auto simp: closure_right_particles_by_left_def partner_rows_iff)

lemma closure_rights_iff:
  "r \<in> set (partners_of (closure_right_particles_by_left vs ps) l) \<longleftrightarrow>
     (\<exists>v \<in> set vs. vx_left v = l \<and> vx_right v = r) \<or>
     (\<exists>p \<in> set ps. (l, r) = (pt_pdg p, pt_anti_pdg p) \<or> (l, r) = (pt_anti_pdg p, pt_pdg p))"
  by (auto simp: closure_right_particles_by_left_def partner_rows_iff)

end
