(* ===== verification/Reachability.thy ===== *)
theory Reachability
  imports Model_Vertices Masks
begin

text \<open>
  The reachability pre-pass of the DAG compiler (\<open>generation/dag_reachability.py\<close>): which
  triples of external mask, particle species and coupling orders can be built from the external
  legs and can feed an amplitude closure. The nested dictionaries of the source
  (mask, then species, then set of order tuples) are kept as one list of triples without
  repetition; no result depends on the order in which a set is walked. Every leg built by
  \<open>build_model_process_ir\<close> has an outgoing particle, so the branch skipping a leg without one
  has no counterpart. The sweep goes over masks in \<open>masks_by_size\<close> order; the backward
  marking is a worklist whose termination is proved from the finite set of recorded parents.

  The specification is two inductive predicates: the states that can be built, and the built
  states that feed a closure. The first pre-pass returns exactly the latter; the second returns
  exactly the Pareto-minimal order totals of the closures although it keeps only Pareto-minimal
  tuples in its table.
\<close>

type_synonym reach_state = "mask \<times> int \<times> orders"

record 'c reach_env =
  re_full :: mask
  re_legs :: "process_leg list"
  re_model :: "'c vertex_model"
  re_vertices :: "vertex list"
  re_engine :: color_engine
  re_closure_masks :: "mask set option"
  re_color_masks :: "mask set option"
  re_limits :: orders
  re_ignored_particles :: "int list"
  re_ignored_kinds :: "int list"

section \<open>The forward sweep\<close>

definition add_state :: "'a \<Rightarrow> 'a list \<Rightarrow> 'a list" where
  "add_state s states = (if s \<in> set states then states else states @ [s])"

definition add_states :: "'a list \<Rightarrow> 'a list \<Rightarrow> 'a list" where
  "add_states new states = foldl (\<lambda>st s. add_state s st) states new"

definition source_states :: "'c reach_env \<Rightarrow> reach_state list" where
  "source_states env =
     add_states [(push_bit (nat (l_label leg - 1)) 1, l_outgoing_pdg leg, []). leg \<leftarrow> re_legs env,
       l_outgoing_pdg leg \<notin> set (re_ignored_particles env)] []"

definition species_at :: "reach_state list \<Rightarrow> mask \<Rightarrow> int list" where
  "species_at states m = dedup [p. (m', p, os) \<leftarrow> states, m' = m]"

definition orders_at :: "reach_state list \<Rightarrow> mask \<Rightarrow> int \<Rightarrow> orders list" where
  "orders_at states m p = [os. (m', p', os) \<leftarrow> states, m' = m, p' = p]"

definition mask_allowed :: "'c reach_env \<Rightarrow> mask \<Rightarrow> bool" where
  "mask_allowed env m = mask_allowed_by_reachability m (re_closure_masks env) (re_color_masks env)"

definition usable_vertex :: "'c reach_env \<Rightarrow> vertex \<Rightarrow> bool" where
  "usable_vertex env v =
     (\<not> (vx_kind v \<in> set (re_ignored_kinds env) \<or> vx_result v \<in> set (re_ignored_particles env) \<or>
        \<not> vertex_allowed (re_model env) (re_engine env) v \<or> vm_skip_duplicate (re_model env) v))"

text \<open>The products of one vertex: the orders of both inputs and the total within the limits.\<close>

definition vertex_products :: "'c reach_env \<Rightarrow> vertex \<Rightarrow> orders list \<Rightarrow> orders list \<Rightarrow> (orders \<times> orders \<times> orders) list" where
  "vertex_products env v lefts rights =
     [(lo, ro, c). lo \<leftarrow> lefts, ro \<leftarrow> rights,
        c \<leftarrow> [combine_coupling_order_tuples [lo, ro, vm_vertex_orders (re_model env) v]],
        coupling_orders_within_limits c (re_limits env)]"

text \<open>The input species and usable vertices met at one ordered split.\<close>

definition split_vertices :: "'c reach_env \<Rightarrow> reach_state list \<Rightarrow> mask \<times> mask \<Rightarrow> (int \<times> int \<times> vertex) list" where
  "split_vertices env states = (\<lambda>(l, r).
     [(lp, rp, v). lp \<leftarrow> species_at states l,
        rp \<leftarrow> partners_of (right_particles_by_left (re_vertices env)) lp, orders_at states r rp \<noteq> [],
        v \<leftarrow> accepting (re_vertices env) lp rp, usable_vertex env v])"

type_synonym transition = "reach_state \<times> reach_state \<times> reach_state"

definition split_transitions :: "'c reach_env \<Rightarrow> reach_state list \<Rightarrow> mask \<Rightarrow> mask \<times> mask \<Rightarrow> transition list" where
  "split_transitions env states m = (\<lambda>(l, r).
     [((m, vx_result v, c), (l, lp, lo), (r, rp, ro)).
        (lp, rp, v) \<leftarrow> split_vertices env states (l, r),
        (lo, ro, c) \<leftarrow> vertex_products env v (orders_at states l lp) (orders_at states r rp)])"

definition skipped_mask :: "'c reach_env \<Rightarrow> mask \<Rightarrow> bool" where
  "skipped_mask env m = (m AND (m - 1) = 0 \<or> m = re_full env \<or> \<not> mask_allowed env m)"

definition allowed_splits :: "'c reach_env \<Rightarrow> mask \<Rightarrow> (mask \<times> mask) list" where
  "allowed_splits env m = filter (\<lambda>(l, r). mask_allowed env l \<and> mask_allowed env r) (ordered_splits m)"

definition sweep_split :: "'c reach_env \<Rightarrow> mask \<Rightarrow> reach_state list \<times> transition list \<Rightarrow> mask \<times> mask
   \<Rightarrow> reach_state list \<times> transition list" where
  "sweep_split env m = (\<lambda>(possible, reverse) split.
     let found = split_transitions env possible m split
     in (add_states (map fst found) possible, add_states found reverse))"

definition sweep_mask :: "'c reach_env \<Rightarrow> reach_state list \<times> transition list \<Rightarrow> mask \<Rightarrow> reach_state list \<times> transition list" where
  "sweep_mask env st m = (if skipped_mask env m then st else foldl (sweep_split env m) st (allowed_splits env m))"

definition sweep :: "'c reach_env \<Rightarrow> reach_state list \<times> transition list" where
  "sweep env = foldl (sweep_mask env) (source_states env, []) (masks_by_size (re_full env))"

section \<open>Closures and the backward marking\<close>

definition closure_partners :: "'c reach_env \<Rightarrow> int \<Rightarrow> int list" where
  "closure_partners env = partners_of (closure_right_particles_by_left (re_vertices env) (md_particles (vm_base (re_model env))))"

text \<open>The order totals within the limits with which two states close.\<close>

definition closing_totals :: "'c reach_env \<Rightarrow> int \<times> orders \<Rightarrow> int \<times> orders \<Rightarrow> orders list" where
  "closing_totals env = (\<lambda>(lp, lo) (rp, ro).
     filter (\<lambda>t. coupling_orders_within_limits t (re_limits env))
       ((if direct_contraction_possible (re_model env) lp rp then [combine_coupling_order_tuples [lo, ro, []]] else []) @
        [combine_coupling_order_tuples [lo, ro, vm_vertex_orders (re_model env) v]. v \<leftarrow> accepting (re_vertices env) lp rp,
           usable_vertex env v, closure_contraction_ir (re_model env) (vx_result v) 0 \<noteq> None]))"

definition closing_pairs :: "'c reach_env \<Rightarrow> reach_state list \<Rightarrow> (mask \<times> mask) list \<Rightarrow> (reach_state \<times> reach_state) list" where
  "closing_pairs env possible splits =
     [((l, lp, lo), (r, rp, ro)). (l, r) \<leftarrow> splits, lp \<leftarrow> species_at possible l, rp \<leftarrow> closure_partners env lp,
        lo \<leftarrow> orders_at possible l lp, ro \<leftarrow> orders_at possible r rp]"

definition closing_states :: "'c reach_env \<Rightarrow> reach_state list \<Rightarrow> (mask \<times> mask) list \<Rightarrow> reach_state list" where
  "closing_states env possible splits =
     add_states (concat (map (\<lambda>(ls, rs). [ls, rs])
       (filter (\<lambda>(ls, rs). closing_totals env (snd ls) (snd rs) \<noteq> []) (closing_pairs env possible splits)))) []"

definition parents_of :: "('s \<times> 's \<times> 's) list \<Rightarrow> 's \<Rightarrow> 's list" where
  "parents_of reverse s = concat (map (\<lambda>(_, ls, rs). [ls, rs]) (filter (\<lambda>t. fst t = s) reverse))"

definition mark_parent :: "'s list \<times> 's list \<Rightarrow> 's \<Rightarrow> 's list \<times> 's list" where
  "mark_parent = (\<lambda>(useful, pending) p. if p \<in> set useful then (useful, pending) else (useful @ [p], pending @ [p]))"

lemma mark_parents:
  "\<exists>new. foldl mark_parent (useful, pending) ps = (useful @ new, pending @ new) \<and>
     set new = set ps - set useful \<and> distinct new"
proof (induction ps arbitrary: useful pending)
  case (Cons p ps)
  show ?case
  proof (cases "p \<in> set useful")
    case True
    with Cons.IH [of useful pending] show ?thesis by (auto simp: mark_parent_def)
  next
    case False
    from Cons.IH [of "useful @ [p]" "pending @ [p]"] obtain new where
      "foldl mark_parent (useful @ [p], pending @ [p]) ps = ((useful @ [p]) @ new, (pending @ [p]) @ new)"
      "set new = set ps - set (useful @ [p])" "distinct new" by blast
    with False show ?thesis by (intro exI [of _ "p # new"]) (auto simp: mark_parent_def)
  qed
qed simp

function mark_useful :: "('s \<times> 's \<times> 's) list \<Rightarrow> 's list \<Rightarrow> 's list \<Rightarrow> 's list" where
  "mark_useful reverse useful [] = useful"
| "mark_useful reverse useful (s # pending) =
     (case foldl mark_parent (useful, pending) (parents_of reverse s) of
        (useful', pending') \<Rightarrow> mark_useful reverse useful' pending')"
  by pat_completeness auto

definition all_parents :: "('s \<times> 's \<times> 's) list \<Rightarrow> 's set" where
  "all_parents reverse = (\<Union>(_, ls, rs) \<in> set reverse. {ls, rs})"

lemma parents_subset: "set (parents_of reverse s) \<subseteq> all_parents reverse"
proof
  fix p assume "p \<in> set (parents_of reverse s)"
  then obtain t ls rs where "(t, ls, rs) \<in> set reverse" "p = ls \<or> p = rs" by (auto simp: parents_of_def)
  then show "p \<in> all_parents reverse" unfolding all_parents_def by (intro UN_I [of "(t, ls, rs)"]) auto
qed

text \<open>Each round either marks a parent that was not marked or shortens the queue.\<close>

termination mark_useful
proof (relation "(\<lambda>(reverse, useful, pending). card (all_parents reverse - set useful)) <*mlex*>
    measure (\<lambda>(reverse, useful, pending). length pending)")
  fix reverse :: "('s \<times> 's \<times> 's) list" and useful s pending useful' pending'
  assume x: "(useful', pending') = foldl mark_parent (useful, pending) (parents_of reverse s)"
  obtain new where new: "(useful', pending') = (useful @ new, pending @ new)"
      "set new = set (parents_of reverse s) - set useful"
    using mark_parents [of useful pending "parents_of reverse s"] unfolding x by blast
  have fin: "finite (all_parents reverse)" by (auto simp: all_parents_def)
  show "((reverse, useful', pending'), reverse, useful, s # pending)
      \<in> (\<lambda>(reverse, useful, pending). card (all_parents reverse - set useful)) <*mlex*>
        measure (\<lambda>(reverse, useful, pending). length pending)"
  proof (cases "new = []")
    case True
    then show ?thesis using new by (intro mlex_leq) auto
  next
    case False
    then have "\<exists>p. p \<in> set new" by (cases new) auto
    then obtain p where "p \<in> all_parents reverse - set useful" "p \<in> set (useful @ new)"
      using new(2) parents_subset by fastforce
    then have "all_parents reverse - set (useful @ new) \<subset> all_parents reverse - set useful" by auto
    then have "card (all_parents reverse - set (useful @ new)) < card (all_parents reverse - set useful)"
      using fin by (intro psubset_card_mono) auto
    then show ?thesis using new(1) by (intro mlex_less) auto
  qed
qed (intro wf_mlex wf_measure)

definition useful_states :: "'c reach_env \<Rightarrow> (mask \<times> mask) list \<Rightarrow> reach_state list" where
  "useful_states env splits =
     (case sweep env of (possible, reverse) \<Rightarrow>
        let closing = closing_states env possible splits in mark_useful reverse closing closing)"

section \<open>Closure totals with Pareto pruning\<close>

definition pareto_vertex :: "'c reach_env \<Rightarrow> mask \<Rightarrow> mask \<times> mask \<Rightarrow> reach_state list \<Rightarrow> int \<times> int \<times> vertex \<Rightarrow> reach_state list" where
  "pareto_vertex env m = (\<lambda>(l, r) possible (lp, rp, v).
     let found = map (\<lambda>(_, _, c). c) (vertex_products env v (orders_at possible l lp) (orders_at possible r rp));
         kept = pareto_minimal_coupling_orders (orders_at possible m (vx_result v) @ found)
     in filter (\<lambda>(m', p', _). (m', p') \<noteq> (m, vx_result v)) possible @ map (\<lambda>os. (m, vx_result v, os)) kept)"

definition pareto_split :: "'c reach_env \<Rightarrow> mask \<Rightarrow> reach_state list \<Rightarrow> mask \<times> mask \<Rightarrow> reach_state list" where
  "pareto_split env m possible split = foldl (pareto_vertex env m split) possible (split_vertices env possible split)"

definition pareto_mask :: "'c reach_env \<Rightarrow> reach_state list \<Rightarrow> mask \<Rightarrow> reach_state list" where
  "pareto_mask env possible m = (if skipped_mask env m then possible else foldl (pareto_split env m) possible (allowed_splits env m))"

definition pareto_sweep :: "'c reach_env \<Rightarrow> reach_state list" where
  "pareto_sweep env = foldl (pareto_mask env) (source_states env) (masks_by_size (re_full env))"

definition closure_totals :: "'c reach_env \<Rightarrow> (mask \<times> mask) list \<Rightarrow> orders list" where
  "closure_totals env splits =
     pareto_minimal_coupling_orders
       (concat (map (\<lambda>(ls, rs). closing_totals env (snd ls) (snd rs)) (closing_pairs env (pareto_sweep env) splits)))"

section \<open>The two entry points\<close>

definition reach_env_of ::
  "process_ir \<Rightarrow> 'c vertex_model \<Rightarrow> color_engine \<Rightarrow> mask set option \<Rightarrow> mask set option \<Rightarrow> orders \<Rightarrow> int list \<Rightarrow> int list
   \<Rightarrow> 'c reach_env res" where
  "reach_env_of process m engine closure color limits ignored_particles ignored_kinds =
     bindE (labels_mask (map l_label (i_legs process))) (\<lambda>full.
     bindE (iter_vertices m (i_color_accuracy process)) (\<lambda>vs.
     Inr \<lparr>re_full = full, re_legs = i_legs process, re_model = m, re_vertices = vs, re_engine = engine,
          re_closure_masks = closure, re_color_masks = color, re_limits = limits,
          re_ignored_particles = ignored_particles, re_ignored_kinds = ignored_kinds\<rparr>))"

definition useful_states_by_mask ::
  "process_ir \<Rightarrow> 'c vertex_model \<Rightarrow> color_engine \<Rightarrow> (mask \<times> mask) list \<Rightarrow> mask set option \<Rightarrow> mask set option
   \<Rightarrow> orders \<Rightarrow> int list \<Rightarrow> int list \<Rightarrow> reach_state list res" where
  "useful_states_by_mask process m engine splits closure color limits ignored_particles ignored_kinds =
     bindE (reach_env_of process m engine closure color limits ignored_particles ignored_kinds) (\<lambda>env.
       Inr (useful_states env splits))"

definition closure_total_coupling_orders ::
  "process_ir \<Rightarrow> 'c vertex_model \<Rightarrow> color_engine \<Rightarrow> (mask \<times> mask) list \<Rightarrow> mask set option \<Rightarrow> mask set option
   \<Rightarrow> orders \<Rightarrow> int list \<Rightarrow> int list \<Rightarrow> orders list res" where
  "closure_total_coupling_orders process m engine splits closure color limits ignored_particles ignored_kinds =
     bindE (reach_env_of process m engine closure color limits ignored_particles ignored_kinds) (\<lambda>env.
       Inr (closure_totals env splits))"

definition state_allowed_by_reachability :: "reach_state list \<Rightarrow> mask \<Rightarrow> int \<Rightarrow> orders \<Rightarrow> bool" where
  "state_allowed_by_reachability useful m particle os = (os \<in> set (orders_at useful m particle))"

section \<open>Specification\<close>

definition vertex_step :: "'c reach_env \<Rightarrow> reach_state \<Rightarrow> reach_state \<Rightarrow> reach_state \<Rightarrow> bool" where
  "vertex_step env = (\<lambda>(l, lp, lo) (r, rp, ro) (m, p, c).
     \<exists>v \<in> set (re_vertices env). vx_particles v = (lp, rp, p) \<and> usable_vertex env v \<and>
       c = combine_coupling_order_tuples [lo, ro, vm_vertex_orders (re_model env) v] \<and>
       coupling_orders_within_limits c (re_limits env))"

definition merge_masks :: "'c reach_env \<Rightarrow> mask \<Rightarrow> mask \<Rightarrow> mask \<Rightarrow> bool" where
  "merge_masks env l r m \<longleftrightarrow> 0 < l \<and> 0 < r \<and> l AND r = 0 \<and> l OR r = m \<and> submask m (re_full env) \<and> m \<noteq> re_full env \<and>
     mask_allowed env l \<and> mask_allowed env r \<and> mask_allowed env m"

definition merges :: "'c reach_env \<Rightarrow> reach_state \<Rightarrow> reach_state \<Rightarrow> reach_state \<Rightarrow> bool" where
  "merges env ls rs s \<longleftrightarrow> merge_masks env (fst ls) (fst rs) (fst s) \<and> vertex_step env ls rs s"

inductive possible_state :: "'c reach_env \<Rightarrow> reach_state \<Rightarrow> bool" for env where
  source: "s \<in> set (source_states env) \<Longrightarrow> possible_state env s"
| merge: "possible_state env ls \<Longrightarrow> possible_state env rs \<Longrightarrow> merges env ls rs s \<Longrightarrow> possible_state env s"

definition closes :: "'c reach_env \<Rightarrow> (mask \<times> mask) list \<Rightarrow> reach_state \<Rightarrow> reach_state \<Rightarrow> orders \<Rightarrow> bool" where
  "closes env splits ls rs t \<longleftrightarrow> (fst ls, fst rs) \<in> set splits \<and> fst (snd rs) \<in> set (closure_partners env (fst (snd ls))) \<and>
     t \<in> set (closing_totals env (snd ls) (snd rs))"

inductive useful_state :: "'c reach_env \<Rightarrow> (mask \<times> mask) list \<Rightarrow> reach_state \<Rightarrow> bool" for env splits where
  closing: "possible_state env ls \<Longrightarrow> possible_state env rs \<Longrightarrow> closes env splits ls rs t \<Longrightarrow> s \<in> {ls, rs} \<Longrightarrow>
     useful_state env splits s"
| feeding: "useful_state env splits s \<Longrightarrow> possible_state env ls \<Longrightarrow> possible_state env rs \<Longrightarrow> merges env ls rs s \<Longrightarrow>
     p \<in> {ls, rs} \<Longrightarrow> useful_state env splits p"

section \<open>The forward sweep builds the possible states\<close>

lemma set_add_states [simp]: "set (add_states new states) = set states \<union> set new"
proof -
  have "set (foldl (\<lambda>st s. add_state s st) states new) = set states \<union> set new"
    by (induction new arbitrary: states) (auto simp: add_state_def)
  then show ?thesis by (simp add: add_states_def)
qed

lemma set_species_at [simp]: "p \<in> set (species_at states m) \<longleftrightarrow> (\<exists>os. (m, p, os) \<in> set states)"
  by (force simp: species_at_def)

lemma set_orders_at [simp]: "os \<in> set (orders_at states m p) \<longleftrightarrow> (m, p, os) \<in> set states"
  by (force simp: orders_at_def)

lemma orders_at_Nil_iff: "orders_at states m p \<noteq> [] \<longleftrightarrow> (\<exists>os. (m, p, os) \<in> set states)"
  using set_orders_at [of _ states m p] by (metis list.set_intros(1) neq_Nil_conv set_empty2 empty_iff)

lemma set_vertex_products:
  "(lo, ro, c) \<in> set (vertex_products env v los ros) \<longleftrightarrow> lo \<in> set los \<and> ro \<in> set ros \<and>
     c = combine_coupling_order_tuples [lo, ro, vm_vertex_orders (re_model env) v] \<and>
     coupling_orders_within_limits c (re_limits env)"
  by (auto simp: vertex_products_def)

lemma set_split_vertices:
  "(lp, rp, v) \<in> set (split_vertices env states (l, r)) \<longleftrightarrow>
     (\<exists>lo. (l, lp, lo) \<in> set states) \<and> (\<exists>ro. (r, rp, ro) \<in> set states) \<and>
     v \<in> set (re_vertices env) \<and> vx_left v = lp \<and> vx_right v = rp \<and> usable_vertex env v"
  using vertex_rights.covers [of v "re_vertices env"]
  by (auto simp: split_vertices_def orders_at_Nil_iff)

lemma set_split_transitions:
  "(s, ls, rs) \<in> set (split_transitions env states m (l, r)) \<longleftrightarrow>
     ls \<in> set states \<and> rs \<in> set states \<and> fst ls = l \<and> fst rs = r \<and> fst s = m \<and> vertex_step env ls rs s"
  (is "?L \<longleftrightarrow> ?R")
proof -
  obtain l' lp lo where ls: "ls = (l', lp, lo)" by (cases ls)
  obtain r' rp ro where rs: "rs = (r', rp, ro)" by (cases rs)
  obtain m' p c where s: "s = (m', p, c)" by (cases s)
  have "?L \<longleftrightarrow> l' = l \<and> r' = r \<and> m' = m \<and> (\<exists>v. (lp, rp, v) \<in> set (split_vertices env states (l, r)) \<and> p = vx_result v \<and>
      (lo, ro, c) \<in> set (vertex_products env v (orders_at states l lp) (orders_at states r rp)))"
    unfolding split_transitions_def ls rs s by (auto; force)
  also have "\<dots> \<longleftrightarrow> ?R"
    unfolding set_split_vertices set_vertex_products
    by (fastforce simp: ls rs s vertex_step_def vx_left_def vx_right_def vx_result_def)
  finally show ?thesis .
qed

lemma skipped_mask_singleton:
  assumes "m AND (m - 1) = 0" "l AND r = 0" "l OR r = (m :: nat)" "0 < l" "0 < r"
  shows False
proof -
  from complement_unique [OF assms(2,3)] have "submask l m" by blast
  moreover have "l \<noteq> m" using complement_unique [OF assms(2,3)] assms(5) by auto
  ultimately have "l < m" using submask_le by (meson le_neq_implies_less)
  with pred_and_greatest [of m m l] \<open>submask l m\<close> have "l \<le> (m - 1) AND m" by simp
  with assms(1,4) show False by (simp add: and.commute)
qed

lemma complement_pos: "0 < l \<Longrightarrow> 0 < (l OR r :: nat)"
  by (metis bit_eq_iff bit_or_iff bit_0_eq bot_apply bot_bool_def gr0I)

lemma merge_masks_iff:
  "merge_masks env l r m \<longleftrightarrow> m \<in> set (masks_by_size (re_full env)) \<and> \<not> skipped_mask env m \<and> (l, r) \<in> set (allowed_splits env m)"
proof -
  have "0 < m" if "0 < l" "l OR r = m"
    using that complement_pos [of l r] by simp
  then show ?thesis
    using skipped_mask_singleton [of m l r]
    by (auto simp: merge_masks_def skipped_mask_def allowed_splits_def set_masks_by_size set_ordered_splits)
qed

lemma transitions_frame:
  assumes "\<forall>s. fst s \<noteq> m \<longrightarrow> (s \<in> set a \<longleftrightarrow> s \<in> set b)" "l \<noteq> m" "r \<noteq> m"
  shows "set (split_transitions env a m (l, r)) = set (split_transitions env b m (l, r))"
proof -
  have "t \<in> set (split_transitions env a m (l, r)) \<longleftrightarrow> t \<in> set (split_transitions env b m (l, r))" for t
    by (cases t rule: prod_cases3) (use assms in \<open>auto simp only: set_split_transitions\<close>)
  then show ?thesis by blast
qed

text \<open>Within one mask the splits do not see each other's results.\<close>

lemma sweep_splits:
  assumes "\<forall>(l, r) \<in> set splits. l \<noteq> m \<and> r \<noteq> m"
  shows "case foldl (sweep_split env m) (possible, reverse) splits of (possible', reverse') \<Rightarrow>
     set reverse' = set reverse \<union> (\<Union>split \<in> set splits. set (split_transitions env possible m split)) \<and>
     set possible' = set possible \<union> fst ` (\<Union>split \<in> set splits. set (split_transitions env possible m split))"
  using assms
proof (induction splits rule: rev_induct)
  case (snoc split splits)
  obtain l r where lr: "split = (l, r)" by (cases split)
  obtain pos rev where f: "foldl (sweep_split env m) (possible, reverse) splits = (pos, rev)" by fastforce
  let ?U = "\<Union>split \<in> set splits. set (split_transitions env possible m split)"
  from snoc have IH: "set rev = set reverse \<union> ?U" "set pos = set possible \<union> fst ` ?U" by (simp_all add: f)
  have "\<forall>s \<in> fst ` ?U. fst s = m" by (auto simp: set_split_transitions)
  then have "\<forall>s. fst s \<noteq> m \<longrightarrow> (s \<in> set pos \<longleftrightarrow> s \<in> set possible)" unfolding IH(2) by blast
  then have T: "set (split_transitions env pos m split) = set (split_transitions env possible m split)"
    unfolding lr by (rule transitions_frame) (use snoc.prems lr in auto)
  have "foldl (sweep_split env m) (possible, reverse) (splits @ [split]) =
     (add_states (map fst (split_transitions env pos m split)) pos, add_states (split_transitions env pos m split) rev)"
    by (simp add: f) (simp add: sweep_split_def Let_def)
  moreover have "(\<Union>sp \<in> set (splits @ [split]). set (split_transitions env possible m sp)) =
      ?U \<union> set (split_transitions env possible m split)" by auto
  ultimately show ?case by (simp only: prod.case set_add_states set_map T IH image_Un Un_assoc simp_thms)
qed simp

definition swept :: "'c reach_env \<Rightarrow> mask list \<Rightarrow> reach_state list \<times> transition list \<Rightarrow> bool" where
  "swept env done = (\<lambda>(possible, reverse).
     set possible = {s. possible_state env s \<and> (s \<in> set (source_states env) \<or> fst s \<in> set done)} \<and>
     set reverse = {(s, ls, rs). merges env ls rs s \<and> possible_state env ls \<and> possible_state env rs \<and> fst s \<in> set done})"

lemma possible_merge_cases:
  "possible_state env s \<Longrightarrow> s \<in> set (source_states env) \<or>
     (\<exists>ls rs. possible_state env ls \<and> possible_state env rs \<and> merges env ls rs s)"
  by (cases rule: possible_state.cases) auto

lemma merges_earlier:
  assumes "masks_by_size (re_full env) = xs @ m # ys" "merges env ls rs s" "fst s = m"
  shows "fst ls \<in> set xs" "fst rs \<in> set xs"
proof -
  have "merge_masks env (fst ls) (fst rs) m" using assms by (simp add: merges_def)
  then have "(fst ls, fst rs) \<in> set (ordered_splits m)" by (simp add: merge_masks_iff allowed_splits_def)
  note mem = ordered_splits_members [OF this]
  show "fst ls \<in> set xs" by (rule masks_by_size_earlier [OF assms(1) mem(1) mem(3) mem(5)])
  show "fst rs \<in> set xs" by (rule masks_by_size_earlier [OF assms(1) mem(2) mem(4) mem(6)])
qed

lemma merges_not_skipped: "merges env ls rs s \<Longrightarrow> \<not> skipped_mask env (fst s)"
  by (simp add: merges_def merge_masks_iff)

lemma mask_transitions:
  assumes sw: "swept env xs (possible, reverse)" and split: "masks_by_size (re_full env) = xs @ m # ys"
    and ns: "\<not> skipped_mask env m"
  shows "(\<Union>sp \<in> set (allowed_splits env m). set (split_transitions env possible m sp)) =
     {(s, ls, rs). merges env ls rs s \<and> possible_state env ls \<and> possible_state env rs \<and> fst s = m}"
    (is "?N = ?M")
proof -
  have pos: "set possible = {s. possible_state env s \<and> (s \<in> set (source_states env) \<or> fst s \<in> set xs)}"
    using sw by (simp add: swept_def)
  have m: "m \<in> set (masks_by_size (re_full env))" by (simp add: split)
  have "(s, ls, rs) \<in> ?N \<longleftrightarrow> (s, ls, rs) \<in> ?M" for s ls rs
  proof
    assume "(s, ls, rs) \<in> ?N"
    then obtain l r where lr: "(l, r) \<in> set (allowed_splits env m)" "(s, ls, rs) \<in> set (split_transitions env possible m (l, r))"
      by fast
    from lr(2) have t: "ls \<in> set possible" "rs \<in> set possible" "fst ls = l" "fst rs = r" "fst s = m" "vertex_step env ls rs s"
      by (simp_all only: set_split_transitions)
    then have "merges env ls rs s" using lr(1) m ns by (simp add: merges_def merge_masks_iff)
    with t pos show "(s, ls, rs) \<in> ?M" by simp
  next
    assume "(s, ls, rs) \<in> ?M"
    then have a: "merges env ls rs s" "possible_state env ls" "possible_state env rs" "fst s = m" by simp_all
    from a pos merges_earlier [OF split a(1) a(4)] have "ls \<in> set possible" "rs \<in> set possible" by simp_all
    moreover from a have "(fst ls, fst rs) \<in> set (allowed_splits env m)" "vertex_step env ls rs s"
      by (simp_all add: merges_def merge_masks_iff)
    ultimately have "(s, ls, rs) \<in> set (split_transitions env possible m (fst ls, fst rs))"
      using a(4) by (simp only: set_split_transitions)
    with \<open>(fst ls, fst rs) \<in> _\<close> show "(s, ls, rs) \<in> ?N" by fast
  qed
  then show ?thesis by (intro set_eqI) (simp only: split_paired_all)
qed

lemma sweep_mask_swept:
  assumes sw: "swept env xs st" and split: "masks_by_size (re_full env) = xs @ m # ys"
  shows "swept env (xs @ [m]) (sweep_mask env st m)"
proof -
  obtain possible reverse where st: "st = (possible, reverse)" by (cases st)
  have pos: "set possible = {s. possible_state env s \<and> (s \<in> set (source_states env) \<or> fst s \<in> set xs)}"
    and rev: "set reverse = {(s, ls, rs). merges env ls rs s \<and> possible_state env ls \<and> possible_state env rs \<and> fst s \<in> set xs}"
    using sw by (simp_all add: swept_def st)
  let ?M = "{(s, ls, rs). merges env ls rs s \<and> possible_state env ls \<and> possible_state env rs \<and> fst s = m}"
  have at_m: "s \<in> set (source_states env) \<or> s \<in> fst ` ?M" if s: "possible_state env s" "fst s = m" for s
    using possible_merge_cases [OF s(1)] s(2) by force
  have goal: "swept env (xs @ [m]) (possible', reverse')"
    if "set reverse' = set reverse \<union> ?M" "set possible' = set possible \<union> fst ` ?M" for possible' reverse'
    unfolding swept_def prod.case
  proof
    show "set possible' = {s. possible_state env s \<and> (s \<in> set (source_states env) \<or> fst s \<in> set (xs @ [m]))}"
      unfolding that(2) pos using at_m by (auto intro: possible_state.merge)
    show "set reverse' = {(s, ls, rs). merges env ls rs s \<and> possible_state env ls \<and> possible_state env rs \<and> fst s \<in> set (xs @ [m])}"
      unfolding that(1) rev by auto
  qed
  show ?thesis
  proof (cases "skipped_mask env m")
    case True
    then have e: "?M = {}" using merges_not_skipped [of env] by blast
    have "swept env (xs @ [m]) (possible, reverse)" by (rule goal) (simp_all only: e image_empty Un_empty_right)
    then show ?thesis using True by (simp add: sweep_mask_def st)
  next
    case False
    have "\<forall>(l, r) \<in> set (allowed_splits env m). l \<noteq> m \<and> r \<noteq> m"
      using ordered_splits_members(5,6) by (fastforce simp: allowed_splits_def)
    from sweep_splits [OF this, where env = env and possible = possible and reverse = reverse] mask_transitions [OF sw [unfolded st] split False]
    show ?thesis using goal False by (simp add: sweep_mask_def st split: prod.splits)
  qed
qed

lemma sweep_swept: "swept env (masks_by_size (re_full env)) (sweep env)"
proof -
  have "swept env xs (foldl (sweep_mask env) (source_states env, []) xs)" if "masks_by_size (re_full env) = xs @ ys" for xs ys
    using that
  proof (induction xs arbitrary: ys rule: rev_induct)
    case Nil
    show ?case by (auto simp: swept_def intro: possible_state.source)
  next
    case (snoc m xs)
    then have "swept env xs (foldl (sweep_mask env) (source_states env, []) xs)" by simp
    with sweep_mask_swept [of env xs _ m ys] snoc.prems show ?case by simp
  qed
  from this [of _ "[]"] show ?thesis by (simp add: sweep_def)
qed

lemma sweep_exact:
  assumes "sweep env = (possible, reverse)"
  shows "set possible = {s. possible_state env s}"
    and "set reverse = {(s, ls, rs). merges env ls rs s \<and> possible_state env ls \<and> possible_state env rs}"
proof -
  have m: "merges env ls rs s \<Longrightarrow> fst s \<in> set (masks_by_size (re_full env))" for ls rs s
    by (simp add: merges_def merge_masks_iff)
  have sw: "swept env (masks_by_size (re_full env)) (possible, reverse)" using sweep_swept [of env] assms by simp
  show "set possible = {s. possible_state env s}"
    using sw possible_merge_cases [of env] m unfolding swept_def prod.case by blast
  show "set reverse = {(s, ls, rs). merges env ls rs s \<and> possible_state env ls \<and> possible_state env rs}"
    using sw m unfolding swept_def prod.case by blast
qed

section \<open>The worklist marks the useful states\<close>

definition parent_rel :: "('s \<times> 's \<times> 's) list \<Rightarrow> ('s \<times> 's) set" where
  "parent_rel reverse = {(s, p). p \<in> set (parents_of reverse s)}"

lemma set_parents_of:
  "set (parents_of reverse s) = (\<Union>t \<in> {t \<in> set reverse. fst t = s}. {fst (snd t), snd (snd t)})"
  by (simp add: parents_of_def split_beta)

lemma parent_rel_iff: "(s, p) \<in> parent_rel reverse \<longleftrightarrow> (\<exists>ls rs. (s, ls, rs) \<in> set reverse \<and> p \<in> {ls, rs})"
proof
  assume "(s, p) \<in> parent_rel reverse"
  then obtain t ls rs where "(t, ls, rs) \<in> set reverse" "t = s" "p = ls \<or> p = rs"
    by (auto simp: parent_rel_def parents_of_def)
  then show "\<exists>ls rs. (s, ls, rs) \<in> set reverse \<and> p \<in> {ls, rs}" by blast
next
  assume "\<exists>ls rs. (s, ls, rs) \<in> set reverse \<and> p \<in> {ls, rs}"
  then obtain ls rs where t: "(s, ls, rs) \<in> set reverse" "p = ls \<or> p = rs" by auto
  have "p \<in> set (parents_of reverse s)"
    unfolding set_parents_of by (rule UN_I [of "(s, ls, rs)"]) (use t in auto)
  then show "(s, p) \<in> parent_rel reverse" by (simp add: parent_rel_def)
qed

lemma mark_useful_closure:
  "set pending \<subseteq> set useful \<Longrightarrow> \<forall>s \<in> set useful - set pending. set (parents_of reverse s) \<subseteq> set useful \<Longrightarrow>
   set (mark_useful reverse useful pending) = (parent_rel reverse)\<^sup>* `` set useful"
proof (induction reverse useful pending rule: mark_useful.induct)
  case (1 reverse useful)
  then have "parent_rel reverse `` set useful \<subseteq> set useful" by (auto simp: parent_rel_def)
  then show ?case by (simp add: Image_closed_trancl)
next
  case (2 reverse useful s pending)
  obtain new where new: "foldl mark_parent (useful, pending) (parents_of reverse s) = (useful @ new, pending @ new)"
      "set new = set (parents_of reverse s) - set useful"
    using mark_parents [of useful pending "parents_of reverse s"] by blast
  have s: "s \<in> set useful" using "2.prems"(1) by simp
  have sub: "set new \<subseteq> (parent_rel reverse)\<^sup>* `` set useful"
  proof
    fix p assume "p \<in> set new"
    then have "(s, p) \<in> parent_rel reverse" unfolding new(2) parent_rel_def by blast
    then show "p \<in> (parent_rel reverse)\<^sup>* `` set useful" using s by blast
  qed
  have p: "set (pending @ new) \<subseteq> set (useful @ new)" using "2.prems"(1) by auto
  have q: "\<forall>s' \<in> set (useful @ new) - set (pending @ new). set (parents_of reverse s') \<subseteq> set (useful @ new)"
  proof
    fix s' assume "s' \<in> set (useful @ new) - set (pending @ new)"
    then have s': "s' \<in> set useful" "s' \<notin> set pending" by auto
    show "set (parents_of reverse s') \<subseteq> set (useful @ new)"
    proof (cases "s' = s")
      case True
      then show ?thesis using new(2) by auto
    next
      case False
      then have "s' \<in> set useful - set (s # pending)" using s' by simp
      then have "set (parents_of reverse s') \<subseteq> set useful" using "2.prems"(2) by blast
      then show ?thesis by auto
    qed
  qed
  have "set (mark_useful reverse useful (s # pending)) = (parent_rel reverse)\<^sup>* `` set (useful @ new)"
    using "2.IH" [OF new(1) [symmetric] p q] new(1) by simp
  also have "\<dots> = (parent_rel reverse)\<^sup>* `` set useful"
  proof
    show "(parent_rel reverse)\<^sup>* `` set (useful @ new) \<subseteq> (parent_rel reverse)\<^sup>* `` set useful"
    proof
      fix p assume "p \<in> (parent_rel reverse)\<^sup>* `` set (useful @ new)"
      then obtain q where q: "q \<in> set useful \<or> q \<in> set new" "(q, p) \<in> (parent_rel reverse)\<^sup>*" by auto
      then have "q \<in> (parent_rel reverse)\<^sup>* `` set useful" using sub by auto
      then obtain r where "r \<in> set useful" "(r, q) \<in> (parent_rel reverse)\<^sup>*" by auto
      with q(2) show "p \<in> (parent_rel reverse)\<^sup>* `` set useful" by (meson ImageI rtrancl_trans)
    qed
  qed auto
  finally show ?case .
qed

lemma set_closing_pairs:
  "(ls, rs) \<in> set (closing_pairs env possible splits) \<longleftrightarrow> ls \<in> set possible \<and> rs \<in> set possible \<and>
     (fst ls, fst rs) \<in> set splits \<and> fst (snd rs) \<in> set (closure_partners env (fst (snd ls)))"
proof -
  obtain l lp lo where ls: "ls = (l, lp, lo)" by (cases ls)
  obtain r rp ro where rs: "rs = (r, rp, ro)" by (cases rs)
  have "(ls, rs) \<in> set (closing_pairs env possible splits) \<longleftrightarrow> (l, r) \<in> set splits \<and> lp \<in> set (species_at possible l) \<and>
      rp \<in> set (closure_partners env lp) \<and> lo \<in> set (orders_at possible l lp) \<and> ro \<in> set (orders_at possible r rp)"
    unfolding ls rs closing_pairs_def
    by (auto simp del: set_species_at set_orders_at intro!: bexI [of _ "(l, r)"] exI image_eqI bexI)
  then show ?thesis by (auto simp: ls rs)
qed

lemma set_closing_states:
  "s \<in> set (closing_states env possible splits) \<longleftrightarrow>
     (\<exists>ls rs t. ls \<in> set possible \<and> rs \<in> set possible \<and> closes env splits ls rs t \<and> s \<in> {ls, rs})"
proof -
  have "s \<in> set (closing_states env possible splits) \<longleftrightarrow>
      (\<exists>pr \<in> set (closing_pairs env possible splits). closing_totals env (snd (fst pr)) (snd (snd pr)) \<noteq> [] \<and> s \<in> {fst pr, snd pr})"
    by (simp add: closing_states_def split_beta Bex_def conj_assoc)
  also have "\<dots> \<longleftrightarrow> (\<exists>ls rs. (ls, rs) \<in> set (closing_pairs env possible splits) \<and>
      (\<exists>t. t \<in> set (closing_totals env (snd ls) (snd rs))) \<and> s \<in> {ls, rs})"
    by (simp only: Bex_def split_paired_Ex fst_conv snd_conv) (metis list.set_intros(1) neq_Nil_conv set_empty2 empty_iff)
  finally show ?thesis unfolding set_closing_pairs closes_def by blast
qed

lemma useful_states_iff: "s \<in> set (useful_states env splits) \<longleftrightarrow> useful_state env splits s"
proof -
  obtain possible reverse where sw: "sweep env = (possible, reverse)" by fastforce
  note exact = sweep_exact [OF sw]
  let ?C = "closing_states env possible splits"
  have u: "set (useful_states env splits) = (parent_rel reverse)\<^sup>* `` set ?C"
    by (simp add: useful_states_def sw Let_def mark_useful_closure)
  have rel: "(s, p) \<in> parent_rel reverse \<longleftrightarrow>
      (\<exists>ls rs. merges env ls rs s \<and> possible_state env ls \<and> possible_state env rs \<and> p \<in> {ls, rs})" for s p
    unfolding parent_rel_iff exact(2) by simp
  have C: "s \<in> set ?C \<longleftrightarrow> (\<exists>ls rs t. possible_state env ls \<and> possible_state env rs \<and> closes env splits ls rs t \<and> s \<in> {ls, rs})" for s
    unfolding set_closing_states exact(1) by simp
  have "useful_state env splits s" if "(c, s) \<in> (parent_rel reverse)\<^sup>*" "c \<in> set ?C" for c s
    using that
  proof (induction rule: rtrancl_induct)
    case base
    then show ?case unfolding C by (blast intro: useful_state.closing)
  next
    case (step y z)
    from step(2) obtain ls rs where "merges env ls rs y" "possible_state env ls" "possible_state env rs" "z \<in> {ls, rs}"
      unfolding rel by blast
    with step.IH [OF step.prems] show ?case by (blast intro: useful_state.feeding)
  qed
  moreover have "s \<in> (parent_rel reverse)\<^sup>* `` set ?C" if "useful_state env splits s" for s
    using that
  proof (induction rule: useful_state.induct)
    case (closing ls rs t s)
    then have "s \<in> set ?C" unfolding C by blast
    then show ?case by blast
  next
    case (feeding s ls rs p)
    then have "(s, p) \<in> parent_rel reverse" unfolding rel by blast
    with feeding.IH show ?case by (meson Image_iff rtrancl.rtrancl_into_rtrancl)
  qed
  ultimately show ?thesis unfolding u by blast
qed

section \<open>Pareto pruning loses no minimal total\<close>

lemma possible_normal: "possible_state env s \<Longrightarrow> normal_orders (snd (snd s))"
proof (induction rule: possible_state.induct)
  case (source s)
  then show ?case by (auto simp: source_states_def)
next
  case (merge ls rs s)
  then show ?case by (auto simp: merges_def vertex_step_def split_beta)
qed

definition covers :: "reach_state set \<Rightarrow> reach_state set \<Rightarrow> bool" where
  "covers A B \<longleftrightarrow> (\<forall>(m, p, os) \<in> B. \<exists>os'. (m, p, os') \<in> A \<and> orders_le os' os)"

definition pruned :: "mask \<Rightarrow> reach_state set \<Rightarrow> reach_state set \<Rightarrow> reach_state set \<Rightarrow> bool" where
  "pruned m A B C \<longleftrightarrow> (\<forall>s. fst s \<noteq> m \<longrightarrow> (s \<in> C \<longleftrightarrow> s \<in> A)) \<and> C \<subseteq> A \<union> B \<and> covers C (A \<union> B)"

definition products :: "'c reach_env \<Rightarrow> reach_state list \<Rightarrow> mask \<Rightarrow> mask \<times> mask \<Rightarrow> int \<times> int \<times> vertex \<Rightarrow> reach_state set" where
  "products env possible m = (\<lambda>(l, r) (lp, rp, v).
     {(m, vx_result v, c) |lo ro c. (lo, ro, c) \<in> set (vertex_products env v (orders_at possible l lp) (orders_at possible r rp))})"

lemma coversD: "covers A B \<Longrightarrow> (m, p, os) \<in> B \<Longrightarrow> \<exists>os'. (m, p, os') \<in> A \<and> orders_le os' os"
  by (auto simp: covers_def)

lemma pareto_vertex_pruned:
  assumes pr: "pruned m (set base) B (set cur)" and lr: "l \<noteq> m" "r \<noteq> m"
  shows "pruned m (set base) (B \<union> products env base m (l, r) (lp, rp, v)) (set (pareto_vertex env m (l, r) cur (lp, rp, v)))"
proof -
  let ?F = "products env base m (l, r) (lp, rp, v)" and ?res = "vx_result v"
  have frame: "(k, x, os) \<in> set cur \<longleftrightarrow> (k, x, os) \<in> set base" if "k \<noteq> m" for k x os
    using pr that by (simp add: pruned_def)
  obtain found where found: "found = map (\<lambda>(_, _, c). c) (vertex_products env v (orders_at cur l lp) (orders_at cur r rp))" by simp
  have F: "(m, ?res, c) \<in> ?F \<longleftrightarrow> c \<in> set found" for c
  proof -
    have "c \<in> set found \<longleftrightarrow> (\<exists>lo ro. (lo, ro, c) \<in> set (vertex_products env v (orders_at cur l lp) (orders_at cur r rp)))"
      unfolding found by force
    also have "\<dots> \<longleftrightarrow> (\<exists>lo ro. (lo, ro, c) \<in> set (vertex_products env v (orders_at base l lp) (orders_at base r rp)))"
      by (simp only: set_vertex_products set_orders_at frame [OF lr(1)] frame [OF lr(2)])
    finally show ?thesis by (simp add: products_def)
  qed
  have Fm: "s \<in> ?F \<Longrightarrow> \<exists>c. s = (m, ?res, c)" for s by (auto simp: products_def)
  let ?new = "pareto_vertex env m (l, r) cur (lp, rp, v)" and ?b = "orders_at cur m ?res"
  have new: "s \<in> set ?new \<longleftrightarrow> s \<in> set cur \<and> (fst s, fst (snd s)) \<noteq> (m, ?res) \<or>
      (\<exists>os \<in> set (pareto_minimal_coupling_orders (?b @ found)). s = (m, ?res, os))" for s
    by (auto simp: pareto_vertex_def Let_def found split_beta)
  have kept: "\<exists>os'. (m, ?res, os') \<in> set ?new \<and> orders_le os' os" if "os \<in> set (?b @ found)" for os
    using pareto_cover [OF that] unfolding new by blast
  show ?thesis
    unfolding pruned_def
  proof (intro conjI allI impI subsetI)
    show "s \<in> set ?new \<longleftrightarrow> s \<in> set base" if "fst s \<noteq> m" for s
    proof -
      have "s \<in> set cur \<longleftrightarrow> s \<in> set base" using that pr unfolding pruned_def by blast
      then show ?thesis unfolding new using that by auto
    qed
    show "s \<in> set base \<union> (B \<union> ?F)" if s: "s \<in> set ?new" for s
    proof -
      have cb: "set cur \<subseteq> set base \<union> B" using pr by (simp only: pruned_def)
      from s have "s \<in> set cur \<or> (\<exists>os \<in> set (?b @ found). s = (m, ?res, os))"
        unfolding new set_pareto by blast
      then have "s \<in> set cur \<or> s \<in> ?F" using F by (elim disjE bexE) (simp, force)
      with cb show ?thesis by blast
    qed
    have "\<exists>os'. (k, x, os') \<in> set ?new \<and> orders_le os' os" if s: "(k, x, os) \<in> set base \<union> (B \<union> ?F)" for k x os
    proof (cases "(k, x, os) \<in> ?F")
      case True
      then show ?thesis using Fm [OF True] F kept by auto
    next
      case False
      with s have "(k, x, os) \<in> set base \<union> B" by blast
      moreover have "covers (set cur) (set base \<union> B)" using pr by (simp only: pruned_def)
      ultimately obtain os' where os': "(k, x, os') \<in> set cur" "orders_le os' os" using coversD by blast
      show ?thesis
      proof (cases "(k, x) = (m, ?res)")
        case True
        then have "os' \<in> set (?b @ found)" using os'(1) by simp
        from kept [OF this] os'(2) True show ?thesis by (auto intro: orders_le_trans)
      next
        case False
        then have "(k, x, os') \<in> set ?new" unfolding new using os'(1) by auto
        with os'(2) show ?thesis by blast
      qed
    qed
    then show "covers (set ?new) (set base \<union> (B \<union> ?F))" unfolding covers_def by blast
  qed
qed

lemma pareto_vertices_pruned:
  "pruned m (set base) B (set cur) \<Longrightarrow> l \<noteq> m \<Longrightarrow> r \<noteq> m \<Longrightarrow>
   pruned m (set base) (B \<union> (\<Union>w \<in> set ws. products env base m (l, r) w)) (set (foldl (pareto_vertex env m (l, r)) cur ws))"
proof (induction ws arbitrary: cur B)
  case (Cons w ws)
  obtain lp rp v where w: "w = (lp, rp, v)" by (cases w)
  from pareto_vertex_pruned [OF Cons.prems, of env lp rp v]
  have "pruned m (set base) (B \<union> products env base m (l, r) w) (set (pareto_vertex env m (l, r) cur w))" by (simp add: w)
  from Cons.IH [OF this Cons.prems(2,3)] show ?case by (simp add: Un_assoc)
qed simp

lemma split_products:
  assumes "\<forall>s. fst s \<noteq> m \<longrightarrow> (s \<in> set cur \<longleftrightarrow> s \<in> set base)" "l \<noteq> m" "r \<noteq> m"
  shows "(\<Union>w \<in> set (split_vertices env cur (l, r)). products env base m (l, r) w) =
     fst ` set (split_transitions env base m (l, r))"
proof -
  have "set (split_vertices env cur (l, r)) = set (split_vertices env base (l, r))"
  proof (intro set_eqI)
    fix w :: "int \<times> int \<times> vertex"
    obtain lp rp v where "w = (lp, rp, v)" by (cases w)
    then show "w \<in> set (split_vertices env cur (l, r)) \<longleftrightarrow> w \<in> set (split_vertices env base (l, r))"
      using assms by (simp add: set_split_vertices)
  qed
  then have "(\<Union>w \<in> set (split_vertices env cur (l, r)). products env base m (l, r) w) =
      (\<Union>w \<in> set (split_vertices env base (l, r)). products env base m (l, r) w)" by simp
  also have "\<dots> = fst ` set (split_transitions env base m (l, r))"
    unfolding products_def split_transitions_def by (simp add: image_UN split_beta) (force simp: image_iff)
  finally show ?thesis .
qed

lemma pareto_splits_pruned:
  "pruned m (set base) B (set cur) \<Longrightarrow> \<forall>(l, r) \<in> set splits. l \<noteq> m \<and> r \<noteq> m \<Longrightarrow>
   pruned m (set base) (B \<union> (\<Union>sp \<in> set splits. fst ` set (split_transitions env base m sp)))
     (set (foldl (pareto_split env m) cur splits))"
proof (induction splits arbitrary: cur B)
  case (Cons split splits)
  obtain l r where sp: "split = (l, r)" by (cases split)
  have lr: "l \<noteq> m" "r \<noteq> m" using Cons.prems(2) by (simp_all add: sp)
  have fr: "\<forall>s. fst s \<noteq> m \<longrightarrow> (s \<in> set cur \<longleftrightarrow> s \<in> set base)" using Cons.prems(1) by (simp add: pruned_def)
  from pareto_vertices_pruned [OF Cons.prems(1) lr, of env "split_vertices env cur split"]
  have "pruned m (set base) (B \<union> fst ` set (split_transitions env base m split)) (set (pareto_split env m cur split))"
    by (simp only: pareto_split_def sp split_products [OF fr lr])
  from Cons.IH [OF this] Cons.prems(2) show ?case by (simp add: Un_assoc)
qed simp

definition covered :: "'c reach_env \<Rightarrow> mask list \<Rightarrow> reach_state list \<Rightarrow> bool" where
  "covered env done possible \<longleftrightarrow>
     (let D = {s. possible_state env s \<and> (s \<in> set (source_states env) \<or> fst s \<in> set done)}
      in set possible \<subseteq> D \<and> covers (set possible) D)"

lemma merges_le:
  assumes m: "merges env (l, lp, lo) (r, rp, ro) (k, p, c)" and le: "orders_le lo' lo" "orders_le ro' ro"
    and n: "normal_orders lo" "normal_orders lo'" "normal_orders ro" "normal_orders ro'"
  shows "\<exists>c'. merges env (l, lp, lo') (r, rp, ro') (k, p, c') \<and> orders_le c' c"
proof -
  from m obtain v where v: "v \<in> set (re_vertices env)" "vx_particles v = (lp, rp, p)" "usable_vertex env v"
      "c = combine_coupling_order_tuples [lo, ro, vm_vertex_orders (re_model env) v]"
      "coupling_orders_within_limits c (re_limits env)" and mm: "merge_masks env l r k"
    by (auto simp: merges_def vertex_step_def)
  obtain c' where c': "c' = combine_coupling_order_tuples [lo', ro', vm_vertex_orders (re_model env) v]" by simp
  have l: "orders_le c' c" unfolding c' v(4) by (rule combine_le [OF le n(2) n(1) n(4) n(3)])
  moreover have "coupling_orders_within_limits c' (re_limits env)"
    by (rule within_limits_le [OF l _ _ v(5)]) (simp_all add: c' v(4))
  ultimately show ?thesis using v mm c' by (auto simp: merges_def vertex_step_def)
qed

lemma covered_done:
  assumes cov: "covered env xs base" and s: "possible_state env (k, p, os)" "k \<in> set xs"
  shows "\<exists>os'. (k, p, os') \<in> set base \<and> orders_le os' os \<and> normal_orders os' \<and> normal_orders os"
proof -
  have D: "(k, p, os) \<in> {s. possible_state env s \<and> (s \<in> set (source_states env) \<or> fst s \<in> set xs)}" using s by simp
  obtain os' where os': "(k, p, os') \<in> set base" "orders_le os' os"
    using cov coversD [OF _ D] unfolding covered_def Let_def by blast
  moreover have "possible_state env (k, p, os')" using cov os'(1) unfolding covered_def Let_def by blast
  ultimately show ?thesis using possible_normal [of env "(k, p, os')"] possible_normal [OF s(1)] by auto
qed

lemma mask_products_cover:
  assumes cov: "covered env xs base" and split: "masks_by_size (re_full env) = xs @ m # ys"
    and ns: "\<not> skipped_mask env m" and s: "possible_state env s" "fst s = m" "s \<notin> set (source_states env)"
  shows "\<exists>os'. (m, fst (snd s), os') \<in> (\<Union>sp \<in> set (allowed_splits env m). fst ` set (split_transitions env base m sp)) \<and>
     orders_le os' (snd (snd s))"
proof -
  obtain p c where sp: "s = (m, p, c)" using s(2) by (cases s) auto
  from possible_merge_cases [OF s(1)] s(3) obtain ls rs where
    a: "possible_state env ls" "possible_state env rs" "merges env ls rs s" by blast
  note early = merges_earlier [OF split a(3) s(2)]
  obtain l lp lo r rp ro where lr: "ls = (l, lp, lo)" "rs = (r, rp, ro)" by (cases ls, cases rs)
  obtain lo' where lo': "(l, lp, lo') \<in> set base" "orders_le lo' lo" "normal_orders lo'" "normal_orders lo"
    using covered_done [OF cov a(1) [unfolded lr]] early by (auto simp: lr)
  obtain ro' where ro': "(r, rp, ro') \<in> set base" "orders_le ro' ro" "normal_orders ro'" "normal_orders ro"
    using covered_done [OF cov a(2) [unfolded lr]] early by (auto simp: lr)
  obtain c' where c': "merges env (l, lp, lo') (r, rp, ro') (m, p, c')" "orders_le c' c"
    using merges_le [OF a(3) [unfolded lr sp] lo'(2) ro'(2) lo'(4,3) ro'(4,3)] by blast
  then have "(l, r) \<in> set (allowed_splits env m)" "vertex_step env (l, lp, lo') (r, rp, ro') (m, p, c')"
    by (simp_all add: merges_def merge_masks_iff)
  moreover from this have "((m, p, c'), (l, lp, lo'), (r, rp, ro')) \<in> set (split_transitions env base m (l, r))"
    using lo'(1) ro'(1) by (simp add: set_split_transitions)
  ultimately show ?thesis using c'(2) unfolding sp by (force intro: rev_image_eqI)
qed

lemma pareto_mask_covered:
  assumes cov: "covered env xs base" and split: "masks_by_size (re_full env) = xs @ m # ys"
  shows "covered env (xs @ [m]) (pareto_mask env base m)"
proof (cases "skipped_mask env m")
  case True
  have "s \<in> set (source_states env)" if "possible_state env s" "fst s = m" for s
    using possible_merge_cases [OF that(1)] merges_not_skipped [of env] True that(2) by blast
  then have "{s. possible_state env s \<and> (s \<in> set (source_states env) \<or> fst s \<in> set (xs @ [m]))} =
      {s. possible_state env s \<and> (s \<in> set (source_states env) \<or> fst s \<in> set xs)}" by auto
  with cov True show ?thesis by (simp only: covered_def pareto_mask_def if_True)
next
  case False
  let ?D = "\<lambda>xs. {s. possible_state env s \<and> (s \<in> set (source_states env) \<or> fst s \<in> set xs)}"
  let ?B = "\<Union>sp \<in> set (allowed_splits env m). fst ` set (split_transitions env base m sp)"
  have lr: "\<forall>(l, r) \<in> set (allowed_splits env m). l \<noteq> m \<and> r \<noteq> m"
    using ordered_splits_members(5,6) by (fastforce simp: allowed_splits_def)
  have base: "set base \<subseteq> ?D xs" "covers (set base) (?D xs)" using cov by (simp_all add: covered_def Let_def)
  have "pruned m (set base) {} (set base)" by (auto simp: pruned_def covers_def)
  from pareto_splits_pruned [OF this lr, of env] False
  have pr: "pruned m (set base) ?B (set (pareto_mask env base m))" by (simp add: pareto_mask_def)
  have B: "?B \<subseteq> ?D (xs @ [m])"
  proof
    fix s assume "s \<in> ?B"
    then obtain l r ls rs where t: "(l, r) \<in> set (allowed_splits env m)" "(s, ls, rs) \<in> set (split_transitions env base m (l, r))"
      by fastforce
    then have u: "ls \<in> set base" "rs \<in> set base" "fst ls = l" "fst rs = r" "fst s = m" "vertex_step env ls rs s"
      by (simp_all add: set_split_transitions)
    then have "merges env ls rs s" using t(1) False split by (simp add: merges_def merge_masks_iff)
    with u base(1) show "s \<in> ?D (xs @ [m])" by (auto intro: possible_state.merge)
  qed
  have "\<exists>os'. (k, p, os') \<in> set (pareto_mask env base m) \<and> orders_le os' os" if s: "(k, p, os) \<in> ?D (xs @ [m])" for k p os
  proof -
    have "\<exists>os'. (k, p, os') \<in> set base \<union> ?B \<and> orders_le os' os"
    proof (cases "(k, p, os) \<in> ?D xs")
      case True
      from coversD [OF base(2) True] show ?thesis by blast
    next
      case F: False
      with s have "possible_state env (k, p, os)" "k = m" "(k, p, os) \<notin> set (source_states env)" by auto
      with mask_products_cover [OF cov split False, of "(k, p, os)"] show ?thesis by auto
    qed
    then obtain os' where os': "(k, p, os') \<in> set base \<union> ?B" "orders_le os' os" by blast
    from pr have "covers (set (pareto_mask env base m)) (set base \<union> ?B)" by (simp add: pruned_def)
    from coversD [OF this os'(1)] os'(2) show ?thesis by (blast intro: orders_le_trans)
  qed
  then have "covers (set (pareto_mask env base m)) (?D (xs @ [m]))" unfolding covers_def by blast
  moreover have "set (pareto_mask env base m) \<subseteq> ?D (xs @ [m])"
  proof -
    have "set (pareto_mask env base m) \<subseteq> set base \<union> ?B" using pr by (simp only: pruned_def)
    moreover have "?D xs \<subseteq> ?D (xs @ [m])" by auto
    ultimately show ?thesis using B base(1) by blast
  qed
  ultimately show ?thesis by (simp add: covered_def Let_def)
qed

lemma pareto_sweep_covered:
  "set (pareto_sweep env) \<subseteq> {s. possible_state env s}" "covers (set (pareto_sweep env)) {s. possible_state env s}"
proof -
  have "covered env xs (foldl (pareto_mask env) (source_states env) xs)" if "masks_by_size (re_full env) = xs @ ys" for xs ys
    using that
  proof (induction xs arbitrary: ys rule: rev_induct)
    case Nil
    show ?case by (auto simp: covered_def covers_def intro: possible_state.source)
  next
    case (snoc m xs)
    then have "covered env xs (foldl (pareto_mask env) (source_states env) xs)" by simp
    with pareto_mask_covered [of env xs _ m ys] snoc.prems show ?case by simp
  qed
  from this [of _ "[]"] have "covered env (masks_by_size (re_full env)) (pareto_sweep env)" by (simp add: pareto_sweep_def)
  moreover have "{s. possible_state env s \<and> (s \<in> set (source_states env) \<or> fst s \<in> set (masks_by_size (re_full env)))} =
      {s. possible_state env s}"
    using possible_merge_cases [of env] by (fastforce simp: merges_def merge_masks_iff)
  ultimately show "set (pareto_sweep env) \<subseteq> {s. possible_state env s}" "covers (set (pareto_sweep env)) {s. possible_state env s}"
    by (simp_all add: covered_def Let_def)
qed

definition attainable_total :: "'c reach_env \<Rightarrow> (mask \<times> mask) list \<Rightarrow> orders \<Rightarrow> bool" where
  "attainable_total env splits t \<longleftrightarrow>
     (\<exists>ls rs. possible_state env ls \<and> possible_state env rs \<and> closes env splits ls rs t)"

lemma set_closing_totals:
  "t \<in> set (closing_totals env (lp, lo) (rp, ro)) \<longleftrightarrow> coupling_orders_within_limits t (re_limits env) \<and>
     (\<exists>os. t = combine_coupling_order_tuples [lo, ro, os] \<and>
        (direct_contraction_possible (re_model env) lp rp \<and> os = [] \<or>
         (\<exists>v \<in> set (re_vertices env). vx_left v = lp \<and> vx_right v = rp \<and> usable_vertex env v \<and>
            closure_contraction_ir (re_model env) (vx_result v) 0 \<noteq> None \<and> os = vm_vertex_orders (re_model env) v)))"
  unfolding closing_totals_def by (auto split: if_splits; blast)

lemma closing_total_normal: "t \<in> set (closing_totals env x y) \<Longrightarrow> normal_orders t"
  by (cases x, cases y) (auto simp: set_closing_totals)

lemma closing_totals_le:
  assumes t: "t \<in> set (closing_totals env (lp, lo) (rp, ro))" and le: "orders_le lo' lo" "orders_le ro' ro"
    and n: "normal_orders lo" "normal_orders lo'" "normal_orders ro" "normal_orders ro'"
  shows "\<exists>t' \<in> set (closing_totals env (lp, lo') (rp, ro')). orders_le t' t"
proof -
  from t obtain os where os: "t = combine_coupling_order_tuples [lo, ro, os]"
      "coupling_orders_within_limits t (re_limits env)"
      "direct_contraction_possible (re_model env) lp rp \<and> os = [] \<or>
         (\<exists>v \<in> set (re_vertices env). vx_left v = lp \<and> vx_right v = rp \<and> usable_vertex env v \<and>
            closure_contraction_ir (re_model env) (vx_result v) 0 \<noteq> None \<and> os = vm_vertex_orders (re_model env) v)"
    unfolding set_closing_totals by blast
  obtain t' where t': "t' = combine_coupling_order_tuples [lo', ro', os]" by simp
  have l: "orders_le t' t" unfolding t' os(1) by (rule combine_le [OF le n(2) n(1) n(4) n(3)])
  have "coupling_orders_within_limits t' (re_limits env)"
    by (rule within_limits_le [OF l _ _ os(2)]) (simp_all add: t' os(1))
  then have "t' \<in> set (closing_totals env (lp, lo') (rp, ro'))" unfolding set_closing_totals using os(3) t' by blast
  with l show ?thesis by blast
qed

lemma swept_totals:
  assumes T: "T = concat (map (\<lambda>(ls, rs). closing_totals env (snd ls) (snd rs)) (closing_pairs env (pareto_sweep env) splits))"
  shows "\<forall>t \<in> set T. attainable_total env splits t"
    and "attainable_total env splits t \<Longrightarrow> \<exists>t' \<in> set T. orders_le t' t"
proof -
  have mem: "t \<in> set T \<longleftrightarrow> (\<exists>ls rs. (ls, rs) \<in> set (closing_pairs env (pareto_sweep env) splits) \<and>
      t \<in> set (closing_totals env (snd ls) (snd rs)))" for t
    unfolding T by (simp add: split_beta Bex_def)
  show "\<forall>t \<in> set T. attainable_total env splits t"
  proof
    fix t assume "t \<in> set T"
    with pareto_sweep_covered(1) [of env] show "attainable_total env splits t"
      unfolding attainable_total_def closes_def mem set_closing_pairs by blast
  qed
  assume "attainable_total env splits t"
  then obtain ls rs where a: "possible_state env ls" "possible_state env rs" "closes env splits ls rs t"
    by (auto simp: attainable_total_def)
  obtain l lp lo r rp ro where lr: "ls = (l, lp, lo)" "rs = (r, rp, ro)" by (cases ls, cases rs)
  have cover: "\<exists>os'. (k, p, os') \<in> set (pareto_sweep env) \<and> orders_le os' os \<and> normal_orders os' \<and> normal_orders os"
    if s: "possible_state env (k, p, os)" for k p os
  proof -
    from coversD [OF pareto_sweep_covered(2), of k p os env] s obtain os' where
      "(k, p, os') \<in> set (pareto_sweep env)" "orders_le os' os" by blast
    with possible_normal [OF s] pareto_sweep_covered(1) [of env] possible_normal [of env "(k, p, os')"] show ?thesis by auto
  qed
  obtain lo' where lo': "(l, lp, lo') \<in> set (pareto_sweep env)" "orders_le lo' lo" "normal_orders lo'" "normal_orders lo"
    using cover a(1) unfolding lr by blast
  obtain ro' where ro': "(r, rp, ro') \<in> set (pareto_sweep env)" "orders_le ro' ro" "normal_orders ro'" "normal_orders ro"
    using cover a(2) unfolding lr by blast
  have c: "(l, r) \<in> set splits" "rp \<in> set (closure_partners env lp)" "t \<in> set (closing_totals env (lp, lo) (rp, ro))"
    using a(3) by (simp_all add: closes_def lr)
  from closing_totals_le [OF c(3) lo'(2) ro'(2) lo'(4,3) ro'(4,3)] obtain t' where
    t': "t' \<in> set (closing_totals env (lp, lo') (rp, ro'))" "orders_le t' t" by blast
  have "((l, lp, lo'), (r, rp, ro')) \<in> set (closing_pairs env (pareto_sweep env) splits)"
    using lo'(1) ro'(1) c by (simp add: set_closing_pairs)
  with t'(1) have "t' \<in> set T" unfolding mem by fastforce
  with t'(2) show "\<exists>t' \<in> set T. orders_le t' t" by blast
qed

lemma closure_totals_iff:
  "t \<in> set (closure_totals env splits) \<longleftrightarrow>
     attainable_total env splits t \<and> (\<forall>u. attainable_total env splits u \<longrightarrow> \<not> coupling_orders_dominate u t)"
proof -
  obtain T where T: "T = concat (map (\<lambda>(ls, rs). closing_totals env (snd ls) (snd rs)) (closing_pairs env (pareto_sweep env) splits))"
    by simp
  note sw = swept_totals [OF T]
  have n: "attainable_total env splits t \<Longrightarrow> normal_orders t" for t
    by (auto simp: attainable_total_def closes_def dest: closing_total_normal)
  have tot: "set (closure_totals env splits) = {t \<in> set T. \<forall>u \<in> set T. \<not> coupling_orders_dominate u t}"
    unfolding closure_totals_def T set_pareto by simp
  show ?thesis
  proof
    assume "t \<in> set (closure_totals env splits)"
    then have t: "t \<in> set T" "\<forall>u \<in> set T. \<not> coupling_orders_dominate u t" unfolding tot by simp_all
    have "\<not> coupling_orders_dominate u t" if "attainable_total env splits u" for u
      using sw(2) [OF that] t(2) le_dominate by blast
    with t(1) sw(1) show "attainable_total env splits t \<and> (\<forall>u. attainable_total env splits u \<longrightarrow> \<not> coupling_orders_dominate u t)"
      by blast
  next
    assume a: "attainable_total env splits t \<and> (\<forall>u. attainable_total env splits u \<longrightarrow> \<not> coupling_orders_dominate u t)"
    then obtain t' where t': "t' \<in> set T" "orders_le t' t" using sw(2) by blast
    with sw(1) a have "attainable_total env splits t'" "\<not> coupling_orders_dominate t' t" by blast+
    with t'(2) n a have "t' = t" by (intro le_not_dominate) blast+
    with t' a sw(1) show "t \<in> set (closure_totals env splits)" unfolding tot by blast
  qed
qed

section \<open>Properties\<close>

lemma reach_env_of_cases:
  "(case reach_env_of process m engine closure color limits ip ik of
      Inl _ \<Rightarrow> (\<exists>leg \<in> set (i_legs process). l_label leg < 1) \<or> i_color_accuracy process \<notin> {STR ''lc'', STR ''nlc'', STR ''full''}
    | Inr env \<Rightarrow> (\<forall>leg \<in> set (i_legs process). 1 \<le> l_label leg) \<and> i_color_accuracy process \<in> {STR ''lc'', STR ''nlc'', STR ''full''})"
proof (cases "\<forall>l \<in> set (map l_label (i_legs process)). 1 \<le> l")
  case True
  then obtain k where "labels_mask (map l_label (i_legs process)) = Inr k" using labels_mask_bits by blast
  with True show ?thesis by (simp add: reach_env_of_def iter_vertices_def)
next
  case False
  then have "\<exists>l \<in> set (map l_label (i_legs process)). l < 1" by (meson not_le)
  from labels_mask_raises [OF this] this show ?thesis
    by (auto simp: reach_env_of_def split: sum.splits)
qed

lemma reach_env_ofI:
  assumes "\<forall>leg \<in> set (i_legs process). 1 \<le> l_label leg" "i_color_accuracy process \<in> {STR ''lc'', STR ''nlc'', STR ''full''}"
  obtains env where "reach_env_of process m engine closure color limits ip ik = Inr env"
  using reach_env_of_cases [of process m engine closure color limits ip ik] assms
  by (cases "reach_env_of process m engine closure color limits ip ik") auto

text \<open>
  C10. For every process with one-based labels and a known colour accuracy the pre-pass
  \<open>_useful_states_by_mask\<close> returns, and the states it allows are exactly those that can be
  built from the external legs by allowed vertices within the coupling limits and that feed, through
  such vertices, a state of a closing pair: nothing useful is pruned and nothing else is kept. It
  raises for any other process.
\<close>

theorem useful_states_exact:
  "(case useful_states_by_mask process m engine splits closure color limits ip ik of
      Inl _ \<Rightarrow> (\<exists>leg \<in> set (i_legs process). l_label leg < 1) \<or> i_color_accuracy process \<notin> {STR ''lc'', STR ''nlc'', STR ''full''}
    | Inr useful \<Rightarrow> \<exists>env. reach_env_of process m engine closure color limits ip ik = Inr env \<and>
        (\<forall>mask particle os. state_allowed_by_reachability useful mask particle os \<longleftrightarrow> useful_state env splits (mask, particle, os)))"
proof (cases "reach_env_of process m engine closure color limits ip ik")
  case (Inl e)
  then show ?thesis using reach_env_of_cases [of process m engine closure color limits ip ik]
    by (simp add: useful_states_by_mask_def)
next
  case (Inr env)
  then show ?thesis by (simp add: useful_states_by_mask_def state_allowed_by_reachability_def useful_states_iff)
qed

definition sample_vertex_model :: "string vertex_model" where
  "sample_vertex_model =
     \<lparr>vm_base = \<lparr>md_name = ''sample'',
        md_particles = [\<lparr>pt_pdg = 21, pt_anti_pdg = 21, pt_spin = 3, pt_dimension = 4, pt_color_rep = 8\<rparr>],
        md_is_fermion = (\<lambda>_. False), md_is_chiral = (\<lambda>_. False), md_color_rep = (\<lambda>_. 8),
        md_current_dimension = (\<lambda>_ _. 4), md_auxiliary_kind = (\<lambda>_. None), md_mass_name = (\<lambda>_. None), md_width_name = (\<lambda>_. None)\<rparr>,
      vm_vertices = [\<lparr>vx_kind = 1, vx_particles = (21, 21, 21), vx_coupling = (1, 0)\<rparr>,
        \<lparr>vx_kind = 2, vx_particles = (21, 21, 22), vx_coupling = (1, 0)\<rparr>],
      vm_direct = [((21, 0, 21, 0), Some ''metric'')], vm_closure = [], vm_skip_duplicate = (\<lambda>_. False),
      vm_vertex_orders = (\<lambda>v. [(''QCD'', vx_kind v)]), vm_color_structure = (\<lambda>_. ''structure-constant'')\<rparr>"

definition sample_legs :: "process_leg list" where
  "sample_legs = map (\<lambda>i. \<lparr>l_label = i, l_side = (if i \<le> 2 then Initial_Side else Final_Side), l_particle = ''g'',
     l_outgoing_particle = ''g'', l_pdg = 21, l_outgoing_pdg = 21, l_statistics = Boson, l_wavefunction_family = Vector_Wf,
     l_color_role = Adjoint, l_source_orientation = Self_Conjugate_Src\<rparr>) [1, 2, 3]"

definition sample_reach_process :: process_ir where
  "sample_reach_process = \<lparr>i_process = ''g g > g'', i_key = ''g_g__g'', i_color_accuracy = STR ''lc'', i_legs = sample_legs,
     i_color_endpoints = \<lparr>e_fundamental_count = 0, e_antifundamental_count = 0, e_pair_count = 0\<rparr>\<rparr>"

definition sample_env :: "orders \<Rightarrow> string reach_env" where
  "sample_env limits =
     \<lparr>re_full = 7, re_legs = sample_legs, re_model = sample_vertex_model, re_vertices = vm_vertices sample_vertex_model,
      re_engine = make_color_engine sample_vertex_model sample_legs, re_closure_masks = None, re_color_masks = None,
      re_limits = limits, re_ignored_particles = [], re_ignored_kinds = []\<rparr>"

lemma sample_env:
  "reach_env_of sample_reach_process sample_vertex_model (make_color_engine sample_vertex_model sample_legs) None None limits [] [] =
     Inr (sample_env limits)"
proof -
  have "labels_mask (map l_label sample_legs) = Inr 7" by code_simp
  then show ?thesis by (simp add: reach_env_of_def sample_env_def iter_vertices_def sample_reach_process_def)
qed

theorem useful_states_exact_witness:
  "useful_state (sample_env [(''QCD'', 2)]) [(4, 3)] (3, 21, [(''QCD'', 1)]) \<and>
   \<not> useful_state (sample_env [(''QCD'', 2)]) [(4, 3)] (3, 22, [(''QCD'', 2)])"
proof -
  let ?u = "useful_states (sample_env [(''QCD'', 2)]) [(4, 3)]"
  have "state_allowed_by_reachability ?u 3 21 [(''QCD'', 1)]" "\<not> state_allowed_by_reachability ?u 3 22 [(''QCD'', 2)]"
    by code_simp+
  moreover have "\<exists>env. Inr (sample_env [(''QCD'', 2)]) = (Inr env :: string reach_env res) \<and>
      (\<forall>mask particle os. state_allowed_by_reachability ?u mask particle os \<longleftrightarrow> useful_state env [(4, 3)] (mask, particle, os))"
    using useful_states_exact [where process = sample_reach_process and m = sample_vertex_model
        and engine = "make_color_engine sample_vertex_model sample_legs" and splits = "[(4, 3)]" and closure = None and color = None
        and limits = "[(''QCD'', 2)]" and ip = "[]" and ik = "[]", unfolded useful_states_by_mask_def sample_env bindE_simps sum.case] .
  ultimately show ?thesis by blast
qed

text \<open>
  C11. \<open>_closure_total_coupling_orders\<close> prunes dominated coupling orders at every step of its
  sweep, and still returns exactly the minimal elements of all attainable closure totals, so every
  attainable total is bounded below by a returned one and the result is empty only when nothing
  closes.
\<close>

theorem closure_totals_pareto_exact:
  "(case closure_total_coupling_orders process m engine splits closure color limits ip ik of
      Inl _ \<Rightarrow> (\<exists>leg \<in> set (i_legs process). l_label leg < 1) \<or> i_color_accuracy process \<notin> {STR ''lc'', STR ''nlc'', STR ''full''}
    | Inr totals \<Rightarrow> \<exists>env. reach_env_of process m engine closure color limits ip ik = Inr env \<and>
        set totals = {t. attainable_total env splits t \<and> (\<forall>u. attainable_total env splits u \<longrightarrow> \<not> coupling_orders_dominate u t)} \<and>
        (\<forall>u. attainable_total env splits u \<longrightarrow> (\<exists>t \<in> set totals. orders_le t u)))"
proof (cases "reach_env_of process m engine closure color limits ip ik")
  case (Inl e)
  then show ?thesis using reach_env_of_cases [of process m engine closure color limits ip ik]
    by (simp add: closure_total_coupling_orders_def)
next
  case (Inr env)
  have "\<exists>t \<in> set (closure_totals env splits). orders_le t u" if u: "attainable_total env splits u" for u
  proof -
    from swept_totals(2) [OF refl u] obtain t' where t': "t' \<in> set (concat (map (\<lambda>(ls, rs). closing_totals env (snd ls) (snd rs))
        (closing_pairs env (pareto_sweep env) splits)))" "orders_le t' u" by blast
    from pareto_cover [OF t'(1)] t'(2) show ?thesis unfolding closure_totals_def by (blast intro: orders_le_trans)
  qed
  with Inr show ?thesis by (auto simp: closure_total_coupling_orders_def closure_totals_iff)
qed

theorem closure_totals_pareto_exact_witness:
  "attainable_total (sample_env []) [(4, 3)] [(''QCD'', 1)] \<and> \<not> attainable_total (sample_env []) [(4, 3)] []"
proof -
  have c: "closure_totals (sample_env []) [(4, 3)] = [[(''QCD'', 1)]]" by code_simp
  have "\<exists>env. Inr (sample_env []) = (Inr env :: string reach_env res) \<and>
      set [[(''QCD'', 1)]] = {t. attainable_total env [(4, 3)] t \<and> (\<forall>u. attainable_total env [(4, 3)] u \<longrightarrow> \<not> coupling_orders_dominate u t)} \<and>
      (\<forall>u. attainable_total env [(4, 3)] u \<longrightarrow> (\<exists>t \<in> set [[(''QCD'', 1)]]. orders_le t u))"
    using closure_totals_pareto_exact [where process = sample_reach_process and m = sample_vertex_model
        and engine = "make_color_engine sample_vertex_model sample_legs" and splits = "[(4, 3)]" and closure = None and color = None
        and limits = "[]" and ip = "[]" and ik = "[]", unfolded closure_total_coupling_orders_def sample_env bindE_simps sum.case c] .
  then have e: "set [[(''QCD'', 1)]] = {t. attainable_total (sample_env []) [(4, 3)] t \<and>
        (\<forall>u. attainable_total (sample_env []) [(4, 3)] u \<longrightarrow> \<not> coupling_orders_dominate u t)}"
      "\<forall>u. attainable_total (sample_env []) [(4, 3)] u \<longrightarrow> (\<exists>t \<in> set [[(''QCD'', 1)]]. orders_le t u)" by blast+
  have "[(''QCD'', 1)] \<in> set [[(''QCD'', 1 :: int)]]" by (rule list.set_intros(1))
  then have "attainable_total (sample_env []) [(4, 3)] [(''QCD'', 1)]" unfolding e(1) by blast
  moreover have "\<not> orders_le [(''QCD'', 1)] []"
    unfolding orders_le_def not_all by (rule exI [of _ "''QCD''"]) code_simp
  ultimately show ?thesis using e(2) by auto
qed

end
