(* ===== verification/Generic_Dag.thy ===== *)
theory Generic_Dag
  imports Current_Table Replay_Plan Color_Plan
begin

text \<open>
  The amplitude DAG record of \<open>generation/dag_types.py\<close>: interactions, amplitude roots, the
  consistency checks of \<open>GenericDAG.__post_init__\<close> and the derived counts. Node and
  interaction ids are positions, hence natural numbers; a contraction record is an opaque type;
  coefficient pairs are rationals. Helicity recurrence plans are not modelled, only whether one is
  present, and a helicity materialisation is the payload it describes (the source skips the
  comparison when that payload is the DAG itself, where it cannot fail).
\<close>

record interaction =
  in_id :: nat
  in_vertex_kind :: int
  in_vertex_particles :: "int \<times> int \<times> int"
  in_left :: nat
  in_right :: nat
  in_result :: nat
  in_coupling :: weight
  in_color_weight :: weight
  in_lowering_backend :: string
  in_tensor_ready :: bool
  in_group :: "int option"
  in_factor :: weight

record 'c amplitude_root =
  ar_id :: nat
  ar_kind :: string
  ar_left :: nat
  ar_right :: nat
  ar_color_weight :: weight
  ar_contraction :: 'c
  ar_sector :: "nat option"
  ar_vertex_kind :: "int option"
  ar_vertex_particles :: "(int \<times> int \<times> int) option"
  ar_coupling :: weight
  ar_helicity_weight :: rat

record 'c dag =
  dg_process :: process_ir
  dg_color_plan :: color_plan
  dg_currents :: "current_node list"
  dg_sources :: "nat list"
  dg_interactions :: "interaction list"
  dg_roots :: "'c amplitude_root list"
  dg_truncated :: bool
  dg_helicity_coverage :: String.literal
  dg_color_coverage :: String.literal
  dg_source_helicities :: "(int \<times> int) list"
  dg_selected_sectors :: "nat list"
  dg_lc_replay :: "lc_replay_plan option"
  dg_color_replay :: "replay_certificate option"
  dg_recurrence :: bool
  dg_materialization :: "(current_node list \<times> interaction list \<times> 'c amplitude_root list) option"

section \<open>Consistency checks\<close>

definition plan_sector_ids :: "'c dag \<Rightarrow> nat set" where
  "plan_sector_ids d = set (map sc_id (pl_sectors (dg_color_plan d)))"

definition check_lc_replay :: "'c dag \<Rightarrow> unit res" where
  "check_lc_replay d =
     (case dg_lc_replay d of
        None \<Rightarrow> Inr ()
      | Some r \<Rightarrow>
          if i_color_accuracy (dg_process d) \<noteq> STR ''lc''
          then Inl (ValueError STR ''LC topology replay requires LC color accuracy'')
          else if dg_color_coverage d \<noteq> STR ''complete''
          then Inl (ValueError STR ''LC topology replay requires complete color coverage'')
          else if dg_selected_sectors d \<noteq> []
          then Inl (ValueError STR ''LC topology replay cannot carry generation-specialized color sectors'')
          else if set (lp_physical r) \<noteq> plan_sector_ids d
          then Inl (ValueError STR ''LC topology replay physical sectors do not match the color plan'')
          else Inr ())"

definition check_color_replay :: "'c dag \<Rightarrow> unit res" where
  "check_color_replay d =
     (case dg_color_replay d of
        None \<Rightarrow> Inr ()
      | Some r \<Rightarrow>
          if i_color_accuracy (dg_process d) \<notin> {STR ''nlc'', STR ''full''}
          then Inl (ValueError STR ''generic topology replay requires NLC or full color accuracy'')
          else if rc_accuracy r \<noteq> i_color_accuracy (dg_process d)
          then Inl (ValueError STR ''generic topology replay color accuracy does not match the DAG'')
          else if dg_color_coverage d \<noteq> STR ''complete''
          then Inl (ValueError STR ''generic topology replay requires complete color coverage'')
          else if dg_selected_sectors d \<noteq> []
          then Inl (ValueError STR ''generic topology replay cannot carry generation-specialized color sectors'')
          else if set (rc_physical r) \<noteq> plan_sector_ids d
          then Inl (ValueError STR ''generic topology replay physical sectors do not match the color plan'')
          else Inr ())"

definition check_helicity :: "'c dag \<Rightarrow> unit res" where
  "check_helicity d =
     (if dg_recurrence d \<and> (dg_helicity_coverage d \<noteq> STR ''complete'' \<or> dg_source_helicities d \<noteq> [])
      then Inl (ValueError STR ''helicity recurrence metadata requires complete helicity coverage'')
      else case dg_materialization d of
          None \<Rightarrow> Inr ()
        | Some payload \<Rightarrow>
            if \<not> dg_recurrence d then Inl (ValueError STR ''helicity materialization requires a recurrence proof'')
            else if payload \<noteq> (dg_currents d, dg_interactions d, dg_roots d)
            then Inl (ValueError STR ''helicity materialization does not describe this DAG'')
            else Inr ())"

definition make_dag :: "'c dag \<Rightarrow> 'c dag res" where
  "make_dag raw =
     (if dg_helicity_coverage raw \<notin> {STR ''complete'', STR ''selected''}
      then Inl (ValueError STR ''DAG helicity coverage must be complete or selected'')
      else if dg_color_coverage raw \<notin> {STR ''complete'', STR ''selected''}
      then Inl (ValueError STR ''DAG color coverage must be complete or selected'')
      else let d = raw\<lparr>dg_selected_sectors := sort (remdups (dg_selected_sectors raw))\<rparr>
           in if \<not> set (dg_selected_sectors d) \<subseteq> plan_sector_ids d
              then Inl (ValueError STR ''selected color-sector provenance references an absent sector'')
              else if dg_lc_replay d \<noteq> None \<and> dg_color_replay d \<noteq> None
              then Inl (ValueError STR ''DAG cannot carry both LC and generic topology replay'')
              else bindE (check_lc_replay d) (\<lambda>_. bindE (check_color_replay d) (\<lambda>_. bindE (check_helicity d) (\<lambda>_. Inr d))))"

section \<open>Derived counts\<close>

definition has_amplitudes :: "'c dag \<Rightarrow> bool" where
  "has_amplitudes d = (dg_roots d \<noteq> [])"

definition required_vertex_kinds :: "'c dag \<Rightarrow> int list" where
  "required_vertex_kinds d =
     sort (remdups (map in_vertex_kind (dg_interactions d) @ List.map_filter ar_vertex_kind (dg_roots d)))"

datatype evaluation_key = Group_Key int | Interaction_Key nat

definition evaluation_key :: "interaction \<Rightarrow> evaluation_key" where
  "evaluation_key i = (case in_group i of Some g \<Rightarrow> Group_Key g | None \<Rightarrow> Interaction_Key (in_id i))"

definition evaluated :: "interaction list \<Rightarrow> interaction list" where
  "evaluated is = filter (\<lambda>i. in_factor i \<noteq> (0, 0)) is"

definition interaction_evaluation_count :: "'c dag \<Rightarrow> nat" where
  "interaction_evaluation_count d = length (remdups (map evaluation_key (evaluated (dg_interactions d))))"

definition count_key :: "('k \<times> nat) list \<Rightarrow> 'k \<Rightarrow> ('k \<times> nat) list" where
  "count_key d k = AList.update k ((case map_of d k of None \<Rightarrow> 0 | Some n \<Rightarrow> n) + 1) d"

definition interaction_fanout_histogram :: "'c dag \<Rightarrow> (nat \<times> nat) list" where
  "interaction_fanout_histogram d =
     (let group_sizes = foldl count_key [] (map evaluation_key (evaluated (dg_interactions d)));
          histogram = foldl count_key [] (map snd group_sizes)
      in sort histogram)"

definition currents_by_external_labels :: "'c dag \<Rightarrow> int list \<Rightarrow> current_node list" where
  "currents_by_external_labels d labels =
     filter (\<lambda>c. ci_external_labels (cn_index c) = sort labels) (dg_currents d)"

section \<open>Counting with a dictionary\<close>

lemma foldl_count_key:
  "distinct (map fst d) \<Longrightarrow>
   distinct (map fst (foldl count_key d ks)) \<and> fst ` set (foldl count_key d ks) = fst ` set d \<union> set ks \<and>
   (\<forall>k. map_of (foldl count_key d ks) k =
      (if k \<in> fst ` set d \<union> set ks then Some ((case map_of d k of None \<Rightarrow> 0 | Some n \<Rightarrow> n) + count_list ks k) else None))"
proof (induction ks arbitrary: d)
  case Nil
  then show ?case by (auto simp: map_of_eq_None_iff split: option.splits)
next
  case (Cons k ks)
  have d: "distinct (map fst (count_key d k))" using Cons.prems by (simp add: count_key_def distinct_update)
  have f: "fst ` set (count_key d k) = insert k (fst ` set d)" by (simp add: count_key_def dom_update)
  have m: "map_of (count_key d k) j = (if j = k then Some ((case map_of d k of None \<Rightarrow> 0 | Some n \<Rightarrow> n) + 1) else map_of d j)" for j
    by (simp add: count_key_def update_conv')
  show ?case using Cons.IH [OF d] unfolding f m by (auto simp: map_of_eq_None_iff)
qed

definition count_dict :: "'k list \<Rightarrow> ('k \<times> nat) list" where
  "count_dict ks = foldl count_key [] ks"

lemma count_dict:
  "distinct (map fst (count_dict ks))" "fst ` set (count_dict ks) = set ks"
  "(k, n) \<in> set (count_dict ks) \<longleftrightarrow> k \<in> set ks \<and> n = count_list ks k"
proof -
  have f: "distinct (map fst (count_dict ks)) \<and> fst ` set (count_dict ks) = set ks \<and>
      (\<forall>k. map_of (count_dict ks) k = (if k \<in> set ks then Some (count_list ks k) else None))"
    using foldl_count_key [of "[]" ks] by (simp add: count_dict_def)
  then show d: "distinct (map fst (count_dict ks))" and "fst ` set (count_dict ks) = set ks" by simp_all
  have "(k, n) \<in> set (count_dict ks) \<longleftrightarrow> map_of (count_dict ks) k = Some n"
    by (rule map_of_eq_Some_iff [OF d, symmetric])
  also have "\<dots> \<longleftrightarrow> k \<in> set ks \<and> n = count_list ks k" using f by auto
  finally show "(k, n) \<in> set (count_dict ks) \<longleftrightarrow> k \<in> set ks \<and> n = count_list ks k" .
qed

lemma sum_count_dict: "sum_list (map snd (count_dict ks)) = length ks"
proof -
  have "sum_list (map snd (count_dict ks)) = (\<Sum>p \<in> set (count_dict ks). snd p)"
    using count_dict(1) [of ks] by (simp add: sum_list_distinct_conv_sum_set distinct_map)
  also have "\<dots> = (\<Sum>k \<in> set ks. count_list ks k)"
  proof (rule sum.reindex_cong [of fst, symmetric])
    show "inj_on fst (set (count_dict ks))" using count_dict(1) [of ks] by (simp add: distinct_map)
    show "count_list ks (fst p) = snd p" if "p \<in> set (count_dict ks)" for p
      using that count_dict(3) [of "fst p" "snd p" ks] by simp
  qed (simp add: count_dict(2))
  finally show ?thesis by (simp add: sum_count_set)
qed

lemma length_count_dict: "length (count_dict ks) = length (remdups ks)"
proof -
  have "length (count_dict ks) = card (fst ` set (count_dict ks))"
    using count_dict(1) [of ks] by (metis distinct_card length_map list.set_map)
  then show ?thesis by (simp add: count_dict(2) length_remdups_card_conv)
qed

lemma sum_products_count_dict: "sum_list (map (\<lambda>(f, c). f * c) (count_dict ns)) = sum_list ns"
proof -
  have "sum_list (map (\<lambda>(f, c). f * c) (count_dict ns)) = (\<Sum>p \<in> set (count_dict ns). fst p * snd p)"
    using count_dict(1) [of ns] by (simp add: sum_list_distinct_conv_sum_set distinct_map split_beta)
  also have "\<dots> = (\<Sum>n \<in> set ns. n * count_list ns n)"
  proof (rule sum.reindex_cong [of fst, symmetric])
    show "inj_on fst (set (count_dict ns))" using count_dict(1) [of ns] by (simp add: distinct_map)
    show "fst p * count_list ns (fst p) = fst p * snd p" if "p \<in> set (count_dict ns)" for p
      using that count_dict(3) [of "fst p" "snd p" ns] by simp
  qed (simp add: count_dict(2))
  also have "\<dots> = sum_list ns"
    using sum_list_map_eq_sum_count [of "\<lambda>n. n" ns] by (simp add: mult.commute)
  finally show ?thesis .
qed

lemma fanout_histogram:
  fixes d :: "'c dag"
  defines "keys \<equiv> map evaluation_key (evaluated (dg_interactions d))" and "hist \<equiv> interaction_fanout_histogram d"
  shows "sorted_wrt (<) (map fst hist) \<and>
    (\<forall>f c. (f, c) \<in> set hist \<longleftrightarrow> 0 < c \<and> c = card {k \<in> set keys. count_list keys k = f}) \<and>
    sum_list (map snd hist) = interaction_evaluation_count d \<and>
    sum_list (map (\<lambda>(f, c). f * c) hist) = length (evaluated (dg_interactions d))"
proof -
  let ?sizes = "map snd (count_dict keys)"
  have h: "hist = sort (count_dict ?sizes)"
    by (simp add: hist_def interaction_fanout_histogram_def count_dict_def keys_def)
  have mh: "mset hist = mset (count_dict ?sizes)" and sh: "set hist = set (count_dict ?sizes)" by (simp_all add: h)
  have "distinct (map fst hist)" using count_dict(1) [of ?sizes] mh by (metis mset_eq_imp_distinct_iff mset_map)
  moreover have "sorted (map fst hist)"
  proof -
    have "sorted hist" by (simp add: h)
    then show ?thesis by (induction hist) (auto simp: less_eq_prod_def)
  qed
  ultimately have "sorted_wrt (<) (map fst hist)" by (simp add: strict_sorted_iff)
  moreover have "(f, c) \<in> set hist \<longleftrightarrow> 0 < c \<and> c = card {k \<in> set keys. count_list keys k = f}" for f c
  proof -
    have cl: "count_list ?sizes f = card {k \<in> set keys. count_list keys k = f}"
    proof -
      have "count_list ?sizes f = length (filter (\<lambda>p. snd p = f) (count_dict keys))"
        by (induction "count_dict keys" rule: rev_induct) (simp_all add: count_list_eq_length_filter comp_def eq_commute)
      also have "\<dots> = card (fst ` set (filter (\<lambda>p. snd p = f) (count_dict keys)))"
      proof -
        have "distinct (map fst (filter (\<lambda>p. snd p = f) (count_dict keys)))"
          using count_dict(1) [of keys] by (rule distinct_map_filter)
        then show ?thesis by (metis distinct_card length_map list.set_map)
      qed
      also have "fst ` set (filter (\<lambda>p. snd p = f) (count_dict keys)) = {k \<in> set keys. count_list keys k = f}"
        using count_dict(3) [of _ _ keys] by (force simp: image_iff)
      finally show ?thesis .
    qed
    have "f \<in> set ?sizes \<longleftrightarrow> 0 < count_list ?sizes f" by (simp add: count_list_0_iff neq0_conv [symmetric])
    then show ?thesis unfolding sh count_dict(3) cl by auto
  qed
  moreover have "sum_list (map snd hist) = interaction_evaluation_count d"
  proof -
    have "sum_list (map snd hist) = sum_list (map snd (count_dict ?sizes))"
      using mh by (metis mset_map sum_mset_sum_list)
    then show ?thesis
      by (simp add: sum_count_dict length_count_dict interaction_evaluation_count_def keys_def)
  qed
  moreover have "sum_list (map (\<lambda>(f, c). f * c) hist) = length (evaluated (dg_interactions d))"
  proof -
    have "sum_list (map (\<lambda>(f, c). f * c) hist) = sum_list (map (\<lambda>(f, c). f * c) (count_dict ?sizes))"
      using mh by (metis mset_map sum_mset_sum_list)
    also have "\<dots> = sum_list ?sizes" by (rule sum_products_count_dict)
    also have "\<dots> = length keys" by (rule sum_count_dict)
    finally show ?thesis by (simp add: keys_def)
  qed
  ultimately show ?thesis by blast
qed

text \<open>
  The fan-out histogram accounts for every evaluated interaction: its rows are strictly sorted,
  row \<open>(f, c)\<close> says that exactly \<open>c\<close> evaluation groups have \<open>f > 0\<close> members,
  the counts add up to \<open>interaction_evaluation_count\<close> and the members to the number of
  interactions with a nonzero evaluation factor.
\<close>

theorem fanout_histogram_exact:
  "let keys = map evaluation_key (evaluated (dg_interactions d)); hist = interaction_fanout_histogram d
   in sorted_wrt (<) (map fst hist) \<and>
      (\<forall>f c. (f, c) \<in> set hist \<longleftrightarrow> 0 < c \<and> c = card {k \<in> set keys. count_list keys k = f}) \<and>
      sum_list (map snd hist) = interaction_evaluation_count d \<and>
      sum_list (map (\<lambda>(f, c). f * c) hist) = length (evaluated (dg_interactions d))"
  unfolding Let_def by (rule fanout_histogram)

end
