(* ===== verification/Dag_Prune.thy ===== *)
theory Dag_Prune
  imports Generic_Dag
begin

text \<open>
  Dead-current elimination, \<open>prune_dag_to_amplitude_roots\<close> of
  \<open>generation/dag_algorithms.py\<close>: currents and interactions that feed no amplitude root are
  dropped and the rest renumbered. The byte arrays of the source are lists of booleans, an index out
  of range raises. The source walks the interactions backwards once, relying on the emission order:
  a current is complete before it is read. Under that order one pass finds every live current, and
  every forward evaluation of the pruned DAG gives the amplitudes of the original.
\<close>

section \<open>The operation\<close>

definition fetch :: "'a list \<Rightarrow> nat \<Rightarrow> 'a res" where
  "fetch xs i = (if i < length xs then Inr (xs ! i) else Inl (IndexError STR ''index out of range''))"

definition set_flag :: "bool list \<Rightarrow> nat \<Rightarrow> bool list res" where
  "set_flag flags i = (if i < length flags then Inr (flags[i := True]) else Inl (IndexError STR ''index out of range''))"

definition mark_root :: "bool list \<Rightarrow> 'c amplitude_root \<Rightarrow> bool list res" where
  "mark_root flags r = bindE (set_flag flags (ar_left r)) (\<lambda>f. set_flag f (ar_right r))"

definition mark_interaction :: "bool list \<times> bool list \<Rightarrow> interaction \<Rightarrow> (bool list \<times> bool list) res" where
  "mark_interaction = (\<lambda>(currents, interactions) i.
     bindE (fetch currents (in_result i)) (\<lambda>required.
       if required
       then bindE (set_flag interactions (in_id i)) (\<lambda>interactions'.
            bindE (set_flag currents (in_left i)) (\<lambda>c.
            bindE (set_flag c (in_right i)) (\<lambda>c'. Inr (c', interactions'))))
       else Inr (currents, interactions)))"

text \<open>New ids count the kept entries; a dropped entry has none (\<open>-1\<close> in the source).\<close>

fun id_map :: "int \<Rightarrow> bool list \<Rightarrow> int list" where
  "id_map next_id [] = []"
| "id_map next_id (True # flags) = next_id # id_map (next_id + 1) flags"
| "id_map next_id (False # flags) = -1 # id_map next_id flags"

definition new_id :: "int list \<Rightarrow> nat \<Rightarrow> nat res" where
  "new_id ids i = bindE (fetch ids i) (\<lambda>k. Inr (nat k))"

definition filterE :: "('a \<Rightarrow> bool res) \<Rightarrow> 'a list \<Rightarrow> 'a list res" where
  "filterE p xs = bindE (mapE (\<lambda>x. bindE (p x) (\<lambda>b. Inr (b, x))) xs) (\<lambda>rows. Inr (map snd (filter fst rows)))"

definition renamed_interaction :: "int list \<Rightarrow> int list \<Rightarrow> interaction \<Rightarrow> interaction res" where
  "renamed_interaction cids iids i =
     bindE (new_id iids (in_id i)) (\<lambda>k. bindE (new_id cids (in_left i)) (\<lambda>l.
     bindE (new_id cids (in_right i)) (\<lambda>r. bindE (new_id cids (in_result i)) (\<lambda>s.
     Inr (i\<lparr>in_id := k, in_left := l, in_right := r, in_result := s\<rparr>)))))"

definition renamed_root :: "int list \<Rightarrow> nat \<times> 'c amplitude_root \<Rightarrow> 'c amplitude_root res" where
  "renamed_root cids = (\<lambda>(k, root). bindE (new_id cids (ar_left root)) (\<lambda>l. bindE (new_id cids (ar_right root)) (\<lambda>r.
     Inr (root\<lparr>ar_id := k, ar_left := l, ar_right := r\<rparr>))))"

definition live_flags :: "'c dag \<Rightarrow> (bool list \<times> bool list) res" where
  "live_flags d =
     bindE (foldE mark_root (replicate (length (dg_currents d)) False) (dg_roots d)) (\<lambda>flags.
       foldE mark_interaction (flags, replicate (length (dg_interactions d)) False) (rev (dg_interactions d)))"

definition prune_dag_to_amplitude_roots :: "'c dag \<Rightarrow> 'c dag res" where
  "prune_dag_to_amplitude_roots d =
     (if dg_roots d = [] then Inr d
      else bindE (live_flags d) (\<lambda>(cflags, iflags).
        if list_all id cflags \<and> list_all id iflags then Inr d
        else let cids = id_map 0 cflags; iids = id_map 0 iflags in
          bindE (filterE (\<lambda>c. fetch cflags (cn_id c)) (dg_currents d)) (\<lambda>kept.
          bindE (mapE (\<lambda>c. bindE (new_id cids (cn_id c)) (\<lambda>k. Inr (c\<lparr>cn_id := k\<rparr>))) kept) (\<lambda>currents.
          bindE (filterE (\<lambda>i. fetch iflags (in_id i)) (dg_interactions d)) (\<lambda>kept_interactions.
          bindE (mapE (renamed_interaction cids iids) kept_interactions) (\<lambda>interactions.
          bindE (mapE (renamed_root cids) (zip [0..<length (dg_roots d)] (dg_roots d))) (\<lambda>roots.
          bindE (filterE (fetch cflags) (dg_sources d)) (\<lambda>kept_sources.
          bindE (mapE (new_id cids) kept_sources) (\<lambda>sources.
          make_dag (d\<lparr>dg_currents := currents, dg_sources := sources, dg_interactions := interactions, dg_roots := roots,
            dg_recurrence := False, dg_materialization := None\<rparr>))))))))))"

section \<open>Well-formed DAGs and their evaluation\<close>

text \<open>
  Ids are positions and in range, and the emission order is topological: no interaction writes a
  current that it or an earlier interaction has read.
\<close>

definition dense_ids :: "'c dag \<Rightarrow> bool" where
  "dense_ids d \<longleftrightarrow>
     map cn_id (dg_currents d) = [0..<length (dg_currents d)] \<and>
     map in_id (dg_interactions d) = [0..<length (dg_interactions d)] \<and>
     (\<forall>i \<in> set (dg_interactions d). in_left i < length (dg_currents d) \<and> in_right i < length (dg_currents d) \<and>
        in_result i < length (dg_currents d)) \<and>
     (\<forall>r \<in> set (dg_roots d). ar_left r < length (dg_currents d) \<and> ar_right r < length (dg_currents d)) \<and>
     (\<forall>s \<in> set (dg_sources d). s < length (dg_currents d))"

definition reads :: "interaction \<Rightarrow> nat set" where
  "reads i = {in_left i, in_right i}"

fun topological :: "interaction list \<Rightarrow> bool" where
  "topological [] = True"
| "topological (i # is) = ((\<forall>j \<in> set (i # is). in_result j \<notin> reads i) \<and> topological is)"

text \<open>
  A forward evaluation: a current starts with the value the evaluator gives its content (a source
  wavefunction, or zero), each interaction adds the value of its kernel to its result, and a root
  combines its two currents. The evaluator sees the contents of nodes, not their ids.
\<close>

definition current_content :: "current_node \<Rightarrow> current_node" where
  "current_content c = c\<lparr>cn_id := 0\<rparr>"

definition interaction_content :: "interaction \<Rightarrow> interaction" where
  "interaction_content i = i\<lparr>in_id := 0, in_left := 0, in_right := 0, in_result := 0\<rparr>"

definition root_content :: "'c amplitude_root \<Rightarrow> 'c amplitude_root" where
  "root_content r = r\<lparr>ar_id := 0, ar_left := 0, ar_right := 0\<rparr>"

record ('v, 'c, 'a) evaluator =
  ev_source :: "current_node \<Rightarrow> 'v"
  ev_add :: "'v \<Rightarrow> 'v \<Rightarrow> 'v"
  ev_kernel :: "interaction \<Rightarrow> 'v \<Rightarrow> 'v \<Rightarrow> 'v"
  ev_root :: "'c amplitude_root \<Rightarrow> 'v \<Rightarrow> 'v \<Rightarrow> 'a"

definition eval_step :: "('v, 'c, 'a) evaluator \<Rightarrow> (nat \<Rightarrow> 'v) \<Rightarrow> interaction \<Rightarrow> nat \<Rightarrow> 'v" where
  "eval_step ev vals i = vals(in_result i :=
     ev_add ev (vals (in_result i)) (ev_kernel ev (interaction_content i) (vals (in_left i)) (vals (in_right i))))"

definition current_values :: "('v, 'c, 'a) evaluator \<Rightarrow> 'c dag \<Rightarrow> nat \<Rightarrow> 'v" where
  "current_values ev d = foldl (eval_step ev) (\<lambda>c. ev_source ev (current_content (dg_currents d ! c))) (dg_interactions d)"

definition amplitudes :: "('v, 'c, 'a) evaluator \<Rightarrow> 'c dag \<Rightarrow> 'a list" where
  "amplitudes ev d = map (\<lambda>r. ev_root ev (root_content r) (current_values ev d (ar_left r)) (current_values ev d (ar_right r))) (dg_roots d)"

text \<open>A current is live when a root reads it or an interaction with a live result reads it.\<close>

inductive live :: "'c dag \<Rightarrow> nat \<Rightarrow> bool" for d where
  root: "r \<in> set (dg_roots d) \<Longrightarrow> c \<in> {ar_left r, ar_right r} \<Longrightarrow> live d c"
| feeds: "i \<in> set (dg_interactions d) \<Longrightarrow> live d (in_result i) \<Longrightarrow> c \<in> reads i \<Longrightarrow> live d c"

section \<open>Flags as sets\<close>

definition flag_set :: "bool list \<Rightarrow> nat set" where
  "flag_set flags = {i. i < length flags \<and> flags ! i}"

lemma fetch_flag: "i < length flags \<Longrightarrow> fetch flags i = Inr (i \<in> flag_set flags)"
  by (simp add: fetch_def flag_set_def)

lemma set_flag:
  "i < length flags \<Longrightarrow> \<exists>flags'. set_flag flags i = Inr flags' \<and> length flags' = length flags \<and> flag_set flags' = insert i (flag_set flags)"
  by (auto simp: set_flag_def flag_set_def nth_list_update)

lemma flag_set_replicate [simp]: "flag_set (replicate n False) = {}"
  by (auto simp: flag_set_def)

lemma mark_roots:
  "\<forall>r \<in> set rs. ar_left r < length flags \<and> ar_right r < length flags \<Longrightarrow>
   \<exists>flags'. foldE mark_root flags rs = Inr flags' \<and> length flags' = length flags \<and>
     flag_set flags' = flag_set flags \<union> (\<Union>r \<in> set rs. {ar_left r, ar_right r})"
proof (induction rs arbitrary: flags)
  case (Cons r rs)
  obtain f1 where f1: "set_flag flags (ar_left r) = Inr f1" "length f1 = length flags" "flag_set f1 = insert (ar_left r) (flag_set flags)"
    using set_flag [of "ar_left r" flags] Cons.prems by auto
  obtain f2 where f2: "set_flag f1 (ar_right r) = Inr f2" "length f2 = length f1" "flag_set f2 = insert (ar_right r) (flag_set f1)"
    using set_flag [of "ar_right r" f1] Cons.prems f1 by auto
  have "\<forall>r \<in> set rs. ar_left r < length f2 \<and> ar_right r < length f2" using Cons.prems f1 f2 by simp
  from Cons.IH [OF this] obtain f3 where "foldE mark_root f2 rs = Inr f3" "length f3 = length f2"
    "flag_set f3 = flag_set f2 \<union> (\<Union>r \<in> set rs. {ar_left r, ar_right r})" by blast
  moreover have "mark_root flags r = Inr f2" using f1 f2 by (simp add: mark_root_def)
  ultimately show ?case using f1 f2 by auto
qed simp

text \<open>The backward walk on sets.\<close>

definition walk :: "nat set \<Rightarrow> interaction list \<Rightarrow> nat set" where
  "walk C is = foldl (\<lambda>C i. if in_result i \<in> C then reads i \<union> C else C) C is"

lemma walk_simps [simp]:
  "walk C [] = C" "walk C (i # is) = walk (if in_result i \<in> C then reads i \<union> C else C) is"
  by (simp_all add: walk_def)

lemma walk_mono: "C \<subseteq> walk C is"
proof (induction "is" arbitrary: C)
  case (Cons i "is")
  from Cons.IH [of "if in_result i \<in> C then reads i \<union> C else C"] show ?case by (auto split: if_splits)
qed simp

lemma walk_bound: "walk C is \<subseteq> C \<union> (\<Union>i \<in> set is. reads i)"
proof (induction "is" arbitrary: C)
  case (Cons i "is")
  from Cons.IH [of "if in_result i \<in> C then reads i \<union> C else C"] show ?case by (auto split: if_splits)
qed simp

lemma topological_append:
  "topological (xs @ ys) \<longleftrightarrow> topological xs \<and> topological ys \<and> (\<forall>i \<in> set xs. \<forall>j \<in> set ys. in_result j \<notin> reads i)"
  by (induction xs) auto

text \<open>In emission order a consumer is walked before the producers of what it reads.\<close>

lemma walk_closed:
  "topological (rev is) \<Longrightarrow> i \<in> set is \<Longrightarrow> in_result i \<in> walk C is \<Longrightarrow> reads i \<subseteq> walk C is"
proof (induction "is" arbitrary: C)
  case (Cons j "is")
  let ?C = "if in_result j \<in> C then reads j \<union> C else C"
  have top: "topological (rev is)" "in_result j \<notin> reads j" "\<forall>i \<in> set is. in_result j \<notin> reads i"
    using Cons.prems(1) by (auto simp: topological_append)
  show ?case
  proof (cases "i \<in> set is")
    case True
    with Cons.IH [OF top(1) True, of ?C] Cons.prems(3) show ?thesis by simp
  next
    case False
    then have i: "i = j" using Cons.prems(2) by simp
    have "in_result j \<in> walk ?C is" using Cons.prems(3) i by simp
    then have "in_result j \<in> ?C \<union> (\<Union>i \<in> set is. reads i)" using walk_bound [of ?C "is"] by (rule set_mp [rotated])
    moreover have "in_result j \<notin> (\<Union>i \<in> set is. reads i)" using top(3) by blast
    ultimately have "in_result j \<in> ?C" by simp
    then have "in_result j \<in> C" using top(2) by (auto split: if_splits)
    then have "reads j \<subseteq> ?C" by auto
    then show ?thesis using walk_mono [of ?C "is"] i by auto
  qed
qed simp

lemma walk_result_early:
  assumes "topological (rev (i # is))" "in_result i \<in> walk C (i # is)"
  shows "in_result i \<in> C"
proof -
  have top: "in_result i \<notin> reads i" "\<forall>j \<in> set is. in_result i \<notin> reads j"
    using assms(1) by (auto simp: topological_append)
  with walk_bound [of "if in_result i \<in> C then reads i \<union> C else C" "is"] assms(2) show ?thesis by (auto split: if_splits)
qed

lemma mark_interactions:
  "\<forall>i \<in> set is. in_result i < length cf \<and> in_left i < length cf \<and> in_right i < length cf \<and> in_id i < length nf \<Longrightarrow>
   topological (rev is) \<Longrightarrow>
   \<exists>cf' nf'. foldE mark_interaction (cf, nf) is = Inr (cf', nf') \<and> length cf' = length cf \<and> length nf' = length nf \<and>
     flag_set cf' = walk (flag_set cf) is \<and>
     flag_set nf' = flag_set nf \<union> {in_id i |i. i \<in> set is \<and> in_result i \<in> walk (flag_set cf) is}"
proof (induction "is" arbitrary: cf nf)
  case (Cons i "is")
  have top: "topological (rev is)" using Cons.prems(2) by (simp add: topological_append)
  note early = walk_result_early [OF Cons.prems(2)]
  have fetch: "fetch cf (in_result i) = Inr (in_result i \<in> flag_set cf)" using Cons.prems(1) by (simp add: fetch_flag)
  show ?case
  proof (cases "in_result i \<in> flag_set cf")
    case True
    obtain nf1 where nf1: "set_flag nf (in_id i) = Inr nf1" "length nf1 = length nf" "flag_set nf1 = insert (in_id i) (flag_set nf)"
      using set_flag [of "in_id i" nf] Cons.prems(1) by auto
    obtain c1 where c1: "set_flag cf (in_left i) = Inr c1" "length c1 = length cf" "flag_set c1 = insert (in_left i) (flag_set cf)"
      using set_flag [of "in_left i" cf] Cons.prems(1) by auto
    obtain c2 where c2: "set_flag c1 (in_right i) = Inr c2" "length c2 = length cf" "flag_set c2 = insert (in_right i) (flag_set c1)"
      using set_flag [of "in_right i" c1] Cons.prems(1) c1(2) by auto
    have m: "mark_interaction (cf, nf) i = Inr (c2, nf1)"
      using fetch True nf1 c1 c2 by (simp add: mark_interaction_def)
    have fs: "flag_set c2 = reads i \<union> flag_set cf" using c1 c2 by (auto simp: reads_def)
    have "\<forall>i \<in> set is. in_result i < length c2 \<and> in_left i < length c2 \<and> in_right i < length c2 \<and> in_id i < length nf1"
      using Cons.prems(1) c2 nf1 by simp
    from Cons.IH [OF this top] obtain cf' nf' where r: "foldE mark_interaction (c2, nf1) is = Inr (cf', nf')"
      "length cf' = length c2" "length nf' = length nf1" "flag_set cf' = walk (flag_set c2) is"
      "flag_set nf' = flag_set nf1 \<union> {in_id i |i. i \<in> set is \<and> in_result i \<in> walk (flag_set c2) is}" by blast
    have w: "walk (flag_set cf) (i # is) = walk (flag_set c2) is" using True fs by simp
    have "in_result i \<in> walk (flag_set cf) (i # is)" using True walk_mono [of "flag_set cf" "i # is"] by blast
    then have "flag_set nf' = flag_set nf \<union> {in_id j |j. j \<in> set (i # is) \<and> in_result j \<in> walk (flag_set cf) (i # is)}"
      unfolding r(5) nf1(3) w by auto
    with r m w c2(2) nf1(2) show ?thesis by (intro exI [of _ cf'] exI [of _ nf']) (simp del: walk_simps)
  next
    case False
    have m: "mark_interaction (cf, nf) i = Inr (cf, nf)" using fetch False by (simp add: mark_interaction_def)
    have "\<forall>i \<in> set is. in_result i < length cf \<and> in_left i < length cf \<and> in_right i < length cf \<and> in_id i < length nf"
      using Cons.prems(1) by simp
    from Cons.IH [OF this top] obtain cf' nf' where r: "foldE mark_interaction (cf, nf) is = Inr (cf', nf')"
      "length cf' = length cf" "length nf' = length nf" "flag_set cf' = walk (flag_set cf) is"
      "flag_set nf' = flag_set nf \<union> {in_id i |i. i \<in> set is \<and> in_result i \<in> walk (flag_set cf) is}" by blast
    have w: "walk (flag_set cf) (i # is) = walk (flag_set cf) is" using False by simp
    have "in_result i \<notin> walk (flag_set cf) (i # is)" using early False by blast
    then have "flag_set nf' = flag_set nf \<union> {in_id j |j. j \<in> set (i # is) \<and> in_result j \<in> walk (flag_set cf) (i # is)}"
      unfolding r(5) w by auto
    with r m w show ?thesis by (intro exI [of _ cf'] exI [of _ nf']) (simp del: walk_simps)
  qed
qed simp

lemma live_flags_exact:
  assumes dense: "dense_ids d" and top: "topological (dg_interactions d)"
  obtains cf nf where "live_flags d = Inr (cf, nf)" "length cf = length (dg_currents d)" "length nf = length (dg_interactions d)"
    "flag_set cf = {c. live d c}" "flag_set nf = {in_id i |i. i \<in> set (dg_interactions d) \<and> live d (in_result i)}"
proof -
  let ?R = "\<Union>r \<in> set (dg_roots d). {ar_left r, ar_right r}" and ?is = "rev (dg_interactions d)"
  have rb: "\<forall>r \<in> set (dg_roots d). ar_left r < length (replicate (length (dg_currents d)) False) \<and>
      ar_right r < length (replicate (length (dg_currents d)) False)"
    using dense by (simp add: dense_ids_def)
  from mark_roots [OF rb] obtain f where f: "foldE mark_root (replicate (length (dg_currents d)) False) (dg_roots d) = Inr f"
      "length f = length (dg_currents d)" "flag_set f = ?R" by auto
  have ids: "in_id i < length (dg_interactions d)" if "i \<in> set (dg_interactions d)" for i
  proof -
    have "in_id i \<in> set (map in_id (dg_interactions d))" using that by simp
    then show ?thesis using dense unfolding dense_ids_def by simp
  qed
  have ib: "\<forall>i \<in> set ?is. in_result i < length f \<and> in_left i < length f \<and> in_right i < length f \<and>
      in_id i < length (replicate (length (dg_interactions d)) False)"
    using dense f(2) ids by (auto simp: dense_ids_def)
  have "topological (rev ?is)" using top by simp
  from mark_interactions [OF ib this] obtain cf nf where m: "foldE mark_interaction (f, replicate (length (dg_interactions d)) False) ?is = Inr (cf, nf)"
      "length cf = length (dg_currents d)" "length nf = length (dg_interactions d)"
      "flag_set cf = walk ?R ?is" "flag_set nf = {in_id i |i. i \<in> set ?is \<and> in_result i \<in> walk ?R ?is}"
    using f(2,3) by auto
  have "walk C is \<subseteq> {c. live d c}" if "C \<subseteq> {c. live d c}" "set is \<subseteq> set (dg_interactions d)" for C "is"
    using that
  proof (induction "is" arbitrary: C)
    case (Cons i "is")
    have "(if in_result i \<in> C then reads i \<union> C else C) \<subseteq> {c. live d c}"
      using Cons.prems by (auto intro: live.feeds)
    with Cons show ?case by simp
  qed simp
  from this [of ?R ?is] have "walk ?R ?is \<subseteq> {c. live d c}" by (auto intro: live.root)
  moreover have "c \<in> walk ?R ?is" if "live d c" for c
    using that
  proof (induction rule: live.induct)
    case (root r c)
    then show ?case using walk_mono [of ?R ?is] by blast
  next
    case (feeds i c)
    then show ?case using walk_closed [of ?is i ?R] top by auto
  qed
  ultimately have w: "walk ?R ?is = {c. live d c}" by blast
  have "live_flags d = Inr (cf, nf)" using f(1) m(1) by (simp add: live_flags_def)
  with m show ?thesis using that unfolding w by simp
qed

section \<open>Renumbering\<close>

definition kept_rank :: "bool list \<Rightarrow> nat \<Rightarrow> nat" where
  "kept_rank flags i = length (filter id (take i flags))"

lemma length_id_map [simp]: "length (id_map k flags) = length flags"
  by (induction k flags rule: id_map.induct) simp_all

lemma id_map_nth: "i \<in> flag_set flags \<Longrightarrow> id_map k flags ! i = k + int (kept_rank flags i)"
proof (induction k flags arbitrary: i rule: id_map.induct)
  case (2 k flags)
  then show ?case by (cases i) (auto simp: flag_set_def kept_rank_def)
next
  case (3 k flags)
  then show ?case by (cases i) (auto simp: flag_set_def kept_rank_def)
qed (simp add: flag_set_def)

lemma new_id_live: "i \<in> flag_set flags \<Longrightarrow> new_id (id_map 0 flags) i = Inr (kept_rank flags i)"
  using id_map_nth [of i flags 0] by (simp add: new_id_def fetch_def flag_set_def)

lemma rank_less: "i \<in> flag_set flags \<Longrightarrow> i < j \<Longrightarrow> kept_rank flags i < kept_rank flags j"
proof -
  assume i: "i \<in> flag_set flags" and ij: "i < j"
  have "take j flags = take i flags @ take (j - i) (drop i flags)"
    using ij by (metis le_add_diff_inverse less_imp_le take_add)
  moreover have "drop i flags = True # drop (Suc i) flags"
    using i by (auto simp: flag_set_def Cons_nth_drop_Suc [symmetric])
  ultimately show ?thesis using ij by (cases "j - i") (simp_all add: kept_rank_def)
qed

lemma rank_inj: "inj_on (kept_rank flags) (flag_set flags)"
  by (rule inj_onI) (metis less_irrefl nat_neq_iff rank_less)

lemma map_rank_filter:
  "n \<le> length flags \<Longrightarrow> map (kept_rank flags) (filter (\<lambda>i. i \<in> flag_set flags) [0..<n]) = [0..<kept_rank flags n]"
proof (induction n)
  case (Suc n)
  have "take (Suc n) flags = take n flags @ [flags ! n]" using Suc.prems by (simp add: take_Suc_conv_app_nth)
  then have "kept_rank flags (Suc n) = kept_rank flags n + (if flags ! n then 1 else 0)" by (simp add: kept_rank_def)
  with Suc show ?case by (auto simp: flag_set_def)
qed (simp add: kept_rank_def)

lemma rank_total: "map (kept_rank flags) (filter (\<lambda>i. i \<in> flag_set flags) [0..<length flags]) = [0..<length (filter id flags)]"
  using map_rank_filter [of "length flags" flags] by (simp add: kept_rank_def)

lemma filterE_total: "(\<And>x. x \<in> set xs \<Longrightarrow> p x = Inr (q x)) \<Longrightarrow> filterE p xs = Inr (filter q xs)"
proof -
  assume "\<And>x. x \<in> set xs \<Longrightarrow> p x = Inr (q x)"
  then have "mapE (\<lambda>x. bindE (p x) (\<lambda>b. Inr (b, x))) xs = Inr (map (\<lambda>x. (q x, x)) xs)" by (intro mapE_total) simp
  then show ?thesis by (simp add: filterE_def filter_map comp_def)
qed

definition renamed :: "(nat \<Rightarrow> nat) \<Rightarrow> (nat \<Rightarrow> nat) \<Rightarrow> interaction \<Rightarrow> interaction" where
  "renamed f g i = i\<lparr>in_id := g (in_id i), in_left := f (in_left i), in_right := f (in_right i), in_result := f (in_result i)\<rparr>"

definition pruned_dag :: "'c dag \<Rightarrow> (nat \<Rightarrow> nat) \<Rightarrow> (nat \<Rightarrow> nat) \<Rightarrow> 'c dag" where
  "pruned_dag d f g = d\<lparr>
     dg_currents := map (\<lambda>c. c\<lparr>cn_id := f (cn_id c)\<rparr>) (filter (\<lambda>c. live d (cn_id c)) (dg_currents d)),
     dg_sources := map f (filter (live d) (dg_sources d)),
     dg_interactions := map (renamed f g) (filter (\<lambda>i. live d (in_result i)) (dg_interactions d)),
     dg_roots := map (\<lambda>(k, r). r\<lparr>ar_id := k, ar_left := f (ar_left r), ar_right := f (ar_right r)\<rparr>)
       (zip [0..<length (dg_roots d)] (dg_roots d)),
     dg_recurrence := False, dg_materialization := None\<rparr>"

lemma make_dag_pruned:
  assumes "make_dag d = Inr d"
  shows "make_dag (pruned_dag d f g) = Inr (pruned_dag d f g)"
proof -
  obtain e where e: "e = pruned_dag d f g" by simp
  have same: "dg_helicity_coverage e = dg_helicity_coverage d" "dg_color_coverage e = dg_color_coverage d" "dg_process e = dg_process d"
    "dg_selected_sectors e = dg_selected_sectors d" "dg_lc_replay e = dg_lc_replay d" "dg_color_replay e = dg_color_replay d"
    "dg_color_plan e = dg_color_plan d" "\<not> dg_recurrence e" "dg_materialization e = None"
    by (simp_all add: e pruned_dag_def)
  have ids: "plan_sector_ids e = plan_sector_ids d" by (simp add: plan_sector_ids_def same)
  have checks: "check_lc_replay e = check_lc_replay d" "check_color_replay e = check_color_replay d" "check_helicity e = Inr ()"
    unfolding check_lc_replay_def check_color_replay_def check_helicity_def same ids by (simp_all add: same)
  obtain d' where d': "d' = d\<lparr>dg_selected_sectors := sort (remdups (dg_selected_sectors d))\<rparr>" by simp
  from assms have dd: "d' = d" unfolding make_dag_def Let_def d' [symmetric] by (auto simp: res_simps split: if_splits)
  have "dg_selected_sectors d' = sort (remdups (dg_selected_sectors d))" by (simp add: d')
  then have sel: "sort (remdups (dg_selected_sectors d)) = dg_selected_sectors d" unfolding dd by simp
  have u: "x\<lparr>dg_selected_sectors := dg_selected_sectors x\<rparr> = x" for x :: "'c dag" by simp
  have ue: "e\<lparr>dg_selected_sectors := dg_selected_sectors d\<rparr> = e" using u [of e] by (simp only: same)
  show ?thesis using assms unfolding e [symmetric]
    unfolding make_dag_def Let_def same sel u ue ids checks by (simp add: res_simps split: if_splits)
qed

text \<open>What a run of the pass returns, for a well-formed DAG with roots.\<close>

lemma prune_result:
  assumes dense: "dense_ids d" and top: "topological (dg_interactions d)" and mk: "make_dag d = Inr d" and ne: "dg_roots d \<noteq> []"
  obtains cf nf where "length cf = length (dg_currents d)" "length nf = length (dg_interactions d)"
    "flag_set cf = {c. live d c}" "flag_set nf = {in_id i |i. i \<in> set (dg_interactions d) \<and> live d (in_result i)}"
    "prune_dag_to_amplitude_roots d =
       Inr (if list_all id cf \<and> list_all id nf then d else pruned_dag d (kept_rank cf) (kept_rank nf))"
proof -
  obtain cf nf where fl: "live_flags d = Inr (cf, nf)" "length cf = length (dg_currents d)" "length nf = length (dg_interactions d)"
    "flag_set cf = {c. live d c}" "flag_set nf = {in_id i |i. i \<in> set (dg_interactions d) \<and> live d (in_result i)}"
    using live_flags_exact [OF dense top] by blast
  let ?cids = "id_map 0 cf" and ?iids = "id_map 0 nf"
  have cid: "new_id ?cids c = Inr (kept_rank cf c)" if "live d c" for c using that fl(4) by (simp add: new_id_live)
  have bound: "cn_id c < length cf" if "c \<in> set (dg_currents d)" for c
  proof -
    have "cn_id c \<in> set (map cn_id (dg_currents d))" using that by simp
    then show ?thesis using dense fl(2) unfolding dense_ids_def by simp
  qed
  have ibound: "in_id i < length nf" if "i \<in> set (dg_interactions d)" for i
  proof -
    have "in_id i \<in> set (map in_id (dg_interactions d))" using that by simp
    then show ?thesis using dense fl(3) unfolding dense_ids_def by simp
  qed
  have inj: "inj_on in_id (set (dg_interactions d))"
    using dense unfolding dense_ids_def by (metis distinct_map distinct_upt)
  have iflag: "in_id i \<in> flag_set nf \<longleftrightarrow> live d (in_result i)" if i: "i \<in> set (dg_interactions d)" for i
    unfolding fl(5) using inj_onD [OF inj] i by auto
  have kept: "filterE (\<lambda>c. fetch cf (cn_id c)) (dg_currents d) = Inr (filter (\<lambda>c. live d (cn_id c)) (dg_currents d))"
    by (rule filterE_total) (simp add: fetch_flag bound fl(4))
  have currents: "mapE (\<lambda>c. bindE (new_id ?cids (cn_id c)) (\<lambda>k. Inr (c\<lparr>cn_id := k\<rparr>))) (filter (\<lambda>c. live d (cn_id c)) (dg_currents d)) =
      Inr (map (\<lambda>c. c\<lparr>cn_id := kept_rank cf (cn_id c)\<rparr>) (filter (\<lambda>c. live d (cn_id c)) (dg_currents d)))"
    by (rule mapE_total) (simp add: cid)
  have ikept: "filterE (\<lambda>i. fetch nf (in_id i)) (dg_interactions d) = Inr (filter (\<lambda>i. live d (in_result i)) (dg_interactions d))"
    by (rule filterE_total) (simp add: fetch_flag ibound iflag)
  have interactions: "mapE (renamed_interaction ?cids ?iids) (filter (\<lambda>i. live d (in_result i)) (dg_interactions d)) =
      Inr (map (renamed (kept_rank cf) (kept_rank nf)) (filter (\<lambda>i. live d (in_result i)) (dg_interactions d)))"
  proof (rule mapE_total)
    fix i assume "i \<in> set (filter (\<lambda>i. live d (in_result i)) (dg_interactions d))"
    then have i: "i \<in> set (dg_interactions d)" "live d (in_result i)" by simp_all
    then have "live d (in_left i)" "live d (in_right i)" by (auto intro: live.feeds simp: reads_def)
    with i show "renamed_interaction ?cids ?iids i = Inr (renamed (kept_rank cf) (kept_rank nf) i)"
      by (simp add: renamed_interaction_def renamed_def cid new_id_live iflag)
  qed
  have roots: "mapE (renamed_root ?cids) (zip [0..<length (dg_roots d)] (dg_roots d)) =
      Inr (map (\<lambda>(k, r). r\<lparr>ar_id := k, ar_left := kept_rank cf (ar_left r), ar_right := kept_rank cf (ar_right r)\<rparr>)
        (zip [0..<length (dg_roots d)] (dg_roots d)))"
  proof (rule mapE_total)
    fix p assume p: "p \<in> set (zip [0..<length (dg_roots d)] (dg_roots d))"
    obtain k r where kr: "p = (k, r)" by (cases p)
    with p have "r \<in> set (dg_roots d)" by (auto dest: set_zip_rightD)
    then have "live d (ar_left r)" "live d (ar_right r)" by (auto intro: live.root)
    then show "renamed_root ?cids p =
        Inr (case p of (k, r) \<Rightarrow> r\<lparr>ar_id := k, ar_left := kept_rank cf (ar_left r), ar_right := kept_rank cf (ar_right r)\<rparr>)"
      by (simp add: renamed_root_def kr cid)
  qed
  have skept: "filterE (fetch cf) (dg_sources d) = Inr (filter (live d) (dg_sources d))"
    using dense fl(2) by (intro filterE_total) (simp add: fetch_flag fl(4) dense_ids_def)
  have sources: "mapE (new_id ?cids) (filter (live d) (dg_sources d)) = Inr (map (kept_rank cf) (filter (live d) (dg_sources d)))"
    by (rule mapE_total) (simp add: cid)
  have "prune_dag_to_amplitude_roots d = Inr (if list_all id cf \<and> list_all id nf then d else pruned_dag d (kept_rank cf) (kept_rank nf))"
    using make_dag_pruned [OF mk, of "kept_rank cf" "kept_rank nf"] ne
    by (simp add: prune_dag_to_amplitude_roots_def fl(1) Let_def kept currents ikept interactions roots skept sources pruned_dag_def)
  with fl show ?thesis using that by blast
qed

section \<open>Simulation\<close>

lemma simulation:
  assumes inj: "inj_on f {c. live d c}" and sub: "set is \<subseteq> set (dg_interactions d)"
    and start: "\<forall>c. live d c \<longrightarrow> vals' (f c) = vals c" and c: "live d c"
  shows "foldl (eval_step ev) vals' (map (renamed f g) (filter (\<lambda>i. live d (in_result i)) is)) (f c) = foldl (eval_step ev) vals is c"
  using sub start
proof (induction "is" arbitrary: vals vals')
  case Nil
  then show ?case using c by simp
next
  case (Cons i "is")
  have content: "interaction_content (renamed f g i) = interaction_content i" by (simp add: interaction_content_def renamed_def)
  show ?case
  proof (cases "live d (in_result i)")
    case True
    then have l: "live d (in_left i)" "live d (in_right i)" using Cons.prems(1) by (auto intro: live.feeds simp: reads_def)
    have "\<forall>x. live d x \<longrightarrow> eval_step ev vals' (renamed f g i) (f x) = eval_step ev vals i x"
    proof (intro allI impI)
      fix x assume x: "live d x"
      have "f x = f (in_result i) \<longleftrightarrow> x = in_result i" using inj x True by (auto simp: inj_on_def)
      then show "eval_step ev vals' (renamed f g i) (f x) = eval_step ev vals i x"
        using Cons.prems(2) x l True unfolding eval_step_def content by (simp add: renamed_def)
    qed
    then show ?thesis using Cons.IH Cons.prems(1) True by simp
  next
    case False
    have "\<forall>x. live d x \<longrightarrow> vals' (f x) = eval_step ev vals i x"
      using Cons.prems(2) False by (auto simp: eval_step_def)
    then show ?thesis using Cons.IH Cons.prems(1) False by simp
  qed
qed

lemma filter_nth_rank:
  "i < length xs \<Longrightarrow> P (xs ! i) \<Longrightarrow>
   length (filter P (take i xs)) < length (filter P xs) \<and> filter P xs ! length (filter P (take i xs)) = xs ! i"
proof (induction xs arbitrary: i)
  case (Cons x xs)
  then show ?case by (cases i) auto
qed simp

text \<open>The structure of the pruned DAG.\<close>

definition exact_flags :: "'c dag \<Rightarrow> bool list \<Rightarrow> bool list \<Rightarrow> bool" where
  "exact_flags d cf nf \<longleftrightarrow> length cf = length (dg_currents d) \<and> length nf = length (dg_interactions d) \<and>
     flag_set cf = {c. live d c} \<and> flag_set nf = {in_id i |i. i \<in> set (dg_interactions d) \<and> live d (in_result i)}"

abbreviation kept_dag :: "'c dag \<Rightarrow> bool list \<Rightarrow> bool list \<Rightarrow> 'c dag" where
  "kept_dag d cf nf \<equiv> pruned_dag d (kept_rank cf) (kept_rank nf)"

lemma dense_interaction_flags:
  assumes "dense_ids d" "exact_flags d cf nf" "i \<in> set (dg_interactions d)"
  shows "in_id i \<in> flag_set nf \<longleftrightarrow> live d (in_result i)"
proof -
  have "inj_on in_id (set (dg_interactions d))" using assms(1) unfolding dense_ids_def by (metis distinct_map distinct_upt)
  then show ?thesis using assms(2,3) unfolding exact_flags_def by (auto dest: inj_onD)
qed

lemma kept_current_ids:
  assumes "dense_ids d" "exact_flags d cf nf"
  shows "map cn_id (dg_currents (kept_dag d cf nf)) = [0..<length (dg_currents (kept_dag d cf nf))]"
    and "length (dg_currents (kept_dag d cf nf)) = length (filter id cf)"
proof -
  have "map cn_id (dg_currents (kept_dag d cf nf)) = map (kept_rank cf) (filter (live d) (map cn_id (dg_currents d)))"
    by (simp add: pruned_dag_def filter_map comp_def)
  also have "map cn_id (dg_currents d) = [0..<length cf]" using assms by (simp add: dense_ids_def exact_flags_def)
  also have "filter (live d) [0..<length cf] = filter (\<lambda>i. i \<in> flag_set cf) [0..<length cf]"
    using assms(2) by (simp add: exact_flags_def)
  finally have m: "map cn_id (dg_currents (kept_dag d cf nf)) = [0..<length (filter id cf)]" by (simp only: rank_total)
  then show l: "length (dg_currents (kept_dag d cf nf)) = length (filter id cf)" by (metis length_map length_upt minus_nat.diff_0)
  show "map cn_id (dg_currents (kept_dag d cf nf)) = [0..<length (dg_currents (kept_dag d cf nf))]" using m by (simp only: l)
qed

lemma kept_interaction_ids:
  assumes "dense_ids d" "exact_flags d cf nf"
  shows "map in_id (dg_interactions (kept_dag d cf nf)) = [0..<length (dg_interactions (kept_dag d cf nf))]"
proof -
  have "filter (\<lambda>i. live d (in_result i)) (dg_interactions d) = filter (\<lambda>i. in_id i \<in> flag_set nf) (dg_interactions d)"
    by (rule filter_cong) (simp_all add: dense_interaction_flags [OF assms])
  then have "map in_id (dg_interactions (kept_dag d cf nf)) = map (kept_rank nf) (filter (\<lambda>i. i \<in> flag_set nf) (map in_id (dg_interactions d)))"
    by (simp add: pruned_dag_def renamed_def filter_map comp_def)
  also have "map in_id (dg_interactions d) = [0..<length nf]" using assms by (simp add: dense_ids_def exact_flags_def)
  finally have m: "map in_id (dg_interactions (kept_dag d cf nf)) = [0..<length (filter id nf)]" by (simp only: rank_total)
  then have "length (dg_interactions (kept_dag d cf nf)) = length (filter id nf)" by (metis length_map length_upt minus_nat.diff_0)
  with m show ?thesis by simp
qed

lemma kept_rank_bound:
  assumes "dense_ids d" "exact_flags d cf nf" "live d c"
  shows "kept_rank cf c < length (dg_currents (kept_dag d cf nf))"
proof -
  have "c \<in> set (filter (\<lambda>i. i \<in> flag_set cf) [0..<length cf])"
    using assms(2,3) by (auto simp: exact_flags_def flag_set_def)
  then have "kept_rank cf c \<in> set (map (kept_rank cf) (filter (\<lambda>i. i \<in> flag_set cf) [0..<length cf]))" by simp
  then show ?thesis unfolding rank_total kept_current_ids(2) [OF assms(1,2)] by simp
qed

lemma topological_filter: "topological is \<Longrightarrow> topological (filter P is)"
  by (induction "is") auto

lemma topological_renamed:
  "inj_on f S \<Longrightarrow> \<forall>i \<in> set is. in_result i \<in> S \<and> reads i \<subseteq> S \<Longrightarrow> topological is \<Longrightarrow> topological (map (renamed f g) is)"
proof (induction "is")
  case (Cons i "is")
  have "in_result (renamed f g j) \<notin> reads (renamed f g i)" if "j \<in> set (i # is)" for j
  proof -
    have "in_result j \<notin> reads i" "in_result j \<in> S" "reads i \<subseteq> S" using Cons.prems that by auto
    with Cons.prems(1) show ?thesis by (auto simp: renamed_def reads_def inj_on_def)
  qed
  with Cons show ?case by auto
qed simp

lemma kept_wellformed:
  assumes dense: "dense_ids d" and fl: "exact_flags d cf nf" and top: "topological (dg_interactions d)"
  shows "dense_ids (kept_dag d cf nf)" "topological (dg_interactions (kept_dag d cf nf))"
proof -
  let ?d = "kept_dag d cf nf"
  have inj: "inj_on (kept_rank cf) {c. live d c}" using rank_inj [of cf] fl by (simp add: exact_flags_def)
  have lv: "\<forall>i \<in> set (filter (\<lambda>i. live d (in_result i)) (dg_interactions d)). in_result i \<in> {c. live d c} \<and> reads i \<subseteq> {c. live d c}"
    by (auto intro: live.feeds)
  show "topological (dg_interactions ?d)"
    using topological_renamed [OF inj lv topological_filter [OF top], of "kept_rank nf"] by (simp add: pruned_dag_def)
  note bound = kept_rank_bound [OF dense fl]
  have "\<forall>i \<in> set (dg_interactions ?d). in_left i < length (dg_currents ?d) \<and> in_right i < length (dg_currents ?d) \<and>
      in_result i < length (dg_currents ?d)"
  proof
    fix i assume "i \<in> set (dg_interactions ?d)"
    then obtain j where j: "i = renamed (kept_rank cf) (kept_rank nf) j"
        "j \<in> set (filter (\<lambda>i. live d (in_result i)) (dg_interactions d))" by (auto simp: pruned_dag_def)
    from lv j(2) have "live d (in_left j)" "live d (in_right j)" "live d (in_result j)" by (auto simp: reads_def)
    then show "in_left i < length (dg_currents ?d) \<and> in_right i < length (dg_currents ?d) \<and> in_result i < length (dg_currents ?d)"
      using bound by (simp add: j(1) renamed_def)
  qed
  moreover have "\<forall>r \<in> set (dg_roots ?d). ar_left r < length (dg_currents ?d) \<and> ar_right r < length (dg_currents ?d)"
  proof
    fix r assume "r \<in> set (dg_roots ?d)"
    then obtain k r0 where r: "r = r0\<lparr>ar_id := k, ar_left := kept_rank cf (ar_left r0), ar_right := kept_rank cf (ar_right r0)\<rparr>"
        "r0 \<in> set (dg_roots d)" by (auto simp: pruned_dag_def dest: set_zip_rightD)
    then have "live d (ar_left r0)" "live d (ar_right r0)" by (auto intro: live.root)
    then show "ar_left r < length (dg_currents ?d) \<and> ar_right r < length (dg_currents ?d)" using bound by (simp add: r(1))
  qed
  moreover have "\<forall>s \<in> set (dg_sources ?d). s < length (dg_currents ?d)"
    using bound by (auto simp: pruned_dag_def)
  ultimately show "dense_ids ?d"
    using kept_current_ids(1) [OF dense fl] kept_interaction_ids [OF dense fl] unfolding dense_ids_def by blast
qed

lemma kept_current_at:
  assumes dense: "dense_ids d" and fl: "exact_flags d cf nf" and c: "live d c"
  shows "current_content (dg_currents (kept_dag d cf nf) ! kept_rank cf c) = current_content (dg_currents d ! c)"
proof -
  have cl: "c < length (dg_currents d)" using c fl by (auto simp: exact_flags_def flag_set_def)
  have ids: "cn_id (dg_currents d ! i) = i" if "i < length (dg_currents d)" for i
    using dense that unfolding dense_ids_def by (metis nth_map nth_upt add_0)
  let ?P = "\<lambda>n. live d (cn_id n)"
  have flag: "cf ! i \<longleftrightarrow> ?P (dg_currents d ! i)" if "i < length (dg_currents d)" for i
    using fl that ids by (auto simp: exact_flags_def flag_set_def)
  have "take c cf = map ?P (take c (dg_currents d))"
    using fl cl by (intro nth_equalityI) (auto simp: exact_flags_def flag)
  then have "length (filter id (take c cf)) = length (filter ?P (take c (dg_currents d)))"
    by (simp add: filter_map comp_def)
  then have r: "kept_rank cf c = length (filter ?P (take c (dg_currents d)))" by (simp add: kept_rank_def)
  have "?P (dg_currents d ! c)" using ids [OF cl] c by simp
  from filter_nth_rank [of c "dg_currents d" ?P, OF cl this]
  show ?thesis by (simp add: pruned_dag_def r [symmetric] current_content_def)
qed

lemma kept_values:
  assumes dense: "dense_ids d" and fl: "exact_flags d cf nf" and c: "live d c"
  shows "current_values ev (kept_dag d cf nf) (kept_rank cf c) = current_values ev d c"
proof -
  have inj: "inj_on (kept_rank cf) {c. live d c}" using rank_inj [of cf] fl by (simp add: exact_flags_def)
  have start: "\<forall>c. live d c \<longrightarrow> ev_source ev (current_content (dg_currents (kept_dag d cf nf) ! kept_rank cf c)) =
      ev_source ev (current_content (dg_currents d ! c))"
    using kept_current_at [OF dense fl] by simp
  have ints: "dg_interactions (kept_dag d cf nf) =
      map (renamed (kept_rank cf) (kept_rank nf)) (filter (\<lambda>i. live d (in_result i)) (dg_interactions d))"
    by (simp add: pruned_dag_def)
  show ?thesis unfolding current_values_def ints by (rule simulation [OF inj subset_refl start c])
qed

lemma kept_amplitudes:
  assumes dense: "dense_ids d" and fl: "exact_flags d cf nf"
  shows "amplitudes ev (kept_dag d cf nf) = amplitudes ev d"
proof -
  let ?d = "kept_dag d cf nf" and ?f = "kept_rank cf" and ?n = "length (dg_roots d)"
  have v: "current_values ev ?d (?f (ar_left r)) = current_values ev d (ar_left r)"
      "current_values ev ?d (?f (ar_right r)) = current_values ev d (ar_right r)" if "r \<in> set (dg_roots d)" for r
    using that by (auto intro!: kept_values [OF dense fl] live.root)
  have c: "root_content (r\<lparr>ar_id := k, ar_left := x, ar_right := y\<rparr>) = root_content r" for r k x y
    by (simp add: root_content_def)
  have "amplitudes ev ?d = map (\<lambda>(k, r). ev_root ev (root_content r)
      (current_values ev ?d (?f (ar_left r))) (current_values ev ?d (?f (ar_right r)))) (zip [0..<?n] (dg_roots d))"
  proof -
    have rts: "dg_roots ?d = map (\<lambda>(k, r). r\<lparr>ar_id := k, ar_left := ?f (ar_left r), ar_right := ?f (ar_right r)\<rparr>) (zip [0..<?n] (dg_roots d))"
      by (simp add: pruned_dag_def)
    show ?thesis unfolding amplitudes_def rts map_map by (rule map_cong [OF refl]) (auto simp: c)
  qed
  also have "\<dots> = map (\<lambda>(k, r). ev_root ev (root_content r)
      (current_values ev d (ar_left r)) (current_values ev d (ar_right r))) (zip [0..<?n] (dg_roots d))"
    by (rule map_cong [OF refl]) (auto dest!: set_zip_rightD simp: v)
  also have "\<dots> = amplitudes ev d"
    unfolding amplitudes_def by (rule nth_equalityI) simp_all
  finally show ?thesis .
qed

lemma kept_live: "live d c \<Longrightarrow> live (kept_dag d cf nf) (kept_rank cf c)"
proof (induction rule: live.induct)
  case (root r c)
  then obtain k where k: "k < length (dg_roots d)" "dg_roots d ! k = r" by (auto simp: in_set_conv_nth)
  let ?r = "r\<lparr>ar_id := k, ar_left := kept_rank cf (ar_left r), ar_right := kept_rank cf (ar_right r)\<rparr>"
  have "(k, r) \<in> set (zip [0..<length (dg_roots d)] (dg_roots d))" using k by (auto simp: in_set_zip intro!: exI [of _ k])
  then have "?r \<in> set (dg_roots (kept_dag d cf nf))" by (force simp: pruned_dag_def)
  then show ?case by (rule live.root) (use root in auto)
next
  case (feeds i c)
  let ?i = "renamed (kept_rank cf) (kept_rank nf) i"
  have "?i \<in> set (dg_interactions (kept_dag d cf nf))" using feeds by (auto simp: pruned_dag_def)
  moreover have "live (kept_dag d cf nf) (in_result ?i)" using feeds by (simp add: renamed_def)
  moreover have "kept_rank cf c \<in> reads ?i" using feeds by (auto simp: reads_def renamed_def)
  ultimately show ?case by (rule live.feeds)
qed

lemma kept_all_live:
  assumes dense: "dense_ids d" and fl: "exact_flags d cf nf"
  shows "\<forall>k < length (dg_currents (kept_dag d cf nf)). live (kept_dag d cf nf) k"
    and "\<forall>i \<in> set (dg_interactions (kept_dag d cf nf)). live (kept_dag d cf nf) (in_result i)"
proof -
  have "k \<in> set (map (kept_rank cf) (filter (\<lambda>i. i \<in> flag_set cf) [0..<length cf]))"
    if "k < length (dg_currents (kept_dag d cf nf))" for k
    unfolding rank_total using that kept_current_ids(2) [OF dense fl] by simp
  then show "\<forall>k < length (dg_currents (kept_dag d cf nf)). live (kept_dag d cf nf) k"
    using fl kept_live by (fastforce simp: exact_flags_def)
  show "\<forall>i \<in> set (dg_interactions (kept_dag d cf nf)). live (kept_dag d cf nf) (in_result i)"
    using kept_live [of d] by (auto simp: pruned_dag_def renamed_def)
qed

lemma prune_all_live:
  assumes dense: "dense_ids d" and top: "topological (dg_interactions d)" and mk: "make_dag d = Inr d" and ne: "dg_roots d \<noteq> []"
    and all: "\<forall>k < length (dg_currents d). live d k" "\<forall>i \<in> set (dg_interactions d). live d (in_result i)"
  shows "prune_dag_to_amplitude_roots d = Inr d"
proof -
  obtain cf nf where r: "length cf = length (dg_currents d)" "length nf = length (dg_interactions d)"
    "flag_set cf = {c. live d c}" "flag_set nf = {in_id i |i. i \<in> set (dg_interactions d) \<and> live d (in_result i)}"
    "prune_dag_to_amplitude_roots d = Inr (if list_all id cf \<and> list_all id nf then d else pruned_dag d (kept_rank cf) (kept_rank nf))"
    using prune_result [OF dense top mk ne] by blast
  have "list_all id cf"
    using r(1,3) all(1) by (auto simp: list_all_length flag_set_def)
  moreover have "flag_set nf = set (map in_id (dg_interactions d))" using r(4) all(2) by auto
  then have "flag_set nf = {0..<length nf}" using dense r(2) unfolding dense_ids_def by simp
  then have "n \<in> flag_set nf" if "n < length nf" for n using that by simp
  then have "list_all id nf" by (simp add: list_all_length flag_set_def)
  ultimately show ?thesis using r(5) by simp
qed

text \<open>One run of the pass, for the properties below.\<close>

lemma prune_run:
  assumes dense: "dense_ids d" and top: "topological (dg_interactions d)" and mk: "make_dag d = Inr d" and ne: "dg_roots d \<noteq> []"
  obtains d' where "prune_dag_to_amplitude_roots d = Inr d'" "\<forall>ev. amplitudes ev d' = amplitudes ev d"
    "dense_ids d'" "topological (dg_interactions d')" "make_dag d' = Inr d'" "dg_roots d' \<noteq> []"
    "map current_content (dg_currents d') = map current_content (filter (\<lambda>c. live d (cn_id c)) (dg_currents d))"
    "map interaction_content (dg_interactions d') = map interaction_content (filter (\<lambda>i. live d (in_result i)) (dg_interactions d))"
    "\<forall>k < length (dg_currents d'). live d' k" "\<forall>i \<in> set (dg_interactions d'). live d' (in_result i)"
proof -
  obtain cf nf where r: "length cf = length (dg_currents d)" "length nf = length (dg_interactions d)"
    "flag_set cf = {c. live d c}" "flag_set nf = {in_id i |i. i \<in> set (dg_interactions d) \<and> live d (in_result i)}"
    "prune_dag_to_amplitude_roots d = Inr (if list_all id cf \<and> list_all id nf then d else kept_dag d cf nf)"
    using prune_result [OF dense top mk ne] by blast
  then have fl: "exact_flags d cf nf" by (simp add: exact_flags_def)
  show thesis
  proof (cases "list_all id cf \<and> list_all id nf")
    case True
    have ids: "\<forall>c \<in> set (dg_currents d). cn_id c < length (dg_currents d)"
      using dense unfolding dense_ids_def by (metis atLeastLessThan_iff atLeastLessThan_upt in_set_conv_nth length_map nth_map)
    have iids: "\<forall>i \<in> set (dg_interactions d). in_id i < length nf"
      using dense r(2) unfolding dense_ids_def by (metis atLeastLessThan_iff atLeastLessThan_upt in_set_conv_nth length_map nth_map)
    have c: "\<forall>k < length (dg_currents d). live d k" using True r(1,3) by (auto simp: list_all_length flag_set_def)
    have i: "\<forall>i \<in> set (dg_interactions d). live d (in_result i)"
    proof
      fix i assume i: "i \<in> set (dg_interactions d)"
      with True iids have "in_id i \<in> flag_set nf" by (auto simp: list_all_length flag_set_def)
      then show "live d (in_result i)" using dense_interaction_flags [OF dense fl i] by simp
    qed
    have "filter (\<lambda>c. live d (cn_id c)) (dg_currents d) = dg_currents d" using c ids by (intro filter_True) blast
    moreover have "filter (\<lambda>i. live d (in_result i)) (dg_interactions d) = dg_interactions d" using i by (intro filter_True) blast
    ultimately show ?thesis using that [of d] r(5) True dense top mk ne c i by simp
  next
    case False
    have cc: "map current_content (dg_currents (kept_dag d cf nf)) = map current_content (filter (\<lambda>c. live d (cn_id c)) (dg_currents d))"
      by (simp add: pruned_dag_def current_content_def comp_def)
    have ic: "map interaction_content (dg_interactions (kept_dag d cf nf)) =
        map interaction_content (filter (\<lambda>i. live d (in_result i)) (dg_interactions d))"
      by (simp add: pruned_dag_def renamed_def interaction_content_def comp_def)
    have rr: "dg_roots (kept_dag d cf nf) \<noteq> []" using ne by (simp add: pruned_dag_def)
    show ?thesis
      by (rule that [of "kept_dag d cf nf"])
        (use r(5) False allI [OF kept_amplitudes [OF dense fl]] kept_wellformed [OF dense fl top] make_dag_pruned [OF mk] rr cc ic
           kept_all_live [OF dense fl] in \<open>simp_all only: if_False simp_thms\<close>)
  qed
qed

section \<open>Properties\<close>

text \<open>
  C6. Dead-current elimination preserves meaning: on a DAG with positional ids in topological
  emission order \<open>prune_dag_to_amplitude_roots\<close> returns a DAG of the same kind whose
  amplitudes under every forward evaluation, whatever the value type, kernels and root contractions,
  are those of the original.
\<close>

theorem prune_preserves_amplitudes:
  assumes "dense_ids d" "topological (dg_interactions d)" "make_dag d = Inr d"
  shows "\<exists>d'. prune_dag_to_amplitude_roots d = Inr d' \<and> (\<forall>ev :: ('v, 'c, 'a) evaluator. amplitudes ev d' = amplitudes ev d) \<and>
     dense_ids d' \<and> topological (dg_interactions d') \<and> make_dag d' = Inr d'"
proof (cases "dg_roots d = []")
  case True
  with assms show ?thesis by (simp add: prune_dag_to_amplitude_roots_def)
next
  case False
  show ?thesis by (rule prune_run [OF assms False]) (intro exI conjI; assumption)
qed

text \<open>
  C7. Let the current ids be dense, the interactions topologically ordered, and the DAG pass its
  constructor's checks. A DAG with amplitude roots is cut to exactly its live part: the currents and interactions of the
  result are, in order, those of the original that feed an amplitude root, and every one of them
  still feeds a root after renumbering. A DAG without roots is returned as it is, although nothing
  in it feeds a root. In both cases running the pass again changes nothing.
\<close>

theorem prune_keeps_exactly_live:
  assumes "dense_ids d" "topological (dg_interactions d)" "make_dag d = Inr d"
  shows "\<exists>d'. prune_dag_to_amplitude_roots d = Inr d' \<and> prune_dag_to_amplitude_roots d' = Inr d' \<and>
     (dg_roots d = [] \<longrightarrow> d' = d) \<and>
     (dg_roots d \<noteq> [] \<longrightarrow> map current_content (dg_currents d') = map current_content (filter (\<lambda>c. live d (cn_id c)) (dg_currents d)) \<and>
     map interaction_content (dg_interactions d') = map interaction_content (filter (\<lambda>i. live d (in_result i)) (dg_interactions d)) \<and>
     (\<forall>k < length (dg_currents d'). live d' k))"
proof (cases "dg_roots d = []")
  case True
  then show ?thesis by (intro exI [of _ d]) (simp add: prune_dag_to_amplitude_roots_def has_amplitudes_def)
next
  case False
  show ?thesis
  proof (rule prune_run [OF assms False])
    fix d'
    assume d': "prune_dag_to_amplitude_roots d = Inr d'" "dense_ids d'" "topological (dg_interactions d')" "make_dag d' = Inr d'"
      "dg_roots d' \<noteq> []"
      "map current_content (dg_currents d') = map current_content (filter (\<lambda>c. live d (cn_id c)) (dg_currents d))"
      "map interaction_content (dg_interactions d') = map interaction_content (filter (\<lambda>i. live d (in_result i)) (dg_interactions d))"
      "\<forall>k < length (dg_currents d'). live d' k" "\<forall>i \<in> set (dg_interactions d'). live d' (in_result i)"
    have "prune_dag_to_amplitude_roots d' = Inr d'" by (rule prune_all_live [OF d'(2-5) d'(8,9)])
    with d'(1,6,7,8) False show ?thesis by (intro exI [of _ d']) simp
  qed
qed

text \<open>A sample: two sources, an interaction into a live and one into a dead current, one root.\<close>

definition sample_index :: "int \<Rightarrow> current_index" where
  "sample_index p = \<lparr>ci_particle_id = p, ci_external_mask = 1, ci_external_labels = [1], ci_helicity_ancestry = 0, ci_chirality = 0,
     ci_spin_state = SpinInt 0, ci_flavour_flow = [], ci_quantum_number_flow = [],
     ci_color_state = \<lparr>cs_accuracy = STR ''lc'', cs_sector_id = 0, cs_line_groups = [], cs_basis_key = []\<rparr>, ci_momentum_mask = 1,
     ci_coupling_orders = [], ci_auxiliary_kind = None, ci_ordered_external_labels = [1]\<rparr>"

definition sample_node :: "nat \<Rightarrow> current_node" where
  "sample_node k = \<lparr>cn_id = k, cn_index = sample_index (int k), cn_dimension = 1, cn_is_source = (k < 2),
     cn_source_leg_label = None, cn_source_helicity = None\<rparr>"

definition sample_interaction :: "nat \<Rightarrow> nat \<Rightarrow> interaction" where
  "sample_interaction k result = \<lparr>in_id = k, in_vertex_kind = int k, in_vertex_particles = (1, 1, 1), in_left = 0, in_right = 1,
     in_result = result, in_coupling = (1, 0), in_color_weight = (1, 0), in_lowering_backend = [], in_tensor_ready = True,
     in_group = None, in_factor = (1, 0)\<rparr>"

definition sample_dag :: "string dag" where
  "sample_dag = (let process = \<lparr>i_process = [], i_key = [], i_color_accuracy = STR ''lc'', i_legs = [],
       i_color_endpoints = \<lparr>e_fundamental_count = 0, e_antifundamental_count = 0, e_pair_count = 0\<rparr>\<rparr>
     in \<lparr>dg_process = process,
       dg_color_plan = \<lparr>pl_process = process, pl_color_accuracy = STR ''lc'', pl_sectors = [], pl_diagnostics = [], pl_truncated = False,
         pl_trace_reflections_folded = False, pl_basis = Trace_Basis\<rparr>,
       dg_currents = map sample_node [0, 1, 2, 3], dg_sources = [0, 1],
       dg_interactions = [sample_interaction 0 2, sample_interaction 1 3],
       dg_roots = [\<lparr>ar_id = 0, ar_kind = [], ar_left = 3, ar_right = 0, ar_color_weight = (1, 0), ar_contraction = ''metric'', ar_sector = None,
         ar_vertex_kind = None, ar_vertex_particles = None, ar_coupling = (1, 0), ar_helicity_weight = 1\<rparr>],
       dg_truncated = False, dg_helicity_coverage = STR ''complete'', dg_color_coverage = STR ''complete'',
       dg_source_helicities = [], dg_selected_sectors = [], dg_lc_replay = None, dg_color_replay = None, dg_recurrence = False,
       dg_materialization = None\<rparr>)"

lemma sample_dag_ok: "dense_ids sample_dag" "topological (dg_interactions sample_dag)" "make_dag sample_dag = Inr sample_dag"
    "dg_roots sample_dag \<noteq> []"
  by (simp_all add: sample_dag_def dense_ids_def sample_node_def sample_interaction_def reads_def make_dag_def check_lc_replay_def
      check_color_replay_def check_helicity_def Let_def upt_rec)

theorem prune_preserves_amplitudes_witness:
  "case prune_dag_to_amplitude_roots sample_dag of Inl _ \<Rightarrow> False
   | Inr d' \<Rightarrow> amplitudes \<lparr>ev_source = (\<lambda>c. ci_particle_id (cn_index c)), ev_add = (+), ev_kernel = (\<lambda>i x y. x + y + in_vertex_kind i),
       ev_root = (\<lambda>_ x y. (x, y))\<rparr> d' = [(5, 0)]"
proof -
  let ?ev = "\<lparr>ev_source = (\<lambda>c. ci_particle_id (cn_index c)), ev_add = (+), ev_kernel = (\<lambda>i x y. x + y + in_vertex_kind i),
       ev_root = (\<lambda>_ x y. (x, y))\<rparr> :: (int, string, int \<times> int) evaluator"
  have "amplitudes ?ev sample_dag = [(5, 0)]" by code_simp
  with prune_preserves_amplitudes [OF sample_dag_ok(1-3), where ?'v = int and ?'a = "int \<times> int"] show ?thesis by auto
qed

theorem prune_keeps_exactly_live_witness:
  "\<exists>d'. prune_dag_to_amplitude_roots sample_dag = Inr d' \<and> prune_dag_to_amplitude_roots d' = Inr d' \<and> length (dg_currents d') = 3"
proof -
  have "case prune_dag_to_amplitude_roots sample_dag of Inl _ \<Rightarrow> False | Inr d' \<Rightarrow> length (dg_currents d') = 3" by code_simp
  with prune_keeps_exactly_live [OF sample_dag_ok(1-3)] sample_dag_ok(4) show ?thesis by auto
qed

end
