(* ===== verification/Memo.thy ===== *)
theory Memo
  imports Prelude
begin

text \<open>
  Memo tables. A pass that threads a state through a list, and the interface under which the tables
  in that state cannot be observed: on valid keys a run gives what a direct computation gives, errors
  included, and keeps the state sound. Clients get the same for whole passes.
\<close>

fun mapS :: "('a \<Rightarrow> 's \<Rightarrow> ('b \<times> 's) res) \<Rightarrow> 'a list \<Rightarrow> 's \<Rightarrow> ('b list \<times> 's) res" where
  "mapS f [] s = Inr ([], s)"
| "mapS f (x # xs) s = bindE (f x s) (\<lambda>(y, s'). bindE (mapS f xs s') (\<lambda>(ys, s''). Inr (y # ys, s'')))"

locale memoised_on =
  fixes run :: "'k \<Rightarrow> 's \<Rightarrow> ('v \<times> 's) res" and direct :: "'k \<Rightarrow> 'v res" and sound :: "'s \<Rightarrow> bool" and valid :: "'k \<Rightarrow> bool"
  assumes transparent_on: "sound s \<Longrightarrow> valid k \<Longrightarrow> map_sum id fst (run k s) = direct k"
    and keeps_sound_on: "sound s \<Longrightarrow> valid k \<Longrightarrow> run k s = Inr (v, s') \<Longrightarrow> sound s'"
begin

lemma step_cases:
  assumes "sound s" "valid k"
  obtains (raises) e where "run k s = Inl e" "direct k = Inl e"
    | (returns) v s' where "run k s = Inr (v, s')" "direct k = Inr v" "sound s'"
proof (cases "run k s")
  case (Inl e)
  then show ?thesis using transparent_on [OF assms] raises by simp
next
  case (Inr r)
  then obtain v s' where "run k s = Inr (v, s')" by (cases r) simp
  then show ?thesis using transparent_on [OF assms] keeps_sound_on [OF assms, of v s'] returns by simp
qed

lemma pass_transparent: "sound s \<Longrightarrow> \<forall>k \<in> set ks. valid k \<Longrightarrow> map_sum id fst (mapS run ks s) = mapE direct ks"
  and pass_sound: "sound s \<Longrightarrow> \<forall>k \<in> set ks. valid k \<Longrightarrow> mapS run ks s = Inr (vs, s') \<Longrightarrow> sound s'"
proof (induction ks arbitrary: s vs s')
  case (Cons k ks)
  { case 1
    then have "valid k" by simp
    show ?case
    proof (cases rule: step_cases [OF 1(1) \<open>valid k\<close>, case_names raises returns])
      case (returns v t)
      then show ?thesis using Cons.IH(1) [OF returns(3), symmetric] 1(2) by (cases "mapS run ks t") auto
    qed simp_all
  next
    case 2
    then have "valid k" by simp
    show ?case
    proof (cases rule: step_cases [OF 2(1) \<open>valid k\<close>, case_names raises returns])
      case (returns v t)
      then show ?thesis using Cons.IH(2) [of t] 2 by (auto simp: bindE_Inr_iff)
    qed (use 2 in simp_all)
  }
qed simp_all

end

text \<open>Tables whose keys are all valid.\<close>

locale memoised = memoised_on run direct sound "\<lambda>_. True"
  for run :: "'k \<Rightarrow> 's \<Rightarrow> ('v \<times> 's) res" and direct :: "'k \<Rightarrow> 'v res" and sound :: "'s \<Rightarrow> bool"
begin

lemmas run_cases = step_cases [OF _ TrueI, case_names raises returns]

lemma mapS_transparent: "sound s \<Longrightarrow> map_sum id fst (mapS run ks s) = mapE direct ks"
  by (rule pass_transparent) simp_all

lemma mapS_sound: "sound s \<Longrightarrow> mapS run ks s = Inr (vs, s') \<Longrightarrow> sound s'"
  by (rule pass_sound) simp_all

end

end
