(* ===== verification/Fermion_Order.thy ===== *)
theory Fermion_Order
  imports Dag_Prune Inversions Source_IR Memo
begin

text \<open>
  Exchange signs of external colour-singlet fermions (\<open>generation/fermion_ordering.py\<close>):
  every merge of two currents gets the sign that restores the canonical source order of its
  fermions, times a sign for the order of an oriented fermion pair, and the signs are folded into
  the colour weights of a finished DAG. The two memo tables of \<open>FermionOrderingSign\<close> are
  part of the state, and the interface of \<open>Memo\<close> makes them invisible to their user.
\<close>

section \<open>Classification and signs\<close>

definition external_fermion_requires_exterior_sign :: "statistics \<Rightarrow> color_role \<Rightarrow> bool res" where
  "external_fermion_requires_exterior_sign stats colour =
     (if stats \<noteq> Fermion then Inr False
      else if colour = Singlet then Inr True
      else if colour \<in> {Fundamental, Antifundamental} then Inr False
      else Inl (ValueError STR ''external-fermion ordering does not support fermion color role''))"

definition fermion_rep_requires_exterior_sign :: "int \<Rightarrow> bool res" where
  "fermion_rep_requires_exterior_sign rep =
     (if rep = 1 then Inr True
      else if \<bar>rep\<bar> = 3 then Inr False
      else Inl (ValueError STR ''external-fermion ordering does not support fermion color representation''))"

definition source_ranks :: "(int \<times> nat) list \<Rightarrow> int list \<Rightarrow> nat list" where
  "source_ranks ranks labels = List.map_filter (map_of ranks) labels"

definition external_fermion_support_sign :: "int list \<Rightarrow> int list \<Rightarrow> (int \<times> nat) list \<Rightarrow> int" where
  "external_fermion_support_sign left right ranks =
     parity_sign (crossings (source_ranks ranks left) (source_ranks ranks right))"

text \<open>Whether a particle is a fermion, its orientation, and whether its signs are owned here.\<close>

type_synonym contract = "bool \<times> source_orientation \<times> bool"

definition fermion_input_orientation_sign :: "contract \<Rightarrow> contract \<Rightarrow> int res" where
  "fermion_input_orientation_sign = (\<lambda>(left_fermion, left, left_owned) (right_fermion, right, right_owned).
     if \<not> (left_fermion \<and> right_fermion) then Inr 1
     else if left_owned \<noteq> right_owned
     then Inl (ValueError STR ''external-fermion ordering encountered mixed color-sign ownership'')
     else if \<not> left_owned then Inr 1
     else if left = Self_Conjugate_Src \<or> right = Self_Conjugate_Src
     then Inl (ValueError STR ''external-fermion ordering requires non-self-conjugate model orientations'')
     else if (left, right) = (Antiparticle_Src, Particle_Src) then Inr 1
     else if (left, right) = (Particle_Src, Antiparticle_Src) then Inr (-1)
     else Inl (ValueError STR ''external-fermion ordering requires opposite Dirac orientations''))"

section \<open>The cached sign contract\<close>

type_synonym merge_key = "int list \<times> int list \<times> int \<times> int"

record fermion_ordering =
  fo_model :: model
  fo_ranks :: "(int \<times> nat) list"
  fo_contracts :: "(int \<times> contract) list"
  fo_merges :: "(merge_key \<times> int) list"

definition rank_leg :: "(int \<times> nat) list \<Rightarrow> nat \<times> process_leg \<Rightarrow> (int \<times> nat) list res" where
  "rank_leg ranks = (\<lambda>(slot, leg).
     bindE (external_fermion_requires_exterior_sign (l_statistics leg) (l_color_role leg)) (\<lambda>owned.
       Inr (if owned then AList.update (l_label leg) slot ranks else ranks)))"

definition make_fermion_ordering :: "process_ir \<Rightarrow> model \<Rightarrow> fermion_ordering res" where
  "make_fermion_ordering process m =
     bindE (foldE rank_leg [] (zip [0..<length (i_legs process)] (i_legs process))) (\<lambda>ranks.
       Inr \<lparr>fo_model = m, fo_ranks = ranks, fo_contracts = [], fo_merges = []\<rparr>)"

definition ordering_active :: "fermion_ordering \<Rightarrow> bool" where
  "ordering_active fo = (fo_ranks fo \<noteq> [])"

definition contract_of :: "model \<Rightarrow> int \<Rightarrow> contract res" where
  "contract_of m pid =
     bindE (if md_is_fermion m pid then source_orientation_of m pid else Inr Self_Conjugate_Src) (\<lambda>ort.
     bindE (if md_is_fermion m pid then fermion_rep_requires_exterior_sign (md_color_rep m pid) else Inr False) (\<lambda>owned.
       Inr (md_is_fermion m pid, ort, owned)))"

definition particle_contract :: "int \<Rightarrow> fermion_ordering \<Rightarrow> (contract \<times> fermion_ordering) res" where
  "particle_contract pid fo =
     (case map_of (fo_contracts fo) pid of
        Some c \<Rightarrow> Inr (c, fo)
      | None \<Rightarrow> bindE (contract_of (fo_model fo) pid) (\<lambda>c. Inr (c, fo\<lparr>fo_contracts := AList.update pid c (fo_contracts fo)\<rparr>)))"

definition merge_key :: "current_index \<Rightarrow> current_index \<Rightarrow> merge_key" where
  "merge_key left right = (ci_external_labels left, ci_external_labels right, ci_particle_id left, ci_particle_id right)"

definition merge_sign :: "current_index \<times> current_index \<Rightarrow> fermion_ordering \<Rightarrow> (int \<times> fermion_ordering) res" where
  "merge_sign = (\<lambda>(left, right) fo.
     case map_of (fo_merges fo) (merge_key left right) of
       Some sign \<Rightarrow> Inr (sign, fo)
     | None \<Rightarrow>
         bindE (particle_contract (ci_particle_id left) fo) (\<lambda>(cl, fo1).
         bindE (particle_contract (ci_particle_id right) fo1) (\<lambda>(cr, fo2).
         bindE (fermion_input_orientation_sign cl cr) (\<lambda>orientation.
           let sign = external_fermion_support_sign (ci_external_labels left) (ci_external_labels right) (fo_ranks fo2) * orientation
           in Inr (sign, fo2\<lparr>fo_merges := AList.update (merge_key left right) sign (fo_merges fo2)\<rparr>)))))"

section \<open>Folding the signs into a DAG\<close>

definition signed_weight :: "current_node list \<Rightarrow> weight \<times> nat \<times> nat \<Rightarrow> fermion_ordering \<Rightarrow> (weight \<times> fermion_ordering) res" where
  "signed_weight currents = (\<lambda>(w, left, right) fo.
     bindE (fetch currents left) (\<lambda>cl. bindE (fetch currents right) (\<lambda>cr.
     bindE (merge_sign (cn_index cl, cn_index cr) fo) (\<lambda>(sign, fo').
       Inr (if sign = 1 then w else (- fst w, - snd w), fo')))))"

definition signed_interaction :: "current_node list \<Rightarrow> interaction \<Rightarrow> fermion_ordering \<Rightarrow> (interaction \<times> fermion_ordering) res" where
  "signed_interaction currents i fo =
     bindE (signed_weight currents (in_color_weight i, in_left i, in_right i) fo) (\<lambda>(w, fo'). Inr (i\<lparr>in_color_weight := w\<rparr>, fo'))"

definition signed_root :: "current_node list \<Rightarrow> 'c amplitude_root \<Rightarrow> fermion_ordering \<Rightarrow> ('c amplitude_root \<times> fermion_ordering) res" where
  "signed_root currents r fo =
     bindE (signed_weight currents (ar_color_weight r, ar_left r, ar_right r) fo) (\<lambda>(w, fo'). Inr (r\<lparr>ar_color_weight := w\<rparr>, fo'))"

definition apply_fermion_ordering_signs :: "'c dag \<Rightarrow> model \<Rightarrow> 'c dag res" where
  "apply_fermion_ordering_signs d m =
     (if dg_interactions d = [] \<and> dg_roots d = [] then Inr d
      else bindE (make_fermion_ordering (dg_process d) m) (\<lambda>fo.
        if \<not> ordering_active fo then Inr d
        else bindE (mapS (signed_interaction (dg_currents d)) (dg_interactions d) fo) (\<lambda>(interactions, fo1).
          bindE (mapS (signed_root (dg_currents d)) (dg_roots d) fo1) (\<lambda>(roots, _).
            make_dag (d\<lparr>dg_interactions := interactions, dg_roots := roots\<rparr>)))))"

section \<open>The memo tables\<close>

text \<open>The state after a run is sound for the next user of the same table.\<close>

definition sound_ordering :: "model \<Rightarrow> (int \<times> nat) list \<Rightarrow> fermion_ordering \<Rightarrow> bool" where
  "sound_ordering m ranks fo \<longleftrightarrow> fo_model fo = m \<and> fo_ranks fo = ranks \<and>
     (\<forall>pid c. map_of (fo_contracts fo) pid = Some c \<longrightarrow> contract_of m pid = Inr c) \<and>
     (\<forall>ls rs p q sign. map_of (fo_merges fo) (ls, rs, p, q) = Some sign \<longrightarrow>
        bindE (contract_of m p) (\<lambda>cl. bindE (contract_of m q) (\<lambda>cr. bindE (fermion_input_orientation_sign cl cr) (\<lambda>orientation.
          Inr (external_fermion_support_sign ls rs ranks * orientation)))) = Inr sign)"

definition direct_sign :: "model \<Rightarrow> (int \<times> nat) list \<Rightarrow> current_index \<times> current_index \<Rightarrow> int res" where
  "direct_sign m ranks = (\<lambda>(left, right).
     bindE (contract_of m (ci_particle_id left)) (\<lambda>cl. bindE (contract_of m (ci_particle_id right)) (\<lambda>cr.
     bindE (fermion_input_orientation_sign cl cr) (\<lambda>orientation.
       Inr (external_fermion_support_sign (ci_external_labels left) (ci_external_labels right) ranks * orientation)))))"

lemma particle_contract_transparent:
  assumes "sound_ordering m ranks fo"
  shows "map_sum id fst (particle_contract pid fo) = contract_of m pid"
    "particle_contract pid fo = Inr (c, fo') \<Longrightarrow> sound_ordering m ranks fo'"
proof -
  show "map_sum id fst (particle_contract pid fo) = contract_of m pid"
    using assms by (cases "contract_of m pid") (auto simp: particle_contract_def sound_ordering_def split: option.splits)
  assume "particle_contract pid fo = Inr (c, fo')"
  then show "sound_ordering m ranks fo'"
    using assms by (auto simp: particle_contract_def sound_ordering_def update_conv bindE_Inr_iff split: option.splits if_splits)
qed

interpretation contracts: memoised particle_contract "contract_of m" "sound_ordering m ranks" for m ranks
  by unfold_locales (use particle_contract_transparent in blast)+


lemma merge_sign_transparent:
  assumes snd: "sound_ordering m ranks fo"
  shows "map_sum id fst (merge_sign k fo) = direct_sign m ranks k"
    "merge_sign k fo = Inr (v, fo') \<Longrightarrow> sound_ordering m ranks fo'"
proof -
  obtain l r where k: "k = (l, r)" by force
  have both: "map_sum id fst (merge_sign k fo) = direct_sign m ranks k \<and>
      (\<forall>v fo'. merge_sign k fo = Inr (v, fo') \<longrightarrow> sound_ordering m ranks fo')"
  proof (cases "map_of (fo_merges fo) (merge_key l r)")
    case (Some sign)
    then have "direct_sign m ranks k = Inr sign"
      using snd unfolding sound_ordering_def merge_key_def direct_sign_def k by simp
    then show ?thesis using Some snd by (simp add: merge_sign_def k)
  next
    case None
    show ?thesis
    proof (cases rule: contracts.run_cases [OF snd, of "ci_particle_id l", case_names raises returns])
      case left: (returns cl fo1)
      show ?thesis
      proof (cases rule: contracts.run_cases [OF left(3), of "ci_particle_id r", case_names raises returns])
        case right: (returns cr fo2)
        let ?o = "fermion_input_orientation_sign cl cr"
        have fo2: "fo_ranks fo2 = ranks" using right(3) by (simp add: sound_ordering_def)
        show ?thesis
        proof (cases ?o)
          case (Inr orientation)
          let ?sign = "external_fermion_support_sign (ci_external_labels l) (ci_external_labels r) ranks * orientation"
          have direct: "direct_sign m ranks k = Inr ?sign" by (simp add: direct_sign_def k left right Inr)
          have "merge_sign k fo = Inr (?sign, fo2\<lparr>fo_merges := AList.update (merge_key l r) ?sign (fo_merges fo2)\<rparr>)"
            by (simp add: merge_sign_def k None left right Inr fo2 Let_def)
          moreover have "sound_ordering m ranks (fo2\<lparr>fo_merges := AList.update (merge_key l r) ?sign (fo_merges fo2)\<rparr>)"
            using right(3) direct by (auto simp: sound_ordering_def update_conv merge_key_def direct_sign_def k)
          ultimately show ?thesis using direct by simp
        qed (simp add: merge_sign_def direct_sign_def k None left right)
      qed (simp add: merge_sign_def direct_sign_def k None left)
    qed (simp add: merge_sign_def direct_sign_def k None)
  qed
  show "map_sum id fst (merge_sign k fo) = direct_sign m ranks k" using both by blast
  show "merge_sign k fo = Inr (v, fo') \<Longrightarrow> sound_ordering m ranks fo'" using both by blast
qed

interpretation merges: memoised merge_sign "direct_sign m ranks" "sound_ordering m ranks" for m ranks
  by unfold_locales (use merge_sign_transparent in blast)+

section \<open>The pass without memo tables\<close>

definition flip_weight :: "int \<Rightarrow> weight \<Rightarrow> weight" where
  "flip_weight sign w = (if sign = 1 then w else (- fst w, - snd w))"

definition direct_weight :: "model \<Rightarrow> (int \<times> nat) list \<Rightarrow> current_node list \<Rightarrow> weight \<times> nat \<times> nat \<Rightarrow> weight res" where
  "direct_weight m ranks currents = (\<lambda>(w, left, right).
     bindE (fetch currents left) (\<lambda>cl. bindE (fetch currents right) (\<lambda>cr.
     bindE (direct_sign m ranks (cn_index cl, cn_index cr)) (\<lambda>sign. Inr (flip_weight sign w)))))"

definition direct_interaction :: "model \<Rightarrow> (int \<times> nat) list \<Rightarrow> current_node list \<Rightarrow> interaction \<Rightarrow> interaction res" where
  "direct_interaction m ranks currents i =
     bindE (direct_weight m ranks currents (in_color_weight i, in_left i, in_right i)) (\<lambda>w. Inr (i\<lparr>in_color_weight := w\<rparr>))"

definition direct_root :: "model \<Rightarrow> (int \<times> nat) list \<Rightarrow> current_node list \<Rightarrow> 'c amplitude_root \<Rightarrow> 'c amplitude_root res" where
  "direct_root m ranks currents r =
     bindE (direct_weight m ranks currents (ar_color_weight r, ar_left r, ar_right r)) (\<lambda>w. Inr (r\<lparr>ar_color_weight := w\<rparr>))"

definition direct_signs :: "'c dag \<Rightarrow> model \<Rightarrow> 'c dag res" where
  "direct_signs d m =
     (if dg_interactions d = [] \<and> dg_roots d = [] then Inr d
      else bindE (make_fermion_ordering (dg_process d) m) (\<lambda>fo.
        if fo_ranks fo = [] then Inr d
        else bindE (mapE (direct_interaction m (fo_ranks fo) (dg_currents d)) (dg_interactions d)) (\<lambda>interactions.
          bindE (mapE (direct_root m (fo_ranks fo) (dg_currents d)) (dg_roots d)) (\<lambda>roots.
            make_dag (d\<lparr>dg_interactions := interactions, dg_roots := roots\<rparr>)))))"

lemma signed_weight_transparent:
  assumes snd: "sound_ordering m ranks fo"
  shows "map_sum id fst (signed_weight cs k fo) = direct_weight m ranks cs k"
    "signed_weight cs k fo = Inr (w', fo') \<Longrightarrow> sound_ordering m ranks fo'"
proof -
  obtain w l r where k: "k = (w, l, r)" by (cases k) auto
  have both: "map_sum id fst (signed_weight cs k fo) = direct_weight m ranks cs k \<and>
      (\<forall>w' fo'. signed_weight cs k fo = Inr (w', fo') \<longrightarrow> sound_ordering m ranks fo')"
  proof (cases "l < length cs \<and> r < length cs")
    case True
    show ?thesis
      by (cases rule: merges.run_cases [OF snd, of "(cn_index (cs ! l), cn_index (cs ! r))"])
        (simp_all add: signed_weight_def direct_weight_def k True fetch_def flip_weight_def)
  qed (auto simp: signed_weight_def direct_weight_def k fetch_def)
  show "map_sum id fst (signed_weight cs k fo) = direct_weight m ranks cs k" using both by blast
  show "signed_weight cs k fo = Inr (w', fo') \<Longrightarrow> sound_ordering m ranks fo'" using both by blast
qed

interpretation weights: memoised "signed_weight cs" "direct_weight m ranks cs" "sound_ordering m ranks" for m ranks cs
  by unfold_locales (use signed_weight_transparent in blast)+

lemma signed_interaction_transparent:
  assumes snd: "sound_ordering m ranks fo"
  shows "map_sum id fst (signed_interaction cs i fo) = direct_interaction m ranks cs i"
    "signed_interaction cs i fo = Inr (i', fo') \<Longrightarrow> sound_ordering m ranks fo'"
proof -
  have both: "map_sum id fst (signed_interaction cs i fo) = direct_interaction m ranks cs i \<and>
      (\<forall>i' fo'. signed_interaction cs i fo = Inr (i', fo') \<longrightarrow> sound_ordering m ranks fo')"
    by (cases rule: weights.run_cases [OF snd, of cs "(in_color_weight i, in_left i, in_right i)"])
      (simp_all add: signed_interaction_def direct_interaction_def)
  show "map_sum id fst (signed_interaction cs i fo) = direct_interaction m ranks cs i" using both by blast
  show "signed_interaction cs i fo = Inr (i', fo') \<Longrightarrow> sound_ordering m ranks fo'" using both by blast
qed

lemma signed_root_transparent:
  assumes snd: "sound_ordering m ranks fo"
  shows "map_sum id fst (signed_root cs r fo) = direct_root m ranks cs r"
    "signed_root cs r fo = Inr (r', fo') \<Longrightarrow> sound_ordering m ranks fo'"
proof -
  have both: "map_sum id fst (signed_root cs r fo) = direct_root m ranks cs r \<and>
      (\<forall>r' fo'. signed_root cs r fo = Inr (r', fo') \<longrightarrow> sound_ordering m ranks fo')"
    by (cases rule: weights.run_cases [OF snd, of cs "(ar_color_weight r, ar_left r, ar_right r)"])
      (simp_all add: signed_root_def direct_root_def)
  show "map_sum id fst (signed_root cs r fo) = direct_root m ranks cs r" using both by blast
  show "signed_root cs r fo = Inr (r', fo') \<Longrightarrow> sound_ordering m ranks fo'" using both by blast
qed

interpretation interactions: memoised "signed_interaction cs" "direct_interaction m ranks cs" "sound_ordering m ranks" for m ranks cs
  by unfold_locales (use signed_interaction_transparent in blast)+

interpretation roots: memoised "signed_root cs" "direct_root m ranks cs" "sound_ordering m ranks" for m ranks cs
  by unfold_locales (use signed_root_transparent in blast)+

lemma fresh_ordering_sound:
  assumes "make_fermion_ordering process m = Inr fo"
  shows "sound_ordering m (fo_ranks fo) fo"
  using assms by (auto simp: make_fermion_ordering_def bindE_Inr_iff sound_ordering_def)


text \<open>
  C9. The memo tables of particle contracts and merge signs cannot be observed: the pass computes
  the same DAG, or raises the same exception, as the pass that recomputes every sign.
\<close>

theorem fermion_caches_transparent: "apply_fermion_ordering_signs d m = direct_signs d m"
proof (cases "make_fermion_ordering (dg_process d) m")
  case (Inr fo)
  have snd: "sound_ordering m (fo_ranks fo) fo" using fresh_ordering_sound [OF Inr] .
  let ?ints = "mapS (signed_interaction (dg_currents d)) (dg_interactions d) fo"
  note ints = interactions.mapS_transparent [OF snd, of "dg_currents d" "dg_interactions d"]
  show ?thesis
  proof (cases ?ints)
    case (Inl e)
    then have "mapE (direct_interaction m (fo_ranks fo) (dg_currents d)) (dg_interactions d) = Inl e" using ints by simp
    then show ?thesis using Inl by (simp add: apply_fermion_ordering_signs_def direct_signs_def Inr ordering_active_def)
  next
    case is_r: (Inr r)
    then obtain vs fo1 where r: "?ints = Inr (vs, fo1)" by (cases r) simp
    have direct: "mapE (direct_interaction m (fo_ranks fo) (dg_currents d)) (dg_interactions d) = Inr vs" using ints r by simp
    have "sound_ordering m (fo_ranks fo) fo1" using interactions.mapS_sound [OF snd r] .
    note rs = roots.mapS_transparent [OF this, of "dg_currents d" "dg_roots d"]
    show ?thesis
    proof (cases "mapS (signed_root (dg_currents d)) (dg_roots d) fo1")
      case (Inl e)
      then have "mapE (direct_root m (fo_ranks fo) (dg_currents d)) (dg_roots d) = Inl e" using rs by simp
      then show ?thesis by (simp add: apply_fermion_ordering_signs_def direct_signs_def Inr ordering_active_def r direct \<open>mapS _ _ fo1 = Inl e\<close>)
    next
      case rr: (Inr q)
      then have "mapE (direct_root m (fo_ranks fo) (dg_currents d)) (dg_roots d) = Inr (fst q)" using rs by simp
      then show ?thesis by (simp add: apply_fermion_ordering_signs_def direct_signs_def Inr ordering_active_def r direct rr split_beta)
    qed
  qed
qed (simp add: apply_fermion_ordering_signs_def direct_signs_def)

section \<open>Signs of a merge tree\<close>

text \<open>
  How an amplitude term is built: a current is a source, or an interaction merges the terms of its
  two inputs.
\<close>

datatype merge_tree = Source nat | Merge nat merge_tree merge_tree

fun builds :: "'c dag \<Rightarrow> nat \<Rightarrow> merge_tree \<Rightarrow> bool" where
  "builds d c (Source s) \<longleftrightarrow> s = c \<and> c < length (dg_currents d) \<and> cn_is_source (dg_currents d ! c)"
| "builds d c (Merge k l r) \<longleftrightarrow> k < length (dg_interactions d) \<and> in_result (dg_interactions d ! k) = c \<and>
     builds d (in_left (dg_interactions d ! k)) l \<and> builds d (in_right (dg_interactions d ! k)) r"

definition labels_of :: "'c dag \<Rightarrow> nat \<Rightarrow> int list" where
  "labels_of d c = ci_external_labels (cn_index (dg_currents d ! c))"

definition pid_of :: "'c dag \<Rightarrow> nat \<Rightarrow> int" where
  "pid_of d c = ci_particle_id (cn_index (dg_currents d ! c))"

text \<open>The external labels in the order in which the term meets its sources.\<close>

fun leaf_labels :: "'c dag \<Rightarrow> merge_tree \<Rightarrow> int list" where
  "leaf_labels d (Source s) = labels_of d s"
| "leaf_labels d (Merge k l r) = leaf_labels d l @ leaf_labels d r"

definition weight_mult :: "weight \<Rightarrow> weight \<Rightarrow> weight" where
  "weight_mult v w = (fst v * fst w - snd v * snd w, fst v * snd w + snd v * fst w)"

fun colour_weight :: "'c dag \<Rightarrow> merge_tree \<Rightarrow> weight" where
  "colour_weight d (Source s) = (1, 0)"
| "colour_weight d (Merge k l r) =
     weight_mult (in_color_weight (dg_interactions d ! k)) (weight_mult (colour_weight d l) (colour_weight d r))"

definition orientation_sign :: "'c dag \<Rightarrow> model \<Rightarrow> nat \<Rightarrow> nat \<Rightarrow> int" where
  "orientation_sign d m l r =
     (case bindE (contract_of m (pid_of d l)) (\<lambda>cl. bindE (contract_of m (pid_of d r)) (fermion_input_orientation_sign cl)) of
        Inl _ \<Rightarrow> 1 | Inr s \<Rightarrow> s)"

fun orientation_product :: "'c dag \<Rightarrow> model \<Rightarrow> merge_tree \<Rightarrow> int" where
  "orientation_product d m (Source s) = 1"
| "orientation_product d m (Merge k l r) =
     orientation_sign d m (in_left (dg_interactions d ! k)) (in_right (dg_interactions d ! k)) *
       (orientation_product d m l * orientation_product d m r)"

text \<open>A source has one label; a merge joins the labels of its inputs.\<close>

definition labels_merge :: "'c dag \<Rightarrow> bool" where
  "labels_merge d \<longleftrightarrow>
     (\<forall>c \<in> set (dg_currents d). cn_is_source c \<longrightarrow> length (ci_external_labels (cn_index c)) = 1) \<and>
     (\<forall>i \<in> set (dg_interactions d). mset (labels_of d (in_result i)) = mset (labels_of d (in_left i)) + mset (labels_of d (in_right i)))"

lemma flip_values: "s = 1 \<or> s = -1 \<Longrightarrow> flip_weight s w = (of_int s * fst w, of_int s * snd w)"
  by (auto simp: flip_weight_def)

lemma flip_mult:
  assumes "s = 1 \<or> s = -1" "t = 1 \<or> t = -1"
  shows "weight_mult (flip_weight s v) (flip_weight t w) = flip_weight (s * t) (weight_mult v w)"
  using assms by (auto simp: flip_weight_def weight_mult_def)

lemma orientation_values: "fermion_input_orientation_sign cl cr = Inr s \<Longrightarrow> s = 1 \<or> s = -1"
  by (auto simp: fermion_input_orientation_sign_def split: prod.splits if_splits)

lemma orientation_sign_values: "orientation_sign d m l r = 1 \<or> orientation_sign d m l r = -1"
  by (auto simp: orientation_sign_def bindE_Inr_iff dest: orientation_values split: sum.splits)

lemma orientation_product_values: "orientation_product d m t = 1 \<or> orientation_product d m t = -1"
proof (induction t)
  case (Merge k l r)
  then show ?case using orientation_sign_values [of d m "in_left (dg_interactions d ! k)" "in_right (dg_interactions d ! k)"] by auto
qed simp

lemma source_ranks_append: "source_ranks ranks (xs @ ys) = source_ranks ranks xs @ source_ranks ranks ys"
  by (simp add: source_ranks_def List.map_filter_def)

lemma source_ranks_mset: "mset xs = mset ys \<Longrightarrow> mset (source_ranks ranks xs) = mset (source_ranks ranks ys)"
  by (simp add: source_ranks_def List.map_filter_def mset_filter)

lemma support_sign_mset:
  assumes "mset xs = mset xs'" "mset ys = mset ys'"
  shows "external_fermion_support_sign xs ys ranks = external_fermion_support_sign xs' ys' ranks"
proof -
  have "crossings (source_ranks ranks xs) (source_ranks ranks ys) = crossings (source_ranks ranks xs') (source_ranks ranks ys')"
    by (intro crossings_mset source_ranks_mset assms)
  then show ?thesis by (simp add: external_fermion_support_sign_def)
qed

lemma leaf_labels_mset:
  "labels_merge d \<Longrightarrow> builds d c t \<Longrightarrow> mset (leaf_labels d t) = mset (labels_of d c)"
  by (induction t arbitrary: c) (auto simp: labels_merge_def)

text \<open>The product of the support signs of a tree is the sign of its leaf order.\<close>

lemma leaf_order_sign:
  "parity_sign (inversions (source_ranks ranks (leaf_labels d (Merge k l r)))) =
     external_fermion_support_sign (leaf_labels d l) (leaf_labels d r) ranks *
     (parity_sign (inversions (source_ranks ranks (leaf_labels d l))) * parity_sign (inversions (source_ranks ranks (leaf_labels d r))))"
  by (simp add: source_ranks_append inversions_append external_fermion_support_sign_def)

lemma single_label_sign: "length xs = 1 \<Longrightarrow> parity_sign (inversions (source_ranks ranks xs)) = 1"
  by (cases xs) (auto simp: source_ranks_def List.map_filter_def)

text \<open>The sign of the whole term before its root: leaf order times field order.\<close>

definition term_sign :: "'c dag \<Rightarrow> model \<Rightarrow> (int \<times> nat) list \<Rightarrow> merge_tree \<Rightarrow> int" where
  "term_sign d m ranks t = parity_sign (inversions (source_ranks ranks (leaf_labels d t))) * orientation_product d m t"


lemma term_sign_values: "term_sign d m ranks t = 1 \<or> term_sign d m ranks t = -1"
  using parity_sign_values [of "inversions (source_ranks ranks (leaf_labels d t))"] orientation_product_values [of d m t]
  by (auto simp: term_sign_def)

lemma pair_sign_values: "external_fermion_support_sign xs ys ranks * orientation_sign d m l r = 1 \<or>
    external_fermion_support_sign xs ys ranks * orientation_sign d m l r = -1"
  using parity_sign_values [of "crossings (source_ranks ranks xs) (source_ranks ranks ys)"] orientation_sign_values [of d m l r]
  by (auto simp: external_fermion_support_sign_def)

text \<open>What the pass does to one weight.\<close>

lemma direct_weight_flips:
  assumes "direct_weight m ranks (dg_currents d) (w, l, r) = Inr w'"
  shows "w' = flip_weight (external_fermion_support_sign (labels_of d l) (labels_of d r) ranks * orientation_sign d m l r) w"
  using assms
  by (auto simp: direct_weight_def direct_sign_def bindE_Inr_iff fetch_def orientation_sign_def labels_of_def pid_of_def split: if_splits)

lemma direct_signs_shape:
  assumes "direct_signs d m = Inr d'" "make_fermion_ordering (dg_process d) m = Inr fo" "ordering_active fo"
    "dg_interactions d \<noteq> [] \<or> dg_roots d \<noteq> []"
  shows "dg_currents d' = dg_currents d \<and>
    list_all2 (\<lambda>i i'. direct_interaction m (fo_ranks fo) (dg_currents d) i = Inr i') (dg_interactions d) (dg_interactions d') \<and>
    list_all2 (\<lambda>r r'. direct_root m (fo_ranks fo) (dg_currents d) r = Inr r') (dg_roots d) (dg_roots d')"
  using assms
  by (auto simp: direct_signs_def ordering_active_def bindE_Inr_iff mapE_Inr_iff make_dag_def Let_def split: if_splits)

lemma signed_interaction_at:
  assumes "list_all2 (\<lambda>i i'. direct_interaction m ranks (dg_currents d) i = Inr i') (dg_interactions d) (dg_interactions d')"
    "k < length (dg_interactions d)"
  defines "i \<equiv> dg_interactions d ! k"
  shows "dg_interactions d' ! k =
    i\<lparr>in_color_weight := flip_weight (external_fermion_support_sign (labels_of d (in_left i)) (labels_of d (in_right i)) ranks *
        orientation_sign d m (in_left i) (in_right i)) (in_color_weight i)\<rparr>"
  using list_all2_nthD [OF assms(1,2)] unfolding i_def
  by (auto simp: direct_interaction_def bindE_Inr_iff dest!: direct_weight_flips)

lemma signed_tree:
  assumes ints: "list_all2 (\<lambda>i i'. direct_interaction m ranks (dg_currents d) i = Inr i') (dg_interactions d) (dg_interactions d')"
    and lm: "labels_merge d" and b: "builds d c t"
  shows "colour_weight d' t = flip_weight (term_sign d m ranks t) (colour_weight d t)"
  using b
proof (induction t arbitrary: c)
  case (Source s)
  then have "length (labels_of d s) = 1" using lm by (auto simp: labels_merge_def labels_of_def)
  then show ?case by (simp add: term_sign_def single_label_sign flip_weight_def)
next
  case (Merge k l r)
  let ?i = "dg_interactions d ! k"
  let ?p = "external_fermion_support_sign (labels_of d (in_left ?i)) (labels_of d (in_right ?i)) ranks * orientation_sign d m (in_left ?i) (in_right ?i)"
  have at: "dg_interactions d' ! k = ?i\<lparr>in_color_weight := flip_weight ?p (in_color_weight ?i)\<rparr>"
    using signed_interaction_at [OF ints] Merge.prems by simp
  have bl: "builds d (in_left ?i) l" and br: "builds d (in_right ?i) r" using Merge.prems by auto
  have support: "external_fermion_support_sign (labels_of d (in_left ?i)) (labels_of d (in_right ?i)) ranks =
      external_fermion_support_sign (leaf_labels d l) (leaf_labels d r) ranks"
    by (rule support_sign_mset) (simp_all add: leaf_labels_mset [OF lm bl] leaf_labels_mset [OF lm br])
  have sign: "?p * (term_sign d m ranks l * term_sign d m ranks r) = term_sign d m ranks (Merge k l r)"
    unfolding term_sign_def leaf_order_sign support by (simp add: algebra_simps)
  have "colour_weight d' (Merge k l r) =
      weight_mult (flip_weight ?p (in_color_weight ?i))
        (flip_weight (term_sign d m ranks l * term_sign d m ranks r) (weight_mult (colour_weight d l) (colour_weight d r)))"
    by (simp add: at Merge.IH(1) [OF bl] Merge.IH(2) [OF br] flip_mult [OF term_sign_values term_sign_values])
  also have "\<dots> = flip_weight (?p * (term_sign d m ranks l * term_sign d m ranks r)) (colour_weight d (Merge k l r))"
    using term_sign_values [of d m ranks l] term_sign_values [of d m ranks r]
    by (subst flip_mult [OF pair_sign_values]) auto
  finally show ?case unfolding sign .
qed

text \<open>
  C8. An amplitude term of the signed DAG is the term of the original DAG times the sign of the
  permutation that its merges perform on the external fermions (the inversions of the order in
  which the term meets the sources) and the signs of its oriented fermion pairs: whatever the merge
  order, two terms differ by exactly the exchange sign of their leaf orders.
\<close>

theorem terms_get_leaf_order_sign:
  assumes signed: "apply_fermion_ordering_signs d m = Inr d'"
    and fo: "make_fermion_ordering (dg_process d) m = Inr fo" "ordering_active fo"
    and lm: "labels_merge d"
    and root: "k < length (dg_roots d)" "builds d (ar_left (dg_roots d ! k)) l" "builds d (ar_right (dg_roots d ! k)) r"
  shows "weight_mult (ar_color_weight (dg_roots d' ! k)) (weight_mult (colour_weight d' l) (colour_weight d' r)) =
    flip_weight (parity_sign (inversions (source_ranks (fo_ranks fo) (leaf_labels d l @ leaf_labels d r))) *
        (orientation_sign d m (ar_left (dg_roots d ! k)) (ar_right (dg_roots d ! k)) *
         (orientation_product d m l * orientation_product d m r)))
      (weight_mult (ar_color_weight (dg_roots d ! k)) (weight_mult (colour_weight d l) (colour_weight d r)))"
proof -
  let ?r = "dg_roots d ! k" and ?ranks = "fo_ranks fo"
  have "dg_roots d \<noteq> []" using root by auto
  then have shape: "list_all2 (\<lambda>i i'. direct_interaction m ?ranks (dg_currents d) i = Inr i') (dg_interactions d) (dg_interactions d')"
      "list_all2 (\<lambda>r r'. direct_root m ?ranks (dg_currents d) r = Inr r') (dg_roots d) (dg_roots d')"
    using direct_signs_shape [OF signed [unfolded fermion_caches_transparent] fo] by auto
  let ?p = "external_fermion_support_sign (labels_of d (ar_left ?r)) (labels_of d (ar_right ?r)) ?ranks * orientation_sign d m (ar_left ?r) (ar_right ?r)"
  have w: "ar_color_weight (dg_roots d' ! k) = flip_weight ?p (ar_color_weight ?r)"
  proof -
    obtain w' where dw: "direct_weight m ?ranks (dg_currents d) (ar_color_weight ?r, ar_left ?r, ar_right ?r) = Inr w'"
      and "dg_roots d' ! k = ?r\<lparr>ar_color_weight := w'\<rparr>"
      using list_all2_nthD [OF shape(2) root(1)] by (auto simp only: direct_root_def bindE_Inr_iff sum.inject)
    then show ?thesis using direct_weight_flips [OF dw] by simp
  qed
  have support: "external_fermion_support_sign (labels_of d (ar_left ?r)) (labels_of d (ar_right ?r)) ?ranks =
      external_fermion_support_sign (leaf_labels d l) (leaf_labels d r) ?ranks"
    by (rule support_sign_mset) (simp_all add: leaf_labels_mset [OF lm root(2)] leaf_labels_mset [OF lm root(3)])
  have sign: "?p * (term_sign d m ?ranks l * term_sign d m ?ranks r) =
      parity_sign (inversions (source_ranks ?ranks (leaf_labels d l @ leaf_labels d r))) *
        (orientation_sign d m (ar_left ?r) (ar_right ?r) * (orientation_product d m l * orientation_product d m r))"
    unfolding term_sign_def support
    by (simp add: source_ranks_append inversions_append external_fermion_support_sign_def algebra_simps)
  show ?thesis
    unfolding w signed_tree [OF shape(1) lm root(2)] signed_tree [OF shape(1) lm root(3)]
      flip_mult [OF term_sign_values term_sign_values] sign [symmetric]
    using term_sign_values [of d m ?ranks l] term_sign_values [of d m ?ranks r]
    by (subst flip_mult [OF pair_sign_values]) auto
qed


section \<open>A concrete DAG\<close>

text \<open>An electron pair of labels 1 and 2, merged as positron times electron, against a photon.\<close>

definition lepton_model :: model where
  "lepton_model = \<lparr>md_name = ''leptons'', md_particles =
       [\<lparr>pt_pdg = 11, pt_anti_pdg = -11, pt_spin = 2, pt_dimension = 4, pt_color_rep = 1\<rparr>,
        \<lparr>pt_pdg = 22, pt_anti_pdg = 22, pt_spin = 3, pt_dimension = 4, pt_color_rep = 1\<rparr>],
     md_is_fermion = (\<lambda>p. p \<in> {11, -11}), md_is_chiral = (\<lambda>_. False),
     md_color_rep = (\<lambda>_. 1), md_current_dimension = (\<lambda>_ _. 4),
     md_auxiliary_kind = (\<lambda>_. None), md_mass_name = (\<lambda>_. None), md_width_name = (\<lambda>_. None)\<rparr>"

definition lepton_leg :: "int \<Rightarrow> int \<Rightarrow> statistics \<Rightarrow> process_leg" where
  "lepton_leg label pdg stats = \<lparr>l_label = label, l_side = Final_Side, l_particle = [], l_outgoing_particle = [], l_pdg = pdg,
     l_outgoing_pdg = pdg, l_statistics = stats, l_wavefunction_family = Vector_Wf, l_color_role = Singlet,
     l_source_orientation = Particle_Src\<rparr>"

definition lepton_node :: "nat \<Rightarrow> int \<Rightarrow> int list \<Rightarrow> bool \<Rightarrow> current_node" where
  "lepton_node k pdg labels source =
     (sample_node k)\<lparr>cn_is_source := source,
        cn_index := (cn_index (sample_node k))\<lparr>ci_particle_id := pdg, ci_external_labels := labels\<rparr>\<rparr>"

definition lepton_dag :: "string dag" where
  "lepton_dag = sample_dag\<lparr>
     dg_process := (dg_process sample_dag)\<lparr>i_legs := [lepton_leg 1 11 Fermion, lepton_leg 2 (-11) Fermion, lepton_leg 3 22 Boson]\<rparr>,
     dg_currents := [lepton_node 0 11 [1] True, lepton_node 1 (-11) [2] True, lepton_node 2 22 [1, 2] False, lepton_node 3 22 [3] True],
     dg_sources := [0, 1, 3],
     dg_interactions := [(sample_interaction 0 2)\<lparr>in_left := 1, in_right := 0\<rparr>],
     dg_roots := map (\<lambda>r. r\<lparr>ar_left := 2, ar_right := 3\<rparr>) (dg_roots sample_dag)\<rparr>"

theorem terms_get_leaf_order_sign_witness:
  "\<exists>d'. apply_fermion_ordering_signs lepton_dag lepton_model = Inr d' \<and>
     weight_mult (ar_color_weight (dg_roots d' ! 0))
       (weight_mult (colour_weight d' (Merge 0 (Source 1) (Source 0))) (colour_weight d' (Source 3))) = (-1, 0)"
proof -
  have "case apply_fermion_ordering_signs lepton_dag lepton_model of Inl _ \<Rightarrow> False | Inr _ \<Rightarrow> True" by code_simp
  then obtain d' where d': "apply_fermion_ordering_signs lepton_dag lepton_model = Inr d'" by (auto split: sum.splits)
  have "case make_fermion_ordering (dg_process lepton_dag) lepton_model of Inl _ \<Rightarrow> False | Inr fo \<Rightarrow> fo_ranks fo = [(1, 0), (2, 1)]"
    by code_simp
  then obtain fo where fo: "make_fermion_ordering (dg_process lepton_dag) lepton_model = Inr fo" "fo_ranks fo = [(1, 0), (2, 1)]"
    by (auto split: sum.splits)
  have lm: "labels_merge lepton_dag"
    by (simp add: labels_merge_def labels_of_def lepton_dag_def lepton_node_def sample_node_def sample_interaction_def)
  have root: "0 < length (dg_roots lepton_dag)" "builds lepton_dag (ar_left (dg_roots lepton_dag ! 0)) (Merge 0 (Source 1) (Source 0))"
      "builds lepton_dag (ar_right (dg_roots lepton_dag ! 0)) (Source 3)"
    by code_simp+
  have total_sign: "flip_weight (parity_sign (inversions (source_ranks [(1, 0), (2, 1)]
          (leaf_labels lepton_dag (Merge 0 (Source 1) (Source 0)) @ leaf_labels lepton_dag (Source 3)))) *
        (orientation_sign lepton_dag lepton_model (ar_left (dg_roots lepton_dag ! 0)) (ar_right (dg_roots lepton_dag ! 0)) *
         (orientation_product lepton_dag lepton_model (Merge 0 (Source 1) (Source 0)) * orientation_product lepton_dag lepton_model (Source 3))))
      (weight_mult (ar_color_weight (dg_roots lepton_dag ! 0))
        (weight_mult (colour_weight lepton_dag (Merge 0 (Source 1) (Source 0))) (colour_weight lepton_dag (Source 3)))) = (-1, 0)"
    by code_simp
  have "ordering_active fo" by (simp add: ordering_active_def fo)
  from terms_get_leaf_order_sign [OF d' fo(1) this lm root, unfolded fo(2) total_sign] d' show ?thesis by blast
qed

end
