(* ===== verification/Color_Keys.thy ===== *)
theory Color_Keys
  imports Current_Table Color_Sector
begin

text \<open>
  The tags of the basis key of a colour state (\<open>generation/dag_types.py\<close>,
  \<open>generation/dag_color.py\<close>): the Fierz tag, the closures of colour-identity vertices and the
  sectors a current still supports, the last two written as text with a prefix and decimal numbers.
  A frozen set of labels is its sorted list.
\<close>

section \<open>Tags\<close>

definition lc_fierz_singlet_basis :: string where
  "lc_fierz_singlet_basis = ''lc-fierz-singlet''"

definition color_identity_closure_prefix :: string where
  "color_identity_closure_prefix = ''lc-color-identity-closure:''"

definition lc_sector_support_prefix :: string where
  "lc_sector_support_prefix = ''lc-sector-support:''"

definition int_set :: "int list \<Rightarrow> int list" where
  "int_set ids = sort (remdups ids)"

definition lc_color_identity_closure_key :: "int list \<Rightarrow> string" where
  "lc_color_identity_closure_key labels = color_identity_closure_prefix @ join '','' (map str_int (int_set labels))"

definition lc_sector_support_key :: "int list \<Rightarrow> string" where
  "lc_sector_support_key ids = lc_sector_support_prefix @ join '','' (map str_int (int_set ids))"

text \<open>
  The numbers of a payload, \<open>None\<close> for the \<open>ValueError\<close> of one that is no number. The
  loops over the tags stop at a payload that has none.
\<close>

fun ints :: "string list \<Rightarrow> int list option" where
  "ints [] = Some []"
| "ints (p # ps) = (case py_int p of None \<Rightarrow> None | Some i \<Rightarrow> map_option ((#) i) (ints ps))"

definition payload_labels :: "string \<Rightarrow> int list option" where
  "payload_labels payload = map_option int_set (ints (filter (\<lambda>p. p \<noteq> []) (split_char CHR '','' payload)))"

fun tagged_sets :: "string \<Rightarrow> string list \<Rightarrow> int list list option" where
  "tagged_sets prefix [] = Some []"
| "tagged_sets prefix (key # keys) =
     (if \<not> starts_with prefix key then tagged_sets prefix keys
      else case payload_labels (drop (length prefix) key) of
          None \<Rightarrow> None
        | Some labels \<Rightarrow> if labels = [] then None else map_option ((#) labels) (tagged_sets prefix keys))"

definition lc_color_identity_closures :: "string list \<Rightarrow> int list list" where
  "lc_color_identity_closures keys =
     (case tagged_sets color_identity_closure_prefix keys of None \<Rightarrow> [[]] | Some closures \<Rightarrow> sort (remdups closures))"

definition lc_color_identity_closures_compatible :: "int list list \<Rightarrow> sector \<Rightarrow> bool" where
  "lc_color_identity_closures_compatible closures s =
     list_all (\<lambda>closure. closure \<noteq> [] \<and> list_ex (\<lambda>group. set closure \<subseteq> set group) (coloured_label_groups s)) closures"

definition lc_sector_support :: "string list \<Rightarrow> int list option" where
  "lc_sector_support keys =
     (case tagged_sets lc_sector_support_prefix keys of
        None \<Rightarrow> Some []
      | Some [] \<Rightarrow> None
      | Some (s # ss) \<Rightarrow> Some (filter (\<lambda>i. \<forall>t \<in> set ss. i \<in> set t) s))"

definition without_lc_sector_support :: "string list \<Rightarrow> string list" where
  "without_lc_sector_support keys = filter (\<lambda>key. \<not> starts_with lc_sector_support_prefix key) keys"

section \<open>Reading tags back\<close>

lemma set_int_set [simp]: "set (int_set ids) = set ids" by (simp add: int_set_def)

lemma int_set_idem [simp]: "int_set (int_set ids) = int_set ids"
  by (simp add: int_set_def sorted_sort_id distinct_remdups_id)

lemma int_set_Nil_iff [simp]: "int_set ids = [] \<longleftrightarrow> ids = []"
  using set_int_set [of ids] by (metis set_empty)

lemma starts_with_append [simp]: "starts_with p (p @ s)"
  by (induction p) auto

lemma ints_str_int [simp]: "ints (map str_int ks) = Some ks"
  by (induction ks) auto

lemma str_int_ne [simp]: "str_int i \<noteq> []"
  by (simp add: str_int_def)

lemma payload_labels_join: "payload_labels (join '','' (map str_int (int_set ids))) = Some (int_set ids)"
proof (cases "ids = []")
  case True
  then show ?thesis by (simp add: payload_labels_def int_set_def)
next
  case False
  have "CHR '','' \<notin> set (str_int i)" for i using str_int_chars [of "CHR '',''" i] by (auto simp: is_digit_def Let_def)
  then have "split_char CHR '','' (join '','' (map str_int (int_set ids))) = map str_int (int_set ids)"
    using False by (intro split_char_join) auto
  then show ?thesis by (simp add: payload_labels_def filter_True)
qed

lemma prefixes_apart [simp]:
  "\<not> starts_with lc_sector_support_prefix (color_identity_closure_prefix @ s)"
  "\<not> starts_with color_identity_closure_prefix (lc_sector_support_prefix @ s)"
  "\<not> starts_with lc_sector_support_prefix lc_fierz_singlet_basis"
  "\<not> starts_with color_identity_closure_prefix lc_fierz_singlet_basis"
  by (simp_all add: lc_sector_support_prefix_def color_identity_closure_prefix_def lc_fierz_singlet_basis_def)


lemma closure_not_support: "starts_with color_identity_closure_prefix k \<Longrightarrow> \<not> starts_with lc_sector_support_prefix k"
  by (cases k; cases "tl k"; cases "tl (tl k)"; cases "tl (tl (tl k))")
    (auto simp: color_identity_closure_prefix_def lc_sector_support_prefix_def)

text \<open>
  The labels a tag names, none when its payload is malformed. A tag list is read as the conjunction
  of what its tags say, whatever their order and number.
\<close>

definition tag_labels :: "string \<Rightarrow> string \<Rightarrow> int set" where
  "tag_labels prefix key = (case payload_labels (drop (length prefix) key) of None \<Rightarrow> {} | Some labels \<Rightarrow> set labels)"

lemma tagged_sets_None: "tagged_sets prefix keys = None \<longleftrightarrow> (\<exists>k \<in> set keys. starts_with prefix k \<and> tag_labels prefix k = {})"
  by (induction keys) (auto simp: tag_labels_def split: option.splits)

lemma tagged_sets_Some:
  "tagged_sets prefix keys = Some sets \<Longrightarrow> set ` set sets = tag_labels prefix ` {k \<in> set keys. starts_with prefix k}"
proof (induction keys arbitrary: sets)
  case (Cons k keys)
  show ?case
  proof (cases "starts_with prefix k")
    case False
    then have "{x \<in> set (k # keys). starts_with prefix x} = {x \<in> set keys. starts_with prefix x}" by auto
    with False Cons show ?thesis by simp
  next
    case True
    with Cons.prems obtain l rest where l: "payload_labels (drop (length prefix) k) = Some l" "tagged_sets prefix keys = Some rest" "sets = l # rest"
      by (auto split: option.splits if_splits)
    have "{x \<in> set (k # keys). starts_with prefix x} = insert k {x \<in> set keys. starts_with prefix x}" using True by auto
    with l Cons.IH [of rest] show ?thesis by (simp add: tag_labels_def)
  qed
qed simp

definition supports :: "string list \<Rightarrow> int \<Rightarrow> bool" where
  "supports keys i \<longleftrightarrow> (case lc_sector_support keys of None \<Rightarrow> True | Some ids \<Rightarrow> i \<in> set ids)"

lemma supports_iff: "supports keys i \<longleftrightarrow> (\<forall>k \<in> set keys. starts_with lc_sector_support_prefix k \<longrightarrow> i \<in> tag_labels lc_sector_support_prefix k)"
proof (cases "tagged_sets lc_sector_support_prefix keys")
  case None
  then show ?thesis using tagged_sets_None by (fastforce simp: supports_def lc_sector_support_def)
next
  case (Some sets)
  have "supports keys i \<longleftrightarrow> (\<forall>L \<in> set ` set sets. i \<in> L)"
    by (cases sets) (auto simp: supports_def lc_sector_support_def Some)
  then show ?thesis unfolding tagged_sets_Some [OF Some] by auto
qed

lemma support_None_iff: "lc_sector_support keys = None \<longleftrightarrow> (\<forall>k \<in> set keys. \<not> starts_with lc_sector_support_prefix k)"
proof (cases "tagged_sets lc_sector_support_prefix keys")
  case None
  then have "\<exists>k \<in> set keys. starts_with lc_sector_support_prefix k" by (auto simp: tagged_sets_None)
  with None show ?thesis by (simp add: lc_sector_support_def)
next
  case (Some sets)
  have "lc_sector_support keys = None \<longleftrightarrow> set ` set sets = {}" by (cases sets) (auto simp: lc_sector_support_def Some)
  then show ?thesis unfolding tagged_sets_Some [OF Some] by auto
qed

definition closure_fits :: "int set \<Rightarrow> sector \<Rightarrow> bool" where
  "closure_fits c s \<longleftrightarrow> c \<noteq> {} \<and> (\<exists>group \<in> set (coloured_label_groups s). c \<subseteq> set group)"

lemma closures_compatible_iff:
  "lc_color_identity_closures_compatible (lc_color_identity_closures keys) s \<longleftrightarrow>
   (\<forall>k \<in> set keys. starts_with color_identity_closure_prefix k \<longrightarrow> closure_fits (tag_labels color_identity_closure_prefix k) s)"
proof (cases "tagged_sets color_identity_closure_prefix keys")
  case None
  then show ?thesis using tagged_sets_None
    by (fastforce simp: lc_color_identity_closures_def lc_color_identity_closures_compatible_def closure_fits_def)
next
  case (Some sets)
  have "lc_color_identity_closures_compatible (lc_color_identity_closures keys) s \<longleftrightarrow> (\<forall>L \<in> set ` set sets. closure_fits L s)"
    by (auto simp: lc_color_identity_closures_def lc_color_identity_closures_compatible_def Some closure_fits_def list_all_iff list_ex_iff)
  then show ?thesis unfolding tagged_sets_Some [OF Some] by auto
qed

lemma tag_labels_written [simp]:
  "tag_labels lc_sector_support_prefix (lc_sector_support_key ids) = set ids"
  "tag_labels color_identity_closure_prefix (lc_color_identity_closure_key ids) = set ids"
  by (simp_all add: tag_labels_def lc_sector_support_key_def lc_color_identity_closure_key_def payload_labels_join)

lemma tag_kinds [simp]:
  "starts_with lc_sector_support_prefix (lc_sector_support_key ids)"
  "starts_with color_identity_closure_prefix (lc_color_identity_closure_key ids)"
  "\<not> starts_with lc_sector_support_prefix (lc_color_identity_closure_key ids)"
  "\<not> starts_with color_identity_closure_prefix (lc_sector_support_key ids)"
  by (simp_all add: lc_sector_support_key_def lc_color_identity_closure_key_def)

text \<open>
  C22. The tags of a basis key are independent channels that read back what was written, in any
  order and however often: over any basis key, adding the tag of a set of sectors intersects the
  supported sectors with that set and leaves the closures alone; adding the tag of a closure adds
  that closure to the constraints and leaves the support alone; the Fierz tag changes neither, and
  dropping the support tags leaves every closure in place.
\<close>

theorem basis_tags_independent:
  "(supports (lc_sector_support_key ids # keys) i = (i \<in> set ids \<and> supports keys i)) \<and>
   (lc_color_identity_closures (lc_sector_support_key ids # keys) = lc_color_identity_closures keys) \<and>
   (supports (lc_color_identity_closure_key labels # keys) i = supports keys i) \<and>
   lc_color_identity_closures_compatible (lc_color_identity_closures (lc_color_identity_closure_key labels # keys)) s =
     (closure_fits (set labels) s \<and> lc_color_identity_closures_compatible (lc_color_identity_closures keys) s) \<and>
   (supports (lc_fierz_singlet_basis # keys) i = supports keys i) \<and>
   (lc_color_identity_closures (lc_fierz_singlet_basis # keys) = lc_color_identity_closures keys) \<and>
   supports (without_lc_sector_support keys) i \<and>
   lc_color_identity_closures_compatible (lc_color_identity_closures (without_lc_sector_support keys)) s =
     lc_color_identity_closures_compatible (lc_color_identity_closures keys) s"
proof (intro conjI)
  show "supports (lc_sector_support_key ids # keys) i = (i \<in> set ids \<and> supports keys i)"
    "supports (lc_color_identity_closure_key labels # keys) i = supports keys i"
    "supports (lc_fierz_singlet_basis # keys) i = supports keys i" "supports (without_lc_sector_support keys) i"
    by (auto simp: supports_iff without_lc_sector_support_def)
  show "lc_color_identity_closures (lc_sector_support_key ids # keys) = lc_color_identity_closures keys"
    "lc_color_identity_closures (lc_fierz_singlet_basis # keys) = lc_color_identity_closures keys"
    by (simp_all add: lc_color_identity_closures_def)
  show "lc_color_identity_closures_compatible (lc_color_identity_closures (without_lc_sector_support keys)) s =
     lc_color_identity_closures_compatible (lc_color_identity_closures keys) s"
    using closure_not_support by (auto simp: closures_compatible_iff without_lc_sector_support_def)
  show "lc_color_identity_closures_compatible (lc_color_identity_closures (lc_color_identity_closure_key labels # keys)) s =
     (closure_fits (set labels) s \<and> lc_color_identity_closures_compatible (lc_color_identity_closures keys) s)"
    by (auto simp: closures_compatible_iff)
qed

end
