(* ===== verification/Color_Words.thy ===== *)
theory Color_Words
  imports Color_Plan Py_Dict "HOL-Library.Sublist"
begin

text \<open>
  Colour words during the construction of currents (\<open>generation/dag_ordering.py\<close>): which
  label lists lie contiguously and in order on a word, when two ends close a word, the rotation of
  a word to its sink with its reflection, and the reflected orderings of pure-adjoint currents.
\<close>

section \<open>Positions on a word\<close>

definition line_positions :: "int list \<Rightarrow> int list \<Rightarrow> nat list" where
  "line_positions labels order = List.map_filter (map_of (rev (zip order [0..<length order]))) labels"

definition labels_projected_to_word :: "int list \<Rightarrow> int list \<Rightarrow> int list" where
  "labels_projected_to_word labels word = filter (\<lambda>l. l \<in> set word) labels"

definition positions_contiguous :: "nat list \<Rightarrow> bool" where
  "positions_contiguous ps = (ps = [] \<or> ps = [hd ps..<last ps + 1])"

definition py_slice :: "'a list \<Rightarrow> nat \<Rightarrow> nat \<Rightarrow> 'a list" where
  "py_slice xs start stop = take (stop - start) (drop start xs)"

definition word_contains_ordered_segment :: "int list \<Rightarrow> int list \<Rightarrow> bool" where
  "word_contains_ordered_segment word segment =
     (if segment = [] \<or> length word < length segment then False
      else list_ex (\<lambda>start. py_slice word start (start + length segment) = segment) [0..<length word - length segment + 1])"

definition ordered_combination_segment :: "int list \<Rightarrow> int list \<Rightarrow> int list \<Rightarrow> int list option" where
  "ordered_combination_segment left right word =
     (let lp = line_positions left word; rp = line_positions right word
      in if lp = [] \<and> rp = [] then Some []
         else if lp = [] \<or> rp = []
         then let ps = (if lp \<noteq> [] then lp else rp)
              in if positions_contiguous ps then Some (py_slice word (hd ps) (last ps + 1)) else None
         else let union = sort (lp @ rp)
              in if positions_contiguous lp \<and> positions_contiguous rp \<and> positions_contiguous union \<and>
                    Max (set lp) < Min (set rp)
                 then Some (py_slice word (hd union) (last union + 1))
                 else None)"

definition ordered_combination_matches_word :: "int list \<Rightarrow> int list \<Rightarrow> int list \<Rightarrow> bool" where
  "ordered_combination_matches_word left right word = (ordered_combination_segment left right word \<noteq> None)"

definition closure_combination_matches_word :: "int list \<Rightarrow> int list \<Rightarrow> int list \<Rightarrow> bool" where
  "closure_combination_matches_word left right word =
     (let lp = sort (line_positions left word); rp = sort (line_positions right word)
      in if lp = [] \<or> rp = [] then False
         else if set lp \<inter> set rp \<noteq> {} then False
         else positions_contiguous lp \<and> positions_contiguous rp \<and> positions_contiguous (sort (lp @ rp)))"

definition shared_single_trace_closure_matches_word :: "int list \<Rightarrow> int list \<Rightarrow> int list \<Rightarrow> bool" where
  "shared_single_trace_closure_matches_word left right word =
     (labels_projected_to_word left word @ labels_projected_to_word right word = word)"

definition shared_lc_closure_matches_word :: "int list \<Rightarrow> int list \<Rightarrow> int list \<Rightarrow> bool" where
  "shared_lc_closure_matches_word left right word =
     (let l = labels_projected_to_word left word; r = labels_projected_to_word right word
      in if l = [] \<or> r = [] then False else l @ r = word)"

subsection \<open>Positions are projections\<close>

lemma py_slice_sublist: "sublist (py_slice xs a b) xs"
  unfolding py_slice_def by (meson sublist_drop sublist_order.order.trans sublist_take)

lemma py_slice_middle: "py_slice (p @ s @ q) (length p) (length p + length s) = s"
  by (simp add: py_slice_def)

lemma word_contains_iff: "word_contains_ordered_segment word segment \<longleftrightarrow> segment \<noteq> [] \<and> sublist segment word"
proof
  assume a: "word_contains_ordered_segment word segment"
  then obtain start where "py_slice word start (start + length segment) = segment"
    unfolding word_contains_ordered_segment_def list_ex_iff by (metis (no_types, lifting))
  then have "sublist segment word" using py_slice_sublist [of word start "start + length segment"] by simp
  then show "segment \<noteq> [] \<and> sublist segment word" using a by (simp add: word_contains_ordered_segment_def split: if_splits)
next
  assume s: "segment \<noteq> [] \<and> sublist segment word"
  then obtain p q where w: "word = p @ segment @ q" by (auto simp: sublist_def)
  have "length p \<in> set [0..<length word - length segment + 1]" by (simp add: w)
  moreover have "py_slice word (length p) (length p + length segment) = segment" by (simp add: w py_slice_middle)
  ultimately have "\<exists>start \<in> set [0..<length word - length segment + 1]. py_slice word start (start + length segment) = segment" by blast
  then show "word_contains_ordered_segment word segment"
    unfolding word_contains_ordered_segment_def list_ex_iff using s w by simp
qed

lemma position_of:
  assumes "distinct w"
  shows "map_of (rev (zip w [0..<length w])) x = Some i \<longleftrightarrow> i < length w \<and> w ! i = x"
proof -
  have "distinct (map fst (zip w [0..<length w]))" using assms by simp
  then have "map_of (rev (zip w [0..<length w])) x = map_of (zip w [0..<length w]) x" by (simp add: map_of_rev)
  also have "\<dots> = Some i \<longleftrightarrow> (x, i) \<in> set (zip w [0..<length w])" using assms by (intro map_of_eq_Some_iff) simp
  also have "\<dots> \<longleftrightarrow> i < length w \<and> w ! i = x" by (auto simp: in_set_zip)
  finally show ?thesis .
qed

lemma position_none: "map_of (rev (zip w [0..<length w])) x = None \<longleftrightarrow> x \<notin> set w"
  by (force simp: map_of_eq_None_iff in_set_zip in_set_conv_nth)

lemma line_positions_Cons:
  "line_positions (x # xs) w = (case map_of (rev (zip w [0..<length w])) x of None \<Rightarrow> [] | Some i \<Rightarrow> [i]) @ line_positions xs w"
  by (simp add: line_positions_def List.map_filter_def split: option.split)

lemma line_positions_Nil [simp]: "line_positions [] w = []"
  by (simp add: line_positions_def List.map_filter_def)

lemma positions_projection:
  assumes "distinct w"
  shows "map ((!) w) (line_positions ls w) = labels_projected_to_word ls w" "set (line_positions ls w) \<subseteq> {..<length w}"
proof (induction ls)
  case (Cons x xs)
  let ?m = "map_of (rev (zip w [0..<length w])) x"
  { case 1
    show ?case
    proof (cases ?m)
      case None
      then have "x \<notin> set w" by (rule position_none [THEN iffD1])
      then show ?thesis using Cons.IH(1) by (simp add: line_positions_Cons None labels_projected_to_word_def)
    next
      case (Some i)
      then have "i < length w" "w ! i = x" using position_of [OF assms, of x i] by simp_all
      moreover from this have "x \<in> set w" by auto
      ultimately show ?thesis using Cons.IH(1) by (simp add: line_positions_Cons Some labels_projected_to_word_def)
    qed
  next
    case 2
    show ?case
    proof (cases ?m)
      case (Some i)
      then have "i < length w" using position_of [OF assms, of x i] by simp
      then show ?thesis using Cons.IH(2) by (simp add: line_positions_Cons Some)
    qed (use Cons.IH(2) in \<open>simp add: line_positions_Cons\<close>)
  }
qed (simp_all add: labels_projected_to_word_def)

lemma positions_Nil_iff: "distinct w \<Longrightarrow> line_positions ls w = [] \<longleftrightarrow> labels_projected_to_word ls w = []"
  using positions_projection(1) [of w ls] by (metis map_is_Nil_conv)

lemma map_nth_upt: "a \<le> b \<Longrightarrow> b \<le> length w \<Longrightarrow> map ((!) w) [a..<b] = py_slice w a b"
  by (rule nth_equalityI) (auto simp: py_slice_def)

lemma nth_map_inject:
  assumes "distinct w" "set ps \<subseteq> {..<length w}" "set qs \<subseteq> {..<length w}" "map ((!) w) ps = map ((!) w) qs"
  shows "ps = qs"
proof -
  have "inj_on ((!) w) (set ps \<union> set qs)" using assms(1-3) by (auto intro!: inj_on_nth)
  then show ?thesis using assms(4) map_inj_on by blast
qed

lemma positions_segment:
  assumes "distinct w" "labels_projected_to_word ls w = s" "w = p @ s @ q"
  shows "line_positions ls w = [length p..<length p + length s]"
proof (rule nth_map_inject [OF assms(1) positions_projection(2) [OF assms(1)]])
  show "set [length p..<length p + length s] \<subseteq> {..<length w}" by (auto simp: assms(3))
  have "map ((!) w) [length p..<length p + length s] = s"
    using map_nth_upt [of "length p" "length p + length s" w] by (simp add: assms(3) py_slice_middle)
  then show "map ((!) w) (line_positions ls w) = map ((!) w) [length p..<length p + length s]"
    using positions_projection(1) [OF assms(1), of ls] assms(2) by simp
qed

text \<open>On a word without repetition, contiguous positions mean a contiguous segment.\<close>

lemma contiguous_projection:
  assumes d: "distinct w" and ne: "line_positions ls w \<noteq> []"
  shows "positions_contiguous (line_positions ls w) \<longleftrightarrow> sublist (labels_projected_to_word ls w) w"
    and "positions_contiguous (line_positions ls w) \<Longrightarrow>
      py_slice w (hd (line_positions ls w)) (last (line_positions ls w) + 1) = labels_projected_to_word ls w"
proof -
  let ?ps = "line_positions ls w"
  have lt: "last ?ps < length w" using positions_projection(2) [OF d, of ls] ne by (meson last_in_set lessThan_iff subsetD)
  have slice: "py_slice w (hd ?ps) (last ?ps + 1) = labels_projected_to_word ls w" if c: "positions_contiguous ?ps"
  proof -
    have u: "?ps = [hd ?ps..<last ?ps + 1]" using c ne by (simp add: positions_contiguous_def)
    then have "hd ?ps \<le> last ?ps + 1" using ne by (metis le_add1 nat_le_linear upt_conv_Nil)
    then have "map ((!) w) [hd ?ps..<last ?ps + 1] = py_slice w (hd ?ps) (last ?ps + 1)" using lt by (intro map_nth_upt) simp_all
    then show ?thesis using positions_projection(1) [OF d, of ls] u by simp
  qed
  then show "positions_contiguous ?ps \<Longrightarrow> py_slice w (hd ?ps) (last ?ps + 1) = labels_projected_to_word ls w" .
  show "positions_contiguous ?ps \<longleftrightarrow> sublist (labels_projected_to_word ls w) w"
  proof
    assume "sublist (labels_projected_to_word ls w) w"
    then obtain p q where w: "w = p @ labels_projected_to_word ls w @ q" by (auto simp: sublist_def)
    let ?n = "length (labels_projected_to_word ls w)"
    have ps: "?ps = [length p..<length p + ?n]" using positions_segment [OF d refl w] .
    moreover have "0 < ?n" using ps ne by (cases ?n) auto
    ultimately show "positions_contiguous ?ps" by (simp add: positions_contiguous_def last_upt)
  qed (metis slice py_slice_sublist)
qed


lemma projected_append: "labels_projected_to_word (xs @ ys) w = labels_projected_to_word xs w @ labels_projected_to_word ys w"
  by (simp add: labels_projected_to_word_def)

lemma positions_append: "line_positions (xs @ ys) w = line_positions xs w @ line_positions ys w"
  by (simp add: line_positions_def List.map_filter_def)

lemma contiguous_iff: "positions_contiguous ps \<longleftrightarrow> (\<exists>a n. ps = [a..<a + n])"
proof
  assume c: "positions_contiguous ps"
  show "\<exists>a n. ps = [a..<a + n]"
  proof (cases "ps = []")
    case False
    with c have u: "ps = [hd ps..<last ps + 1]" by (simp add: positions_contiguous_def)
    with False have "hd ps < last ps + 1" by (metis upt_eq_Nil_conv not_less)
    then have "last ps + 1 = hd ps + (last ps + 1 - hd ps)" by simp
    with u show ?thesis by metis
  next
    case True
    then have "ps = [0..<0 + 0]" by simp
    then show ?thesis by blast
  qed
next
  assume "\<exists>a n. ps = [a..<a + n]"
  then obtain a n where ps: "ps = [a..<a + n]" by blast
  show "positions_contiguous ps"
  proof (cases n)
    case (Suc k)
    then have h: "hd ps = a" "last ps + 1 = a + n" unfolding ps by (simp_all add: hd_append)
    show ?thesis unfolding positions_contiguous_def h using ps by (rule disjI2)
  qed (simp add: ps positions_contiguous_def)
qed

lemma upt_bounds:
  assumes "ps = [a..<a + n]" "ps \<noteq> []"
  shows "Min (set ps) = a" "Max (set ps) = a + n - 1" "hd ps = a" "last ps = a + n - 1" "0 < n"
proof -
  show n: "0 < n" using assms by (cases n) auto
  have s: "set ps = {a..a + n - 1}" using n unfolding assms(1) by auto
  show "Min (set ps) = a" "Max (set ps) = a + n - 1" using n unfolding s by (auto intro!: Min_eqI Max_eqI)
  show "hd ps = a" "last ps = a + n - 1" using n unfolding assms(1) by (simp_all add: hd_upt last_upt)
qed

lemma contiguous_append:
  assumes "ls \<noteq> []" "rs \<noteq> []"
  shows "positions_contiguous (ls @ rs) \<longleftrightarrow>
    positions_contiguous ls \<and> positions_contiguous rs \<and> positions_contiguous (sort (ls @ rs)) \<and> Max (set ls) < Min (set rs)"
    (is "?both \<longleftrightarrow> ?parts")
proof
  assume ?both
  then obtain a n where u: "ls @ rs = [a..<a + n]" by (auto simp: contiguous_iff)
  have n: "n = length ls + length rs" using arg_cong [OF u, of length] by simp
  have l: "ls = [a..<a + length ls]" using arg_cong [OF u, of "take (length ls)"] n by (simp add: take_upt)
  have r: "rs = [a + length ls..<a + length ls + length rs]"
    using arg_cong [OF u, of "drop (length ls)"] by (simp add: drop_upt n add.assoc)
  have "Max (set ls) < Min (set rs)"
    using upt_bounds(2,5) [OF l assms(1)] upt_bounds(1) [OF r assms(2)] by simp
  moreover have "sorted (ls @ rs)" unfolding u by simp
  then have "sort (ls @ rs) = ls @ rs" by (rule sorted_sort_id)
  ultimately show ?parts using \<open>?both\<close> l r contiguous_iff by metis
next
  assume p: ?parts
  then obtain a m b n where l: "ls = [a..<a + m]" and r: "rs = [b..<b + n]" by (auto simp: contiguous_iff)
  have "Max (set ls) < Min (set rs)" using p by blast
  then have "a + m \<le> b" using upt_bounds(2,5) [OF l assms(1)] upt_bounds(1) [OF r assms(2)] by simp
  then have "sorted (ls @ rs)" unfolding l r by (auto simp: sorted_append)
  then have "sort (ls @ rs) = ls @ rs" by (rule sorted_sort_id)
  with p show ?both by simp
qed

lemma contiguous_sorted: "positions_contiguous ps \<Longrightarrow> sort ps = ps"
  by (metis contiguous_iff sorted_sort_id sorted_upt)

text \<open>
  On a colour word without repetition, the segment test of a left and a right current is the
  infix test of their coloured labels put together: it succeeds exactly when the labels of the left
  followed by those of the right stand contiguously on the word, and then returns them.
\<close>

theorem ordered_combination_is_infix:
  assumes d: "distinct w"
  shows "ordered_combination_segment left right w =
    (let s = labels_projected_to_word left w @ labels_projected_to_word right w
     in if sublist s w then Some s else None)"
proof -
  let ?l = "line_positions left w" and ?r = "line_positions right w"
  let ?pl = "labels_projected_to_word left w" and ?pr = "labels_projected_to_word right w"
  note nil = positions_Nil_iff [OF d]
  consider "?l = []" "?r = []" | "?l = []" "?r \<noteq> []" | "?l \<noteq> []" "?r = []" | "?l \<noteq> []" "?r \<noteq> []" by blast
  then show ?thesis
  proof cases
    case 1
    then show ?thesis using nil [of left] nil [of right] by (simp add: ordered_combination_segment_def)
  next
    case 2
    then have "?pl = []" using nil by simp
    then show ?thesis using 2 contiguous_projection [OF d 2(2)] by (simp add: ordered_combination_segment_def Let_def)
  next
    case 3
    then have "?pr = []" using nil by simp
    then show ?thesis using 3 contiguous_projection [OF d 3(1)] by (simp add: ordered_combination_segment_def Let_def)
  next
    case 4
    then have ne: "line_positions (left @ right) w \<noteq> []" by (simp add: positions_append)
    note c = contiguous_projection [OF d ne, unfolded positions_append projected_append]
    show ?thesis
    proof (cases "positions_contiguous (?l @ ?r)")
      case True
      with contiguous_append [OF 4] have yes: "(positions_contiguous ?l \<and> positions_contiguous ?r \<and> positions_contiguous (sort (?l @ ?r)) \<and>
          Max (set ?l) < Min (set ?r)) = True" by simp
      have "ordered_combination_segment left right w = Some (py_slice w (hd (?l @ ?r)) (last (?l @ ?r) + 1))"
        unfolding ordered_combination_segment_def Let_def contiguous_sorted [OF True] yes [unfolded contiguous_sorted [OF True]] using 4 by (simp only: if_False if_True simp_thms)
      then have "ordered_combination_segment left right w = Some (?pl @ ?pr)" unfolding c(2) [OF True] .
      then show ?thesis using True c(1) by simp
    next
      case False
      with contiguous_append [OF 4] have no: "(positions_contiguous ?l \<and> positions_contiguous ?r \<and> positions_contiguous (sort (?l @ ?r)) \<and>
          Max (set ?l) < Min (set ?r)) = False" by simp
      have "ordered_combination_segment left right w = None"
        unfolding ordered_combination_segment_def Let_def no using 4 by (simp only: if_False simp_thms)
      then show ?thesis using False c(1) by simp
    qed
  qed
qed


section \<open>Closing a word\<close>

lemma closing_halves:
  assumes d: "distinct w" and l: "mset ls = mset [a..<a + m]" "m \<noteq> 0" and "a + m \<le> length w"
  shows "mset (map ((!) w) ls) = mset (py_slice w a (a + m)) \<and> py_slice w a (a + m) \<noteq> []"
proof
  have "mset (map ((!) w) ls) = mset (map ((!) w) [a..<a + m])" using l(1) by (metis mset_map)
  then show "mset (map ((!) w) ls) = mset (py_slice w a (a + m))" using assms(4) by (simp add: map_nth_upt)
  show "py_slice w a (a + m) \<noteq> []" using assms(3,4) by (simp add: py_slice_def)
qed

lemma sort_contiguous: "positions_contiguous (sort ps) \<longleftrightarrow> (\<exists>a n. mset ps = mset [a..<a + n])"
proof
  assume "positions_contiguous (sort ps)"
  then obtain a n where "sort ps = [a..<a + n]" by (auto simp: contiguous_iff)
  then have "mset ps = mset [a..<a + n]" by (metis mset_sort)
  then show "\<exists>a n. mset ps = mset [a..<a + n]" by blast
next
  assume "\<exists>a n. mset ps = mset [a..<a + n]"
  then obtain a n where "mset ps = mset [a..<a + n]" by blast
  then have "sort ps = [a..<a + n]" by (metis properties_for_sort sorted_upt)
  then show "positions_contiguous (sort ps)" by (auto simp: contiguous_iff)
qed

text \<open>Two disjoint runs whose union is a run follow one another.\<close>

lemma adjacent_runs:
  assumes "mset [a..<a + m] + mset [b..<b + n] = mset [c..<c + k]" "m \<noteq> 0" "n \<noteq> 0"
  shows "b = a + m \<or> a = b + n"
proof -
  have s: "{a..<a + m} \<union> {b..<b + n} = {c..<c + k}"
    using arg_cong [OF assms(1), of set_mset] by simp
  have "{a..<a + m} \<inter> {b..<b + n} = {}"
  proof (rule ccontr)
    assume "{a..<a + m} \<inter> {b..<b + n} \<noteq> {}"
    then obtain x where "x \<in> {a..<a + m}" "x \<in> {b..<b + n}" by blast
    then have "2 \<le> count (mset [a..<a + m] + mset [b..<b + n]) x" by (simp add: distinct_count_atmost_1 count_mset)
    moreover have "count (mset [c..<c + k]) x = (if x \<in> set [c..<c + k] then 1 else 0)"
      by (metis distinct_count_atmost_1 distinct_upt)
    then have "count (mset [c..<c + k]) x = 1 \<or> count (mset [c..<c + k]) x = 0" by metis
    then have "count (mset [c..<c + k]) x \<le> 1" by linarith
    ultimately show False unfolding assms(1) by linarith
  qed
  moreover have "max a b \<in> {a..<a + m} \<inter> {b..<b + n}" if "\<not> a + m \<le> b" "\<not> b + n \<le> a"
    using that assms(2,3) by auto
  ultimately consider "a + m \<le> b" | "b + n \<le> a" by blast
  then show ?thesis
  proof cases
    case 1
    have "b = a + m"
    proof (rule ccontr)
      assume "b \<noteq> a + m"
      with 1 have lt: "a + m < b" by simp
      have "a \<in> {c..<c + k}" "b \<in> {c..<c + k}" using s assms(2,3) by auto
      then have "a + m \<in> {a..<a + m} \<union> {b..<b + n}" unfolding s using lt by auto
      then show False using lt by auto
    qed
    then show ?thesis ..
  next
    case 2
    have "a = b + n"
    proof (rule ccontr)
      assume "a \<noteq> b + n"
      with 2 have lt: "b + n < a" by simp
      have "a \<in> {c..<c + k}" "b \<in> {c..<c + k}" using s assms(2,3) by auto
      then have "b + n \<in> {a..<a + m} \<union> {b..<b + n}" unfolding s using lt by auto
      then show False using lt by auto
    qed
    then show ?thesis ..
  qed
qed


lemma positions_mset: "mset xs = mset ys \<Longrightarrow> mset (line_positions xs w) = mset (line_positions ys w)"
  by (simp add: line_positions_def List.map_filter_def mset_filter)

lemma positions_of_projected: "line_positions (labels_projected_to_word ls w) w = line_positions ls w"
proof (induction ls)
  case (Cons x xs)
  show ?case
  proof (cases "x \<in> set w")
    case True
    then show ?thesis using Cons by (simp add: labels_projected_to_word_def line_positions_Cons)
  next
    case False
    then have "map_of (rev (zip w [0..<length w])) x = None" by (rule position_none [THEN iffD2])
    then show ?thesis using Cons False by (simp only: labels_projected_to_word_def line_positions_Cons) simp
  qed
qed (simp add: labels_projected_to_word_def)

lemma positions_of_segment:
  assumes d: "distinct w" and w: "w = p @ s @ q" and m: "mset s = mset (labels_projected_to_word ls w)"
  shows "mset (line_positions ls w) = mset [length p..<length p + length s]"
proof -
  have "labels_projected_to_word s w = s" unfolding labels_projected_to_word_def w by (auto intro: filter_True)
  from positions_segment [OF d this w] have "mset (line_positions s w) = mset [length p..<length p + length s]" by simp
  moreover have "mset (line_positions s w) = mset (line_positions ls w)"
    using positions_mset [OF m, of w] by (simp add: positions_of_projected)
  ultimately show ?thesis by simp
qed

definition closes_word :: "int list \<Rightarrow> int list \<Rightarrow> int list \<Rightarrow> bool" where
  "closes_word left right w \<longleftrightarrow> (\<exists>p a b q. w = p @ a @ b @ q \<and> a \<noteq> [] \<and> b \<noteq> [] \<and>
     mset a = mset (labels_projected_to_word left w) \<and> mset b = mset (labels_projected_to_word right w))"

lemma closure_parts:
  "closure_combination_matches_word left right w \<longleftrightarrow> line_positions left w \<noteq> [] \<and> line_positions right w \<noteq> [] \<and>
     set (line_positions left w) \<inter> set (line_positions right w) = {} \<and>
     (\<exists>a m. mset (line_positions left w) = mset [a..<a + m]) \<and> (\<exists>b n. mset (line_positions right w) = mset [b..<b + n]) \<and>
     (\<exists>c k. mset (line_positions left w) + mset (line_positions right w) = mset [c..<c + k])"
proof -
  have nil: "sort ps = [] \<longleftrightarrow> ps = []" for ps :: "nat list" by (metis mset_sort mset_zero_iff_right)
  have union: "sort (sort ls @ sort rs) = sort (ls @ rs)" for ls rs :: "nat list"
    by (rule properties_for_sort) simp_all
  show ?thesis
    unfolding closure_combination_matches_word_def Let_def union sort_contiguous nil set_sort mset_append mset_sort if_bool_eq_disj by blast
qed

lemma two_slices:
  assumes "a + m + n \<le> length w"
  shows "w = take a w @ py_slice w a (a + m) @ py_slice w (a + m) (a + m + n) @ drop (a + m + n) w"
proof -
  have "w = take a w @ take m (drop a w) @ take n (drop (a + m) w) @ drop (a + m + n) w"
    by (metis append_take_drop_id drop_drop add.commute)
  then show ?thesis by (simp add: py_slice_def)
qed

lemma runs_close:
  assumes d: "distinct w" and l: "mset (line_positions ls w) = mset [a..<a + m]" "m \<noteq> 0"
    and r: "mset (line_positions rs w) = mset [a + m..<a + m + n]" "n \<noteq> 0"
  shows "closes_word ls rs w"
proof -
  have "set [a + m..<a + m + n] \<subseteq> {..<length w}"
    using positions_projection(2) [OF d, of rs] r(1) by (metis set_mset_mset)
  moreover have "a + m + n - 1 \<in> set [a + m..<a + m + n]" using r(2) by simp
  ultimately have b: "a + m + n \<le> length w" using r(2) by fastforce
  have pl: "mset (labels_projected_to_word ls w) = mset (py_slice w a (a + m)) \<and> py_slice w a (a + m) \<noteq> []"
    using closing_halves [OF d l] b positions_projection(1) [OF d, of ls] by simp
  have pr: "mset (labels_projected_to_word rs w) = mset (py_slice w (a + m) (a + m + n)) \<and> py_slice w (a + m) (a + m + n) \<noteq> []"
    using closing_halves [OF d r b] positions_projection(1) [OF d, of rs] by simp
  from two_slices [OF b] pl pr show ?thesis unfolding closes_word_def by metis
qed

text \<open>
  C4. Two ends close a colour word without repetition exactly when their coloured labels are two
  non-empty neighbouring segments of it, in either order and each in any internal order.
\<close>

theorem closure_is_adjacent_segments:
  assumes d: "distinct w"
  shows "closure_combination_matches_word left right w \<longleftrightarrow> closes_word left right w \<or> closes_word right left w"
proof
  assume m: "closure_combination_matches_word left right w"
  then obtain a m b n c k where l: "mset (line_positions left w) = mset [a..<a + m]" and r: "mset (line_positions right w) = mset [b..<b + n]"
    and u: "mset [a..<a + m] + mset [b..<b + n] = mset [c..<c + k]"
    unfolding closure_parts by metis
  have ne: "m \<noteq> 0" "n \<noteq> 0" using m l r unfolding closure_parts by auto
  from adjacent_runs [OF u ne] show "closes_word left right w \<or> closes_word right left w"
    using runs_close [OF d l ne(1), of right n] runs_close [OF d r ne(2), of left m] l r ne by auto
next
  have "closure_combination_matches_word ls rs w" if c: "closes_word ls rs w \<or> closes_word rs ls w" for ls rs
  proof -
    have half: "closure_combination_matches_word xs ys w \<and> closure_combination_matches_word ys xs w" if "closes_word xs ys w" for xs ys
    proof -
      from that obtain p a b q where w: "w = p @ a @ b @ q" and ne: "a \<noteq> []" "b \<noteq> []"
        and m: "mset a = mset (labels_projected_to_word xs w)" "mset b = mset (labels_projected_to_word ys w)"
        unfolding closes_word_def by blast
      have x: "mset (line_positions xs w) = mset [length p..<length p + length a]"
        by (rule positions_of_segment [OF d _ m(1)]) (rule w)
      have y: "mset (line_positions ys w) = mset [length p + length a..<length p + length a + length b]"
        using positions_of_segment [OF d _ m(2), of "p @ a" q] w by simp
      have u: "mset (line_positions xs w) + mset (line_positions ys w) = mset [length p..<length p + (length a + length b)]"
      proof -
        have "[length p..<length p + (length a + length b)] =
            [length p..<length p + length a] @ [length p + length a..<length p + length a + length b]"
          by (metis add.assoc le_add1 upt_add_eq_append)
        then show ?thesis by (simp only: x y mset_append)
      qed
      have u': "mset (line_positions ys w) + mset (line_positions xs w) = mset [length p..<length p + (length a + length b)]"
        by (subst add.commute) (rule u)
      have runs: "\<exists>a m. mset (line_positions xs w) = mset [a..<a + m]" "\<exists>a m. mset (line_positions ys w) = mset [a..<a + m]"
          "\<exists>c k. mset (line_positions xs w) + mset (line_positions ys w) = mset [c..<c + k]"
          "\<exists>c k. mset (line_positions ys w) + mset (line_positions xs w) = mset [c..<c + k]"
        by ((rule exI)+, rule x, (rule exI)+, rule y, (rule exI)+, rule u, (rule exI)+, rule u')
      have ne: "line_positions xs w \<noteq> []" "line_positions ys w \<noteq> []"
        using mset_eq_length [OF x] mset_eq_length [OF y] ne by auto
      have disj: "set (line_positions xs w) \<inter> set (line_positions ys w) = {}" "set (line_positions ys w) \<inter> set (line_positions xs w) = {}"
        using arg_cong [OF x, of set_mset] arg_cong [OF y, of set_mset] by auto
      show ?thesis unfolding closure_parts by (intro conjI) (fact runs ne disj)+
    qed
    from c show ?thesis using half by blast
  qed
  then show "closes_word left right w \<or> closes_word right left w \<Longrightarrow> closure_combination_matches_word left right w" .
qed


section \<open>Rotation to the sink\<close>

definition symmetry_order_kept :: "int list \<Rightarrow> bool" where
  "symmetry_order_kept labels =
     (labels \<noteq> [] \<and> length (takeWhile (\<lambda>l. l \<noteq> Min (set labels)) labels) < length (takeWhile (\<lambda>l. l \<noteq> Max (set labels)) labels))"

definition sink_last :: "int list \<Rightarrow> int \<Rightarrow> int list" where
  "sink_last word sink =
     (let k = length (takeWhile (\<lambda>l. l \<noteq> sink) word) in drop (k + 1) word @ take (k + 1) word)"

definition lc_word_with_sink_last :: "int list \<Rightarrow> int option \<Rightarrow> int list" where
  "lc_word_with_sink_last word sink =
     (case sink of
        None \<Rightarrow> word
      | Some s \<Rightarrow>
          if s \<notin> set word then word
          else let rotated = sink_last word s; current = butlast rotated
               in (if current \<noteq> [] \<and> \<not> symmetry_order_kept current then rev current else current) @ [last rotated])"

text \<open>Words that describe the same closed trace up to reflection.\<close>

definition dihedral :: "'a list \<Rightarrow> 'a list \<Rightarrow> bool" where
  "dihedral v w \<longleftrightarrow> (\<exists>n. w = rotate n v \<or> w = rotate n (rev v))"

lemma sink_last_split: "s \<notin> set u \<Longrightarrow> sink_last (u @ s # v) s = v @ u @ [s]"
proof -
  assume "s \<notin> set u"
  then have "takeWhile (\<lambda>l. l \<noteq> s) (u @ s # v) = u" by (induction u) auto
  then show ?thesis by (simp add: sink_last_def)
qed

lemma split_at: "s \<in> set w \<Longrightarrow> distinct w \<Longrightarrow> \<exists>u v. w = u @ s # v \<and> s \<notin> set u \<and> s \<notin> set v"
  by (metis distinct.simps(2) distinct_append disjoint_iff list.set_intros(1) split_list)

lemma sink_last_rotation:
  assumes "s \<in> set w" "distinct w"
  shows "\<exists>n. sink_last w s = rotate n w" "last (sink_last w s) = s" "sink_last w s \<noteq> []"
proof -
  obtain u v where w: "w = u @ s # v" "s \<notin> set u" using split_at [OF assms] by blast
  have r: "sink_last w s = v @ u @ [s]" unfolding w(1) by (rule sink_last_split [OF w(2)])
  have eq: "w = (u @ [s]) @ v" by (simp add: w(1))
  have "sink_last w s = rotate (length (u @ [s])) w" unfolding eq rotate_append by (simp add: sink_last_split [OF w(2)])
  then show "\<exists>n. sink_last w s = rotate n w" by blast
  show "last (sink_last w s) = s" "sink_last w s \<noteq> []" by (simp_all add: r)
qed

text \<open>The rotation of a word without repetition is fixed by its last label.\<close>

lemma rotation_by_last:
  assumes d: "distinct w" and l: "last (rotate i w) = last (rotate j w)" and ne: "w \<noteq> []"
  shows "rotate i w = rotate j w"
proof -
  let ?n = "length w"
  have n: "0 < ?n" using ne by simp
  have at: "last (rotate k w) = w ! ((k + (?n - 1)) mod ?n)" for k
    using ne n by (simp add: last_conv_nth nth_rotate)
  have "w ! ((i + (?n - 1)) mod ?n) = w ! ((j + (?n - 1)) mod ?n)" using l unfolding at .
  then have "(i + (?n - 1)) mod ?n = (j + (?n - 1)) mod ?n"
    by (rule nth_eq_iff_index_eq [OF d, THEN iffD1, rotated 2]) (use n in simp_all)
  then have "((i + (?n - 1)) mod ?n + 1) mod ?n = ((j + (?n - 1)) mod ?n + 1) mod ?n" by simp
  then have "(i + (?n - 1) + 1) mod ?n = (j + (?n - 1) + 1) mod ?n" by (simp only: mod_add_left_eq)
  then have "i mod ?n = j mod ?n" using n by simp
  then show ?thesis by (metis rotate_conv_mod)
qed


lemma sink_last_rotate:
  assumes "s \<in> set w" "distinct w"
  shows "sink_last (rotate n w) s = sink_last w s"
proof -
  have m: "s \<in> set (rotate n w)" "distinct (rotate n w)" using assms by simp_all
  obtain i where i: "sink_last (rotate n w) s = rotate i (rotate n w)" using sink_last_rotation(1) [OF m] by blast
  obtain j where j: "sink_last w s = rotate j w" using sink_last_rotation(1) [OF assms] by blast
  have "last (rotate (i + n) w) = last (rotate j w)"
    using sink_last_rotation(2) [OF m] sink_last_rotation(2) [OF assms] by (simp add: i j rotate_rotate)
  moreover have "w \<noteq> []" using assms(1) by auto
  ultimately have "rotate (i + n) w = rotate j w" using rotation_by_last [OF assms(2)] by blast
  then show ?thesis by (simp add: i j rotate_rotate)
qed

lemma sink_last_rev:
  assumes "s \<in> set w" "distinct w"
  shows "sink_last (rev w) s = rev (butlast (sink_last w s)) @ [s]"
proof -
  obtain u v where w: "w = u @ s # v" "s \<notin> set u" "s \<notin> set v" using split_at [OF assms] by blast
  have "sink_last (rev v @ s # rev u) s = rev u @ rev v @ [s]" by (rule sink_last_split) (simp add: w(3))
  moreover have "sink_last w s = v @ u @ [s]" unfolding w(1) by (rule sink_last_split [OF w(2)])
  ultimately show ?thesis by (simp add: w(1) butlast_append)
qed

lemma first_position:
  assumes "distinct xs" "i < length xs"
  shows "length (takeWhile (\<lambda>l. l \<noteq> xs ! i) xs) = i"
proof -
  have xs: "xs = take i xs @ xs ! i # drop (Suc i) xs" using assms(2) by (rule id_take_nth_drop)
  have "xs ! i \<notin> set (take i xs)" using assms by (metis distinct_take in_set_conv_nth nth_take nth_eq_iff_index_eq length_take less_imp_le_nat min.absorb2 order_less_le order_less_trans)
  then have "takeWhile (\<lambda>l. l \<noteq> xs ! i) xs = take i xs"
    by (subst xs) (auto simp: takeWhile_append2 takeWhile_eq_all_conv intro: takeWhile_append2 [THEN trans])
  then show ?thesis using assms(2) by simp
qed

text \<open>Of a list with at least two labels and its reverse exactly one is kept.\<close>

lemma kept_rev:
  assumes d: "distinct xs" and n: "2 \<le> length xs"
  shows "symmetry_order_kept (rev xs) \<longleftrightarrow> \<not> symmetry_order_kept xs"
proof -
  have ne: "xs \<noteq> []" using n by auto
  obtain i where i: "i < length xs" "xs ! i = Min (set xs)" using ne by (metis Min_in List.finite_set in_set_conv_nth set_empty)
  obtain j where j: "j < length xs" "xs ! j = Max (set xs)" using ne by (metis Max_in List.finite_set in_set_conv_nth set_empty)
  have "i \<noteq> j"
  proof
    assume "i = j"
    then have "x = Min (set xs)" if "x \<in> set xs" for x
      using i j that by (metis List.finite_set Max_ge Min_le order_antisym)
    then have "set xs \<subseteq> {Min (set xs)}" by blast
    then have "card (set xs) \<le> 1" by (metis card_mono finite.emptyI finite_insert is_singletonI is_singleton_altdef)
    then show False using distinct_card [OF d] n by simp
  qed
  have k: "length (takeWhile (\<lambda>l. l \<noteq> xs ! t) (rev xs)) = length xs - 1 - t" if "t < length xs" for t
    using first_position [of "rev xs" "length xs - 1 - t"] d that by (simp add: rev_nth)
  show ?thesis
    using i j \<open>i \<noteq> j\<close> ne k [OF i(1)] k [OF j(1)] first_position [OF d i(1)] first_position [OF d j(1)]
    by (auto simp: symmetry_order_kept_def)
qed


lemma dihedral_refl: "dihedral w w"
  unfolding dihedral_def by (metis rotate0 id_apply)

lemma rotate_inverse: "\<exists>m. rotate m (rotate n w) = w"
proof (cases "w = []")
  case False
  let ?l = "length w"
  have "rotate ((?l - n mod ?l) + n mod ?l) w = w" using False by (simp add: mod_less_divisor less_imp_le)
  then have "rotate (?l - n mod ?l) (rotate n w) = w" by (metis rotate_conv_mod rotate_rotate)
  then show ?thesis by blast
qed simp

lemma rev_rotate: "\<exists>m. rev (rotate n w) = rotate m (rev w)"
proof (cases "w = []")
  case False
  let ?l = "length w" and ?k = "length w - n mod length w"
  have lt: "n mod ?l < ?l" using False by simp
  have "rotate (?l - ?k mod ?l) w = rotate n w"
  proof (cases "n mod ?l = 0")
    case True
    then have "?l - ?k mod ?l = ?l" by simp
    then show ?thesis using rotate_conv_mod [of n w] rotate_conv_mod [of ?l w] True by simp
  next
    case nz: False
    then have "?l - ?k mod ?l = n mod ?l" using lt by simp
    then show ?thesis using rotate_conv_mod [of n w] by simp
  qed
  then have "rev (rotate n w) = rotate ?k (rev w)" by (simp only: rotate_rev)
  then show ?thesis by blast
qed simp

lemma dihedral_trans:
  assumes "dihedral u v" "dihedral v w"
  shows "dihedral u w"
proof -
  have rr: "\<exists>k. w = rotate k x" if "w = rotate n v" "v = rotate m x" for n m x
    using that by (metis rotate_rotate)
  from assms obtain m n where v: "v = rotate m u \<or> v = rotate m (rev u)" and w: "w = rotate n v \<or> w = rotate n (rev v)"
    unfolding dihedral_def by blast
  have vr: "\<exists>k. rev v = rotate k (rev u) \<or> rev v = rotate k u"
    using v rev_rotate [of m u] rev_rotate [of m "rev u"] by auto
  from w show ?thesis
  proof
    assume "w = rotate n v"
    then show ?thesis using v unfolding dihedral_def by (metis rotate_rotate)
  next
    assume "w = rotate n (rev v)"
    then show ?thesis using vr unfolding dihedral_def by (metis rotate_rotate)
  qed
qed

lemma dihedral_sym:
  assumes "dihedral v w"
  shows "dihedral w v"
proof -
  from assms obtain n where "w = rotate n v \<or> w = rotate n (rev v)" unfolding dihedral_def by blast
  then show ?thesis
  proof
    assume "w = rotate n v"
    then show ?thesis unfolding dihedral_def using rotate_inverse [of n v] by metis
  next
    assume w: "w = rotate n (rev v)"
    obtain m where "rotate m (rev w) = v" using rev_rotate [of n "rev v"] rotate_inverse w by (metis rev_rev_ident)
    then show ?thesis unfolding dihedral_def by metis
  qed
qed

definition sink_current :: "int list \<Rightarrow> int list" where
  "sink_current current = (if current \<noteq> [] \<and> \<not> symmetry_order_kept current then rev current else current)"

lemma sink_current_rev: "distinct xs \<Longrightarrow> sink_current (rev xs) = sink_current xs"
proof (cases "2 \<le> length xs")
  case True
  assume "distinct xs"
  then show ?thesis using kept_rev [OF _ True] True by (auto simp: sink_current_def)
next
  case False
  then have "rev xs = xs" by (cases xs rule: rev_cases) (auto simp: Suc_le_eq numeral_2_eq_2)
  then show ?thesis by simp
qed

lemma lc_word_eq:
  assumes "s \<in> set w" "distinct w"
  shows "lc_word_with_sink_last w (Some s) = sink_current (butlast (sink_last w s)) @ [s]"
  using assms sink_last_rotation(2) [OF assms] by (simp add: lc_word_with_sink_last_def sink_current_def Let_def)

lemma lc_word_dihedral:
  assumes "s \<in> set w" "distinct w"
  shows "dihedral w (lc_word_with_sink_last w (Some s))"
proof -
  let ?r = "sink_last w s"
  have r: "?r = butlast ?r @ [s]" using sink_last_rotation(2,3) [OF assms] by (metis append_butlast_last_id)
  obtain n where n: "?r = rotate n w" using sink_last_rotation(1) [OF assms] by blast
  have "dihedral w ?r" unfolding dihedral_def n by blast
  moreover have "dihedral ?r (sink_current (butlast ?r) @ [s])"
  proof (cases "sink_current (butlast ?r) = butlast ?r")
    case True
    then show ?thesis using r dihedral_refl by metis
  next
    case False
    then have "sink_current (butlast ?r) = rev (butlast ?r)" by (simp add: sink_current_def split: if_splits)
    moreover have "rotate 1 (rev ?r) = rev (butlast ?r) @ [s]" by (subst r) simp
    ultimately show ?thesis unfolding dihedral_def by metis
  qed
  ultimately show ?thesis unfolding lc_word_eq [OF assms] by (rule dihedral_trans)
qed

text \<open>
  C14. Rotating a word to its sink and reflecting the rest is a normal form for closed traces: two
  words without repetition that contain the sink get the same word exactly when one is a rotation of
  the other or of its reflection, and the result is such a word and ends with the sink.
\<close>

theorem sink_last_is_dihedral_normal_form:
  assumes "s \<in> set v" "distinct v" "s \<in> set w" "distinct w"
  shows "(lc_word_with_sink_last v (Some s) = lc_word_with_sink_last w (Some s) \<longleftrightarrow> dihedral v w) \<and>
    dihedral v (lc_word_with_sink_last v (Some s)) \<and> last (lc_word_with_sink_last v (Some s)) = s"
proof (intro conjI iffI)
  show "dihedral v (lc_word_with_sink_last v (Some s))" using lc_word_dihedral [OF assms(1,2)] .
  show "last (lc_word_with_sink_last v (Some s)) = s" by (simp add: lc_word_eq [OF assms(1,2)])
  show "dihedral v w" if "lc_word_with_sink_last v (Some s) = lc_word_with_sink_last w (Some s)"
    using lc_word_dihedral [OF assms(1,2)] lc_word_dihedral [OF assms(3,4)] that by (metis dihedral_sym dihedral_trans)
  assume "dihedral v w"
  then obtain n where "w = rotate n v \<or> w = rotate n (rev v)" unfolding dihedral_def by blast
  then show "lc_word_with_sink_last v (Some s) = lc_word_with_sink_last w (Some s)"
  proof
    assume w: "w = rotate n v"
    have "sink_last w s = sink_last v s" unfolding w by (rule sink_last_rotate [OF assms(1,2)])
    then show ?thesis by (simp add: lc_word_eq [OF assms(1,2)] lc_word_eq [OF assms(3,4)])
  next
    assume w: "w = rotate n (rev v)"
    have "sink_last w s = sink_last (rev v) s" unfolding w using assms(1,2) by (intro sink_last_rotate) simp_all
    then have "butlast (sink_last w s) = rev (butlast (sink_last v s))" by (simp add: sink_last_rev [OF assms(1,2)])
    moreover have "distinct (butlast (sink_last v s))"
      using sink_last_rotation(1) [OF assms(1,2)] assms(2) by (auto intro: distinct_butlast)
    ultimately show ?thesis by (simp add: lc_word_eq [OF assms(1,2)] lc_word_eq [OF assms(3,4)] sink_current_rev)
  qed
qed

theorem sink_last_is_dihedral_normal_form_witness:
  "lc_word_with_sink_last [2, 5, 1, 4] (Some 5) = [1, 4, 2, 5] \<and> dihedral [2, 5, 1, 4] [4, 1, 5, 2 :: int]"
proof -
  have e: "lc_word_with_sink_last [2, 5, 1, 4] (Some 5) = [1, 4, 2, 5]"
    "lc_word_with_sink_last [4, 1, 5, 2] (Some 5) = [1, 4, 2, 5]" by code_simp+
  show ?thesis using sink_last_is_dihedral_normal_form [of 5 "[2, 5, 1, 4]" "[4, 1, 5, 2]"] e by simp
qed


theorem ordered_combination_is_infix_witness:
  "ordered_combination_segment [3, 1] [2] [4, 3, 1, 2, 5 :: int] = Some [3, 1, 2]"
proof -
  have "labels_projected_to_word [3, 1] [4, 3, 1, 2, 5] = [3, 1]" "labels_projected_to_word [2] [4, 3, 1, 2, 5] = [2 :: int]"
    by code_simp+
  moreover have "sublist [3, 1, 2] [4, 3, 1, 2, 5 :: int]" unfolding sublist_def by (intro exI [of _ "[4]"] exI [of _ "[5]"]) simp
  ultimately show ?thesis using ordered_combination_is_infix [of "[4, 3, 1, 2, 5]" "[3, 1]" "[2]"] by simp
qed

theorem closure_is_adjacent_segments_witness:
  "closure_combination_matches_word [2] [1, 3] [3, 1, 2, 5] \<and> \<not> closure_combination_matches_word [2] [3] [3, 1, 2, 5 :: int]"
proof
  have p: "labels_projected_to_word [1, 3] [3, 1, 2, 5] = [1, 3]" "labels_projected_to_word [2] [3, 1, 2, 5] = [2 :: int]"
    by code_simp+
  have "closes_word [1, 3] [2] [3, 1, 2, 5 :: int]" unfolding closes_word_def p
    by (intro exI [of _ "[]"] exI [of _ "[3, 1]"] exI [of _ "[2]"] exI [of _ "[5]"]) simp
  then show "closure_combination_matches_word [2] [1, 3] [3, 1, 2, 5 :: int]"
    using closure_is_adjacent_segments [of "[3, 1, 2, 5]" "[2]" "[1, 3]"] by simp
  show "\<not> closure_combination_matches_word [2] [3] [3, 1, 2, 5 :: int]" by code_simp
qed

end
