(* ===== verification/Color_Recursion.thy ===== *)
theory Color_Recursion
  imports Color_Words Masks Model_Vertices
begin

text \<open>
  Colour orders and closure masks of the recursion (\<open>generation/dag_ordering.py\<close>): the
  words of a sector that order intermediate currents, the reflected orderings of pure-adjoint
  currents, the masks that lie on some colour word, and the candidate endpoint splits.
\<close>

section \<open>Words for intermediate currents\<close>

definition sector_group_indices_for_label :: "sector \<Rightarrow> int \<Rightarrow> nat list" where
  "sector_group_indices_for_label s label = find_positions (\<lambda>g. label \<in> set g) (line_label_groups s)"

definition sector_intermediate_order_words :: "sector \<Rightarrow> bool \<Rightarrow> process_ir option \<Rightarrow> int list list res" where
  "sector_intermediate_order_words s include_traversals process =
     (let physical = color_words s; fallback = (if physical \<noteq> [] then physical else admissible_traversal_words s)
      in if \<not> include_traversals
         then (case process of
                 None \<Rightarrow> Inr fallback
               | Some p \<Rightarrow>
                   if sc_kind s = Open_Lines
                   then bindE (canonical_closure_traversal_word s p) (\<lambda>w. Inr (if w \<noteq> [] then [w] else physical))
                   else Inr fallback)
         else if sc_kind s \<noteq> Open_Lines \<or> physical = [] \<or> hd physical = [] then Inr fallback
         else bindE (case process of None \<Rightarrow> Inr (Some (last (hd physical))) | Some p \<Rightarrow> canonical_closure_sink_label s p) (\<lambda>sink.
           case sink of
             None \<Rightarrow> Inr physical
           | Some l \<Rightarrow> Inr (dedup (map (\<lambda>w. if l \<in> set w then sink_last w l else w) (admissible_traversal_words s)))))"

definition line_local_singlet_extras_allowed :: "int list \<Rightarrow> int list \<Rightarrow> sector \<Rightarrow> bool" where
  "line_local_singlet_extras_allowed segment extras s = (if extras = [] then True else set extras \<subseteq> set (sc_singlets s))"

text \<open>The loop over the words: the first word on which the labels lie contiguously.\<close>

fun canonical_order_on :: "int list \<Rightarrow> sector \<Rightarrow> int list list \<Rightarrow> int list" where
  "canonical_order_on labels s [] = sort (remdups labels)"
| "canonical_order_on labels s (w # ws) =
     (let ps = line_positions labels w; extras = sort (filter (\<lambda>l. l \<notin> set w) (remdups labels)); segment = py_slice w (hd ps) (last ps + 1)
      in if ps = [] \<or> \<not> positions_contiguous ps \<or> \<not> line_local_singlet_extras_allowed segment extras s
         then canonical_order_on labels s ws
         else segment @ extras)"

definition canonical_lc_ordered_labels :: "int list \<Rightarrow> sector \<Rightarrow> int list res" where
  "canonical_lc_ordered_labels labels s =
     bindE (sector_intermediate_order_words s True None) (\<lambda>words. Inr (canonical_order_on labels s words))"

lemma admissible_mset: "w \<in> set (admissible_traversal_words s) \<Longrightarrow> mset w = mset (primary_word s)"
proof -
  assume w: "w \<in> set (admissible_traversal_words s)"
  show ?thesis
  proof (cases "w = primary_word s")
    case False
    then obtain blocks where b: "ordered_open_line_blocks (primary_word s) (sc_lines s) = Some blocks"
      and in_dedup: "w \<in> set (dedup_on (\<lambda>w. w) [primary_word s] (map concat (perms blocks)))"
      using w by (auto simp: admissible_traversal_words_def color_words_single split: if_splits option.splits)
    have "w \<in> set (map concat (perms blocks))" by (rule subsetD [OF dedup_on_subset in_dedup])
    then obtain bs where bs: "w = concat bs" "mset bs = mset blocks" by (auto simp: set_perms)
    have "concat blocks = primary_word s" using blocks_loop_spec b unfolding ordered_open_line_blocks_def by blast
    then show ?thesis using bs by (metis mset_concat mset_map sum_mset_sum_list)
  qed simp
qed

text \<open>
  C16. For an open-line sector with distinct labels, the words used for intermediate currents are the
  cyclic classes of its traversal words, each represented once by the rotation that ends with the
  closure sink.
\<close>

theorem intermediate_words_are_cyclic_classes:
  assumes kind: "sc_kind s = Open_Lines" and d: "distinct (primary_word s)" and sink: "l \<in> set (primary_word s)"
    and src: "case process of None \<Rightarrow> l = last (primary_word s) | Some p \<Rightarrow> canonical_closure_sink_label s p = Inr (Some l)"
  shows "\<exists>words. sector_intermediate_order_words s True process = Inr words \<and> distinct words \<and>
    set words = {w. last w = l \<and> (\<exists>v \<in> set (admissible_traversal_words s). \<exists>n. w = rotate n v)}"
proof -
  let ?A = "set (admissible_traversal_words s)"
  have A: "distinct v \<and> l \<in> set v \<and> v \<noteq> []" if "v \<in> ?A" for v
    using admissible_mset [OF that] d sink by (metis mset_eq_imp_distinct_iff mset_eq_setD empty_iff list.set(1))
  have ne: "hd (color_words s) \<noteq> []" "color_words s \<noteq> []" "hd (color_words s) = primary_word s"
    using sink by (auto simp: color_words_single)
  let ?words = "dedup (map (\<lambda>w. if l \<in> set w then sink_last w l else w) (admissible_traversal_words s))"
  have sk: "(case process of None \<Rightarrow> Inr (Some (last (hd (color_words s)))) | Some p \<Rightarrow> canonical_closure_sink_label s p) = Inr (Some l)"
    using src ne(3) by (cases process) simp_all
  have "sector_intermediate_order_words s True process = Inr ?words"
    using kind ne(1,2) by (simp add: sector_intermediate_order_words_def Let_def sk)
  moreover have "set ?words = {w. last w = l \<and> (\<exists>v \<in> ?A. \<exists>n. w = rotate n v)}"
  proof (rule set_eqI)
    fix w
    have "w \<in> set ?words \<longleftrightarrow> (\<exists>v \<in> ?A. w = sink_last v l)" using A by auto
    also have "\<dots> \<longleftrightarrow> last w = l \<and> (\<exists>v \<in> ?A. \<exists>n. w = rotate n v)"
    proof
      assume "\<exists>v \<in> ?A. w = sink_last v l"
      then obtain v where v: "v \<in> ?A" "w = sink_last v l" by blast
      then show "last w = l \<and> (\<exists>v \<in> ?A. \<exists>n. w = rotate n v)"
        using sink_last_rotation(1,2) [of l v] A [OF v(1)] by auto
    next
      assume "last w = l \<and> (\<exists>v \<in> ?A. \<exists>n. w = rotate n v)"
      then obtain v n where v: "last w = l" "v \<in> ?A" "w = rotate n v" by blast
      note av = A [OF v(2)]
      obtain m where m: "sink_last v l = rotate m v" using sink_last_rotation(1) [of l v] av by blast
      have "last (rotate n v) = last (rotate m v)" using v(1,3) sink_last_rotation(2) [of l v] av m by simp
      then have "w = sink_last v l" using rotation_by_last [of v n m] av v(3) m by simp
      then show "\<exists>v \<in> ?A. w = sink_last v l" using v(2) by blast
    qed
    finally show "w \<in> set ?words \<longleftrightarrow> w \<in> {w. last w = l \<and> (\<exists>v \<in> ?A. \<exists>n. w = rotate n v)}" by simp
  qed
  ultimately show ?thesis by (intro exI [of _ ?words]) simp
qed

section \<open>Reflected orderings of pure-adjoint currents\<close>

definition adjoint_order :: "int list \<Rightarrow> int list \<Rightarrow> nat \<Rightarrow> nat \<Rightarrow> nat \<Rightarrow> int list" where
  "adjoint_order left right i j k =
     (let flip_first = (i = 2 \<and> k = 1 \<or> j = 2 \<and> k = 2); flip_second = (i = 2 \<and> k = 2 \<or> j = 2 \<and> k = 1);
          a = (if k = 1 then left else right); b = (if k = 1 then right else left)
      in (if flip_first then rev a else a) @ (if flip_second then rev b else b))"

definition adjoint_negative :: "int list \<Rightarrow> int list \<Rightarrow> nat \<Rightarrow> nat \<Rightarrow> nat \<Rightarrow> bool" where
  "adjoint_negative left right i j k =
     (((k = 2) \<noteq> (j = 2 \<and> length right mod 2 = 0)) \<noteq> (i = 2 \<and> length left mod 2 = 0))"

definition lc_all_adjoint_symmetry_order_variants ::
  "int list \<Rightarrow> int list \<Rightarrow> bool \<Rightarrow> bool \<Rightarrow> bool \<Rightarrow> bool \<Rightarrow> (int list \<times> weight) list" where
  "lc_all_adjoint_symmetry_order_variants left right left_adjoint right_adjoint proven fold_reflections =
     (let switch1 = (if left_adjoint \<and> 2 \<le> length left then 2 else 1);
          switch2 = (if right_adjoint \<and> 2 \<le> length right then 2 else 1);
          switch3 = (if proven then 2 else 1)
      in [(adjoint_order left right i j k, (if adjoint_negative left right i j k then (-1, 0) else (1, 0))).
            i \<leftarrow> [1..<switch1 + 1], j \<leftarrow> [1..<switch2 + 1], k \<leftarrow> [1..<switch3 + 1],
            \<not> (proven \<and> fold_reflections \<and> \<not> symmetry_order_kept (adjoint_order left right i j k))])"

definition complex_weight_mul :: "weight \<Rightarrow> weight \<Rightarrow> weight" where
  "complex_weight_mul v w = (fst v * fst w - snd v * snd w, fst v * snd w + snd v * fst w)"


definition switches :: "bool \<Rightarrow> int list \<Rightarrow> bool" where
  "switches adjoint xs \<longleftrightarrow> xs \<noteq> [] \<and> (adjoint \<or> length xs = 1)"

lemma set_variants:
  "(p, w) \<in> set (lc_all_adjoint_symmetry_order_variants left right la ra proven fold_reflections) \<longleftrightarrow>
     (\<exists>i j k. (i = 1 \<or> i = 2 \<and> la \<and> 2 \<le> length left) \<and> (j = 1 \<or> j = 2 \<and> ra \<and> 2 \<le> length right) \<and>
        (k = 1 \<or> k = 2 \<and> proven) \<and> p = adjoint_order left right i j k \<and>
        w = (if adjoint_negative left right i j k then (-1, 0) else (1, 0)) \<and>
        (proven \<and> fold_reflections \<longrightarrow> symmetry_order_kept p))"
proof -
  have up: "i \<in> set [1..<(if b then 2 else 1) + 1] \<longleftrightarrow> i = 1 \<or> i = 2 \<and> b" for b and i :: nat by auto
  have comp: "x \<in> set [g i j k. i \<leftarrow> A, j \<leftarrow> B, k \<leftarrow> C, P i j k] \<longleftrightarrow> (\<exists>i j k. i \<in> set A \<and> j \<in> set B \<and> k \<in> set C \<and> P i j k \<and> x = g i j k)"
    for x :: "'b" and g and A B C :: "nat list" and P by auto
  show ?thesis unfolding lc_all_adjoint_symmetry_order_variants_def Let_def comp up prod.inject by blast
qed

text \<open>The reflection of an ordering, and its sign.\<close>

definition reflection_sign :: "int list \<Rightarrow> weight \<Rightarrow> weight" where
  "reflection_sign p w = (if length p mod 2 = 0 then (- fst w, snd w) else w)"

lemma reflect_order:
  assumes "switches la left" "switches ra right" "(i = 1 \<or> i = 2 \<and> la \<and> 2 \<le> length left)" "(j = 1 \<or> j = 2 \<and> ra \<and> 2 \<le> length right)"
    "k = 1 \<or> k = (2 :: nat)"
  obtains i' j' k' where "(i' = 1 \<or> i' = 2 \<and> la \<and> 2 \<le> length left)" "(j' = 1 \<or> j' = 2 \<and> ra \<and> 2 \<le> length right)"
    "k' = 1 \<or> k' = 2" "adjoint_order left right i' j' k' = rev (adjoint_order left right i j k)"
    "adjoint_negative left right i' j' k' \<longleftrightarrow> adjoint_negative left right i j k \<noteq> even (length left + length right)"
proof -
  define flip where "flip n i = (if 2 \<le> (n :: nat) then 3 - i else (1 :: nat))" for n i
  let ?i = "flip (length left) i" and ?j = "flip (length right) j" and ?k = "3 - k"
  have one: "rev xs = xs" if "\<not> 2 \<le> length xs" for xs :: "int list" using that by (cases xs rule: rev_cases) (auto simp: Suc_le_eq numeral_2_eq_2)
  have i: "?i = 1 \<or> ?i = 2 \<and> la \<and> 2 \<le> length left" using assms(1,3) by (auto simp: flip_def switches_def)
  have j: "?j = 1 \<or> ?j = 2 \<and> ra \<and> 2 \<le> length right" using assms(2,4) by (auto simp: flip_def switches_def)
  have k: "?k = 1 \<or> ?k = 2" using assms(5) by auto
  have l1: "length left = 1" if "\<not> 2 \<le> length left" using that assms(1) by (auto simp: switches_def not_le less_2_cases_iff)
  have r1: "length right = 1" if "\<not> 2 \<le> length right" using that assms(2) by (auto simp: switches_def not_le less_2_cases_iff)
  have o: "adjoint_order left right ?i ?j ?k = rev (adjoint_order left right i j k)"
    using assms(3,4,5)
    by (elim disjE conjE; cases "2 \<le> length left"; cases "2 \<le> length right"; simp add: adjoint_order_def flip_def one)
  have fi: "(?i = 2 \<and> even (length left)) \<longleftrightarrow> ((i = 2 \<and> even (length left)) \<noteq> even (length left))"
    using assms(3) l1 by (cases "2 \<le> length left") (auto simp: flip_def)
  have fj: "(?j = 2 \<and> even (length right)) \<longleftrightarrow> ((j = 2 \<and> even (length right)) \<noteq> even (length right))"
    using assms(4) r1 by (cases "2 \<le> length right") (auto simp: flip_def)
  have fk: "?k = 2 \<longleftrightarrow> k \<noteq> 2" using assms(5) by auto
  have n: "adjoint_negative left right ?i ?j ?k \<longleftrightarrow> adjoint_negative left right i j k \<noteq> even (length left + length right)"
    unfolding adjoint_negative_def even_iff_mod_2_eq_zero [symmetric] fi fj fk even_add by argo
  from that [OF i j k o n] show ?thesis .
qed


lemma adjoint_order_mset: "mset (adjoint_order left right i j k) = mset (left @ right)"
  by (auto simp: adjoint_order_def Let_def)

text \<open>
  C15. For two currents whose reflections are proven, the orderings of their product come in pairs of
  an ordering and its reflection, related by the sign \<open>(-1)^(n - 1)\<close> of an
  \<open>n\<close>-particle current; folding the reflections keeps exactly one of each pair, with its
  weight.
\<close>

theorem adjoint_variants_fold_reflections:
  assumes ok: "switches la left" "switches ra right" "distinct (left @ right)"
    and v: "(p, w) \<in> set (lc_all_adjoint_symmetry_order_variants left right la ra True False)"
  shows "(rev p, reflection_sign p w) \<in> set (lc_all_adjoint_symmetry_order_variants left right la ra True False) \<and>
    ((p, w) \<in> set (lc_all_adjoint_symmetry_order_variants left right la ra True True)) \<noteq>
    ((rev p, reflection_sign p w) \<in> set (lc_all_adjoint_symmetry_order_variants left right la ra True True))"
proof -
  from v obtain i j k where i: "i = 1 \<or> i = 2 \<and> la \<and> 2 \<le> length left" and j: "j = 1 \<or> j = 2 \<and> ra \<and> 2 \<le> length right"
    and k: "k = 1 \<or> k = (2 :: nat)" and p: "p = adjoint_order left right i j k"
    and w: "w = (if adjoint_negative left right i j k then (-1, 0) else (1, 0))"
    unfolding set_variants by blast
  obtain i' j' k' where i': "i' = 1 \<or> i' = 2 \<and> la \<and> 2 \<le> length left" and j': "j' = 1 \<or> j' = 2 \<and> ra \<and> 2 \<le> length right"
    and k': "k' = 1 \<or> k' = (2 :: nat)" and o': "adjoint_order left right i' j' k' = rev (adjoint_order left right i j k)"
    and n: "adjoint_negative left right i' j' k' \<longleftrightarrow> adjoint_negative left right i j k \<noteq> even (length left + length right)"
    by (rule reflect_order [OF ok(1,2) i j k])
  have o: "adjoint_order left right i' j' k' = rev p" unfolding p by (rule o')
  have m: "mset p = mset (left @ right)" unfolding p by (rule adjoint_order_mset)
  have len: "length p = length left + length right" using mset_eq_length [OF m] by simp
  have d: "distinct p" using mset_eq_imp_distinct_iff [OF m] ok(3) by simp
  have two: "2 \<le> length p" using ok(1,2) by (cases left; cases right) (auto simp: len switches_def)
  have sign: "reflection_sign p w = (if adjoint_negative left right i' j' k' then (-1, 0) else (1, 0))"
    unfolding n by (auto simp: reflection_sign_def w len even_iff_mod_2_eq_zero)
  have unf: "(rev p, reflection_sign p w) \<in> set (lc_all_adjoint_symmetry_order_variants left right la ra True False)"
    unfolding set_variants sign by (intro exI [of _ i'] exI [of _ j'] exI [of _ k']) (use i' j' k' o in simp)
  have folded: "(q, u) \<in> set (lc_all_adjoint_symmetry_order_variants left right la ra True True) \<longleftrightarrow>
      (q, u) \<in> set (lc_all_adjoint_symmetry_order_variants left right la ra True False) \<and> symmetry_order_kept q" for q u
    unfolding set_variants by blast
  show ?thesis using unf v kept_rev [OF d two] by (simp only: folded) blast
qed

theorem adjoint_variants_fold_reflections_witness:
  "([3, 2, 1], (1, 0)) \<in> set (lc_all_adjoint_symmetry_order_variants [1, 2] [3] True True True False)"
proof -
  have s: "switches True [1, 2]" "switches True [3]" "distinct ([1, 2] @ [3 :: int])" by (simp_all add: switches_def)
  have v: "([1, 2, 3], (1, 0)) \<in> set (lc_all_adjoint_symmetry_order_variants [1, 2] [3] True True True False)" by code_simp
  show ?thesis using adjoint_variants_fold_reflections [OF s v] by (simp add: reflection_sign_def)
qed


section \<open>Masks that lie on a colour word\<close>

definition segments_of :: "int list \<Rightarrow> int list list" where
  "segments_of w = [py_slice w start (stop + 1). start \<leftarrow> [0..<length w], stop \<leftarrow> [start..<length w]]"

definition word_masks :: "int list \<Rightarrow> int list \<Rightarrow> mask list res" where
  "word_masks word singlets =
     bindE (mapE (\<lambda>segment. bindE (labels_mask segment) (\<lambda>m. bindE (submasks_for_labels singlets) (\<lambda>subs.
       Inr (m # map (\<lambda>t. m OR t) subs)))) (segments_of word)) (\<lambda>rows. Inr (concat rows))"

definition sector_masks :: "sector \<Rightarrow> int list \<Rightarrow> mask list res" where
  "sector_masks s coloured =
     bindE (if sc_kind s = Open_Lines then submasks_for_labels (sc_singlets s) else Inr []) (\<lambda>attached.
     bindE (mapE (\<lambda>raw. word_masks (filter (\<lambda>l. l \<in> set coloured) raw) (sc_singlets s)) (admissible_traversal_words s)) (\<lambda>rows.
       Inr (filter (\<lambda>m. m \<noteq> 0) attached @ concat rows)))"

definition sector_covers :: "sector \<Rightarrow> int list \<Rightarrow> int list \<Rightarrow> bool" where
  "sector_covers s coloured singlets =
     (set (concat (coloured_label_groups s)) = set coloured \<and> set (sc_singlets s) = set singlets)"

fun sectors_masks :: "int list \<Rightarrow> int list \<Rightarrow> sector list \<Rightarrow> mask list option res" where
  "sectors_masks coloured singlets [] = Inr (Some [])"
| "sectors_masks coloured singlets (s # ss) =
     (if \<not> sector_covers s coloured singlets then Inr None
      else bindE (sector_masks s coloured) (\<lambda>ms. bindE (sectors_masks coloured singlets ss) (\<lambda>r. Inr (map_option ((@) ms) r))))"

definition coloured_leg_labels :: "model \<Rightarrow> process_ir \<Rightarrow> int list" where
  "coloured_leg_labels m process = map l_label (filter (\<lambda>leg. md_color_rep m (l_outgoing_pdg leg) \<noteq> 1) (i_legs process))"

definition singlet_leg_labels :: "model \<Rightarrow> process_ir \<Rightarrow> int list" where
  "singlet_leg_labels m process = map l_label (filter (\<lambda>leg. md_color_rep m (l_outgoing_pdg leg) = 1) (i_legs process))"

definition lc_color_order_reachable_masks :: "process_ir \<Rightarrow> color_plan \<Rightarrow> model \<Rightarrow> mask set option res" where
  "lc_color_order_reachable_masks process plan m =
     (if pl_sectors plan = [] then Inr None
      else bindE (labels_mask (map l_label (i_legs process))) (\<lambda>full.
        let coloured = coloured_leg_labels m process; singlets = singlet_leg_labels m process
        in if coloured = [] then Inr (Some (set (nonzero_submasks full)))
           else bindE (sectors_masks coloured singlets (pl_sectors plan)) (\<lambda>found.
             case found of
               None \<Rightarrow> Inr None
             | Some masks \<Rightarrow>
                 bindE (mapE label_bit (coloured @ singlets)) (\<lambda>bits.
                   Inr (Some (set (filter (\<lambda>k. k AND full \<noteq> 0) (masks @ bits))))))))"

text \<open>The mask of a set of labels.\<close>

definition mask_of :: "mask \<Rightarrow> int set \<Rightarrow> bool" where
  "mask_of m L \<longleftrightarrow> (\<forall>i. bit m i \<longleftrightarrow> int i + 1 \<in> L)"

lemma labels_mask_of: "\<forall>l \<in> set ls. 1 \<le> l \<Longrightarrow> \<exists>m. labels_mask ls = Inr m \<and> mask_of m (set ls)"
  using labels_mask_bits [of ls] by (metis mask_of_def)

lemma mask_of_unique: "mask_of m L \<Longrightarrow> mask_of k L \<Longrightarrow> m = k"
  by (auto simp: mask_of_def intro: bit_eqI)

lemma mask_of_set: "mask_of m L \<Longrightarrow> mask_of m K \<Longrightarrow> \<forall>l \<in> L \<union> K. 1 \<le> l \<Longrightarrow> L = K"
proof (rule set_eqI)
  fix l assume m: "mask_of m L" "mask_of m K" and p: "\<forall>l \<in> L \<union> K. 1 \<le> l"
  show "l \<in> L \<longleftrightarrow> l \<in> K"
  proof (cases "1 \<le> l")
    case True
    then have "int (nat (l - 1)) + 1 = l" by simp
    then show ?thesis using m unfolding mask_of_def by metis
  qed (use p in blast)
qed

lemma mask_of_or: "mask_of m L \<Longrightarrow> mask_of k K \<Longrightarrow> mask_of (m OR k) (L \<union> K)"
  by (simp add: mask_of_def bit_or_iff)

lemma label_bit_mask: "1 \<le> l \<Longrightarrow> \<exists>m. label_bit l = Inr m \<and> mask_of m {l}"
  by (auto simp: label_bit_def mask_of_def bit_exp_iff)

lemma mask_of_0: "mask_of 0 L \<Longrightarrow> \<forall>l \<in> L. 1 \<le> l \<Longrightarrow> L = {}"
proof (rule ccontr)
  assume m: "mask_of 0 L" and p: "\<forall>l \<in> L. 1 \<le> l" and "L \<noteq> {}"
  then obtain l where l: "l \<in> L" "1 \<le> l" by blast
  then have "int (nat (l - 1)) + 1 \<in> L" by simp
  then have "bit (0 :: nat) (nat (l - 1))" using m unfolding mask_of_def by blast
  then show False by simp
qed

lemma set_segments_member:
  "seg \<in> set (segments_of w) \<longleftrightarrow> (\<exists>a \<in> set [0..<length w]. \<exists>b \<in> set [a..<length w]. seg = py_slice w a (b + 1))"
  unfolding segments_of_def set_concat set_map by (auto simp del: set_upt)

lemma set_segments: "seg \<in> set (segments_of w) \<longleftrightarrow> seg \<noteq> [] \<and> sublist seg w"
proof
  note member = set_segments_member [of seg w]
  assume "seg \<in> set (segments_of w)"
  then obtain a b where s: "a \<le> b" "b < length w" "seg = py_slice w a (b + 1)" unfolding member by auto
  then show "seg \<noteq> [] \<and> sublist seg w" using py_slice_sublist [of w a "b + 1"] by (auto simp: py_slice_def)
next
  assume s: "seg \<noteq> [] \<and> sublist seg w"
  then obtain p q where w: "w = p @ seg @ q" by (auto simp: sublist_def)
  have "length p \<in> set [0..<length w]" "length p + length seg - 1 \<in> set [length p..<length w]"
    using s by (cases seg; simp add: w)+
  moreover have "seg = py_slice w (length p) (length p + length seg - 1 + 1)"
    using s by (simp add: w py_slice_middle Suc_leI)
  ultimately show "seg \<in> set (segments_of w)" unfolding set_segments_member by blast
qed

lemma submasks_total:
  assumes "\<forall>l \<in> set ls. 1 \<le> l"
  shows "\<exists>ms. submasks_for_labels ls = Inr ms \<and> (\<forall>m. m \<in> set ms \<longleftrightarrow> (\<exists>T \<subseteq> set ls. mask_of m T))"
proof -
  let ?sel = "\<lambda>bits :: nat. [ls ! i. i \<leftarrow> [0..<length ls], bits AND push_bit i 1 \<noteq> 0]"
  let ?f = "\<lambda>bits. projr (labels_mask (?sel bits))"
  have sel: "set (?sel b) = {ls ! i |i. i < length ls \<and> bit b i}" for b by (auto simp: and_push_bit_1)
  have sub: "set (?sel b) \<subseteq> set ls" for b unfolding sel by auto
  have ok: "labels_mask (?sel b) = Inr (?f b) \<and> mask_of (?f b) (set (?sel b))" for b
  proof -
    have "\<forall>l \<in> set (?sel b). 1 \<le> l" using subsetD [OF sub [of b]] assms by blast
    from labels_mask_of [OF this] obtain m where "labels_mask (?sel b) = Inr m" "mask_of m (set (?sel b))" by blast
    then show ?thesis by simp
  qed
  have total: "submasks_for_labels ls = Inr (map ?f [0..<2 ^ length ls])"
    unfolding submasks_for_labels_def using ok by (intro mapE_total) blast
  have "m \<in> set (map ?f [0..<2 ^ length ls]) \<longleftrightarrow> (\<exists>T \<subseteq> set ls. mask_of m T)" for m
  proof
    assume "m \<in> set (map ?f [0..<2 ^ length ls])"
    then show "\<exists>T \<subseteq> set ls. mask_of m T" using ok sub by auto
  next
    assume "\<exists>T \<subseteq> set ls. mask_of m T"
    then obtain T where T: "T \<subseteq> set ls" "mask_of m T" by blast
    define b :: nat where "b = horner_sum of_bool 2 (map (\<lambda>i. ls ! i \<in> T) [0..<length ls])"
    have b: "bit b i \<longleftrightarrow> i < length ls \<and> ls ! i \<in> T" for i
      by (auto simp: b_def bit_horner_sum_bit_iff)
    have "b < 2 ^ length ls" using horner_sum_of_bool_2_less [of "map (\<lambda>i. ls ! i \<in> T) [0..<length ls]"]
      by (simp add: b_def)
    have "set (?sel b) = T" unfolding sel b using T(1) by (auto simp: in_set_conv_nth) (metis in_set_conv_nth subsetD)
    with ok [of b] have "mask_of (?f b) T" by (simp only:)
    then have "?f b = m" using T(2) by (rule mask_of_unique)
    then show "m \<in> set (map ?f [0..<2 ^ length ls])" using \<open>b < _\<close> by auto
  qed
  then show ?thesis using total by blast
qed


definition on_word :: "int list \<Rightarrow> int set \<Rightarrow> int set \<Rightarrow> bool" where
  "on_word word singlets L \<longleftrightarrow> (\<exists>seg T. seg \<noteq> [] \<and> sublist seg word \<and> T \<subseteq> singlets \<and> L = set seg \<union> T)"

lemma word_masks_total:
  assumes "\<forall>l \<in> set word \<union> set singlets. 1 \<le> l"
  shows "\<exists>ms. word_masks word singlets = Inr ms \<and> (\<forall>m. m \<in> set ms \<longleftrightarrow> (\<exists>L. mask_of m L \<and> on_word word (set singlets) L))"
proof -
  obtain subs where subs: "submasks_for_labels singlets = Inr subs" "\<And>m. m \<in> set subs \<longleftrightarrow> (\<exists>T \<subseteq> set singlets. mask_of m T)"
    using submasks_total [of singlets] assms by auto
  let ?mask = "\<lambda>seg. projr (labels_mask seg)"
  have seg: "labels_mask seg = Inr (?mask seg) \<and> mask_of (?mask seg) (set seg)" if "seg \<in> set (segments_of word)" for seg
  proof -
    have "sublist seg word" using that by (simp add: set_segments)
    then have "\<forall>l \<in> set seg. 1 \<le> l" using assms set_mono_sublist by blast
    from labels_mask_of [OF this] show ?thesis by auto
  qed
  let ?row = "\<lambda>seg. ?mask seg # map (\<lambda>t. ?mask seg OR t) subs"
  have "word_masks word singlets = Inr (concat (map ?row (segments_of word)))"
  proof -
    have "bindE (labels_mask g) (\<lambda>m. bindE (submasks_for_labels singlets) (\<lambda>subs. Inr (m # map (\<lambda>t. m OR t) subs))) = Inr (?row g)"
      if "g \<in> set (segments_of word)" for g
      using seg [OF that] by (cases "labels_mask g") (simp_all add: subs(1))
    then show ?thesis unfolding word_masks_def by (subst mapE_total [where g = ?row]) simp_all
  qed
  moreover have "m \<in> set (concat (map ?row (segments_of word))) \<longleftrightarrow> (\<exists>L. mask_of m L \<and> on_word word (set singlets) L)" for m
  proof
    assume "m \<in> set (concat (map ?row (segments_of word)))"
    then obtain g where g: "g \<in> set (segments_of word)" "m = ?mask g \<or> (\<exists>t \<in> set subs. m = ?mask g OR t)" by auto
    have on: "on_word word (set singlets) (set g \<union> T)" if "T \<subseteq> set singlets" for T
      using g(1) that unfolding set_segments on_word_def by blast
    from g(2) show "\<exists>L. mask_of m L \<and> on_word word (set singlets) L"
    proof
      assume "m = ?mask g"
      then show ?thesis using seg [OF g(1)] on [of "{}"] by auto
    next
      assume "\<exists>t \<in> set subs. m = ?mask g OR t"
      then obtain t T where "m = ?mask g OR t" "T \<subseteq> set singlets" "mask_of t T" using subs(2) by blast
      then show ?thesis using mask_of_or [of "?mask g" "set g" t T] seg [OF g(1)] on [of T] by auto
    qed
  next
    assume "\<exists>L. mask_of m L \<and> on_word word (set singlets) L"
    then obtain g T where g: "g \<in> set (segments_of word)" and T: "T \<subseteq> set singlets" and m: "mask_of m (set g \<union> T)"
      unfolding on_word_def set_segments by blast
    have "\<forall>l \<in> set (filter (\<lambda>l. l \<in> T) singlets). 1 \<le> l" using assms by auto
    from labels_mask_of [OF this] obtain t where "mask_of t (set (filter (\<lambda>l. l \<in> T) singlets))" by blast
    moreover have "set (filter (\<lambda>l. l \<in> T) singlets) = T" using T by auto
    ultimately have t: "mask_of t T" by simp
    then have "t \<in> set subs" using subs(2) T by blast
    moreover have "m = ?mask g OR t" using mask_of_unique [OF m mask_of_or [OF _ t]] seg [OF g] by blast
    ultimately show "m \<in> set (concat (map ?row (segments_of word)))" using g by auto
  qed
  ultimately show ?thesis by blast
qed

text \<open>What a sector admits: a segment of one of its words with singlets, or singlets alone.\<close>

definition sector_admits :: "sector \<Rightarrow> int list \<Rightarrow> int set \<Rightarrow> bool" where
  "sector_admits s coloured L \<longleftrightarrow>
     (\<exists>w \<in> set (admissible_traversal_words s). on_word (filter (\<lambda>l. l \<in> set coloured) w) (set (sc_singlets s)) L) \<or>
     sc_kind s = Open_Lines \<and> L \<subseteq> set (sc_singlets s) \<and> L \<noteq> {}"

lemma sector_masks_total:
  assumes "\<forall>l \<in> set coloured \<union> set (sc_singlets s). 1 \<le> l"
  shows "\<exists>ms. sector_masks s coloured = Inr ms \<and> (\<forall>m. m \<in> set ms \<longleftrightarrow> (\<exists>L. mask_of m L \<and> sector_admits s coloured L))"
proof -
  let ?w = "\<lambda>raw. filter (\<lambda>l. l \<in> set coloured) raw"
  obtain subs where subs: "submasks_for_labels (sc_singlets s) = Inr subs" "\<And>m. m \<in> set subs \<longleftrightarrow> (\<exists>T \<subseteq> set (sc_singlets s). mask_of m T)"
    using submasks_total [of "sc_singlets s"] assms by auto
  let ?row = "\<lambda>raw. projr (word_masks (?w raw) (sc_singlets s))"
  have row: "word_masks (?w raw) (sc_singlets s) = Inr (?row raw) \<and>
      (\<forall>m. m \<in> set (?row raw) \<longleftrightarrow> (\<exists>L. mask_of m L \<and> on_word (?w raw) (set (sc_singlets s)) L))" for raw
  proof -
    have "\<forall>l \<in> set (?w raw) \<union> set (sc_singlets s). 1 \<le> l" using assms by auto
    from word_masks_total [OF this] show ?thesis by auto
  qed
  let ?attached = "if sc_kind s = Open_Lines then subs else []"
  have "sector_masks s coloured = Inr (filter (\<lambda>m. m \<noteq> 0) ?attached @ concat (map ?row (admissible_traversal_words s)))"
    unfolding sector_masks_def using row by (subst mapE_total [where g = ?row]) (simp_all add: subs(1))
  moreover have "m \<in> set (filter (\<lambda>m. m \<noteq> 0) ?attached @ concat (map ?row (admissible_traversal_words s))) \<longleftrightarrow>
      (\<exists>L. mask_of m L \<and> sector_admits s coloured L)" for m
  proof -
    have "m \<in> set (filter (\<lambda>m. m \<noteq> 0) ?attached) \<longleftrightarrow>
        (\<exists>L. mask_of m L \<and> sc_kind s = Open_Lines \<and> L \<subseteq> set (sc_singlets s) \<and> L \<noteq> {})"
    proof
      assume "m \<in> set (filter (\<lambda>m. m \<noteq> 0) ?attached)"
      then have "sc_kind s = Open_Lines" "m \<noteq> 0" "\<exists>T \<subseteq> set (sc_singlets s). mask_of m T" using subs(2) by (auto split: if_splits)
      then obtain T where T: "T \<subseteq> set (sc_singlets s)" "mask_of m T" "m \<noteq> 0" "sc_kind s = Open_Lines" by blast
      have "mask_of 0 {}" by (simp add: mask_of_def)
      then have "T \<noteq> {}" using T mask_of_unique by blast
      then show "\<exists>L. mask_of m L \<and> sc_kind s = Open_Lines \<and> L \<subseteq> set (sc_singlets s) \<and> L \<noteq> {}" using T by blast
    next
      assume "\<exists>L. mask_of m L \<and> sc_kind s = Open_Lines \<and> L \<subseteq> set (sc_singlets s) \<and> L \<noteq> {}"
      then obtain L where L: "mask_of m L" "sc_kind s = Open_Lines" "L \<subseteq> set (sc_singlets s)" "L \<noteq> {}" by blast
      have "\<forall>l \<in> L. 1 \<le> l" using L(3) assms by blast
      then have "m \<noteq> 0" using mask_of_0 [of L] L(1,4) by auto
      then show "m \<in> set (filter (\<lambda>m. m \<noteq> 0) ?attached)" using L subs(2) by auto
    qed
    moreover have "m \<in> set (concat (map ?row (admissible_traversal_words s))) \<longleftrightarrow>
        (\<exists>L. mask_of m L \<and> (\<exists>w \<in> set (admissible_traversal_words s). on_word (?w w) (set (sc_singlets s)) L))"
      using row by auto
    ultimately show ?thesis unfolding sector_admits_def set_append Un_iff by blast
  qed
  ultimately show ?thesis by blast
qed

lemma sectors_masks_total:
  assumes "\<forall>l \<in> set coloured \<union> set singlets. 1 \<le> l" "\<forall>s \<in> set ss. sector_covers s coloured singlets"
  shows "\<exists>ms. sectors_masks coloured singlets ss = Inr (Some ms) \<and>
    (\<forall>m. m \<in> set ms \<longleftrightarrow> (\<exists>L. mask_of m L \<and> (\<exists>s \<in> set ss. sector_admits s coloured L)))"
  using assms(2)
proof (induction ss)
  case (Cons s ss)
  obtain r where r: "sectors_masks coloured singlets ss = Inr (Some r)"
    "\<And>m. m \<in> set r \<longleftrightarrow> (\<exists>L. mask_of m L \<and> (\<exists>s \<in> set ss. sector_admits s coloured L))" using Cons by auto
  have "set (sc_singlets s) = set singlets" using Cons.prems by (simp add: sector_covers_def)
  then obtain ms where ms: "sector_masks s coloured = Inr ms" "\<And>m. m \<in> set ms \<longleftrightarrow> (\<exists>L. mask_of m L \<and> sector_admits s coloured L)"
    using sector_masks_total [of coloured s] assms(1) by auto
  have "sectors_masks coloured singlets (s # ss) = Inr (Some (ms @ r))" using Cons.prems by (simp add: ms(1) r(1))
  then show ?case using ms(2) r(2) by (intro exI [of _ "ms @ r"]) auto
qed simp

lemma sectors_masks_mismatch:
  assumes "\<forall>l \<in> set coloured \<union> set singlets. 1 \<le> l" "\<exists>s \<in> set ss. \<not> sector_covers s coloured singlets"
  shows "sectors_masks coloured singlets ss = Inr None"
  using assms(2)
proof (induction ss)
  case (Cons s ss)
  show ?case
  proof (cases "sector_covers s coloured singlets")
    case True
    then have "set (sc_singlets s) = set singlets" by (simp add: sector_covers_def)
    then obtain ms where "sector_masks s coloured = Inr ms" using sector_masks_total [of coloured s] assms(1) by auto
    then show ?thesis using Cons True by auto
  qed simp
qed simp


lemma sector_admits_subset:
  assumes "sector_covers s coloured singlets" "sector_admits s coloured L"
  shows "L \<noteq> {} \<and> L \<subseteq> set coloured \<union> set singlets"
proof -
  have "set seg \<subseteq> set coloured" if "sublist seg (filter (\<lambda>l. l \<in> set coloured) w)" for seg w
    using set_mono_sublist [OF that] by auto
  then show ?thesis using assms by (fastforce simp: sector_admits_def on_word_def sector_covers_def)
qed

lemma legs_partition: "set (coloured_leg_labels m process) \<union> set (singlet_leg_labels m process) = l_label ` set (i_legs process)"
  by (auto simp: coloured_leg_labels_def singlet_leg_labels_def)

lemma masks_meet:
  assumes "mask_of m L" "mask_of full A" "L \<noteq> {}" "L \<subseteq> A" "\<forall>l \<in> A. 1 \<le> l"
  shows "m AND full \<noteq> 0"
proof -
  have "mask_of (m AND full) L" using assms(1,2,4) by (auto simp: mask_of_def bit_and_iff)
  moreover have "\<forall>l \<in> L. 1 \<le> l" using assms(4,5) by blast
  ultimately show ?thesis using mask_of_0 [of L] assms(3) by auto
qed

definition reachable_labels :: "process_ir \<Rightarrow> color_plan \<Rightarrow> model \<Rightarrow> int set \<Rightarrow> bool" where
  "reachable_labels process plan m L \<longleftrightarrow>
     (\<exists>s \<in> set (pl_sectors plan). sector_admits s (coloured_leg_labels m process) L) \<or> (\<exists>leg \<in> set (i_legs process). L = {l_label leg})"

lemma color_masks_exact:
  assumes pos: "\<forall>leg \<in> set (i_legs process). 1 \<le> l_label leg" and ne: "pl_sectors plan \<noteq> []" "coloured_leg_labels m process \<noteq> []"
    and cov: "\<forall>s \<in> set (pl_sectors plan). sector_covers s (coloured_leg_labels m process) (singlet_leg_labels m process)"
  obtains M where "lc_color_order_reachable_masks process plan m = Inr (Some M)"
    "\<And>k. k \<in> M \<longleftrightarrow> (\<exists>L. mask_of k L \<and> reachable_labels process plan m L)"
proof -
  let ?c = "coloured_leg_labels m process" and ?z = "singlet_leg_labels m process" and ?A = "l_label ` set (i_legs process)"
  have pos': "\<forall>l \<in> set ?c \<union> set ?z. 1 \<le> l" unfolding legs_partition using pos by auto
  obtain full where full: "labels_mask (map l_label (i_legs process)) = Inr full" "mask_of full ?A"
    using labels_mask_of [of "map l_label (i_legs process)"] pos by auto
  obtain ms where ms: "sectors_masks ?c ?z (pl_sectors plan) = Inr (Some ms)"
    "\<And>k. k \<in> set ms \<longleftrightarrow> (\<exists>L. mask_of k L \<and> (\<exists>s \<in> set (pl_sectors plan). sector_admits s ?c L))"
    using sectors_masks_total [OF pos' cov] by blast
  let ?bit = "\<lambda>l. projr (label_bit l)"
  have lb: "label_bit l = Inr (?bit l) \<and> mask_of (?bit l) {l}" if "l \<in> set (?c @ ?z)" for l
    using label_bit_mask [of l] pos' that by auto
  have bits: "mapE label_bit (?c @ ?z) = Inr (map ?bit (?c @ ?z))" by (rule mapE_total) (use lb in blast)
  let ?M = "set (filter (\<lambda>k. k AND full \<noteq> 0) (ms @ map ?bit (?c @ ?z)))"
  have "lc_color_order_reachable_masks process plan m = Inr (Some ?M)"
    by (simp only: lc_color_order_reachable_masks_def ne full(1) ms(1) bits bindE_simps Let_def if_False option.case)
  moreover have "k \<in> ?M \<longleftrightarrow> (\<exists>L. mask_of k L \<and> reachable_labels process plan m L)" for k
  proof
    assume "k \<in> ?M"
    then consider "k \<in> set ms" | l where "l \<in> set (?c @ ?z)" "k = ?bit l" by auto
    then show "\<exists>L. mask_of k L \<and> reachable_labels process plan m L"
    proof cases
      case 1
      then show ?thesis unfolding ms(2) reachable_labels_def by blast
    next
      case 2
      then have "l \<in> ?A" using legs_partition [of m process] by auto
      then show ?thesis using lb [OF 2(1)] 2(2) unfolding reachable_labels_def by blast
    qed
  next
    assume "\<exists>L. mask_of k L \<and> reachable_labels process plan m L"
    then obtain L where L: "mask_of k L" "reachable_labels process plan m L" by blast
    have sub: "L \<noteq> {} \<and> L \<subseteq> ?A"
      using L(2) cov sector_admits_subset legs_partition [of m process] unfolding reachable_labels_def by fast
    then have meet: "k AND full \<noteq> 0" using masks_meet [OF L(1) full(2)] pos by auto
    have "k \<in> set ms \<or> k \<in> set (map ?bit (?c @ ?z))"
    proof (cases "\<exists>s \<in> set (pl_sectors plan). sector_admits s ?c L")
      case True
      then show ?thesis using ms(2) L(1) by blast
    next
      case False
      then obtain l where l: "l \<in> ?A" "L = {l}" using L(2) unfolding reachable_labels_def by blast
      then have "l \<in> set (?c @ ?z)" using legs_partition [of m process] by simp
      moreover have "k = ?bit l" using mask_of_unique [of k "{l}"] L(1) l(2) lb [OF calculation] by blast
      ultimately show ?thesis unfolding set_map by blast
    qed
    then show "k \<in> ?M" using meet by (simp only: set_filter set_append) blast
  qed
  ultimately show thesis using that by blast
qed

lemma reachable_singlets:
  assumes cov: "\<forall>s \<in> set (pl_sectors plan). sector_covers s (coloured_leg_labels m process) (singlet_leg_labels m process)"
    and apart: "set (coloured_leg_labels m process) \<inter> set (singlet_leg_labels m process) = {}"
    and L: "L \<subseteq> set (singlet_leg_labels m process)" "L \<noteq> {}"
  shows "reachable_labels process plan m L \<longleftrightarrow> (\<exists>s \<in> set (pl_sectors plan). sc_kind s = Open_Lines) \<or> (\<exists>l. L = {l})"
proof
  assume "reachable_labels process plan m L"
  moreover have "\<not> on_word (filter (\<lambda>l. l \<in> set (coloured_leg_labels m process)) w) S L" for w S
  proof
    assume "on_word (filter (\<lambda>l. l \<in> set (coloured_leg_labels m process)) w) S L"
    then obtain seg where seg: "seg \<noteq> []" "sublist seg (filter (\<lambda>l. l \<in> set (coloured_leg_labels m process)) w)" "set seg \<subseteq> L"
      unfolding on_word_def by blast
    then have "set seg \<subseteq> set (coloured_leg_labels m process)" using set_mono_sublist [OF seg(2)] by auto
    then show False using seg(1,3) L(1) apart by (cases seg) auto
  qed
  ultimately show "(\<exists>s \<in> set (pl_sectors plan). sc_kind s = Open_Lines) \<or> (\<exists>l. L = {l})"
    unfolding reachable_labels_def sector_admits_def by blast
next
  assume "(\<exists>s \<in> set (pl_sectors plan). sc_kind s = Open_Lines) \<or> (\<exists>l. L = {l})"
  then show "reachable_labels process plan m L"
  proof
    assume "\<exists>s \<in> set (pl_sectors plan). sc_kind s = Open_Lines"
    then obtain s where s: "s \<in> set (pl_sectors plan)" "sc_kind s = Open_Lines" by blast
    then have "set (sc_singlets s) = set (singlet_leg_labels m process)" using cov by (simp add: sector_covers_def)
    then show ?thesis using s L unfolding reachable_labels_def sector_admits_def by blast
  next
    assume "\<exists>l. L = {l}"
    then show ?thesis using L(1) legs_partition [of m process] unfolding reachable_labels_def by blast
  qed
qed

text \<open>
  C13. Which accepted merges the colour-order masks prune. Let labels be one-based, coloured and singlet
  legs be disjoint, and the plan have sectors that each cover the coloured and singlet legs, of
  which at least one is coloured. Let the coloured labels of two currents stand contiguously and
  in order on a traversal word of some sector, a word of coloured labels without repetition, and
  their other labels be colour singlets; the merge has at least one label. If one of them is coloured, the mask of the merged current is in the set. If both are
  colourless, it is in the set exactly when some sector has open lines or the merge has a single
  label: with closed traces only, the composites of singlets alone are pruned.
\<close>

theorem ordered_merges_not_pruned:
  assumes pos: "\<forall>leg \<in> set (i_legs process). 1 \<le> l_label leg" and ne: "pl_sectors plan \<noteq> []" "coloured_leg_labels m process \<noteq> []"
    and apart: "set (coloured_leg_labels m process) \<inter> set (singlet_leg_labels m process) = {}"
    and cov: "\<forall>s \<in> set (pl_sectors plan). sector_covers s (coloured_leg_labels m process) (singlet_leg_labels m process)"
    and word: "s \<in> set (pl_sectors plan)" "w \<in> set (admissible_traversal_words s)" "distinct w" "set w \<subseteq> set (coloured_leg_labels m process)"
    and labels: "set (left @ right) - set w \<subseteq> set (singlet_leg_labels m process)" "left @ right \<noteq> []"
    and merge: "ordered_combination_matches_word left right w"
  shows "\<exists>M k. lc_color_order_reachable_masks process plan m = Inr (Some M) \<and> labels_mask (left @ right) = Inr k \<and>
    (k \<in> M \<longleftrightarrow> labels_projected_to_word (left @ right) w \<noteq> [] \<or> (\<exists>s \<in> set (pl_sectors plan). sc_kind s = Open_Lines) \<or>
       (\<exists>l. set (left @ right) = {l}))"
proof -
  let ?c = "coloured_leg_labels m process" and ?z = "singlet_leg_labels m process"
  let ?seg = "labels_projected_to_word (left @ right) w" and ?L = "set (left @ right)"
  obtain M where M: "lc_color_order_reachable_masks process plan m = Inr (Some M)"
    "\<And>k. k \<in> M \<longleftrightarrow> (\<exists>L. mask_of k L \<and> reachable_labels process plan m L)"
    using color_masks_exact [OF pos ne cov] by blast
  have L: "?L = set ?seg \<union> (?L - set w)" by (auto simp: labels_projected_to_word_def)
  have sub: "?L \<subseteq> l_label ` set (i_legs process)" using labels(1) word(4) legs_partition [of m process] by blast
  then have L1: "\<forall>l \<in> ?L. 1 \<le> l" using pos by blast
  then obtain k where k: "labels_mask (left @ right) = Inr k" "mask_of k ?L" using labels_mask_of by blast
  have kM: "k \<in> M \<longleftrightarrow> reachable_labels process plan m ?L"
  proof
    assume "k \<in> M"
    then obtain K where K: "mask_of k K" "reachable_labels process plan m K" unfolding M(2) by blast
    have "K \<subseteq> l_label ` set (i_legs process)"
      using K(2) cov sector_admits_subset legs_partition [of m process] unfolding reachable_labels_def by fast
    then have "\<forall>l \<in> K. 1 \<le> l" using pos by blast
    then have "K = ?L" using mask_of_set [OF K(1) k(2)] L1 by blast
    with K(2) show "reachable_labels process plan m ?L" by simp
  qed (use M(2) k(2) in blast)
  have "reachable_labels process plan m ?L \<longleftrightarrow> ?seg \<noteq> [] \<or> (\<exists>s \<in> set (pl_sectors plan). sc_kind s = Open_Lines) \<or> (\<exists>l. ?L = {l})"
  proof (cases "?seg = []")
    case True
    then have "?L \<subseteq> set ?z" "?L \<noteq> {}" using L labels by auto
    from reachable_singlets [OF cov apart this] True show ?thesis by simp
  next
    case False
    have seg: "sublist ?seg w" using merge
      unfolding ordered_combination_matches_word_def ordered_combination_is_infix [OF word(3)] projected_append
      by (simp add: Let_def split: if_splits)
    have wf: "filter (\<lambda>l. l \<in> set ?c) w = w" using word(4) by (auto intro: filter_True)
    have z: "set (sc_singlets s) = set ?z" using cov word(1) by (simp add: sector_covers_def)
    have "on_word (filter (\<lambda>l. l \<in> set ?c) w) (set (sc_singlets s)) ?L"
      unfolding on_word_def wf z using seg labels(1) False L by blast
    then have "reachable_labels process plan m ?L" using word(1,2) unfolding reachable_labels_def sector_admits_def by blast
    with False show ?thesis by blast
  qed
  with M(1) k(1) kM show ?thesis by blast
qed


section \<open>Endpoint splits\<close>

definition canonical_sink_mask :: "process_ir \<Rightarrow> model \<Rightarrow> mask res" where
  "canonical_sink_mask process m =
     (let fermions = map l_label (filter (\<lambda>leg. md_is_fermion m (l_outgoing_pdg leg)) (i_legs process));
          labels = map l_label (i_legs process)
      in if fermions \<noteq> [] then label_bit (Min (set fermions))
         else if labels = [] then Inr 0
         else label_bit (Min (set labels)))"

text \<open>The sectors whose sinks are tried, and the labels of their canonical sinks.\<close>

definition selected_sectors :: "sector list \<Rightarrow> int list option \<Rightarrow> sector list" where
  "selected_sectors sectors reference =
     (case reference of
        None \<Rightarrow> sectors
      | Some r \<Rightarrow>
          let chosen = filter (\<lambda>s. r \<in> set (admissible_traversal_words s)) sectors
          in if chosen \<noteq> [] then chosen else sectors)"

definition sector_sinks :: "process_ir \<Rightarrow> sector list \<Rightarrow> int list res" where
  "sector_sinks process sectors =
     bindE (mapE (\<lambda>s. canonical_closure_sink_label s process) sectors) (\<lambda>sinks. Inr (List.map_filter id sinks))"

text \<open>The last coloured label of the reference order, or its last label.\<close>

definition reference_sinks :: "process_ir \<Rightarrow> model \<Rightarrow> mask \<Rightarrow> int list option \<Rightarrow> int list res" where
  "reference_sinks process m full reference =
     (case reference of
        None \<Rightarrow> Inr []
      | Some r \<Rightarrow>
          bindE (mapE (\<lambda>l. bindE (label_bit l) (\<lambda>b. Inr (full AND b \<noteq> 0, l))) r) (\<lambda>rows.
            let ordered = map snd (filter fst rows);
                legs = map_of (rev (map (\<lambda>leg. (l_label leg, leg)) (i_legs process)));
                coloured = filter (\<lambda>l. case legs l of None \<Rightarrow> False | Some leg \<Rightarrow> md_color_rep m (l_outgoing_pdg leg) \<noteq> 1) ordered
            in Inr (if coloured \<noteq> [] then [last coloured] else if ordered \<noteq> [] then [last ordered] else [])))"

definition fallback_sinks :: "process_ir \<Rightarrow> model \<Rightarrow> int list res" where
  "fallback_sinks process m = bindE (canonical_sink_mask process m) (\<lambda>k. Inr (take 1 (mask_labels k)))"

definition split_at_sink :: "mask \<Rightarrow> int \<Rightarrow> (mask \<times> mask) option res" where
  "split_at_sink full l = bindE (label_bit l) (\<lambda>b. Inr (if b AND full = 0 then None else Some (full XOR b, b)))"

definition or_else :: "int list \<Rightarrow> bool \<Rightarrow> int list res \<Rightarrow> int list res" where
  "or_else sinks applies others = (if sinks = [] \<and> applies then others else Inr sinks)"

definition closure_candidate_splits ::
  "process_ir \<Rightarrow> model \<Rightarrow> color_plan \<Rightarrow> int option \<Rightarrow> bool \<Rightarrow> int list option \<Rightarrow> (mask \<times> mask) list res" where
  "closure_candidate_splits process m plan fixed_sink shared_trace reference =
     bindE (labels_mask (map l_label (i_legs process))) (\<lambda>full.
     bindE (or_else (case fixed_sink of None \<Rightarrow> [] | Some l \<Rightarrow> [l])
        (pl_color_accuracy plan = STR ''lc'' \<or> shared_trace \<or> (\<exists>s \<in> set (pl_sectors plan). sc_kind s = Open_Lines))
        (sector_sinks process (selected_sectors (pl_sectors plan) reference))) (\<lambda>sinks1.
     bindE (or_else sinks1 True (reference_sinks process m full reference)) (\<lambda>sinks2.
     bindE (or_else sinks2 True (fallback_sinks process m)) (\<lambda>sinks3.
     bindE (mapE (split_at_sink full) (dedup sinks3)) (\<lambda>splits. Inr (dedup (List.map_filter id splits)))))))"

lemma label_bit_cases: "label_bit l = Inr b \<Longrightarrow> 1 \<le> l \<and> mask_of b {l}"
  by (auto simp: label_bit_def mask_of_def bit_exp_iff split: if_splits)

lemma split_parts:
  assumes "split_at_sink full l = Inr (Some (a, b))" "mask_of full A"
  shows "l \<in> A \<and> mask_of b {l} \<and> mask_of a (A - {l})"
proof -
  from assms(1) have b: "label_bit l = Inr b" "b AND full \<noteq> 0" "a = full XOR b"
    by (auto simp: split_at_sink_def bindE_Inr_iff split: if_splits)
  have bits: "mask_of b {l}" using label_bit_cases [OF b(1)] by blast
  have "l \<in> A"
  proof (rule ccontr)
    assume "l \<notin> A"
    then have "b AND full = 0" using bits assms(2) by (intro bit_eqI) (auto simp: mask_of_def bit_and_iff)
    then show False using b(2) by blast
  qed
  then show ?thesis using bits assms(2) b(3) by (auto simp: mask_of_def bit_xor_iff)
qed

lemma submask_of_iff:
  assumes "mask_of u L" "mask_of v V" "\<forall>l \<in> L. 1 \<le> l"
  shows "submask u v \<longleftrightarrow> L \<subseteq> V"
proof
  assume s: "submask u v"
  show "L \<subseteq> V"
  proof
    fix l assume l: "l \<in> L"
    then have e: "int (nat (l - 1)) + 1 = l" using assms(3) by auto
    then have "bit u (nat (l - 1))" using assms(1) l by (simp add: mask_of_def)
    then show "l \<in> V" using submask_bitsD [OF s] assms(2) e by (metis mask_of_def)
  qed
qed (use assms in \<open>auto simp: submask_iff_bits mask_of_def\<close>)

lemma mask_labels_set: "\<exists>L. mask_of u L \<and> (\<forall>l \<in> L. 1 \<le> l) \<and> (L = {} \<longleftrightarrow> u = 0)"
proof (intro exI conjI)
  let ?L = "{int i + 1 |i. bit u i}"
  show m: "mask_of u ?L" by (auto simp: mask_of_def)
  show "\<forall>l \<in> ?L. 1 \<le> l" by auto
  show "?L = {} \<longleftrightarrow> u = 0"
  proof
    assume "?L = {}"
    then have "\<not> bit u n" for n by blast
    then show "u = 0" by (intro bit_eqI) simp
  qed simp
qed

text \<open>The splits are those of the sinks that occur in the process.\<close>

lemma candidate_splits_of_sinks:
  assumes pos: "\<forall>leg \<in> set (i_legs process). 1 \<le> l_label leg"
    and ok: "closure_candidate_splits process m plan fixed_sink shared_trace reference = Inr splits"
  obtains full sinks where "labels_mask (map l_label (i_legs process)) = Inr full" "mask_of full (l_label ` set (i_legs process))"
    "distinct splits" "sinks \<subseteq> l_label ` set (i_legs process)"
    "\<And>l r. (l, r) \<in> set splits \<longleftrightarrow> (\<exists>k \<in> sinks. mask_of r {k} \<and> mask_of l (l_label ` set (i_legs process) - {k}))"
    "\<And>k. k \<in> sinks \<Longrightarrow> \<exists>l r. (l, r) \<in> set splits \<and> mask_of r {k} \<and> mask_of l (l_label ` set (i_legs process) - {k})"
proof -
  let ?A = "l_label ` set (i_legs process)"
  obtain full where full: "labels_mask (map l_label (i_legs process)) = Inr full" "mask_of full ?A"
    using labels_mask_of [of "map l_label (i_legs process)"] pos by auto
  from ok full(1) obtain ks rows where rows: "mapE (split_at_sink full) ks = Inr rows" "splits = dedup (List.map_filter id rows)"
    by (auto simp: closure_candidate_splits_def bindE_Inr_iff)
  define sinks where "sinks = {k \<in> set ks. \<exists>p. split_at_sink full k = Inr (Some p)}"
  have "list_all2 (\<lambda>x y. split_at_sink full x = Inr y) ks rows" using rows(1) by (simp add: mapE_Inr_iff)
  then have set_rows: "y \<in> set rows \<longleftrightarrow> (\<exists>x \<in> set ks. split_at_sink full x = Inr y)" for y
    by (induction rule: list_all2_induct) auto
  have splits: "p \<in> set splits \<longleftrightarrow> (\<exists>k \<in> sinks. split_at_sink full k = Inr (Some p))" for p
  proof -
    have "p \<in> set splits \<longleftrightarrow> Some p \<in> set rows" by (force simp: rows(2) List.map_filter_def)
    then show ?thesis unfolding set_rows sinks_def by blast
  qed
  have sub: "sinks \<subseteq> ?A" using split_parts [OF _ full(2)] unfolding sinks_def by fastforce
  have some: "\<exists>l r. (l, r) \<in> set splits \<and> mask_of r {k} \<and> mask_of l (?A - {k})" if k: "k \<in> sinks" for k
  proof -
    obtain l r where p: "split_at_sink full k = Inr (Some (l, r))" using k unfolding sinks_def by auto
    then show ?thesis using split_parts [OF p full(2)] k unfolding splits by blast
  qed
  have char: "(l, r) \<in> set splits \<longleftrightarrow> (\<exists>k \<in> sinks. mask_of r {k} \<and> mask_of l (?A - {k}))" for l r
  proof
    assume "(l, r) \<in> set splits"
    then obtain k where "k \<in> sinks" "split_at_sink full k = Inr (Some (l, r))" unfolding splits by blast
    then show "\<exists>k \<in> sinks. mask_of r {k} \<and> mask_of l (?A - {k})" using split_parts [OF _ full(2)] by blast
  next
    assume "\<exists>k \<in> sinks. mask_of r {k} \<and> mask_of l (?A - {k})"
    then obtain k where k: "k \<in> sinks" "mask_of r {k}" "mask_of l (?A - {k})" by blast
    obtain a b where ab: "(a, b) \<in> set splits" "mask_of b {k}" "mask_of a (?A - {k})" using some [OF k(1)] by blast
    have "a = l" "b = r" using mask_of_unique k ab by blast+
    then show "(l, r) \<in> set splits" using ab(1) by simp
  qed
  have "distinct splits" by (simp add: rows(2))
  then show thesis using that full sub char some by blast
qed

text \<open>
  C12. Every candidate split cuts one external leg off the others, no split is listed twice, and with
  these splits the closure-side pruning keeps exactly the masks that avoid one of the cut legs and
  the cut legs themselves.
\<close>

theorem candidate_splits_cut_one_leg:
  assumes pos: "\<forall>leg \<in> set (i_legs process). 1 \<le> l_label leg"
    and ok: "closure_candidate_splits process m plan fixed_sink shared_trace reference = Inr splits"
  shows "\<exists>full sinks. labels_mask (map l_label (i_legs process)) = Inr full \<and> distinct splits \<and> sinks \<subseteq> l_label ` set (i_legs process) \<and>
    (\<forall>l r. (l, r) \<in> set splits \<longleftrightarrow> (\<exists>k \<in> sinks. mask_of r {k} \<and> mask_of l (l_label ` set (i_legs process) - {k}))) \<and>
    (\<forall>u. u \<in> closure_side_reachable_masks full splits \<longleftrightarrow>
       (\<exists>L. mask_of u L \<and> L \<noteq> {} \<and> L \<subseteq> l_label ` set (i_legs process) \<and> (\<exists>k \<in> sinks. k \<notin> L \<or> L = {k})))"
proof -
  let ?A = "l_label ` set (i_legs process)"
  obtain full sinks where full: "labels_mask (map l_label (i_legs process)) = Inr full" "mask_of full ?A" "distinct splits" and sub: "sinks \<subseteq> ?A"
    and char: "\<And>l r. (l, r) \<in> set splits \<longleftrightarrow> (\<exists>k \<in> sinks. mask_of r {k} \<and> mask_of l (?A - {k}))"
    and some: "\<And>k. k \<in> sinks \<Longrightarrow> \<exists>l r. (l, r) \<in> set splits \<and> mask_of r {k} \<and> mask_of l (?A - {k})"
    by (rule candidate_splits_of_sinks [OF pos ok]) (rule that)
  have pos': "1 \<le> l" if "l \<in> ?A" for l using that pos by auto
  have ends: "\<forall>(l, r) \<in> set splits. submask l full \<and> submask r full"
  proof clarify
    fix l r assume "(l, r) \<in> set splits"
    then obtain k where k: "k \<in> sinks" "mask_of r {k}" "mask_of l (?A - {k})" unfolding char by blast
    have "\<forall>x \<in> ?A - {k}. 1 \<le> x" "\<forall>x \<in> {k}. 1 \<le> x" using pos' sub k(1) by auto
    then show "submask l full \<and> submask r full"
      using submask_of_iff [OF k(3) full(2)] submask_of_iff [OF k(2) full(2)] sub k(1) by auto
  qed
  have "u \<in> closure_side_reachable_masks full splits \<longleftrightarrow>
      (\<exists>L. mask_of u L \<and> L \<noteq> {} \<and> L \<subseteq> ?A \<and> (\<exists>k \<in> sinks. k \<notin> L \<or> L = {k}))" for u
  proof -
    obtain L where L: "mask_of u L" "\<forall>l \<in> L. 1 \<le> l" "L = {} \<longleftrightarrow> u = 0" using mask_labels_set by blast
    have uniq: "K = L" if "mask_of u K" "K \<subseteq> ?A" for K
      using that L(1,2) pos' submask_of_iff [OF that(1) L(1)] submask_of_iff [OF L(1) that(1) L(2)] by simp blast
    have "u \<in> closure_side_reachable_masks full splits \<longleftrightarrow> L \<noteq> {} \<and> (\<exists>(l, r) \<in> set splits. submask u l \<or> submask u r)"
      unfolding closure_side_reachable_exact [OF ends] L(3) by auto
    also have "\<dots> \<longleftrightarrow> L \<noteq> {} \<and> (\<exists>k \<in> sinks. L \<subseteq> ?A - {k} \<or> L \<subseteq> {k})"
    proof -
      have "(\<exists>(l, r) \<in> set splits. submask u l \<or> submask u r) \<longleftrightarrow> (\<exists>k \<in> sinks. L \<subseteq> ?A - {k} \<or> L \<subseteq> {k})"
      proof
        assume "\<exists>(l, r) \<in> set splits. submask u l \<or> submask u r"
        then obtain l r where p: "(l, r) \<in> set splits" "submask u l \<or> submask u r" by blast
        from p(1) obtain k where k: "k \<in> sinks" "mask_of r {k}" "mask_of l (?A - {k})" unfolding char by blast
        have "L \<subseteq> ?A - {k} \<or> L \<subseteq> {k}"
          using p(2) unfolding submask_of_iff [OF L(1) k(3) L(2)] submask_of_iff [OF L(1) k(2) L(2)] .
        with k(1) show "\<exists>k \<in> sinks. L \<subseteq> ?A - {k} \<or> L \<subseteq> {k}" by blast
      next
        assume "\<exists>k \<in> sinks. L \<subseteq> ?A - {k} \<or> L \<subseteq> {k}"
        then obtain k where k: "k \<in> sinks" "L \<subseteq> ?A - {k} \<or> L \<subseteq> {k}" by blast
        from some [OF k(1)] obtain l r where p: "(l, r) \<in> set splits" "mask_of r {k}" "mask_of l (?A - {k})" by blast
        have "submask u l \<or> submask u r"
          using k(2) unfolding submask_of_iff [OF L(1) p(3) L(2)] submask_of_iff [OF L(1) p(2) L(2)] .
        with p(1) show "\<exists>(l, r) \<in> set splits. submask u l \<or> submask u r" by blast
      qed
      then show ?thesis by blast
    qed
    also have "\<dots> \<longleftrightarrow> (\<exists>K. mask_of u K \<and> K \<noteq> {} \<and> K \<subseteq> ?A \<and> (\<exists>k \<in> sinks. k \<notin> K \<or> K = {k}))"
      using uniq L(1) sub by blast
    finally show ?thesis .
  qed
  then show ?thesis using full(1,3) sub char by (intro exI [of _ full] exI [of _ sinks]) simp
qed

section \<open>Instances\<close>

definition sample_trace_sector :: sector where
  "sample_trace_sector = \<lparr>sc_id = 0, sc_kind = Single_Trace, sc_lines = [], sc_trace = [1, 2, 3, 4], sc_singlets = [], sc_word = []\<rparr>"

definition sample_color_plan :: color_plan where
  "sample_color_plan = \<lparr>pl_process = sample_process STR ''lc'' (map (\<lambda>l. (l, Adjoint)) [1, 2, 3, 4]), pl_color_accuracy = STR ''lc'',
     pl_sectors = [sample_trace_sector], pl_diagnostics = [], pl_truncated = False, pl_trace_reflections_folded = False,
     pl_basis = Trace_Basis\<rparr>"

lemma intermediate_words_are_cyclic_classes_witness:
  "\<exists>words. sector_intermediate_order_words sample_sector True None = Inr words \<and> distinct words \<and> (\<forall>w \<in> set words. last w = 2)"
proof -
  have "sc_kind sample_sector = Open_Lines" "distinct (primary_word sample_sector)" "2 \<in> set (primary_word sample_sector)"
    "2 = last (primary_word sample_sector)" by code_simp+
  then show ?thesis using intermediate_words_are_cyclic_classes [of sample_sector 2 None] by fastforce
qed

lemma sample_color_legs:
  "\<forall>leg \<in> set (i_legs (pl_process sample_color_plan)). 1 \<le> l_label leg"
  "coloured_leg_labels sample_model (pl_process sample_color_plan) = [1, 2, 3, 4]"
  "singlet_leg_labels sample_model (pl_process sample_color_plan) = []"
  "l_label ` set (i_legs (pl_process sample_color_plan)) = {1, 2, 3, 4}"
  "pl_sectors sample_color_plan = [sample_trace_sector]" "admissible_traversal_words sample_trace_sector = [[1, 2, 3, 4]]"
  "sector_covers sample_trace_sector [1, 2, 3, 4] []"
  by code_simp+

lemma ordered_merges_not_pruned_witness:
  "\<exists>M. lc_color_order_reachable_masks (pl_process sample_color_plan) sample_color_plan sample_model = Inr (Some M) \<and> 6 \<in> M"
proof -
  have "labels_mask [2, 3] = Inr 6" "labels_projected_to_word [2, 3] [1, 2, 3, 4] = [2, 3 :: int]"
    "ordered_combination_matches_word [2] [3] [1, 2, 3, 4 :: int]" by code_simp+
  then show ?thesis
    using ordered_merges_not_pruned [of "pl_process sample_color_plan" sample_color_plan sample_model
        sample_trace_sector "[1, 2, 3, 4]" "[2]" "[3]"] sample_color_legs by simp
qed

lemma candidate_splits_cut_one_leg_witness:
  "\<exists>sinks. sinks \<subseteq> {1, 2, 3, 4} \<and> (\<exists>k \<in> sinks. mask_of 8 {k} \<and> mask_of 7 ({1, 2, 3, 4} - {k}))"
proof -
  have "closure_candidate_splits (pl_process sample_color_plan) sample_model sample_color_plan None True None = Inr [(7, 8)]"
  proof -
    have "labels_mask (map l_label (i_legs (pl_process sample_color_plan))) = Inr 15"
      "sector_sinks (pl_process sample_color_plan) (pl_sectors sample_color_plan) = Inr [4]"
      "mapE (split_at_sink 15) [4] = Inr [Some (7, 8)]" by code_simp+
    then show ?thesis by (simp add: closure_candidate_splits_def or_else_def selected_sectors_def List.map_filter_def)
  qed
  from candidate_splits_cut_one_leg [OF sample_color_legs(1) this, unfolded sample_color_legs(4)]
  obtain sinks where s: "sinks \<subseteq> {1, 2, 3, 4}"
    "\<forall>l r. (l, r) \<in> set [(7, 8)] \<longleftrightarrow> (\<exists>k \<in> sinks. mask_of r {k} \<and> mask_of l ({1, 2, 3, 4} - {k}))" by blast
  have "\<exists>k \<in> sinks. mask_of 8 {k} \<and> mask_of 7 ({1, 2, 3, 4} - {k})" using s(2) by (metis list.set_intros(1))
  with s(1) show ?thesis by blast
qed

end
