(* ===== verification/Color_Engine.thy ===== *)
theory Color_Engine
  imports Color_Keys Color_Recursion
begin

text \<open>
  The colour engine of the recursion (\<open>generation/dag_color.py\<close>): the tables its constructor
  builds from a colour plan, the colour states of external legs, the combination of two colour
  states at a vertex with the sectors that remain supported and the Fierz projection, the ordering
  tests and the closures. The model methods \<open>is_massless_adjoint_vector\<close> and
  \<open>shared_single_trace_color_basis_is_proven\<close> are arguments of the constructor, with the
  value \<open>False\<close> where they raise one of the exceptions the code catches.
\<close>

section \<open>Construction\<close>

record 'c engine =
  en_plan :: color_plan
  en_model :: "'c vertex_model"
  en_base :: color_engine
  en_coloured :: "int list"
  en_singlets :: "int list"
  en_single_trace :: bool
  en_trace_words :: "int list list"
  en_closure_ids_by_word :: "(int list \<times> int list) list"
  en_orderings :: bool
  en_all_symmetry :: bool
  en_fixed_sink :: "int option"
  en_words_by_sector :: "(sector \<times> int list list) list"
  en_ids_by_word :: "(int list \<times> int list) list"
  en_ids_by_segment :: "(int list \<times> int list) list"

definition legs_by_label :: "process_ir \<Rightarrow> (int \<times> process_leg) list" where
  "legs_by_label process = dict_of (map (\<lambda>leg. (l_label leg, leg)) (i_legs process))"

definition shared_coloured_labels :: "model \<Rightarrow> process_ir \<Rightarrow> int list" where
  "shared_coloured_labels m process = map fst (filter (\<lambda>(l, leg). md_color_rep m (l_outgoing_pdg leg) \<noteq> 1) (legs_by_label process))"

definition shared_singlet_labels :: "model \<Rightarrow> process_ir \<Rightarrow> int list" where
  "shared_singlet_labels m process = map fst (filter (\<lambda>(l, leg). md_color_rep m (l_outgoing_pdg leg) = 1) (legs_by_label process))"

definition color_plan_matches_model_roles :: "model \<Rightarrow> color_plan \<Rightarrow> bool" where
  "color_plan_matches_model_roles m plan =
     list_all (\<lambda>s. set (concat (coloured_label_groups s)) = set (shared_coloured_labels m (pl_process plan)) \<and>
       set (sc_singlets s) = set (shared_singlet_labels m (pl_process plan))) (pl_sectors plan)"

definition all_external_massless_adjoint_vectors :: "(int \<Rightarrow> bool) \<Rightarrow> process_ir \<Rightarrow> bool" where
  "all_external_massless_adjoint_vectors massless_adjoint process =
     (legs_by_label process \<noteq> [] \<and> list_all (\<lambda>(l, leg). massless_adjoint (l_outgoing_pdg leg)) (legs_by_label process))"

text \<open>Word tables: sector numbers by word in plan order, and by segment as sorted sets.\<close>

definition sector_number :: "sector \<Rightarrow> int" where
  "sector_number s = int (sc_id s)"

definition closure_sector_ids_by_word :: "sector list \<Rightarrow> (int list \<times> int list) list" where
  "closure_sector_ids_by_word sectors =
     map (\<lambda>(word, ids). (word, int_set ids)) (group_by [(sector_number s, w). s \<leftarrow> sectors, w \<leftarrow> admissible_traversal_words s])"

definition sector_ids_by_word :: "(sector \<times> int list list) list \<Rightarrow> (int list \<times> int list) list" where
  "sector_ids_by_word rows = group_by [(sector_number (fst row), w). row \<leftarrow> rows, w \<leftarrow> snd row]"

definition sector_ids_by_segment :: "(sector \<times> int list list) list \<Rightarrow> (int list \<times> int list) list" where
  "sector_ids_by_segment rows =
     map (\<lambda>(segment, ids). (segment, int_set ids))
       (group_by [(sector_number (fst row), segment). row \<leftarrow> rows, w \<leftarrow> snd row, segment \<leftarrow> segments_of w])"

definition shared_words_by_sector ::
  "color_plan \<Rightarrow> bool \<Rightarrow> int option \<Rightarrow> (sector \<times> int list list) list res" where
  "shared_words_by_sector plan orderings sink =
     mapE (\<lambda>s. bindE (sector_intermediate_order_words s orderings (Some (pl_process plan)))
       (\<lambda>words. Inr (s, map (\<lambda>w. lc_word_with_sink_last w sink) words))) (pl_sectors plan)"

definition shared_lc_orderings :: "model \<Rightarrow> color_plan \<Rightarrow> nat \<Rightarrow> bool" where
  "shared_lc_orderings m plan pairs =
     ((pl_color_accuracy plan = STR ''lc'' \<or> pl_color_accuracy plan \<in> {STR ''nlc'', STR ''full''} \<and> pairs = 1) \<and>
      pl_sectors plan \<noteq> [] \<and> shared_coloured_labels m (pl_process plan) \<noteq> [] \<and> color_plan_matches_model_roles m plan)"

definition shared_single_trace_of :: "model \<Rightarrow> (int \<Rightarrow> bool) \<Rightarrow> (process_ir \<Rightarrow> bool) \<Rightarrow> color_plan \<Rightarrow> bool" where
  "shared_single_trace_of m massless_adjoint trace_proven plan =
     (pl_color_accuracy plan \<in> {STR ''nlc'', STR ''full''} \<and> pl_sectors plan \<noteq> [] \<and> color_plan_matches_model_roles m plan \<and>
      all_external_massless_adjoint_vectors massless_adjoint (pl_process plan) \<and> trace_proven (pl_process plan) \<and>
      list_all (\<lambda>s. sc_kind s = Single_Trace) (pl_sectors plan))"

definition make_engine ::
  "'c vertex_model \<Rightarrow> (int \<Rightarrow> bool) \<Rightarrow> (process_ir \<Rightarrow> bool) \<Rightarrow> color_plan \<Rightarrow> bool \<Rightarrow> 'c engine res" where
  "make_engine m massless_adjoint trace_proven plan symmetry =
     (let process = pl_process plan; base = make_color_engine m (i_legs process);
          coloured = shared_coloured_labels (vm_base m) process;
          orderings = shared_lc_orderings (vm_base m) plan (ce_pair_count base);
          all_symmetry = (symmetry \<and> orderings \<and> \<not> pl_truncated plan);
          sink = (if all_symmetry \<and> all_external_massless_adjoint_vectors massless_adjoint process \<and> coloured \<noteq> []
                  then Some (Max (set coloured)) else None)
      in bindE (shared_words_by_sector plan orderings sink) (\<lambda>rows. Inr
         \<lparr>en_plan = plan, en_model = m, en_base = base, en_coloured = coloured,
          en_singlets = shared_singlet_labels (vm_base m) process,
          en_single_trace = shared_single_trace_of (vm_base m) massless_adjoint trace_proven plan,
          en_trace_words = concat (map color_words (pl_sectors plan)),
          en_closure_ids_by_word = closure_sector_ids_by_word (pl_sectors plan),
          en_orderings = orderings, en_all_symmetry = all_symmetry, en_fixed_sink = sink, en_words_by_sector = rows,
          en_ids_by_word = (if orderings then sector_ids_by_word rows else []),
          en_ids_by_segment = (if orderings then sector_ids_by_segment rows else [])\<rparr>))"

definition sector_by_id :: "'c engine \<Rightarrow> int \<Rightarrow> sector option" where
  "sector_by_id e i = map_of (rev (map (\<lambda>s. (sector_number s, s)) (pl_sectors (en_plan e)))) i"

definition all_sector_ids :: "'c engine \<Rightarrow> int list" where
  "all_sector_ids e = dedup (map sector_number (pl_sectors (en_plan e)))"

definition table_ids :: "(int list \<times> int list) list \<Rightarrow> int list \<Rightarrow> int list" where
  "table_ids table key = (case map_of table key of None \<Rightarrow> [] | Some ids \<Rightarrow> ids)"

section \<open>Colour states of external legs\<close>

definition source_states_for_leg :: "'c engine \<Rightarrow> process_leg \<Rightarrow> color_state list" where
  "source_states_for_leg e leg =
     (let accuracy = pl_color_accuracy (en_plan e); singlet = (l_label leg \<in> set (en_singlets e));
          state = (\<lambda>sector groups. \<lparr>cs_accuracy = accuracy, cs_sector_id = sector, cs_line_groups = groups, cs_basis_key = []\<rparr>)
      in if en_orderings e then [state 0 (if singlet then [] else [0])]
         else if en_single_trace e then [state 0 [0]]
         else if pl_sectors (en_plan e) = [] then [state 0 []]
         else [state (sector_number s) groups. s \<leftarrow> pl_sectors (en_plan e),
                 groups \<leftarrow> [if singlet then [] else map int (sector_group_indices_for_label s (l_label leg))],
                 groups \<noteq> [] \<or> singlet \<or> line_label_groups s = []])"

section \<open>Combination of two colour states\<close>

definition particle_has_colour :: "'c engine \<Rightarrow> int \<Rightarrow> bool" where
  "particle_has_colour e pid = (md_color_rep (vm_base (en_model e)) pid \<noteq> 1 \<or> pid \<in> set (ce_auxiliary_ids (en_base e)))"

definition vertex_has_colour :: "'c engine \<Rightarrow> vertex \<Rightarrow> bool" where
  "vertex_has_colour e v = list_ex (particle_has_colour e) (vertex_pids v)"

definition lc_combined_line_groups :: "'c engine \<Rightarrow> color_state \<Rightarrow> color_state \<Rightarrow> vertex \<Rightarrow> int list option" where
  "lc_combined_line_groups e left right v =
     (let lc = particle_has_colour e (vx_left v); rc = particle_has_colour e (vx_right v); oc = particle_has_colour e (vx_result v);
          lg = cs_line_groups left; rg = cs_line_groups right
      in if \<not> lc \<and> \<not> rc
         then (if lg \<noteq> [] \<and> rg \<noteq> [] \<and> set lg \<noteq> set rg then None else Some (int_set (lg @ rg)))
         else if lc \<noteq> rc
         then let coloured = (if lc then lg else rg); singlet = (if lc then rg else lg)
              in if singlet \<noteq> [] \<and> coloured \<noteq> [] \<and> \<not> set singlet \<subseteq> set coloured then None
                 else Some (int_set (if coloured \<noteq> [] then coloured else singlet))
         else if \<not> oc \<and> lg \<noteq> [] \<and> rg \<noteq> [] \<and> set lg \<noteq> set rg then None
         else Some (int_set (lg @ rg)))"

definition coloured_part :: "'c engine \<Rightarrow> int list \<Rightarrow> int list" where
  "coloured_part e labels = filter (\<lambda>l. l \<in> set (en_coloured e)) labels"

definition compatible_sector_ids :: "'c engine \<Rightarrow> int list \<Rightarrow> int list" where
  "compatible_sector_ids e labels =
     (if coloured_part e labels = [] then all_sector_ids e else table_ids (en_ids_by_segment e) (coloured_part e labels))"

definition closes_complete_lines :: "sector \<Rightarrow> int list \<Rightarrow> bool" where
  "closes_complete_lines s labels =
     (let complete = filter (\<lambda>group. set group \<subseteq> set labels) (line_label_groups s)
      in complete \<noteq> [] \<and> set (concat complete) = set labels)"

definition lc_fierz_sector_ids :: "'c engine \<Rightarrow> int list \<Rightarrow> int list" where
  "lc_fierz_sector_ids e labels =
     (let c = coloured_part e labels
      in if c = [] then []
         else map (sector_number \<circ> fst)
           (filter (\<lambda>(s, words). list_ex (\<lambda>w. word_contains_ordered_segment w c) words \<and> closes_complete_lines s c) (en_words_by_sector e)))"

definition lc_labels_close_one_open_line :: "'c engine \<Rightarrow> int list \<Rightarrow> bool" where
  "lc_labels_close_one_open_line e labels = (coloured_part e labels \<noteq> [] \<and> lc_fierz_sector_ids e (coloured_part e labels) \<noteq> [])"

definition basis_has_compatible_sector :: "'c engine \<Rightarrow> string list \<Rightarrow> int list \<Rightarrow> bool" where
  "basis_has_compatible_sector e basis labels =
     list_ex (\<lambda>i. case sector_by_id e i of
         None \<Rightarrow> False
       | Some s \<Rightarrow> supports basis i \<and> lc_color_identity_closures_compatible (lc_color_identity_closures basis) s)
       (compatible_sector_ids e labels)"

definition vertex_reps :: "'c engine \<Rightarrow> vertex \<Rightarrow> int list" where
  "vertex_reps e v = map (\<lambda>pid. \<bar>md_color_rep (vm_base (en_model e)) pid\<bar>) (vertex_pids v)"

definition consumes_singlet_exchange :: "'c engine \<Rightarrow> vertex \<Rightarrow> bool" where
  "consumes_singlet_exchange e v =
     (vm_color_structure (en_model e) v = ''fundamental-generator'' \<and> vertex_reps e v ! 2 = 3 \<and> sort (take 2 (vertex_reps e v)) = [3, 8])"

definition creates_fierz_projection :: "'c engine \<Rightarrow> vertex \<Rightarrow> bool" where
  "creates_fierz_projection e v =
     (vm_color_structure (en_model e) v = ''fundamental-generator'' \<and> vertex_reps e v = [3, 3, 8] \<and> ce_auxiliary_ids (en_base e) = [])"

definition closes_color_identity :: "'c engine \<Rightarrow> vertex \<Rightarrow> bool" where
  "closes_color_identity e v =
     (en_orderings e \<and> vm_color_structure (en_model e) v = ''color-identity'' \<and> vertex_reps e v = [3, 3, 1] \<and>
      vx_result v \<notin> set (ce_auxiliary_ids (en_base e)))"

text \<open>The basis without support tags after the vertex, \<open>None\<close> when a Fierz singlet is not consumed.\<close>

definition basis_after :: "'c engine \<Rightarrow> string list \<Rightarrow> vertex \<Rightarrow> int list \<Rightarrow> string list option" where
  "basis_after e inherited v labels =
     (let basis = without_lc_sector_support inherited
      in if lc_fierz_singlet_basis \<in> set basis \<and> \<not> consumes_singlet_exchange e v then None
         else let rest = filter (\<lambda>key. key \<noteq> lc_fierz_singlet_basis) basis; c = sort (coloured_part e labels)
              in Some (if closes_color_identity e v \<and> c \<noteq> [] then lc_color_identity_closure_key c # rest else rest))"

text \<open>The candidates: basis, weight and supporting sectors.\<close>

definition projection_candidates ::
  "'c engine \<Rightarrow> vertex \<Rightarrow> string list \<Rightarrow> int list \<Rightarrow> int list \<Rightarrow> (string list \<times> weight \<times> int list) list" where
  "projection_candidates e v basis compatible labels =
     (if creates_fierz_projection e v
      then let fierz = filter (\<lambda>i. i \<in> set (lc_fierz_sector_ids e labels)) compatible;
               ordinary = filter (\<lambda>i. i \<notin> set (lc_fierz_sector_ids e labels)) compatible
           in (if ordinary \<noteq> [] then [(basis, (1, 0), ordinary)] else []) @
              (if fierz \<noteq> [] then [(lc_fierz_singlet_basis # basis, (1 / 3, 0), fierz)] else [])
      else [(basis, (1, 0), compatible)])"

definition tracks_support :: "'c engine \<Rightarrow> string list \<Rightarrow> vertex \<Rightarrow> int list \<Rightarrow> bool" where
  "tracks_support e inherited v compatible =
     (lc_sector_support inherited \<noteq> None \<or> creates_fierz_projection e v \<or>
      pl_color_accuracy (en_plan e) = STR ''lc'' \<and> set compatible \<noteq> set (all_sector_ids e))"

definition finish_projection :: "'c engine \<Rightarrow> bool \<Rightarrow> int list \<Rightarrow> string list \<times> weight \<times> int list \<Rightarrow> (string list \<times> weight) option" where
  "finish_projection e track labels candidate =
     (case candidate of (basis, w, support) \<Rightarrow>
        let basis' = (if track \<and> set support \<noteq> set (all_sector_ids e) then lc_sector_support_key support # basis else basis)
        in if basis_has_compatible_sector e basis' labels then Some (sort (remdups basis'), w) else None)"

definition lc_projected_basis_and_weights ::
  "'c engine \<Rightarrow> color_state \<Rightarrow> color_state \<Rightarrow> vertex \<Rightarrow> int list \<Rightarrow> int list list option \<Rightarrow> (string list \<times> weight) list" where
  "lc_projected_basis_and_weights e left right v labels variants =
     (let inherited = cs_basis_key left @ cs_basis_key right
      in case basis_after e inherited v labels of
           None \<Rightarrow> []
         | Some basis \<Rightarrow>
             if en_orderings e
             then let compatible = filter (supports inherited)
                        (int_set (concat (map (compatible_sector_ids e) (case variants of None \<Rightarrow> [labels] | Some vs \<Rightarrow> vs))))
                  in if compatible = [] then []
                     else List.map_filter (finish_projection e (tracks_support e inherited v compatible) labels)
                            (projection_candidates e v basis compatible labels)
             else if creates_fierz_projection e v \<and> lc_labels_close_one_open_line e labels
             then [(sort (remdups (lc_fierz_singlet_basis # basis)), (1 / 3, 0))]
             else [(sort (remdups basis), (1, 0))])"

definition projected_flows :: "'c engine \<Rightarrow> color_state \<Rightarrow> color_state \<Rightarrow> vertex \<Rightarrow> int list \<Rightarrow> int list list option \<Rightarrow> int \<Rightarrow> color_flow list" where
  "projected_flows e left right v labels variants sector =
     (case lc_combined_line_groups e left right v of
        None \<Rightarrow> []
      | Some groups \<Rightarrow>
          map (\<lambda>(basis, w). \<lparr>cf_state = \<lparr>cs_accuracy = cs_accuracy left, cs_sector_id = sector, cs_line_groups = groups, cs_basis_key = basis\<rparr>,
              cf_weight = w\<rparr>) (lc_projected_basis_and_weights e left right v labels variants))"

definition unit_flow :: "color_state \<Rightarrow> color_flow" where
  "unit_flow st = \<lparr>cf_state = st, cf_weight = (1, 0)\<rparr>"

definition combine ::
  "'c engine \<Rightarrow> color_state \<Rightarrow> color_state \<Rightarrow> vertex \<Rightarrow> int list \<Rightarrow> int list list option \<Rightarrow> color_flow list" where
  "combine e left right v labels variants =
     (if cs_accuracy left \<noteq> cs_accuracy right then []
      else if pl_sectors (en_plan e) = []
      then [unit_flow \<lparr>cs_accuracy = cs_accuracy left, cs_sector_id = 0, cs_line_groups = [],
              cs_basis_key = sort (remdups (cs_basis_key left @ cs_basis_key right))\<rparr>]
      else if en_single_trace e
      then let groups = int_set (cs_line_groups left @ cs_line_groups right)
           in [unit_flow \<lparr>cs_accuracy = cs_accuracy left, cs_sector_id = 0, cs_line_groups = (if groups \<noteq> [] then groups else [0]), cs_basis_key = []\<rparr>]
      else if en_orderings e then projected_flows e left right v labels variants 0
      else if cs_sector_id left \<noteq> cs_sector_id right then []
      else projected_flows e left right v labels variants (cs_sector_id left))"


section \<open>Ordering of external labels\<close>

definition shared_lc_ordered_proposed_labels :: "'c engine \<Rightarrow> int list \<Rightarrow> bool \<Rightarrow> int list option" where
  "shared_lc_ordered_proposed_labels e proposed allow_reversed =
     (let c = coloured_part e proposed; extras = sort (filter (\<lambda>l. l \<notin> set (en_coloured e)) proposed);
          known = (\<lambda>segment. segment \<in> set (map fst (en_ids_by_segment e)))
      in if extras \<noteq> [] \<and> \<not> set extras \<subseteq> set (en_singlets e) then None
         else if c = [] then Some extras
         else if \<not> known c
         then (if \<not> (allow_reversed \<and> known (rev c)) then None else Some (c @ extras))
         else Some (c @ extras))"

definition proposed_labels_if_shared :: "'c engine \<Rightarrow> int list \<Rightarrow> bool \<Rightarrow> int list option" where
  "proposed_labels_if_shared e proposed allow_reversed =
     (if \<not> en_orderings e then None else shared_lc_ordered_proposed_labels e proposed allow_reversed)"

definition shared_lc_ordered_combination_labels :: "'c engine \<Rightarrow> current_index \<Rightarrow> current_index \<Rightarrow> int list option" where
  "shared_lc_ordered_combination_labels e left right =
     shared_lc_ordered_proposed_labels e (ci_ordered_external_labels left @ ci_ordered_external_labels right) False"

definition all_external_labels_color_singlet :: "'c engine \<Rightarrow> int list \<Rightarrow> bool" where
  "all_external_labels_color_singlet e labels = (set labels \<subseteq> set (en_singlets e))"

definition singlet_order_allowed :: "'c engine \<Rightarrow> current_index \<Rightarrow> current_index \<Rightarrow> bool res" where
  "singlet_order_allowed e left right =
     (let ls = all_external_labels_color_singlet e (ci_external_labels left); rs = all_external_labels_color_singlet e (ci_external_labels right)
      in if ls \<and> \<not> rs then Inr False
         else if ls \<and> rs
         then (if ci_external_labels left = [] \<or> ci_external_labels right = [] then Inl (ValueError STR ''max() arg is an empty sequence'')
               else Inr (Max (set (ci_external_labels left)) < Max (set (ci_external_labels right))))
         else Inr True)"

text \<open>The loop over the words of the sector: the first word that orders the labels.\<close>

fun first_ordered_segment :: "sector \<Rightarrow> int list \<Rightarrow> int list \<Rightarrow> int list list \<Rightarrow> int list option" where
  "first_ordered_segment s left right [] = None"
| "first_ordered_segment s left right (w # ws) =
     (case ordered_combination_segment left right w of
        None \<Rightarrow> first_ordered_segment s left right ws
      | Some segment \<Rightarrow>
          let extras = sort (filter (\<lambda>l. l \<notin> set w) (left @ right))
          in if \<not> line_local_singlet_extras_allowed segment extras s then first_ordered_segment s left right ws
             else Some (segment @ extras))"

definition own_sector_words :: "'c engine \<Rightarrow> sector \<Rightarrow> int list list res" where
  "own_sector_words e s = sector_intermediate_order_words s False (Some (pl_process (en_plan e)))"

definition ordered_combination_labels :: "'c engine \<Rightarrow> current_index \<Rightarrow> current_index \<Rightarrow> vertex \<Rightarrow> int list option res" where
  "ordered_combination_labels e left right v =
     (let proposed = ci_ordered_external_labels left @ ci_ordered_external_labels right
      in bindE (singlet_order_allowed e left right) (\<lambda>allowed.
         if \<not> allowed then Inr None
         else if en_single_trace e then Inr (if proposed \<in> set (concat (map segments_of (en_trace_words e))) then Some proposed else None)
         else if en_orderings e then Inr (shared_lc_ordered_combination_labels e left right)
         else case sector_by_id e (cs_sector_id (ci_color_state left)) of
             None \<Rightarrow> Inr (Some proposed)
           | Some s \<Rightarrow> bindE (own_sector_words e s) (\<lambda>words.
               Inr (first_ordered_segment s (ci_ordered_external_labels left) (ci_ordered_external_labels right) words))))"

definition ordered_combination_allowed :: "'c engine \<Rightarrow> current_index \<Rightarrow> current_index \<Rightarrow> vertex \<Rightarrow> bool res" where
  "ordered_combination_allowed e left right v =
     (if \<not> vertex_has_colour e v then Inr True
      else if en_orderings e then Inr (shared_lc_ordered_combination_labels e left right \<noteq> None)
      else case sector_by_id e (cs_sector_id (ci_color_state left)) of
          None \<Rightarrow> Inr True
        | Some s \<Rightarrow>
            if sc_kind s = Singlet_Sector \<and> list_all (\<lambda>w. w = []) (admissible_traversal_words s) then Inr True
            else bindE (own_sector_words e s) (\<lambda>words.
              Inr (list_ex (ordered_combination_matches_word (ci_ordered_external_labels left) (ci_ordered_external_labels right)) words)))"

section \<open>Closures\<close>

definition closure_compatible :: "'c engine \<Rightarrow> color_state \<Rightarrow> color_state \<Rightarrow> mask \<Rightarrow> color_flow list" where
  "closure_compatible e left right full =
     (if cs_accuracy left \<noteq> cs_accuracy right then []
      else if pl_sectors (en_plan e) = []
      then [unit_flow \<lparr>cs_accuracy = cs_accuracy left, cs_sector_id = 0, cs_line_groups = [],
              cs_basis_key = sort (remdups (cs_basis_key left @ cs_basis_key right))\<rparr>]
      else if en_single_trace e then []
      else if cs_sector_id left \<noteq> cs_sector_id right then []
      else case sector_by_id e (cs_sector_id left) of
          None \<Rightarrow> [unit_flow left]
        | Some s \<Rightarrow>
            if \<not> lc_color_identity_closures_compatible
                  (lc_color_identity_closures (sort (remdups (cs_basis_key left @ cs_basis_key right)))) s then []
            else if mask_labels full \<noteq> [] \<and> \<not> set (mask_labels full) \<subseteq> set (sc_singlets s) \<union> set (concat (line_label_groups s)) then []
            else [unit_flow \<lparr>cs_accuracy = cs_accuracy left, cs_sector_id = cs_sector_id left,
                    cs_line_groups = int_set (cs_line_groups left @ cs_line_groups right), cs_basis_key = []\<rparr>])"

text \<open>The closing word and the sectors it closes.\<close>

definition shared_lc_closure :: "'c engine \<Rightarrow> current_index \<Rightarrow> current_index \<Rightarrow> (int list \<times> int list) option" where
  "shared_lc_closure e left right =
     (let l = coloured_part e (ci_ordered_external_labels left); r = coloured_part e (ci_ordered_external_labels right);
          candidates = (l @ r) # (if pl_color_accuracy (en_plan e) \<noteq> STR ''lc'' then [r @ l] else []);
          keys = cs_basis_key (ci_color_state left) @ cs_basis_key (ci_color_state right)
      in if l = [] \<or> r = [] then None
         else case find (\<lambda>w. w \<in> set (map fst (en_ids_by_word e))) candidates of
             None \<Rightarrow> None
           | Some word \<Rightarrow>
               let ids = filter (\<lambda>i. case sector_by_id e i of
                       None \<Rightarrow> False
                     | Some s \<Rightarrow> supports keys i \<and> lc_color_identity_closures_compatible (lc_color_identity_closures keys) s)
                     (table_ids (en_ids_by_word e) word)
               in if ids = [] then None else Some (word, ids))"

definition shared_lc_closure_word :: "'c engine \<Rightarrow> current_index \<Rightarrow> current_index \<Rightarrow> int list option" where
  "shared_lc_closure_word e left right = map_option fst (shared_lc_closure e left right)"

definition closure_flow :: "'c engine \<Rightarrow> int \<Rightarrow> color_flow" where
  "closure_flow e i = unit_flow \<lparr>cs_accuracy = pl_color_accuracy (en_plan e), cs_sector_id = i, cs_line_groups = [0], cs_basis_key = []\<rparr>"

definition shared_lc_closure_flows :: "'c engine \<Rightarrow> current_index \<Rightarrow> current_index \<Rightarrow> color_flow list" where
  "shared_lc_closure_flows e left right =
     (if \<not> en_orderings e then []
      else case shared_lc_closure e left right of None \<Rightarrow> [] | Some (word, ids) \<Rightarrow> map (closure_flow e) ids)"

definition shared_single_trace_closure_flows :: "'c engine \<Rightarrow> current_index \<Rightarrow> current_index \<Rightarrow> color_flow list" where
  "shared_single_trace_closure_flows e left right =
     (if \<not> en_single_trace e then []
      else map (closure_flow e)
        (table_ids (en_closure_ids_by_word e) (ci_ordered_external_labels left @ ci_ordered_external_labels right)))"

definition closes_on_word :: "current_index \<Rightarrow> current_index \<Rightarrow> int list \<Rightarrow> bool" where
  "closes_on_word left right w =
     closure_combination_matches_word (labels_projected_to_word (ci_ordered_external_labels left) w)
       (labels_projected_to_word (ci_ordered_external_labels right) w) w"

definition ordered_closure_allowed :: "'c engine \<Rightarrow> current_index \<Rightarrow> current_index \<Rightarrow> bool res" where
  "ordered_closure_allowed e left right =
     (if en_single_trace e
      then Inr (ci_ordered_external_labels left @ ci_ordered_external_labels right \<in> set (en_trace_words e))
      else if en_orderings e then Inr (shared_lc_closure_word e left right \<noteq> None)
      else if cs_sector_id (ci_color_state left) \<noteq> cs_sector_id (ci_color_state right) then Inr False
      else case sector_by_id e (cs_sector_id (ci_color_state left)) of
          None \<Rightarrow> Inr True
        | Some s \<Rightarrow>
            if sc_kind s = Singlet_Sector \<and> list_all (\<lambda>w. w = []) (admissible_traversal_words s) then Inr True
            else if sc_kind s = Open_Lines
            then bindE (canonical_closure_traversal_word s (pl_process (en_plan e))) (\<lambda>w. Inr (closes_on_word left right w))
            else Inr (list_ex (closes_on_word left right) (admissible_traversal_words s)))"


section \<open>The tables of the engine\<close>

text \<open>The words of a sector, after rotation to the fixed sink.\<close>

definition sector_word :: "'c engine \<Rightarrow> int \<Rightarrow> int list \<Rightarrow> bool" where
  "sector_word e i w \<longleftrightarrow> (\<exists>(s, ws) \<in> set (en_words_by_sector e). sector_number s = i \<and> w \<in> set ws)"

definition on_sector :: "'c engine \<Rightarrow> int \<Rightarrow> int list \<Rightarrow> bool" where
  "on_sector e i labels \<longleftrightarrow> i \<in> set (all_sector_ids e) \<and>
     (coloured_part e labels = [] \<or> (\<exists>w. sector_word e i w \<and> sublist (coloured_part e labels) w))"

lemma map_of_grouped:
  "map_of (map (\<lambda>(k, xs). (k, f xs)) (group_by ps)) key =
     (if key \<in> snd ` set ps then Some (f (map fst (filter (\<lambda>p. snd p = key) ps))) else None)"
proof -
  have "map (\<lambda>(k, xs). (k, f xs)) (group_by ps) = map (\<lambda>k. (k, f (map fst (filter (\<lambda>p. snd p = k) ps)))) (dedup (map snd ps))"
    by (simp add: group_by_eq grouped_def)
  then show ?thesis by (simp add: map_of_map_restrict restrict_map_def)
qed

lemma table_grouped: "i \<in> set (table_ids (map (\<lambda>(k, xs). (k, int_set xs)) (group_by ps)) key) \<longleftrightarrow> (i, key) \<in> set ps"
  by (force simp: table_ids_def map_of_grouped)

lemma table_grouped_plain: "i \<in> set (table_ids (group_by ps) key) \<longleftrightarrow> (i, key) \<in> set ps"
  using map_of_grouped [of "\<lambda>x. x" ps key] by (force simp: table_ids_def case_prod_beta')

lemma keys_grouped: "set (map fst (map (\<lambda>(k, xs). (k, f xs)) (group_by ps))) = snd ` set ps"
  by (force simp: group_by_eq grouped_def)

lemma comp_rows: "(i, c) \<in> set [(f row, w). row \<leftarrow> rows, w \<leftarrow> g row] \<longleftrightarrow> (\<exists>row \<in> set rows. f row = i \<and> c \<in> set (g row))"
  by auto

lemma comp_segments:
  "(i, c) \<in> set [(f row, x). row \<leftarrow> rows, w \<leftarrow> g row, x \<leftarrow> h w] \<longleftrightarrow> (\<exists>row \<in> set rows. f row = i \<and> (\<exists>w \<in> set (g row). c \<in> set (h w)))"
  by auto

text \<open>An engine with shared orderings, as the constructor builds it.\<close>

definition shared_engine :: "'c engine \<Rightarrow> bool" where
  "shared_engine e \<longleftrightarrow> en_orderings e \<and>
     (\<exists>m massless_adjoint trace_proven plan symmetry. make_engine m massless_adjoint trace_proven plan symmetry = Inr e)"

lemma engine_tables:
  assumes "shared_engine e"
  shows "map fst (en_words_by_sector e) = pl_sectors (en_plan e)" "en_ids_by_word e = sector_ids_by_word (en_words_by_sector e)"
    "en_ids_by_segment e = sector_ids_by_segment (en_words_by_sector e)"
proof -
  from assms obtain m a t plan symmetry where made: "make_engine m a t plan symmetry = Inr e" and o: "en_orderings e"
    unfolding shared_engine_def by blast
  have rows: "shared_words_by_sector plan True (en_fixed_sink e) = Inr (en_words_by_sector e)" "en_plan e = plan"
    and "en_ids_by_word e = sector_ids_by_word (en_words_by_sector e)" "en_ids_by_segment e = sector_ids_by_segment (en_words_by_sector e)"
    using made o by (auto simp: make_engine_def bindE_Inr_iff Let_def)
  then show "en_ids_by_word e = sector_ids_by_word (en_words_by_sector e)"
    "en_ids_by_segment e = sector_ids_by_segment (en_words_by_sector e)" by blast+
  have "list_all2 (\<lambda>s row. bindE (sector_intermediate_order_words s True (Some (pl_process plan)))
      (\<lambda>words. Inr (s, map (\<lambda>w. lc_word_with_sink_last w (en_fixed_sink e)) words)) = Inr row) (pl_sectors plan) (en_words_by_sector e)"
    using rows(1) by (simp add: shared_words_by_sector_def mapE_Inr_iff)
  then have "map fst (en_words_by_sector e) = pl_sectors plan"
    by (induction rule: list_all2_induct) (auto simp: bindE_Inr_iff)
  then show "map fst (en_words_by_sector e) = pl_sectors (en_plan e)" by (simp add: rows(2))
qed

lemma word_sector:
  assumes "shared_engine e" "sector_word e i w"
  shows "i \<in> set (all_sector_ids e)"
proof -
  from assms(2) obtain s ws where r: "(s, ws) \<in> set (en_words_by_sector e)" "sector_number s = i" unfolding sector_word_def by blast
  have "s \<in> set (map fst (en_words_by_sector e))" using r(1) by force
  then show ?thesis using r(2) engine_tables(1) [OF assms(1)] by (auto simp: all_sector_ids_def)
qed

lemma bex_swap: "(\<exists>x \<in> A. P x \<and> (\<exists>w \<in> B x. q \<and> R w)) \<longleftrightarrow> q \<and> (\<exists>w. (\<exists>x \<in> A. P x \<and> w \<in> B x) \<and> R w)"
  by blast

lemma segment_ids:
  assumes "shared_engine e"
  shows "i \<in> set (table_ids (en_ids_by_segment e) c) \<longleftrightarrow> c \<noteq> [] \<and> (\<exists>w. sector_word e i w \<and> sublist c w)"
proof -
  have "i \<in> set (table_ids (en_ids_by_segment e) c) \<longleftrightarrow>
      (\<exists>row \<in> set (en_words_by_sector e). sector_number (fst row) = i \<and> (\<exists>w \<in> set (snd row). c \<noteq> [] \<and> sublist c w))"
    unfolding engine_tables(3) [OF assms] sector_ids_by_segment_def table_grouped comp_segments set_segments ..
  also have "\<dots> \<longleftrightarrow> c \<noteq> [] \<and> (\<exists>w. (\<exists>row \<in> set (en_words_by_sector e). sector_number (fst row) = i \<and> w \<in> set (snd row)) \<and> sublist c w)"
    by (rule bex_swap)
  finally show ?thesis unfolding sector_word_def case_prod_beta' .
qed

lemma mem_snd: "c \<in> snd ` S \<longleftrightarrow> (\<exists>i. (i, c) \<in> S)" by force

lemma known_segment:
  assumes "shared_engine e"
  shows "c \<in> set (map fst (en_ids_by_segment e)) \<longleftrightarrow> c \<noteq> [] \<and> (\<exists>i w. sector_word e i w \<and> sublist c w)"
proof -
  have "c \<in> set (map fst (en_ids_by_segment e)) \<longleftrightarrow> (\<exists>i. i \<in> set (table_ids (en_ids_by_segment e) c))"
    unfolding engine_tables(3) [OF assms] sector_ids_by_segment_def table_grouped keys_grouped by (rule mem_snd)
  then show ?thesis unfolding segment_ids [OF assms] by blast
qed

lemma word_ids:
  assumes "shared_engine e"
  shows "i \<in> set (table_ids (en_ids_by_word e) w) \<longleftrightarrow> sector_word e i w"
  unfolding engine_tables(2) [OF assms] sector_ids_by_word_def table_grouped_plain comp_rows sector_word_def case_prod_beta' ..

lemma compatible_ids:
  assumes "shared_engine e"
  shows "i \<in> set (compatible_sector_ids e labels) \<longleftrightarrow> on_sector e i labels"
proof (cases "coloured_part e labels = []")
  case False
  then show ?thesis using word_sector [OF assms, of i]
    by (simp add: compatible_sector_ids_def on_sector_def segment_ids [OF assms]) blast
qed (simp add: compatible_sector_ids_def on_sector_def)

text \<open>
  C21. With shared orderings a proposed label order is accepted exactly when its uncoloured labels
  are external singlets and its coloured labels are none or stand contiguously, in their order, on a
  word of some sector (in either direction when reflections are allowed); the accepted order is a
  permutation of the proposed one, the coloured labels in order and then the singlets sorted.
\<close>

theorem proposed_orders_exact:
  assumes "shared_engine e"
  shows "\<forall>ls. shared_lc_ordered_proposed_labels e proposed allow_reversed = Some ls \<longleftrightarrow>
    set proposed - set (en_coloured e) \<subseteq> set (en_singlets e) \<and>
    (coloured_part e proposed = [] \<or>
     (\<exists>i w. sector_word e i w \<and> (sublist (coloured_part e proposed) w \<or> allow_reversed \<and> sublist (rev (coloured_part e proposed)) w))) \<and>
    mset ls = mset proposed \<and> (\<exists>extras. ls = coloured_part e proposed @ extras \<and> sorted extras)"
proof
  fix ls
  let ?c = "coloured_part e proposed" and ?x = "filter (\<lambda>l. l \<notin> set (en_coloured e)) proposed"
  have m: "mset proposed = mset ?c + mset ?x" unfolding coloured_part_def by simp
  define K where "K r = (\<exists>i w. sector_word e i w \<and> sublist r w)" for r
  have K: "(\<exists>i w. sector_word e i w \<and> (sublist ?c w \<or> allow_reversed \<and> sublist (rev ?c) w)) \<longleftrightarrow> K ?c \<or> allow_reversed \<and> K (rev ?c)"
    unfolding K_def by (rule iffI) (elim exE conjE disjE; intro disjI1 disjI2 conjI exI; assumption)+
  have nil: "sort ?x = [] \<longleftrightarrow> ?x = []" by (metis set_empty set_sort)
  have val: "shared_lc_ordered_proposed_labels e proposed allow_reversed =
     (if set ?x \<subseteq> set (en_singlets e) \<and> (?c = [] \<or> K ?c \<or> allow_reversed \<and> K (rev ?c)) then Some (?c @ sort ?x) else None)"
    unfolding shared_lc_ordered_proposed_labels_def known_segment [OF assms] Let_def nil K_def [symmetric]
    by (cases "set ?x \<subseteq> set (en_singlets e)"; cases "?x = []") simp_all
  have "ls = ?c @ sort ?x \<longleftrightarrow> mset ls = mset proposed \<and> (\<exists>extras. ls = ?c @ extras \<and> sorted extras)"
  proof
    assume r: "mset ls = mset proposed \<and> (\<exists>extras. ls = ?c @ extras \<and> sorted extras)"
    then obtain extras where x: "ls = ?c @ extras" "sorted extras" by blast
    from r x(1) have "mset ?c + mset extras = mset ?c + mset ?x" unfolding m [symmetric] by (metis mset_append)
    then have "mset extras = mset ?x" by (rule add_left_imp_eq)
    then have "sort ?x = extras" using x(2) by (rule properties_for_sort)
    then show "ls = ?c @ sort ?x" using x(1) by simp
  next
    assume l: "ls = ?c @ sort ?x"
    have "mset ls = mset proposed" unfolding l m mset_append mset_sort ..
    then show "mset ls = mset proposed \<and> (\<exists>extras. ls = ?c @ extras \<and> sorted extras)" using l sorted_sort by blast
  qed
  moreover have "set ?x = set proposed - set (en_coloured e)" by auto
  ultimately show "shared_lc_ordered_proposed_labels e proposed allow_reversed = Some ls \<longleftrightarrow>
    set proposed - set (en_coloured e) \<subseteq> set (en_singlets e) \<and>
    (?c = [] \<or> (\<exists>i w. sector_word e i w \<and> (sublist ?c w \<or> allow_reversed \<and> sublist (rev ?c) w))) \<and>
    mset ls = mset proposed \<and> (\<exists>extras. ls = ?c @ extras \<and> sorted extras)"
    unfolding val K by (simp only: if_split_eq1 option.inject) (auto split: if_splits)
qed

section \<open>Sectors that stay supported\<close>

text \<open>The closures of a basis key are possible in a sector.\<close>

definition sector_fits :: "'c engine \<Rightarrow> string list \<Rightarrow> int \<Rightarrow> bool" where
  "sector_fits e basis i =
     (case sector_by_id e i of None \<Rightarrow> False | Some s \<Rightarrow> lc_color_identity_closures_compatible (lc_color_identity_closures basis) s)"

definition untagged :: "string list \<Rightarrow> bool" where
  "untagged basis \<longleftrightarrow> (\<forall>key \<in> set basis. \<not> starts_with lc_sector_support_prefix key)"

lemma basis_after_untagged: "basis_after e inherited v labels = Some basis \<Longrightarrow> untagged basis \<and> lc_fierz_singlet_basis \<notin> set basis"
  by (auto simp: basis_after_def untagged_def without_lc_sector_support_def Let_def split: if_splits)
    (auto simp: lc_color_identity_closure_key_def lc_fierz_singlet_basis_def color_identity_closure_prefix_def)

lemma supports_untagged: "untagged basis \<Longrightarrow> supports basis i"
  by (auto simp: untagged_def supports_iff)

lemma fits_support_key: "sector_fits e (lc_sector_support_key ids # basis) i = sector_fits e basis i"
  "sector_fits e (lc_fierz_singlet_basis # basis) i = sector_fits e basis i"
  by (simp_all add: sector_fits_def closures_compatible_iff split: option.splits)

lemma has_compatible_iff:
  "basis_has_compatible_sector e basis labels \<longleftrightarrow> (\<exists>i \<in> set (compatible_sector_ids e labels). supports basis i \<and> sector_fits e basis i)"
  unfolding basis_has_compatible_sector_def sector_fits_def list_ex_iff by (intro bex_cong refl) (simp split: option.split)

lemma supports_sorted: "supports (sort (remdups keys)) i = supports keys i"
  by (simp add: supports_iff)

lemma finish_Some:
  assumes f: "finish_projection e track labels (b, w, S) = Some (b', w')" and u: "untagged b" "track \<or> set S = set (all_sector_ids e)"
    and i: "i \<in> set (all_sector_ids e)"
  shows "supports b' i \<longleftrightarrow> i \<in> set S" "w' = w" "lc_fierz_singlet_basis \<in> set b' \<longleftrightarrow> lc_fierz_singlet_basis \<in> set b"
proof -
  let ?b = "if track \<and> set S \<noteq> set (all_sector_ids e) then lc_sector_support_key S # b else b"
  from f have b: "b' = sort (remdups ?b)" and w: "w' = w" by (auto simp: finish_projection_def Let_def split: if_splits)
  show "w' = w" by (rule w)
  have "lc_fierz_singlet_basis \<noteq> lc_sector_support_key S"
    by (simp add: lc_sector_support_key_def lc_fierz_singlet_basis_def lc_sector_support_prefix_def)
  then show "lc_fierz_singlet_basis \<in> set b' \<longleftrightarrow> lc_fierz_singlet_basis \<in> set b" unfolding b by simp
  show "supports b' i \<longleftrightarrow> i \<in> set S" unfolding b supports_sorted
    using u i supports_untagged [OF u(1), of i] by (auto simp: supports_iff)
qed

lemma finish_keeps:
  assumes f: "finish_projection e track labels (b, w, S) = Some (b', w')"
  shows "set b \<subseteq> set b'"
proof -
  let ?b = "if track \<and> set S \<noteq> set (all_sector_ids e) then lc_sector_support_key S # b else b"
  from f have "b' = sort (remdups ?b)" by (auto simp: finish_projection_def Let_def split: if_splits)
  then show ?thesis by auto
qed

lemma finish_None:
  assumes f: "finish_projection e track labels (b, w, S) = None" and u: "untagged b"
    and i: "i \<in> set S" "i \<in> set (compatible_sector_ids e labels)"
  shows "\<not> sector_fits e b i"
proof
  assume fit: "sector_fits e b i"
  let ?b = "if track \<and> set S \<noteq> set (all_sector_ids e) then lc_sector_support_key S # b else b"
  have "supports ?b i" using supports_untagged [OF u, of i] i(1) by (auto simp: supports_iff)
  moreover have "sector_fits e ?b i" using fit by (simp add: fits_support_key)
  ultimately have "basis_has_compatible_sector e ?b labels" unfolding has_compatible_iff using i(2) by blast
  then show False using f by (simp add: finish_projection_def Let_def)
qed

lemma mem_map_filter: "p \<in> set (List.map_filter f xs) \<longleftrightarrow> (\<exists>x \<in> set xs. f x = Some p)"
  by (force simp: List.map_filter_def)

lemma filter_map_filter:
  assumes "\<And>c p. c \<in> set cs \<Longrightarrow> f c = Some p \<Longrightarrow> P p \<longleftrightarrow> Q c" "\<And>c. c \<in> set cs \<Longrightarrow> Q c \<Longrightarrow> f c \<noteq> None"
  shows "filter P (List.map_filter f cs) = map (\<lambda>c. the (f c)) (filter Q cs)"
  using assms
proof (induction cs)
  case Nil
  then show ?case by (simp add: List.map_filter_def)
next
  case (Cons c cs)
  have ih: "filter P (List.map_filter f cs) = map (\<lambda>c. the (f c)) (filter Q cs)" using Cons.prems by (intro Cons.IH) simp_all
  show ?case
  proof (cases "f c")
    case None
    then have "\<not> Q c" using Cons.prems(2) [of c] by auto
    with None ih show ?thesis by (simp add: List.map_filter_simps)
  next
    case (Some p)
    then have "P p \<longleftrightarrow> Q c" using Cons.prems(1) [of c p] by simp
    with Some ih show ?thesis by (simp add: List.map_filter_simps)
  qed
qed

text \<open>What the candidates of a vertex have in common.\<close>

lemma candidates_ok:
  assumes "(b, w, S) \<in> set (projection_candidates e v basis compatible labels)" "untagged basis"
  shows "untagged b \<and> set S \<subseteq> set compatible \<and> sector_fits e b i = sector_fits e basis i \<and> (\<not> creates_fierz_projection e v \<longrightarrow> S = compatible)"
  using assms by (auto simp: projection_candidates_def Let_def untagged_def fits_support_key split: if_splits)

lemma candidates_cover:
  assumes "i \<in> set compatible"
  shows "filter (\<lambda>(b, w, S). i \<in> set S) (projection_candidates e v basis compatible labels) =
    (if \<not> creates_fierz_projection e v then [(basis, (1, 0), compatible)]
     else if i \<in> set (lc_fierz_sector_ids e labels)
     then [(lc_fierz_singlet_basis # basis, (1 / 3, 0), filter (\<lambda>i. i \<in> set (lc_fierz_sector_ids e labels)) compatible)]
     else [(basis, (1, 0), filter (\<lambda>i. i \<notin> set (lc_fierz_sector_ids e labels)) compatible)])"
proof -
  have "filter (\<lambda>j. j \<in> F) compatible \<noteq> []" if "i \<in> F" for F using assms that by (auto simp: filter_empty_conv)
  moreover have "filter (\<lambda>j. j \<notin> F) compatible \<noteq> []" if "i \<notin> F" for F using assms that by (auto simp: filter_empty_conv)
  ultimately show ?thesis using assms by (simp add: projection_candidates_def Let_def)
qed

lemma shared_not_single:
  assumes "shared_engine e" "pl_color_accuracy (en_plan e) = STR ''lc''"
  shows "\<not> en_single_trace e" "pl_sectors (en_plan e) \<noteq> []"
  using assms by (auto simp: shared_engine_def make_engine_def bindE_Inr_iff Let_def shared_single_trace_of_def shared_lc_orderings_def)


definition flow_supports :: "int \<Rightarrow> color_flow \<Rightarrow> bool" where
  "flow_supports i flow = supports (cs_basis_key (cf_state flow)) i"

text \<open>Support with label variants: a sector on one of whose words some variant stands.\<close>

lemma combine_own_variant: "combine e left right v labels (Some [labels]) = combine e left right v labels None"
  "lc_projected_basis_and_weights e left right v labels (Some [labels]) = lc_projected_basis_and_weights e left right v labels None"
proof -
  show p: "lc_projected_basis_and_weights e left right v labels (Some [labels]) = lc_projected_basis_and_weights e left right v labels None"
    unfolding lc_projected_basis_and_weights_def option.case ..
  show "combine e left right v labels (Some [labels]) = combine e left right v labels None" unfolding combine_def projected_flows_def p ..
qed

lemma projections_sectors:
  assumes e: "shared_engine e" "pl_color_accuracy (en_plan e) = STR ''lc''"
    and basis: "basis_after e (cs_basis_key left @ cs_basis_key right) v labels = Some basis"
    and p: "(b, w) \<in> set (lc_projected_basis_and_weights e left right v labels (Some vs))"
    and i: "i \<in> set (all_sector_ids e)" "supports b i"
  shows "(\<exists>x \<in> set vs. on_sector e i x) \<and> supports (cs_basis_key left @ cs_basis_key right) i"
proof -
  let ?keys = "cs_basis_key left @ cs_basis_key right"
  define C where "C = filter (supports ?keys) (int_set (concat (map (compatible_sector_ids e) vs)))"
  define track where "track = tracks_support e ?keys v C"
  have o: "en_orderings e" using e(1) by (simp add: shared_engine_def)
  have C: "i \<in> set C \<longleftrightarrow> (\<exists>x \<in> set vs. on_sector e i x) \<and> supports ?keys i" for i
    using compatible_ids [OF e(1)] by (auto simp: C_def)
  note un = basis_after_untagged [OF basis]
  have "lc_projected_basis_and_weights e left right v labels (Some vs) =
      (if C = [] then [] else List.map_filter (finish_projection e track labels) (projection_candidates e v basis C labels))"
    by (simp add: lc_projected_basis_and_weights_def Let_def basis o C_def track_def)
  with p obtain b0 w0 S where c: "(b0, w0, S) \<in> set (projection_candidates e v basis C labels)"
      "finish_projection e track labels (b0, w0, S) = Some (b, w)"
    by (force simp: List.map_filter_def split: if_splits)
  have tr: "track \<or> set S = set (all_sector_ids e)"
    using candidates_ok [OF c(1)] un e(2) by (auto simp: track_def tracks_support_def)
  have ok: "untagged b0" "set S \<subseteq> set C" using candidates_ok [OF c(1)] un by blast+
  have "i \<in> set S" using finish_Some(1) [OF c(2) ok(1) tr i(1)] i(2) by blast
  then show ?thesis using ok(2) C by blast
qed

text \<open>
  The projections of a vertex: only sectors on whose words the labels stand and that both inputs
  supported stay supported, and each of these that admits the closures is supported by one projection.
\<close>

lemma projections_exact:
  assumes e: "shared_engine e" "pl_color_accuracy (en_plan e) = STR ''lc''"
    and basis: "basis_after e (cs_basis_key left @ cs_basis_key right) v labels = Some basis"
  defines "ps \<equiv> lc_projected_basis_and_weights e left right v labels None"
  shows "\<lbrakk>(b, w) \<in> set ps; i \<in> set (all_sector_ids e); supports b i\<rbrakk> \<Longrightarrow> on_sector e i labels \<and> supports (cs_basis_key left @ cs_basis_key right) i"
    and "\<lbrakk>on_sector e i labels; supports (cs_basis_key left @ cs_basis_key right) i; sector_fits e basis i\<rbrakk> \<Longrightarrow>
      \<exists>b. filter (\<lambda>(b, w). supports b i) ps = [(b, if creates_fierz_projection e v \<and> i \<in> set (lc_fierz_sector_ids e labels) then (1 / 3, 0) else (1, 0))] \<and>
        (lc_fierz_singlet_basis \<in> set b \<longleftrightarrow> creates_fierz_projection e v \<and> i \<in> set (lc_fierz_sector_ids e labels))"
proof -
  let ?keys = "cs_basis_key left @ cs_basis_key right"
  define C where "C = filter (supports ?keys) (int_set (compatible_sector_ids e labels))"
  let ?cands = "projection_candidates e v basis C labels"
  define track where "track = tracks_support e ?keys v C"
  have o: "en_orderings e" using e(1) by (simp add: shared_engine_def)
  have C: "i \<in> set C \<longleftrightarrow> on_sector e i labels \<and> supports ?keys i" for i
    using compatible_ids [OF e(1)] by (auto simp: C_def)
  have all: "i \<in> set C \<Longrightarrow> i \<in> set (all_sector_ids e)" for i unfolding C on_sector_def by blast
  note un = basis_after_untagged [OF basis]
  have ps: "ps = (if C = [] then [] else List.map_filter (finish_projection e track labels) ?cands)"
    by (simp add: ps_def lc_projected_basis_and_weights_def Let_def basis o C_def track_def)
  have tr: "track \<or> set S = set (all_sector_ids e)" if "(b, w, S) \<in> set ?cands" for b w S
    using candidates_ok [OF that] un e(2) by (auto simp: track_def tracks_support_def)
  { assume "(b, w) \<in> set ps" "i \<in> set (all_sector_ids e)" "supports b i"
    then show "on_sector e i labels \<and> supports ?keys i"
      using projections_sectors [OF e basis, of b w "[labels]" i] by (simp add: combine_own_variant ps_def) }
  { assume i: "on_sector e i labels" "supports ?keys i" and fit: "sector_fits e basis i"
    let ?fz = "creates_fierz_projection e v \<and> i \<in> set (lc_fierz_sector_ids e labels)"
    have iC: "i \<in> set C" using i C by blast
    have in_c: "i \<in> set (compatible_sector_ids e labels)" using i(1) compatible_ids [OF e(1)] by blast
    have fm: "filter (\<lambda>(b, w). supports b i) (List.map_filter (finish_projection e track labels) ?cands) =
        map (\<lambda>c. the (finish_projection e track labels c)) (filter (\<lambda>(b, w, S). i \<in> set S) ?cands)"
    proof (rule filter_map_filter)
      fix c p assume m: "c \<in> set ?cands" and f: "finish_projection e track labels c = Some p"
      obtain b0 w0 S b w where cp: "c = (b0, w0, S)" "p = (b, w)" by (cases c; cases p) blast
      have "untagged b0" using candidates_ok [OF m [unfolded cp]] un by blast
      from finish_Some(1) [OF f [unfolded cp] this tr [OF m [unfolded cp]] all [OF iC]]
      show "(case p of (b, w) \<Rightarrow> supports b i) = (case c of (b, w, S) \<Rightarrow> i \<in> set S)" by (simp add: cp)
    next
      fix c assume m: "c \<in> set ?cands" and i: "case c of (b, w, S) \<Rightarrow> i \<in> set S"
      obtain b0 w0 S where c: "c = (b0, w0, S)" by (cases c) blast
      have "untagged b0" "sector_fits e b0 i" using candidates_ok [OF m [unfolded c]] un fit by blast+
      then show "finish_projection e track labels c \<noteq> None" using finish_None [OF _ _ _ in_c] i unfolding c by blast
    qed
    obtain b0 S where c: "filter (\<lambda>(b, w, S). i \<in> set S) ?cands = [(b0, if ?fz then (1 / 3, 0) else (1, 0), S)]"
      "lc_fierz_singlet_basis \<in> set b0 \<longleftrightarrow> ?fz"
      using candidates_cover [OF iC, of e v basis labels] un by (auto split: if_splits)
    let ?c = "(b0, if ?fz then (1 / 3, 0) else (1, 0), S) :: string list \<times> weight \<times> int list"
    have "?c \<in> set (filter (\<lambda>(b, w, S). i \<in> set S) ?cands)" unfolding c(1) by simp
    then have m: "?c \<in> set ?cands" "i \<in> set S" by auto
    have u: "untagged b0" "sector_fits e b0 i" using candidates_ok [OF m(1)] un fit by blast+
    have "finish_projection e track labels ?c \<noteq> None" using finish_None [OF _ u(1) m(2) in_c] u(2) by blast
    then obtain b w where f: "finish_projection e track labels ?c = Some (b, w)" by auto
    note fs = finish_Some(2,3) [OF f u(1) tr [OF m(1)] all [OF iC]]
    have ps': "ps = List.map_filter (finish_projection e track labels) ?cands" using iC unfolding ps by auto
    have "filter (\<lambda>(b, w). supports b i) ps = [(b, w)]" unfolding ps' fm c(1) by (simp add: f)
    then show "\<exists>b. filter (\<lambda>(b, w). supports b i) ps = [(b, if ?fz then (1 / 3, 0) else (1, 0))] \<and> (lc_fierz_singlet_basis \<in> set b \<longleftrightarrow> ?fz)"
      using fs c(2) by (intro exI [of _ b]) simp }
qed



text \<open>
  C19. In leading colour the flows of a vertex divide the supported sectors among themselves: a flow
  supports only sectors in which the combined labels stand on a colour word and that both inputs
  supported, and every such sector that still admits the closures is supported by exactly one flow,
  with weight 1/3 and the Fierz tag when the vertex splits off an octet from complete colour lines
  of that sector, and with weight 1 and no tag otherwise.
\<close>

theorem flows_divide_sectors:
  assumes e: "shared_engine e" "pl_color_accuracy (en_plan e) = STR ''lc''" and acc: "cs_accuracy left = cs_accuracy right"
    and groups: "lc_combined_line_groups e left right v = Some groups"
    and basis: "basis_after e (cs_basis_key left @ cs_basis_key right) v labels = Some basis" and i: "i \<in> set (all_sector_ids e)"
  shows "\<exists>fierz. (fierz \<longleftrightarrow> creates_fierz_projection e v \<and> i \<in> set (lc_fierz_sector_ids e labels)) \<and>
    ((\<exists>flow \<in> set (combine e left right v labels None). flow_supports i flow) \<longrightarrow>
       on_sector e i labels \<and> supports (cs_basis_key left) i \<and> supports (cs_basis_key right) i) \<and>
    (on_sector e i labels \<and> supports (cs_basis_key left) i \<and> supports (cs_basis_key right) i \<and> sector_fits e basis i \<longrightarrow>
       (\<exists>flow. filter (flow_supports i) (combine e left right v labels None) = [flow] \<and>
          cf_weight flow = (if fierz then (1 / 3, 0) else (1, 0)) \<and>
          (lc_fierz_singlet_basis \<in> set (cs_basis_key (cf_state flow)) \<longleftrightarrow> fierz)))"
proof -
  let ?fz = "creates_fierz_projection e v \<and> i \<in> set (lc_fierz_sector_ids e labels)"
  let ?ps = "lc_projected_basis_and_weights e left right v labels None"
  let ?mk = "\<lambda>(basis, w). \<lparr>cf_state = \<lparr>cs_accuracy = cs_accuracy left, cs_sector_id = 0, cs_line_groups = groups, cs_basis_key = basis\<rparr>, cf_weight = w\<rparr>"
  have flows: "combine e left right v labels None = map ?mk ?ps"
    using e(1) shared_not_single [OF e] acc by (simp add: combine_def projected_flows_def groups shared_engine_def)
  have fs: "flow_supports i (?mk p) = (case p of (b, w) \<Rightarrow> supports b i)" for p by (cases p) (simp add: flow_supports_def)
  have split: "supports (cs_basis_key left @ cs_basis_key right) i \<longleftrightarrow> supports (cs_basis_key left) i \<and> supports (cs_basis_key right) i"
    by (auto simp: supports_iff)
  note pe = projections_exact [OF e basis, where i = i, unfolded split]
  have 1: "on_sector e i labels \<and> supports (cs_basis_key left) i \<and> supports (cs_basis_key right) i"
    if "\<exists>flow \<in> set (combine e left right v labels None). flow_supports i flow"
  proof -
    from that obtain p where p: "p \<in> set ?ps" "case p of (b, w) \<Rightarrow> supports b i" unfolding flows set_map using fs by blast
    obtain b w where "p = (b, w)" by (cases p)
    with p have "(b, w) \<in> set ?ps" "supports b i" by simp_all
    then show ?thesis using pe(1) i by blast
  qed
  have 2: "\<exists>flow. filter (flow_supports i) (combine e left right v labels None) = [flow] \<and>
          cf_weight flow = (if ?fz then (1 / 3, 0) else (1, 0)) \<and>
          (lc_fierz_singlet_basis \<in> set (cs_basis_key (cf_state flow)) \<longleftrightarrow> ?fz)"
    if s: "on_sector e i labels" "supports (cs_basis_key left) i \<and> supports (cs_basis_key right) i" "sector_fits e basis i"
  proof -
    from pe(2) [OF s] obtain b where b: "filter (\<lambda>(b, w). supports b i) ?ps = [(b, if ?fz then (1 / 3, 0) else (1, 0))]"
      "lc_fierz_singlet_basis \<in> set b \<longleftrightarrow> ?fz" by blast
    have "filter (flow_supports i) (combine e left right v labels None) = map ?mk (filter (\<lambda>p. flow_supports i (?mk p)) ?ps)"
      unfolding flows filter_map comp_def ..
    also have "\<dots> = [?mk (b, if ?fz then (1 / 3, 0) else (1, 0))]" unfolding fs b(1) by simp
    finally show ?thesis using b(2) by simp
  qed
  show ?thesis using 1 2 by blast
qed

section \<open>Currents built by the recursion\<close>

text \<open>
  The orders in which the DAG compiler combines two currents (\<open>generation/dag_compiler.py\<close>): the
  labels of the product, the label variants that decide its sector support, and a sign. When one of
  the inputs can be reused reflected, these are the reflected orderings the engine accepts; when
  the reflection of the product is proven and the plan is complete, the reflected labels support
  sectors too. Whether a reflection is reusable or proven is decided by tests on the model and the
  table and given as arguments.
\<close>

definition order_variants ::
  "'c engine \<Rightarrow> current_index \<Rightarrow> current_index \<Rightarrow> vertex \<Rightarrow> bool \<Rightarrow> bool \<Rightarrow> bool \<Rightarrow> bool \<Rightarrow> (int list \<times> int list list \<times> weight) list res" where
  "order_variants e left right v left_reusable right_reusable proven covered =
     bindE (ordered_combination_labels e left right v) (\<lambda>ordered. Inr
       (if left_reusable \<or> right_reusable
        then [(projected, if proven \<and> covered \<and> rev proposed \<noteq> proposed then [proposed, rev proposed] else [proposed], w).
                (proposed, w) \<leftarrow> lc_all_adjoint_symmetry_order_variants (ci_ordered_external_labels left) (ci_ordered_external_labels right)
                   left_reusable right_reusable proven covered,
                projected \<leftarrow> (case proposed_labels_if_shared e proposed proven of None \<Rightarrow> [] | Some labels \<Rightarrow> [labels])]
        else (case ordered of None \<Rightarrow> [] | Some labels \<Rightarrow> [(labels, [labels], (1, 0))])))"

text \<open>
  The currents of the recursion with shared orderings, with the label orders of the composite
  currents they are built from (and whether the reflected order counted for their support) and the
  label sets that colour-identity vertices closed on the way. The relation admits every decision on
  reflections, so that it contains the recursion of the compiler.
\<close>

definition closed_labels :: "'c engine \<Rightarrow> vertex \<Rightarrow> int list \<Rightarrow> int set set" where
  "closed_labels e v labels = (if closes_color_identity e v \<and> coloured_part e labels \<noteq> [] then {set (coloured_part e labels)} else {})"

inductive built_current :: "'c engine \<Rightarrow> current_index \<Rightarrow> (int list \<times> bool) set \<Rightarrow> int set set \<Rightarrow> bool" for e where
  source: "leg \<in> set (i_legs (pl_process (en_plan e))) \<Longrightarrow> ci_ordered_external_labels c = [l_label leg] \<Longrightarrow>
    ci_color_state c \<in> set (source_states_for_leg e leg) \<Longrightarrow> built_current e c {} {}"
| step: "built_current e l A C \<Longrightarrow> built_current e r B D \<Longrightarrow> order_variants e l r v lr rr proven covered = Inr variants \<Longrightarrow>
    (labels, supporting, w) \<in> set variants \<Longrightarrow>
    flow \<in> set (combine e (ci_color_state l) (ci_color_state r) v labels (Some supporting)) \<Longrightarrow>
    ci_ordered_external_labels c = labels \<Longrightarrow> ci_color_state c = cf_state flow \<Longrightarrow>
    built_current e c (insert (labels, (lr \<or> rr) \<and> proven \<and> covered) (A \<union> B)) (closed_labels e v labels \<union> (C \<union> D))"

text \<open>The order of a composite current on a word of the sector, reflected where that counted.\<close>

definition ordered_on :: "'c engine \<Rightarrow> int \<Rightarrow> int list \<times> bool \<Rightarrow> bool" where
  "ordered_on e i = (\<lambda>(labels, reflected). on_sector e i labels \<or> reflected \<and> on_sector e i (rev labels))"

lemma on_sector_coloured: "coloured_part e x = coloured_part e y \<Longrightarrow> on_sector e i x = on_sector e i y"
  by (simp add: on_sector_def)

lemma coloured_part_rev: "coloured_part e (rev x) = rev (coloured_part e x)"
  by (simp add: coloured_part_def rev_filter)

lemma proposed_coloured:
  assumes "proposed_labels_if_shared e p allow = Some labels"
  shows "coloured_part e labels = coloured_part e p"
proof -
  define extras where "extras = sort (filter (\<lambda>l. l \<notin> set (en_coloured e)) p)"
  have "coloured_part e extras = []" by (auto simp: coloured_part_def extras_def filter_empty_conv)
  moreover have "labels = coloured_part e p @ extras"
    using assms unfolding proposed_labels_if_shared_def shared_lc_ordered_proposed_labels_def Let_def extras_def [symmetric]
    by (simp split: if_splits)
  moreover have "coloured_part e (coloured_part e p) = coloured_part e p" by (simp add: coloured_part_def)
  moreover have "coloured_part e (xs @ ys) = coloured_part e xs @ coloured_part e ys" for xs ys by (simp add: coloured_part_def)
  ultimately show ?thesis by simp
qed

lemma variant_cases:
  assumes ok: "order_variants e l r v lr rr proven covered = Inr variants" and mem: "(labels, supporting, w) \<in> set variants"
  obtains (plain) "\<not> (lr \<or> rr)" "supporting = [labels]"
    | (reflected) p where "lr \<or> rr" "proposed_labels_if_shared e p proven = Some labels"
        "supporting = (if proven \<and> covered \<and> rev p \<noteq> p then [p, rev p] else [p])"
proof -
  obtain ordered where o: "ordered_combination_labels e l r v = Inr ordered" using ok by (auto simp: order_variants_def bindE_Inr_iff)
  note var = ok [unfolded order_variants_def o bindE_simps sum.inject, symmetric]
  show thesis
  proof (cases "lr \<or> rr")
    case False
    then show thesis using mem plain unfolding var by (cases ordered) simp_all
  next
    case True
    let ?g = "\<lambda>p. if proven \<and> covered \<and> rev p \<noteq> p then [p, rev p] else [p]"
    from mem obtain x where x: "(labels, supporting, w) \<in> set (case x of (p, w) \<Rightarrow> map (\<lambda>q. (q, ?g p, w))
        (case proposed_labels_if_shared e p proven of None \<Rightarrow> [] | Some ls \<Rightarrow> [ls]))"
      unfolding var if_P [OF True] set_concat set_map UN_iff by blast
    obtain p u where "x = (p, u)" by (cases x)
    then have "proposed_labels_if_shared e p proven = Some labels \<and> supporting = ?g p"
      using x by (cases "proposed_labels_if_shared e p proven") simp_all
    then show thesis using reflected True by blast
  qed
qed

lemma variant_support:
  assumes ok: "order_variants e l r v lr rr proven covered = Inr variants" and mem: "(labels, supporting, w) \<in> set variants"
    and x: "x \<in> set supporting" "on_sector e i x"
  shows "ordered_on e i (labels, (lr \<or> rr) \<and> proven \<and> covered)"
proof (cases rule: variant_cases [OF ok mem, case_names plain reflected])
  case plain
  then show ?thesis using x by (simp add: ordered_on_def)
next
  case (reflected p)
  note same = proposed_coloured [OF reflected(2)]
  from x(1) reflected(3) consider "x = p" | "x = rev p" "proven" "covered" by (auto split: if_splits)
  then show ?thesis
  proof cases
    case 1
    then show ?thesis using x(2) on_sector_coloured [OF same, of i] by (simp add: ordered_on_def)
  next
    case 2
    have "coloured_part e (rev labels) = coloured_part e (rev p)" by (simp add: coloured_part_rev same)
    then show ?thesis using x(2) 2 reflected(1) on_sector_coloured [of e "rev labels" "rev p" i] by (simp add: ordered_on_def)
  qed
qed

definition names_closure :: "string list \<Rightarrow> int set \<Rightarrow> bool" where
  "names_closure keys L \<longleftrightarrow> (\<exists>k \<in> set keys. starts_with color_identity_closure_prefix k \<and> tag_labels color_identity_closure_prefix k = L)"

lemma names_closure_append: "names_closure (xs @ ys) L \<longleftrightarrow> names_closure xs L \<or> names_closure ys L"
  by (auto simp: names_closure_def)

lemma names_closure_mono: "names_closure xs L \<Longrightarrow> set xs \<subseteq> set ys \<Longrightarrow> names_closure ys L"
  by (auto simp: names_closure_def)

lemma names_closure_fits:
  "lc_color_identity_closures_compatible (lc_color_identity_closures keys) s \<Longrightarrow> names_closure keys L \<Longrightarrow> closure_fits L s"
  by (auto simp: names_closure_def closures_compatible_iff)

lemma basis_after_keeps:
  assumes "basis_after e inherited v labels = Some basis"
  shows "names_closure inherited L \<Longrightarrow> names_closure basis L"
    and "c \<in> closed_labels e v labels \<Longrightarrow> names_closure basis c"
proof -
  assume "names_closure inherited L"
  then obtain k where k: "k \<in> set inherited" "starts_with color_identity_closure_prefix k" "tag_labels color_identity_closure_prefix k = L"
    unfolding names_closure_def by blast
  then have "k \<noteq> lc_fierz_singlet_basis" "\<not> starts_with lc_sector_support_prefix k"
    using closure_not_support by (auto simp: lc_fierz_singlet_basis_def color_identity_closure_prefix_def)
  then have "k \<in> set basis" using assms k(1)
    by (auto simp: basis_after_def without_lc_sector_support_def Let_def split: if_splits)
  then show "names_closure basis L" using k(2,3) unfolding names_closure_def by blast
next
  assume c: "c \<in> closed_labels e v labels"
  then have v: "closes_color_identity e v" "sort (coloured_part e labels) \<noteq> []" and c: "c = set (coloured_part e labels)"
    by (auto simp: closed_labels_def split: if_splits) (metis set_empty set_sort)
  have "lc_color_identity_closure_key (sort (coloured_part e labels)) \<in> set basis"
    using assms v by (auto simp: basis_after_def Let_def split: if_splits)
  then show "names_closure basis c" unfolding names_closure_def
    by (intro bexI [of _ "lc_color_identity_closure_key (sort (coloured_part e labels))"]) (simp_all add: c)
qed

lemma flow_projection:
  assumes e: "shared_engine e" "pl_color_accuracy (en_plan e) = STR ''lc''" and flow: "flow \<in> set (combine e left right v labels (Some vs))"
  obtains basis w where "basis_after e (cs_basis_key left @ cs_basis_key right) v labels = Some basis"
    "(cs_basis_key (cf_state flow), w) \<in> set (lc_projected_basis_and_weights e left right v labels (Some vs))"
    "set basis \<subseteq> set (cs_basis_key (cf_state flow))"
proof -
  from flow e(1) shared_not_single [OF e] obtain w where
    w: "(cs_basis_key (cf_state flow), w) \<in> set (lc_projected_basis_and_weights e left right v labels (Some vs))"
    by (auto simp: combine_def projected_flows_def shared_engine_def split: if_splits option.splits)
  then obtain basis where basis: "basis_after e (cs_basis_key left @ cs_basis_key right) v labels = Some basis"
    by (cases "basis_after e (cs_basis_key left @ cs_basis_key right) v labels") (simp_all add: lc_projected_basis_and_weights_def Let_def)
  have o: "en_orderings e" using e(1) by (simp add: shared_engine_def)
  define cands where "cands = filter (supports (cs_basis_key left @ cs_basis_key right)) (int_set (concat (map (compatible_sector_ids e) vs)))"
  define track where "track = tracks_support e (cs_basis_key left @ cs_basis_key right) v cands"
  have "lc_projected_basis_and_weights e left right v labels (Some vs) =
      (if cands = [] then [] else List.map_filter (finish_projection e track labels) (projection_candidates e v basis cands labels))"
    by (simp add: lc_projected_basis_and_weights_def Let_def basis o cands_def track_def)
  with w have "(cs_basis_key (cf_state flow), w) \<in> set (List.map_filter (finish_projection e track labels) (projection_candidates e v basis cands labels))"
    by (cases "cands = []") simp_all
  then obtain c where "c \<in> set (projection_candidates e v basis cands labels)"
    "finish_projection e track labels c = Some (cs_basis_key (cf_state flow), w)"
    unfolding mem_map_filter by blast
  then obtain b w' S where c: "(b, w', S) \<in> set (projection_candidates e v basis cands labels)"
    "finish_projection e track labels (b, w', S) = Some (cs_basis_key (cf_state flow), w)" by (metis prod_cases3)
  have "set basis \<subseteq> set b" using c(1) by (auto simp: projection_candidates_def Let_def split: if_splits)
  moreover have "set b \<subseteq> set (cs_basis_key (cf_state flow))" by (rule finish_keeps [OF c(2)])
  ultimately have "set basis \<subseteq> set (cs_basis_key (cf_state flow))" by blast
  with basis w show thesis using that by blast
qed

lemma built_current_sectors:
  assumes e: "shared_engine e" "pl_color_accuracy (en_plan e) = STR ''lc''" and i: "i \<in> set (all_sector_ids e)"
  shows "built_current e c A C \<Longrightarrow>
    (supports (cs_basis_key (ci_color_state c)) i \<longrightarrow> (\<forall>x \<in> A. ordered_on e i x)) \<and>
    (\<forall>L \<in> C. names_closure (cs_basis_key (ci_color_state c)) L)"
proof (induction rule: built_current.induct)
  case (step l A C r B D v lr rr proven covered variants labels supporting wt flow c)
  obtain basis w where f: "basis_after e (cs_basis_key (ci_color_state l) @ cs_basis_key (ci_color_state r)) v labels = Some basis"
    "(cs_basis_key (cf_state flow), w) \<in> set (lc_projected_basis_and_weights e (ci_color_state l) (ci_color_state r) v labels (Some supporting))"
    "set basis \<subseteq> set (cs_basis_key (cf_state flow))"
    using flow_projection [OF e step.hyps(5)] by blast
  have "\<forall>x \<in> insert (labels, (lr \<or> rr) \<and> proven \<and> covered) (A \<union> B). ordered_on e i x" if "supports (cs_basis_key (ci_color_state c)) i"
  proof -
    have s: "(\<exists>x \<in> set supporting. on_sector e i x) \<and> supports (cs_basis_key (ci_color_state l) @ cs_basis_key (ci_color_state r)) i"
      using projections_sectors [OF e f(1,2) i] that step.hyps(7) by simp
    then have "ordered_on e i (labels, (lr \<or> rr) \<and> proven \<and> covered)" using variant_support [OF step.hyps(3,4)] by blast
    moreover have "supports (cs_basis_key (ci_color_state l)) i" "supports (cs_basis_key (ci_color_state r)) i"
      using s by (auto simp: supports_iff)
    ultimately show ?thesis using step.IH by blast
  qed
  moreover have "names_closure (cs_basis_key (ci_color_state c)) L"
    if "L \<in> closed_labels e v labels \<union> (C \<union> D)" for L
  proof (cases "L \<in> closed_labels e v labels")
    case True
    then show ?thesis using names_closure_mono [OF basis_after_keeps(2) [OF f(1)] f(3)] step.hyps(7) by simp
  next
    case False
    then have "L \<in> C \<or> L \<in> D" using that by blast
    then have "names_closure (cs_basis_key (ci_color_state l) @ cs_basis_key (ci_color_state r)) L"
      unfolding names_closure_append using step.IH by blast
    then show ?thesis using names_closure_mono [OF basis_after_keeps(1) [OF f(1)] f(3)] step.hyps(7) by simp
  qed
  ultimately show ?case by blast
qed simp

text \<open>
  C18. Let the engine share the orderings of a leading-colour plan. A pair of currents closes into a sector only if the whole tree is colour
  ordered there: the coloured labels of the two ends together are a word of that sector, the labels
  of every composite current on the way stand contiguously on a word of that sector, in their
  order or, where the compiler let the proven reflection of the current count for its support, in
  the reflected order, and every set of labels that a colour-identity vertex closed lies inside one
  colour line of that sector.
\<close>

theorem closures_are_colour_ordered:
  assumes e: "shared_engine e" "pl_color_accuracy (en_plan e) = STR ''lc''"
    and l: "built_current e l A C" and r: "built_current e r B D" and flow: "flow \<in> set (shared_lc_closure_flows e l r)"
    and i_def: "i = cs_sector_id (cf_state flow)"
  shows "sector_word e i (coloured_part e (ci_ordered_external_labels l @ ci_ordered_external_labels r)) \<and>
    (\<forall>(labels, reflected) \<in> A \<union> B. on_sector e i labels \<or> reflected \<and> on_sector e i (rev labels)) \<and> (\<forall>L \<in> C \<union> D. \<exists>s. sector_by_id e i = Some s \<and> closure_fits L s)"
proof -
  let ?kl = "cs_basis_key (ci_color_state l)" and ?kr = "cs_basis_key (ci_color_state r)"
  from flow obtain w ids where c: "shared_lc_closure e l r = Some (w, ids)" "i \<in> set ids"
    by (cases "shared_lc_closure e l r") (auto simp: shared_lc_closure_flows_def closure_flow_def unit_flow_def i_def split: if_splits)
  have w: "w = coloured_part e (ci_ordered_external_labels l @ ci_ordered_external_labels r)"
    and i: "i \<in> set (table_ids (en_ids_by_word e) w)" "supports (?kl @ ?kr) i" "sector_fits e (?kl @ ?kr) i"
    using c e(2) by (auto simp: shared_lc_closure_def Let_def sector_fits_def coloured_part_def split: if_splits option.splits)
  have word: "sector_word e i w" using i(1) word_ids [OF e(1)] by blast
  then have all: "i \<in> set (all_sector_ids e)" by (rule word_sector [OF e(1)])
  have "supports ?kl i" "supports ?kr i" using i(2) by (auto simp: supports_iff)
  then have "\<forall>x \<in> A \<union> B. ordered_on e i x"
    using built_current_sectors [OF e all l] built_current_sectors [OF e all r] by blast
  then have "\<forall>(labels, reflected) \<in> A \<union> B. on_sector e i labels \<or> reflected \<and> on_sector e i (rev labels)"
    unfolding ordered_on_def .
  moreover obtain s where s: "sector_by_id e i = Some s" "lc_color_identity_closures_compatible (lc_color_identity_closures (?kl @ ?kr)) s"
    using i(3) by (auto simp: sector_fits_def split: option.splits)
  moreover have "closure_fits L s" if "L \<in> C \<union> D" for L
  proof -
    have "names_closure (?kl @ ?kr) L" unfolding names_closure_append
      using that built_current_sectors [OF e all l] built_current_sectors [OF e all r] by blast
    then show ?thesis by (rule names_closure_fits [OF s(2)])
  qed
  ultimately show ?thesis using word w by blast
qed


section \<open>Instances\<close>

definition gluon_leg :: "int \<Rightarrow> process_leg" where
  "gluon_leg l = (sample_leg l Adjoint)\<lparr>l_pdg := 21, l_outgoing_pdg := 21\<rparr>"

definition gluon_process :: process_ir where
  "gluon_process = (sample_process STR ''lc'' [])\<lparr>i_legs := map gluon_leg [1, 2, 3, 4]\<rparr>"

definition gluon_sector :: "nat \<Rightarrow> int list \<Rightarrow> sector" where
  "gluon_sector i trace = \<lparr>sc_id = i, sc_kind = Single_Trace, sc_lines = [], sc_trace = trace, sc_singlets = [], sc_word = []\<rparr>"

definition gluon_plan :: color_plan where
  "gluon_plan = sample_color_plan\<lparr>pl_process := gluon_process, pl_sectors := [gluon_sector 0 [1, 2, 3, 4], gluon_sector 1 [1, 3, 2, 4]]\<rparr>"

definition gluon_vertex :: vertex where
  "gluon_vertex = \<lparr>vx_kind = 0, vx_particles = (21, 21, 21), vx_coupling = (1, 0)\<rparr>"

definition gluon_model :: "unit vertex_model" where
  "gluon_model = \<lparr>vm_base = sample_model, vm_vertices = [gluon_vertex], vm_direct = [], vm_closure = [], vm_skip_duplicate = (\<lambda>_. False),
     vm_vertex_orders = (\<lambda>_. []), vm_color_structure = (\<lambda>_. ''structure-constant'')\<rparr>"

definition gluon_rows :: "(sector \<times> int list list) list" where
  "gluon_rows = [(gluon_sector 0 [1, 2, 3, 4], [[1, 2, 3, 4]]), (gluon_sector 1 [1, 3, 2, 4], [[1, 3, 2, 4]])]"

definition gluon_engine :: "unit engine" where
  "gluon_engine = \<lparr>en_plan = gluon_plan, en_model = gluon_model, en_base = \<lparr>ce_auxiliary_ids = [], ce_pair_count = 0\<rparr>,
     en_coloured = [1, 2, 3, 4], en_singlets = [], en_single_trace = False, en_trace_words = [[1, 2, 3, 4], [1, 3, 2, 4]],
     en_closure_ids_by_word = [([1, 2, 3, 4], [0]), ([1, 3, 2, 4], [1])], en_orderings = True, en_all_symmetry = False, en_fixed_sink = None,
     en_words_by_sector = gluon_rows, en_ids_by_word = sector_ids_by_word gluon_rows, en_ids_by_segment = sector_ids_by_segment gluon_rows\<rparr>"

lemma gluon_engine_made: "make_engine gluon_model (\<lambda>_. True) (\<lambda>_. False) gluon_plan False = Inr gluon_engine"
proof -
  have base: "make_color_engine gluon_model (i_legs gluon_process) = \<lparr>ce_auxiliary_ids = [], ce_pair_count = 0\<rparr>" by code_simp
  have labels: "shared_coloured_labels sample_model gluon_process = [1, 2, 3, 4]" "shared_singlet_labels sample_model gluon_process = []" by code_simp+
  have match: "color_plan_matches_model_roles sample_model gluon_plan" by code_simp
  have rows: "shared_words_by_sector gluon_plan True None = Inr gluon_rows" by code_simp
  have words: "concat (map color_words (pl_sectors gluon_plan)) = [[1, 2, 3, 4], [1, 3, 2, 4]]"
    "closure_sector_ids_by_word (pl_sectors gluon_plan) = [([1, 2, 3, 4], [0]), ([1, 3, 2, 4], [1])]" by code_simp+
  have plan: "pl_process gluon_plan = gluon_process" "pl_color_accuracy gluon_plan = STR ''lc''" "pl_sectors gluon_plan \<noteq> []"
    by (simp_all add: gluon_plan_def sample_color_plan_def)
  have m: "vm_base gluon_model = sample_model" by (simp add: gluon_model_def)
  have "shared_lc_orderings sample_model gluon_plan 0" by (simp add: shared_lc_orderings_def plan labels match)
  moreover have "\<not> shared_single_trace_of sample_model (\<lambda>_. True) (\<lambda>_. False) gluon_plan" by (simp add: shared_single_trace_of_def)
  ultimately show ?thesis by (simp add: make_engine_def Let_def plan m base labels rows words gluon_engine_def)
qed

lemma gluon_engine_shared: "shared_engine gluon_engine" "pl_color_accuracy (en_plan gluon_engine) = STR ''lc''"
proof -
  have "en_orderings gluon_engine" by (simp add: gluon_engine_def)
  then show "shared_engine gluon_engine" unfolding shared_engine_def using gluon_engine_made by blast
  show "pl_color_accuracy (en_plan gluon_engine) = STR ''lc''" by (simp add: gluon_engine_def gluon_plan_def sample_color_plan_def)
qed

lemma proposed_orders_exact_witness:
  "\<exists>i w. sector_word gluon_engine i w \<and> sublist [2, 3] w"
proof -
  have "shared_lc_ordered_proposed_labels gluon_engine [2, 3] False = Some [2, 3]" "coloured_part gluon_engine [2, 3] = [2, 3]" by code_simp+
  then show ?thesis using proposed_orders_exact [OF gluon_engine_shared(1), of "[2, 3]" False] by auto
qed


definition gluon_state :: "string list \<Rightarrow> color_state" where
  "gluon_state basis = \<lparr>cs_accuracy = STR ''lc'', cs_sector_id = 0, cs_line_groups = [0], cs_basis_key = basis\<rparr>"

lemma gluon_flow:
  assumes "lc_projected_basis_and_weights gluon_engine (gluon_state b) (gluon_state b') gluon_vertex labels variants = [(b'', (1, 0))]"
  shows "combine gluon_engine (gluon_state b) (gluon_state b') gluon_vertex labels variants = [unit_flow (gluon_state b'')]"
proof -
  have "lc_combined_line_groups gluon_engine (gluon_state b) (gluon_state b') gluon_vertex = Some [0]"
  proof -
    have "particle_has_colour gluon_engine 21" "vx_left gluon_vertex = 21" "vx_right gluon_vertex = 21" "vx_result gluon_vertex = 21" by code_simp+
    then show ?thesis by (simp add: lc_combined_line_groups_def gluon_state_def int_set_def)
  qed
  then show ?thesis using assms
    by (simp add: combine_def projected_flows_def gluon_engine_def gluon_plan_def gluon_state_def unit_flow_def)
qed

lemma gluon_support:
  "lc_sector_support_key [0] = ''lc-sector-support:0''" "all_sector_ids gluon_engine = [0, 1]"
  "compatible_sector_ids gluon_engine [1, 2] = [0]" "compatible_sector_ids gluon_engine [1, 2, 3] = [0]"
  "basis_has_compatible_sector gluon_engine [''lc-sector-support:0''] [1, 2]"
  "basis_has_compatible_sector gluon_engine [''lc-sector-support:0''] [1, 2, 3]"
  "\<not> creates_fierz_projection gluon_engine gluon_vertex"
  "basis_after gluon_engine [] gluon_vertex [1, 2] = Some []" "basis_after gluon_engine [''lc-sector-support:0''] gluon_vertex [1, 2, 3] = Some []"
  "lc_sector_support [] = None" "lc_sector_support [''lc-sector-support:0''] = Some [0]"
  by code_simp+

lemma gluon_projections:
  "lc_projected_basis_and_weights gluon_engine (gluon_state []) (gluon_state []) gluon_vertex [1, 2] None = [([''lc-sector-support:0''], (1, 0))]"
  "lc_projected_basis_and_weights gluon_engine (gluon_state [''lc-sector-support:0'']) (gluon_state []) gluon_vertex [1, 2, 3] None =
     [([''lc-sector-support:0''], (1, 0))]"
  using gluon_engine_shared
  by (simp_all add: lc_projected_basis_and_weights_def gluon_state_def gluon_support shared_engine_def int_set_def supports_def
      projection_candidates_def finish_projection_def tracks_support_def List.map_filter_simps)

lemma flows_divide_sectors_witness:
  "\<exists>flow. filter (flow_supports 0) (combine gluon_engine (gluon_state []) (gluon_state []) gluon_vertex [1, 2] None) = [flow] \<and>
     cf_weight flow = (1, 0) \<and> \<not> flow_supports 1 flow"
proof -
  have on: "on_sector gluon_engine 0 [1, 2]" "\<not> on_sector gluon_engine 1 [1, 2]"
    unfolding compatible_ids [OF gluon_engine_shared(1), symmetric] gluon_support by simp_all
  have g: "lc_combined_line_groups gluon_engine (gluon_state []) (gluon_state []) gluon_vertex = Some [0]" by code_simp
  have b: "basis_after gluon_engine (cs_basis_key (gluon_state []) @ cs_basis_key (gluon_state [])) gluon_vertex [1, 2] = Some []"
    using gluon_support(8) by (simp add: gluon_state_def)
  have fit: "sector_fits gluon_engine [] 0" "supports (cs_basis_key (gluon_state [])) 0" by code_simp+
  have acc: "cs_accuracy (gluon_state []) = cs_accuracy (gluon_state [])" by simp
  note divide = flows_divide_sectors [OF gluon_engine_shared acc g b]
  from divide [of 0] on fit gluon_support(2,7) obtain flow where
    f: "filter (flow_supports 0) (combine gluon_engine (gluon_state []) (gluon_state []) gluon_vertex [1, 2] None) = [flow]" "cf_weight flow = (1, 0)"
    by auto
  then have "flow \<in> set (combine gluon_engine (gluon_state []) (gluon_state []) gluon_vertex [1, 2] None)"
    by (metis filter_is_subset list.set_intros(1) subsetD)
  then have "\<not> flow_supports 1 flow" using divide [of 1] on(2) gluon_support(2) by auto
  with f show ?thesis by blast
qed

definition gluon_index :: "int list \<Rightarrow> string list \<Rightarrow> current_index" where
  "gluon_index labels basis = \<lparr>ci_particle_id = 21, ci_external_mask = 0, ci_external_labels = labels, ci_helicity_ancestry = 0, ci_chirality = 0,
     ci_spin_state = SpinInt 0, ci_flavour_flow = [], ci_quantum_number_flow = [], ci_color_state = gluon_state basis, ci_momentum_mask = 0,
     ci_coupling_orders = [], ci_auxiliary_kind = None, ci_ordered_external_labels = labels\<rparr>"

text \<open>
  Gluons 2 and 3 are combined with their reflection proven, so that the current supports both
  sectors; gluon 1 is combined with its reflection and closes on the second word.
\<close>

abbreviation "second_tag \<equiv> ''lc-sector-support:1''"

lemma reflected_variants:
  "order_variants gluon_engine (gluon_index [2] []) (gluon_index [3] []) gluon_vertex True True True True =
     Inr [([2, 3], [[2, 3], [3, 2]], (1, 0))]"
  "order_variants gluon_engine (gluon_index [1] []) (gluon_index [2, 3] []) gluon_vertex False True False True =
     Inr [([1, 2, 3], [[1, 2, 3]], (1, 0)), ([1, 3, 2], [[1, 3, 2]], (-1, 0))]"
  by code_simp+

lemma reflected_support:
  "lc_sector_support_key [1] = second_tag" "all_sector_ids gluon_engine = [0, 1]"
  "compatible_sector_ids gluon_engine [2, 3] = [0]" "compatible_sector_ids gluon_engine [3, 2] = [1]"
  "compatible_sector_ids gluon_engine [1, 3, 2] = [1]"
  "basis_has_compatible_sector gluon_engine [] [2, 3]" "basis_has_compatible_sector gluon_engine [second_tag] [1, 3, 2]"
  "\<not> creates_fierz_projection gluon_engine gluon_vertex"
  "basis_after gluon_engine [] gluon_vertex [2, 3] = Some []" "basis_after gluon_engine [] gluon_vertex [1, 3, 2] = Some []"
  "lc_sector_support [] = None" "int_set [0, 1] = [0, 1]" "int_set [1] = [1]"
  by code_simp+

lemma reflected_projections:
  "lc_projected_basis_and_weights gluon_engine (gluon_state []) (gluon_state []) gluon_vertex [2, 3] (Some [[2, 3], [3, 2]]) = [([], (1, 0))]"
  "lc_projected_basis_and_weights gluon_engine (gluon_state []) (gluon_state []) gluon_vertex [1, 3, 2] (Some [[1, 3, 2]]) =
     [([second_tag], (1, 0))]"
  using gluon_engine_shared
  by (simp_all add: lc_projected_basis_and_weights_def gluon_state_def reflected_support shared_engine_def supports_def
      projection_candidates_def finish_projection_def tracks_support_def List.map_filter_simps)

lemma closures_are_colour_ordered_witness:
  "\<exists>A C. built_current gluon_engine (gluon_index [1, 3, 2] [second_tag]) A C \<and> ([2, 3], True) \<in> A \<and>
     sector_word gluon_engine 1 [1, 3, 2, 4] \<and> \<not> on_sector gluon_engine 1 [2, 3] \<and> on_sector gluon_engine 1 (rev [2, 3])"
proof -
  let ?t = "[second_tag]"
  have src: "built_current gluon_engine (gluon_index [l] []) {} {}" if "l \<in> set [1, 2, 3, 4]" for l
  proof (rule built_current.source)
    show "gluon_leg l \<in> set (i_legs (pl_process (en_plan gluon_engine)))"
      using that by (auto simp: gluon_engine_def gluon_plan_def gluon_process_def)
    show "ci_ordered_external_labels (gluon_index [l] []) = [l_label (gluon_leg l)]" by (simp add: gluon_index_def gluon_leg_def sample_leg_def)
    show "ci_color_state (gluon_index [l] []) \<in> set (source_states_for_leg gluon_engine (gluon_leg l))"
      by (simp add: source_states_for_leg_def gluon_index_def gluon_state_def gluon_engine_def gluon_plan_def sample_color_plan_def)
  qed
  have st: "ci_color_state (gluon_index labels basis) = gluon_state basis" for labels basis by (simp add: gluon_index_def)
  let ?A2 = "insert ([2, 3], (True \<or> True) \<and> True \<and> True) ({} \<union> {})" and ?C2 = "closed_labels gluon_engine gluon_vertex [2, 3] \<union> ({} \<union> {})"
  have b2: "built_current gluon_engine (gluon_index [2, 3] []) ?A2 ?C2"
    by (rule built_current.step [OF src src reflected_variants(1), of "[2, 3]" "[[2, 3], [3, 2]]" "(1, 0)" "unit_flow (gluon_state [])"])
      (simp_all add: st gluon_flow [OF reflected_projections(1)], simp_all add: gluon_index_def unit_flow_def)
  have b3: "built_current gluon_engine (gluon_index [1, 3, 2] ?t) (insert ([1, 3, 2], (False \<or> True) \<and> False \<and> True) ({} \<union> ?A2))
      (closed_labels gluon_engine gluon_vertex [1, 3, 2] \<union> ({} \<union> ?C2))"
    by (rule built_current.step [OF src b2 reflected_variants(2), of "[1, 3, 2]" "[[1, 3, 2]]" "(-1, 0)" "unit_flow (gluon_state ?t)"])
      (simp_all add: st gluon_flow [OF reflected_projections(2)], simp_all add: gluon_index_def unit_flow_def)
  have flow: "closure_flow gluon_engine 1 \<in> set (shared_lc_closure_flows gluon_engine (gluon_index [1, 3, 2] ?t) (gluon_index [4] []))"
  proof -
    have parts: "coloured_part gluon_engine [1, 3, 2] = [1, 3, 2]" "coloured_part gluon_engine [4] = [4]"
      "map fst (en_ids_by_word gluon_engine) = [[1, 2, 3, 4], [1, 3, 2, 4]]" "table_ids (en_ids_by_word gluon_engine) [1, 3, 2, 4] = [1]"
      "sector_by_id gluon_engine 1 = Some (gluon_sector 1 [1, 3, 2, 4])" "supports ?t 1"
      "lc_color_identity_closures_compatible (lc_color_identity_closures ?t) (gluon_sector 1 [1, 3, 2, 4])" by code_simp+
    have "shared_lc_closure gluon_engine (gluon_index [1, 3, 2] ?t) (gluon_index [4] []) = Some ([1, 3, 2, 4], [1])"
      by (simp add: shared_lc_closure_def st gluon_engine_shared(2) parts) (simp add: gluon_index_def gluon_state_def parts [unfolded One_nat_def])
    then show ?thesis using gluon_engine_shared(1) by (simp add: shared_lc_closure_flows_def shared_engine_def)
  qed
  have i: "1 = cs_sector_id (cf_state (closure_flow gluon_engine 1))" by (simp add: closure_flow_def unit_flow_def)
  have part: "coloured_part gluon_engine (ci_ordered_external_labels (gluon_index [1, 3, 2] ?t) @ ci_ordered_external_labels (gluon_index [4] [])) = [1, 3, 2, 4]"
    by code_simp
  have no: "\<not> on_sector gluon_engine 1 [2, 3]"
    unfolding compatible_ids [OF gluon_engine_shared(1), symmetric] reflected_support by simp
  note all = closures_are_colour_ordered [OF gluon_engine_shared b3 src flow i]
  have "on_sector gluon_engine 1 (rev [2, 3])" using all no by auto
  with all no b3 part show ?thesis by fastforce
qed

end
