(* ===== verification/Color_Caches.thy ===== *)
theory Color_Caches
  imports Color_Engine Memo
begin

text \<open>
  The memo tables of the colour engine (\<open>generation/dag_color.py\<close>): the colour of a vertex by
  kind and particles, the order of a combination by sector, the ordered labels of both currents and
  the vertex, and the order of proposed labels. The key of the second table leaves out the external
  labels, which decide the order of colour singlets; that is invisible as long as the ordered labels
  of a current are its external labels.
\<close>

record engine_caches =
  ec_vertex :: "((int \<times> int \<times> int \<times> int) \<times> bool) list"
  ec_orders :: "((int \<times> int list \<times> int list \<times> int \<times> int \<times> int \<times> int) \<times> int list option) list"
  ec_proposed :: "((int list \<times> bool) \<times> int list option) list option"

definition new_caches :: "bool \<Rightarrow> engine_caches" where
  "new_caches cache_orderings = \<lparr>ec_vertex = [], ec_orders = [], ec_proposed = (if cache_orderings then Some [] else None)\<rparr>"

definition vertex_key :: "vertex \<Rightarrow> int \<times> int \<times> int \<times> int" where
  "vertex_key v = (vx_kind v, vx_left v, vx_right v, vx_result v)"

definition order_key :: "current_index \<Rightarrow> current_index \<Rightarrow> vertex \<Rightarrow> int \<times> int list \<times> int list \<times> int \<times> int \<times> int \<times> int" where
  "order_key left right v =
     (cs_sector_id (ci_color_state left), ci_ordered_external_labels left, ci_ordered_external_labels right, vertex_key v)"

definition vertex_has_colour_cached :: "'c engine \<Rightarrow> vertex \<Rightarrow> engine_caches \<Rightarrow> bool \<times> engine_caches" where
  "vertex_has_colour_cached e v cs =
     (case map_of (ec_vertex cs) (vertex_key v) of
        Some b \<Rightarrow> (b, cs)
      | None \<Rightarrow> let b = vertex_has_colour e v in (b, cs\<lparr>ec_vertex := (vertex_key v, b) # ec_vertex cs\<rparr>))"

definition proposed_labels_cached :: "'c engine \<Rightarrow> int list \<Rightarrow> bool \<Rightarrow> engine_caches \<Rightarrow> int list option \<times> engine_caches" where
  "proposed_labels_cached e proposed allow_reversed cs =
     (case ec_proposed cs of
        None \<Rightarrow> (shared_lc_ordered_proposed_labels e proposed allow_reversed, cs)
      | Some table \<Rightarrow>
          (case map_of table (proposed, allow_reversed) of
             Some r \<Rightarrow> (r, cs)
           | None \<Rightarrow> let r = shared_lc_ordered_proposed_labels e proposed allow_reversed
               in (r, cs\<lparr>ec_proposed := Some (((proposed, allow_reversed), r) # table)\<rparr>)))"

definition combination_labels_cached ::
  "'c engine \<Rightarrow> current_index \<Rightarrow> current_index \<Rightarrow> vertex \<Rightarrow> engine_caches \<Rightarrow> (int list option \<times> engine_caches) res" where
  "combination_labels_cached e left right v cs =
     (case map_of (ec_orders cs) (order_key left right v) of
        Some r \<Rightarrow> Inr (r, cs)
      | None \<Rightarrow>
          bindE (singlet_order_allowed e left right) (\<lambda>allowed.
          let proposed = ci_ordered_external_labels left @ ci_ordered_external_labels right
          in bindE
            (if \<not> allowed then Inr (None, cs)
             else if en_single_trace e then Inr (if proposed \<in> set (concat (map segments_of (en_trace_words e))) then Some proposed else None, cs)
             else if en_orderings e then Inr (proposed_labels_cached e proposed False cs)
             else case sector_by_id e (cs_sector_id (ci_color_state left)) of
                 None \<Rightarrow> Inr (Some proposed, cs)
               | Some s \<Rightarrow> bindE (own_sector_words e s) (\<lambda>words.
                   Inr (first_ordered_segment s (ci_ordered_external_labels left) (ci_ordered_external_labels right) words, cs)))
            (\<lambda>(r, cs'). Inr (r, cs'\<lparr>ec_orders := (order_key left right v, r) # ec_orders cs'\<rparr>))))"

definition combination_allowed_cached ::
  "'c engine \<Rightarrow> current_index \<Rightarrow> current_index \<Rightarrow> vertex \<Rightarrow> engine_caches \<Rightarrow> (bool \<times> engine_caches) res" where
  "combination_allowed_cached e left right v cs =
     (case vertex_has_colour_cached e v cs of (coloured, cs') \<Rightarrow>
        if \<not> coloured then Inr (True, cs')
        else if en_orderings e
        then (case proposed_labels_cached e (ci_ordered_external_labels left @ ci_ordered_external_labels right) False cs' of
                (r, cs'') \<Rightarrow> Inr (r \<noteq> None, cs''))
        else case sector_by_id e (cs_sector_id (ci_color_state left)) of
            None \<Rightarrow> Inr (True, cs')
          | Some s \<Rightarrow>
              if sc_kind s = Singlet_Sector \<and> list_all (\<lambda>w. w = []) (admissible_traversal_words s) then Inr (True, cs')
              else bindE (own_sector_words e s) (\<lambda>words.
                Inr (list_ex (ordered_combination_matches_word (ci_ordered_external_labels left) (ci_ordered_external_labels right)) words, cs')))"

section \<open>The tables cannot be observed\<close>

definition orders_sources :: "current_index \<Rightarrow> bool" where
  "orders_sources c \<longleftrightarrow> set (ci_ordered_external_labels c) = set (ci_external_labels c)"

definition valid_pair :: "current_index \<times> current_index \<times> vertex \<Rightarrow> bool" where
  "valid_pair k \<longleftrightarrow> (case k of (left, right, v) \<Rightarrow> orders_sources left \<and> orders_sources right)"

definition sound_caches :: "'c engine \<Rightarrow> engine_caches \<Rightarrow> bool" where
  "sound_caches e cs \<longleftrightarrow>
     (\<forall>v b. map_of (ec_vertex cs) (vertex_key v) = Some b \<longrightarrow> vertex_has_colour e v = b) \<and>
     (\<forall>l r v labels. map_of (ec_orders cs) (order_key l r v) = Some labels \<longrightarrow> valid_pair (l, r, v) \<longrightarrow>
        ordered_combination_labels e l r v = Inr labels) \<and>
     (\<forall>table p b labels. ec_proposed cs = Some table \<longrightarrow> map_of table (p, b) = Some labels \<longrightarrow>
        shared_lc_ordered_proposed_labels e p b = labels)"

lemma order_key_decides:
  assumes "order_key l r v = order_key l' r' v'" "valid_pair (l, r, v)" "valid_pair (l', r', v')"
  shows "ordered_combination_labels e l r v = ordered_combination_labels e l' r' v'"
proof -
  have same: "ci_ordered_external_labels l = ci_ordered_external_labels l'" "ci_ordered_external_labels r = ci_ordered_external_labels r'"
    "cs_sector_id (ci_color_state l) = cs_sector_id (ci_color_state l')"
    using assms(1) by (simp_all add: order_key_def)
  then have ext: "set (ci_external_labels l) = set (ci_external_labels l')" "set (ci_external_labels r) = set (ci_external_labels r')"
    using assms(2,3) by (simp_all add: valid_pair_def orders_sources_def)
  then have "ci_external_labels l = [] \<longleftrightarrow> ci_external_labels l' = []" "ci_external_labels r = [] \<longleftrightarrow> ci_external_labels r' = []"
    by (metis set_empty)+
  then have sing: "singlet_order_allowed e l r = singlet_order_allowed e l' r'"
    by (simp add: singlet_order_allowed_def all_external_labels_color_singlet_def ext Let_def)
  show ?thesis unfolding ordered_combination_labels_def shared_lc_ordered_combination_labels_def sing same ..
qed

lemma vertex_key_decides: "vertex_key v = vertex_key v' \<Longrightarrow> vertex_has_colour e v = vertex_has_colour e v'"
  by (simp add: vertex_key_def vertex_has_colour_def vertex_pids_def)

lemma vertex_cached:
  assumes "sound_caches e cs"
  obtains cs' where "vertex_has_colour_cached e v cs = (vertex_has_colour e v, cs')" "sound_caches e cs'"
proof (cases "map_of (ec_vertex cs) (vertex_key v)")
  case (Some b)
  then show ?thesis using that assms by (simp add: vertex_has_colour_cached_def sound_caches_def)
next
  case None
  show ?thesis
  proof (rule that)
    show "vertex_has_colour_cached e v cs =
        (vertex_has_colour e v, cs\<lparr>ec_vertex := (vertex_key v, vertex_has_colour e v) # ec_vertex cs\<rparr>)"
      by (simp add: vertex_has_colour_cached_def None Let_def)
    show "sound_caches e (cs\<lparr>ec_vertex := (vertex_key v, vertex_has_colour e v) # ec_vertex cs\<rparr>)"
      unfolding sound_caches_def
    proof (intro conjI allI impI)
      fix v' b
      assume "map_of (ec_vertex (cs\<lparr>ec_vertex := (vertex_key v, vertex_has_colour e v) # ec_vertex cs\<rparr>)) (vertex_key v') = Some b"
      then show "vertex_has_colour e v' = b" using assms
        by (cases "vertex_key v' = vertex_key v") (simp_all add: vertex_key_decides [of v' v e] sound_caches_def)
    qed (use assms in \<open>simp_all add: sound_caches_def\<close>)
  qed
qed

lemma proposed_cached:
  assumes "sound_caches e cs"
  obtains cs' where "proposed_labels_cached e p b cs = (shared_lc_ordered_proposed_labels e p b, cs')" "sound_caches e cs'"
    "ec_orders cs' = ec_orders cs"
proof (cases "ec_proposed cs")
  case None
  then show ?thesis using that assms by (simp add: proposed_labels_cached_def)
next
  case table: (Some table)
  show ?thesis
  proof (cases "map_of table (p, b)")
    case (Some labels)
    then show ?thesis using that [of cs] assms table by (simp add: proposed_labels_cached_def sound_caches_def)
  next
    case None
    let ?r = "shared_lc_ordered_proposed_labels e p b"
    show ?thesis
    proof (rule that)
      show "proposed_labels_cached e p b cs = (?r, cs\<lparr>ec_proposed := Some (((p, b), ?r) # table)\<rparr>)"
        by (simp add: proposed_labels_cached_def table None Let_def)
      show "sound_caches e (cs\<lparr>ec_proposed := Some (((p, b), ?r) # table)\<rparr>)"
        using assms table by (auto simp: sound_caches_def)
    qed simp
  qed
qed


lemma combination_labels_transparent:
  assumes snd: "sound_caches e cs" and val: "valid_pair (l, r, v)"
  shows "map_sum id fst (combination_labels_cached e l r v cs) = ordered_combination_labels e l r v"
    and "combination_labels_cached e l r v cs = Inr (labels, cs') \<Longrightarrow> sound_caches e cs'"
proof -
  have both: "map_sum id fst (combination_labels_cached e l r v cs) = ordered_combination_labels e l r v \<and>
    (\<forall>labels cs'. combination_labels_cached e l r v cs = Inr (labels, cs') \<longrightarrow> sound_caches e cs')"
  proof (cases "map_of (ec_orders cs) (order_key l r v)")
    case (Some labels)
    then have "combination_labels_cached e l r v cs = Inr (labels, cs)" by (simp add: combination_labels_cached_def)
    moreover have "ordered_combination_labels e l r v = Inr labels" using snd val Some unfolding sound_caches_def by blast
    ultimately show ?thesis using snd by simp
  next
    case None
    let ?proposed = "ci_ordered_external_labels l @ ci_ordered_external_labels r"
    obtain cs1 where p: "proposed_labels_cached e ?proposed False cs = (shared_lc_ordered_proposed_labels e ?proposed False, cs1)"
      "sound_caches e cs1" "ec_orders cs1 = ec_orders cs" by (rule proposed_cached [OF snd])
    have run: "(\<exists>ex. combination_labels_cached e l r v cs = Inl ex \<and> ordered_combination_labels e l r v = Inl ex) \<or>
      (\<exists>labels cs2. combination_labels_cached e l r v cs = Inr (labels, cs2\<lparr>ec_orders := (order_key l r v, labels) # ec_orders cs2\<rparr>) \<and>
         ordered_combination_labels e l r v = Inr labels \<and> sound_caches e cs2 \<and> ec_orders cs2 = ec_orders cs)"
    proof (cases "singlet_order_allowed e l r")
      case (Inl ex)
      then show ?thesis by (simp add: combination_labels_cached_def ordered_combination_labels_def None Let_def)
    next
      case (Inr allowed)
      show ?thesis
      proof (cases "allowed \<and> \<not> en_single_trace e \<and> \<not> en_orderings e")
        case True
        then show ?thesis using Inr snd
          by (cases "sector_by_id e (cs_sector_id (ci_color_state l))"; cases "own_sector_words e (the (sector_by_id e (cs_sector_id (ci_color_state l))))")
            (auto simp: combination_labels_cached_def ordered_combination_labels_def None Let_def intro: exI [of _ cs])
      next
        case False
        then show ?thesis using Inr snd p
          by (cases allowed; cases "en_single_trace e")
            (auto simp: combination_labels_cached_def ordered_combination_labels_def None Let_def shared_lc_ordered_combination_labels_def
              intro: exI [of _ cs] exI [of _ cs1])
      qed
    qed
    show ?thesis
    proof (cases "\<exists>ex. combination_labels_cached e l r v cs = Inl ex \<and> ordered_combination_labels e l r v = Inl ex")
      case True
      then show ?thesis by auto
    next
      case False
      with run obtain labels cs2 where c: "combination_labels_cached e l r v cs = Inr (labels, cs2\<lparr>ec_orders := (order_key l r v, labels) # ec_orders cs2\<rparr>)"
        "ordered_combination_labels e l r v = Inr labels" "sound_caches e cs2" by blast
      have "sound_caches e (cs2\<lparr>ec_orders := (order_key l r v, labels) # ec_orders cs2\<rparr>)"
        unfolding sound_caches_def
      proof (intro conjI allI impI)
        fix l' r' v' labels'
        assume "map_of (ec_orders (cs2\<lparr>ec_orders := (order_key l r v, labels) # ec_orders cs2\<rparr>)) (order_key l' r' v') = Some labels'"
          "valid_pair (l', r', v')"
        then show "ordered_combination_labels e l' r' v' = Inr labels'"
          using c(2,3) order_key_decides [OF _ val, of l' r' v' e]
          by (cases "order_key l' r' v' = order_key l r v") (simp_all add: sound_caches_def)
      qed (use c(3) in \<open>simp_all add: sound_caches_def\<close>)
      then show ?thesis using c(1,2) by simp
    qed
  qed
  show "map_sum id fst (combination_labels_cached e l r v cs) = ordered_combination_labels e l r v" using both by blast
  show "combination_labels_cached e l r v cs = Inr (labels, cs') \<Longrightarrow> sound_caches e cs'" using both by blast
qed

lemma combination_allowed_transparent:
  assumes snd: "sound_caches e cs"
  shows "map_sum id fst (combination_allowed_cached e l r v cs) = ordered_combination_allowed e l r v"
    and "combination_allowed_cached e l r v cs = Inr (b, cs') \<Longrightarrow> sound_caches e cs'"
proof -
  obtain cs1 where v: "vertex_has_colour_cached e v cs = (vertex_has_colour e v, cs1)" "sound_caches e cs1"
    by (rule vertex_cached [OF snd])
  let ?proposed = "ci_ordered_external_labels l @ ci_ordered_external_labels r"
  obtain cs2 where p: "proposed_labels_cached e ?proposed False cs1 = (shared_lc_ordered_proposed_labels e ?proposed False, cs2)" "sound_caches e cs2"
    by (rule proposed_cached [OF v(2)])
  have both: "map_sum id fst (combination_allowed_cached e l r v cs) = ordered_combination_allowed e l r v \<and>
    (\<forall>b cs'. combination_allowed_cached e l r v cs = Inr (b, cs') \<longrightarrow> sound_caches e cs')"
  proof (cases "vertex_has_colour e v \<and> \<not> en_orderings e")
    case True
    then show ?thesis using v
      by (cases "sector_by_id e (cs_sector_id (ci_color_state l))"; cases "own_sector_words e (the (sector_by_id e (cs_sector_id (ci_color_state l))))")
        (auto simp: combination_allowed_cached_def ordered_combination_allowed_def)
  next
    case False
    then show ?thesis using v p
      by (cases "vertex_has_colour e v")
        (simp_all add: combination_allowed_cached_def ordered_combination_allowed_def shared_lc_ordered_combination_labels_def)
  qed
  show "map_sum id fst (combination_allowed_cached e l r v cs) = ordered_combination_allowed e l r v" using both by blast
  show "combination_allowed_cached e l r v cs = Inr (b, cs') \<Longrightarrow> sound_caches e cs'" using both by blast
qed

definition proposed_if_shared_cached :: "'c engine \<Rightarrow> int list \<Rightarrow> bool \<Rightarrow> engine_caches \<Rightarrow> int list option \<times> engine_caches" where
  "proposed_if_shared_cached e proposed allow_reversed cs =
     (if \<not> en_orderings e then (None, cs) else proposed_labels_cached e proposed allow_reversed cs)"

lemma proposed_if_shared_transparent:
  assumes "sound_caches e cs"
  obtains cs' where "proposed_if_shared_cached e p b cs = (proposed_labels_if_shared e p b, cs')" "sound_caches e cs'"
proof (cases "en_orderings e")
  case True
  obtain cs' where "proposed_labels_cached e p b cs = (shared_lc_ordered_proposed_labels e p b, cs')" "sound_caches e cs'"
    by (rule proposed_cached [OF assms])
  then show ?thesis using that True by (simp add: proposed_if_shared_cached_def proposed_labels_if_shared_def)
qed (use that assms in \<open>simp add: proposed_if_shared_cached_def proposed_labels_if_shared_def\<close>)

text \<open>With shared orderings the combination keeps the ordered labels equal to the external ones.\<close>

lemma shared_orders_keep_sources:
  assumes "en_orderings e" "orders_sources l" "orders_sources r" "ordered_combination_labels e l r v = Inr (Some labels)"
  shows "set labels = set (ci_external_labels l) \<union> set (ci_external_labels r)"
proof -
  have "shared_lc_ordered_proposed_labels e p b = Some ls \<Longrightarrow>
      ls = coloured_part e p @ sort (filter (\<lambda>l. l \<notin> set (en_coloured e)) p)" for p b ls
    by (auto simp: shared_lc_ordered_proposed_labels_def Let_def split: if_splits)
  moreover have "set (coloured_part e p @ sort (filter (\<lambda>l. l \<notin> set (en_coloured e)) p)) = set p" for p
    by (auto simp: coloured_part_def)
  ultimately have "shared_lc_ordered_proposed_labels e p b = Some ls \<Longrightarrow> set ls = set p" for p b ls by metis
  then show ?thesis using assms
    by (fastforce simp: ordered_combination_labels_def shared_lc_ordered_combination_labels_def orders_sources_def bindE_Inr_iff Let_def split: if_splits)
qed

section \<open>Sequences of requests\<close>

text \<open>
  The three entry points that reach a table: \<open>ordered_combination_labels\<close>,
  \<open>ordered_combination_allowed\<close> and \<open>shared_lc_ordered_proposed_labels\<close>, which the compiler calls
  directly, with reversal allowed, for the reflected orders of a pair of currents.
\<close>

datatype request =
  Ask_Labels current_index current_index vertex
| Ask_Allowed current_index current_index vertex
| Ask_Proposed "int list" bool

fun answer :: "'c engine \<Rightarrow> request \<Rightarrow> (int list option + bool) res" where
  "answer e (Ask_Labels l r v) = map_sum id Inl (ordered_combination_labels e l r v)"
| "answer e (Ask_Allowed l r v) = map_sum id Inr (ordered_combination_allowed e l r v)"
| "answer e (Ask_Proposed p allow_reversed) = Inr (Inl (proposed_labels_if_shared e p allow_reversed))"

fun answer_cached :: "'c engine \<Rightarrow> request \<Rightarrow> engine_caches \<Rightarrow> ((int list option + bool) \<times> engine_caches) res" where
  "answer_cached e (Ask_Labels l r v) cs = bindE (combination_labels_cached e l r v cs) (\<lambda>(labels, cs'). Inr (Inl labels, cs'))"
| "answer_cached e (Ask_Allowed l r v) cs = bindE (combination_allowed_cached e l r v cs) (\<lambda>(b, cs'). Inr (Inr b, cs'))"
| "answer_cached e (Ask_Proposed p allow_reversed) cs =
     (case proposed_if_shared_cached e p allow_reversed cs of (labels, cs') \<Rightarrow> Inr (Inl labels, cs'))"

fun valid_request :: "request \<Rightarrow> bool" where
  "valid_request (Ask_Labels l r v) = valid_pair (l, r, v)"
| "valid_request (Ask_Allowed l r v) = True"
| "valid_request (Ask_Proposed p allow_reversed) = True"

lemma answer_transparent:
  assumes snd: "sound_caches e cs" and val: "valid_request q"
  shows "map_sum id fst (answer_cached e q cs) = answer e q"
    and "answer_cached e q cs = Inr (a, cs') \<Longrightarrow> sound_caches e cs'"
proof -
  have "map_sum id fst (answer_cached e q cs) = answer e q \<and>
    (\<forall>a cs'. answer_cached e q cs = Inr (a, cs') \<longrightarrow> sound_caches e cs')"
  proof (cases q)
    case (Ask_Labels l r v)
    then have "valid_pair (l, r, v)" using val by simp
    note labels = combination_labels_transparent [OF snd this]
    show ?thesis using labels(1) [symmetric] labels(2) Ask_Labels
      by (cases "combination_labels_cached e l r v cs") auto
  next
    case (Ask_Allowed l r v)
    then show ?thesis using combination_allowed_transparent(1) [OF snd, of l r v, symmetric] combination_allowed_transparent(2) [OF snd, of l r v]
      by (cases "combination_allowed_cached e l r v cs") auto
  next
    case (Ask_Proposed p b)
    obtain cs' where "proposed_if_shared_cached e p b cs = (proposed_labels_if_shared e p b, cs')" "sound_caches e cs'"
      by (rule proposed_if_shared_transparent [OF snd])
    then show ?thesis using Ask_Proposed by simp
  qed
  then show "map_sum id fst (answer_cached e q cs) = answer e q"
    and "answer_cached e q cs = Inr (a, cs') \<Longrightarrow> sound_caches e cs'" by blast+
qed

interpretation answers: memoised_on "answer_cached e" "answer e" "sound_caches e" valid_request for e
  by unfold_locales (use answer_transparent in blast)+

text \<open>
  C20. The memo tables of the colour engine are unobservable. Take any sequence of calls of the three
  methods that reach a table: the order of a combination, its admissibility, and the order of proposed
  labels with or without reversal. Where the ordered labels of the currents whose order is asked for
  are, as a set, their external labels, the calls started with empty tables get the answers,
  exceptions included, of the engine without tables; with or without the table of proposed orders.
\<close>

theorem engine_tables_transparent:
  assumes "\<forall>q \<in> set requests. valid_request q"
  shows "map_sum id fst (mapS (answer_cached e) requests (new_caches cache_orderings)) = mapE (answer e) requests"
proof (rule answers.pass_transparent [OF _ assms])
  show "sound_caches e (new_caches cache_orderings)" by (simp add: sound_caches_def new_caches_def)
qed


lemma engine_tables_transparent_witness:
  "map_sum id fst (mapS (answer_cached gluon_engine)
     [Ask_Labels (gluon_index [1] []) (gluon_index [2] []) gluon_vertex, Ask_Allowed (gluon_index [1] []) (gluon_index [2] []) gluon_vertex,
      Ask_Labels (gluon_index [1] []) (gluon_index [4] []) gluon_vertex,
      Ask_Proposed [2, 1] False, Ask_Proposed [2, 1] True] (new_caches True)) =
   Inr [Inl (Some [1, 2]), Inr True, Inl None, Inl None, Inl (Some [2, 1])]"
  (is "map_sum id fst (mapS _ ?requests _) = ?answers")
proof -
  have "\<forall>q \<in> set ?requests. valid_request q" by (simp add: valid_pair_def orders_sources_def gluon_index_def)
  moreover have "mapE (answer gluon_engine) ?requests = ?answers" by code_simp
  ultimately show ?thesis using engine_tables_transparent [of ?requests gluon_engine True] by simp
qed

end
