(* ===== verification/Mask_Sweep.thy ===== *)
theory Mask_Sweep
  imports Reachability
begin

text \<open>
  The shape shared by the sweeps over external masks: states carry a mask, a split of a mask into
  two reads the states of its two halves and adds the results of their transitions, and the masks
  are visited by size. The interface states what a client's transitions must satisfy; under it the
  sweep computes exactly the states that can be built and the transitions between them, and the
  backward marking exactly the states that feed a closure.
\<close>

inductive built :: "'s set \<Rightarrow> ('s \<Rightarrow> 's \<Rightarrow> 's \<Rightarrow> bool) \<Rightarrow> 's \<Rightarrow> bool" for sources step where
  source: "s \<in> sources \<Longrightarrow> built sources step s"
| step: "built sources step a \<Longrightarrow> built sources step b \<Longrightarrow> step a b s \<Longrightarrow> built sources step s"

inductive feeds :: "'s set \<Rightarrow> ('s \<Rightarrow> 's \<Rightarrow> 's \<Rightarrow> bool) \<Rightarrow> ('s \<Rightarrow> 's \<Rightarrow> bool) \<Rightarrow> 's \<Rightarrow> bool" for sources step closing where
  closing: "built sources step a \<Longrightarrow> built sources step b \<Longrightarrow> closing a b \<Longrightarrow> s \<in> {a, b} \<Longrightarrow> feeds sources step closing s"
| parent: "feeds sources step closing s \<Longrightarrow> built sources step a \<Longrightarrow> built sources step b \<Longrightarrow> step a b s \<Longrightarrow> p \<in> {a, b} \<Longrightarrow>
    feeds sources step closing p"

lemma feeds_built: "feeds sources step closing s \<Longrightarrow> built sources step s"
  by (induction rule: feeds.induct) auto

definition sweep_split_with ::
  "('t \<Rightarrow> 's) \<Rightarrow> ('s \<Rightarrow> bool) \<Rightarrow> ('s list \<Rightarrow> mask \<Rightarrow> mask \<times> mask \<Rightarrow> 't list) \<Rightarrow> mask \<Rightarrow> 's list \<times> 't list \<Rightarrow> mask \<times> mask
   \<Rightarrow> 's list \<times> 't list" where
  "sweep_split_with result keep moves m = (\<lambda>(possible, ts) split.
     let found = moves possible m split in (add_states (filter keep (map result found)) possible, ts @ found))"

definition sweep_mask_with ::
  "('t \<Rightarrow> 's) \<Rightarrow> ('s \<Rightarrow> bool) \<Rightarrow> ('s list \<Rightarrow> mask \<Rightarrow> mask \<times> mask \<Rightarrow> 't list) \<Rightarrow> (mask \<Rightarrow> bool) \<Rightarrow> 's list \<times> 't list \<Rightarrow> mask
   \<Rightarrow> 's list \<times> 't list" where
  "sweep_mask_with result keep moves skipped st m =
     (if skipped m then st else foldl (sweep_split_with result keep moves m) st (ordered_splits m))"

locale mask_sweep =
  fixes state_mask :: "'s \<Rightarrow> mask" and full :: mask and skipped :: "mask \<Rightarrow> bool" and sources :: "'s list"
    and pair :: "'s \<Rightarrow> 's \<Rightarrow> 't set" and result :: "'t \<Rightarrow> 's" and keep :: "'s \<Rightarrow> bool"
    and moves :: "'s list \<Rightarrow> mask \<Rightarrow> mask \<times> mask \<Rightarrow> 't list"
  assumes moves_pairs: "l OR r = m \<Longrightarrow>
      set (moves st m (l, r)) = (\<Union>a \<in> {a \<in> set st. state_mask a = l}. \<Union>b \<in> {b \<in> set st. state_mask b = r}. pair a b)"
    and pair_mask: "t \<in> pair a b \<Longrightarrow> state_mask (result t) = state_mask a OR state_mask b"
begin

definition legal :: "'s \<Rightarrow> 's \<Rightarrow> bool" where
  "legal a b \<longleftrightarrow> (let m = state_mask a OR state_mask b
     in m \<in> set (masks_by_size full) \<and> \<not> skipped m \<and> (state_mask a, state_mask b) \<in> set (ordered_splits m))"

definition kept_step :: "'s \<Rightarrow> 's \<Rightarrow> 's \<Rightarrow> bool" where
  "kept_step a b s \<longleftrightarrow> legal a b \<and> keep s \<and> (\<exists>t \<in> pair a b. result t = s)"

abbreviation possible_now :: "'s \<Rightarrow> bool" where
  "possible_now \<equiv> built (set sources) kept_step"

definition swept_to :: "mask set \<Rightarrow> 's list \<times> 't list \<Rightarrow> bool" where
  "swept_to done = (\<lambda>(possible, ts).
     set possible = {s. possible_now s \<and> (s \<in> set sources \<or> state_mask s \<in> done)} \<and>
     set ts = (\<Union>(a, b) \<in> {(a, b). possible_now a \<and> possible_now b \<and> legal a b \<and> state_mask a OR state_mask b \<in> done}. pair a b))"

lemma kept_step_mask: "kept_step a b s \<Longrightarrow> state_mask s = state_mask a OR state_mask b"
  unfolding kept_step_def using pair_mask by auto

lemma moves_frame:
  assumes "\<forall>s. state_mask s \<noteq> m \<longrightarrow> (s \<in> set x \<longleftrightarrow> s \<in> set y)" "(l, r) \<in> set (ordered_splits m)"
  shows "set (moves x m (l, r)) = set (moves y m (l, r))"
proof -
  have lr: "l OR r = m" "l \<noteq> m" "r \<noteq> m" using assms(2) ordered_splits_members [OF assms(2)] by (auto simp: set_ordered_splits)
  have "{a \<in> set x. state_mask a = k} = {a \<in> set y. state_mask a = k}" if "k \<noteq> m" for k using assms(1) that by blast
  then show ?thesis unfolding moves_pairs [OF lr(1)] using lr(2,3) by presburger
qed

text \<open>Within one mask the splits do not see each other's results.\<close>

lemma sweep_splits_with:
  assumes "set splits \<subseteq> set (ordered_splits m)"
  shows "case foldl (sweep_split_with result keep moves m) (possible, ts) splits of (possible', ts') \<Rightarrow>
     set ts' = set ts \<union> (\<Union>split \<in> set splits. set (moves possible m split)) \<and>
     set possible' = set possible \<union> {s \<in> result ` (\<Union>split \<in> set splits. set (moves possible m split)). keep s}"
  using assms
proof (induction splits rule: rev_induct)
  case (snoc split splits)
  obtain pos rev where f: "foldl (sweep_split_with result keep moves m) (possible, ts) splits = (pos, rev)" by fastforce
  let ?U = "\<Union>split \<in> set splits. set (moves possible m split)"
  from snoc have IH: "set rev = set ts \<union> ?U" "set pos = set possible \<union> {s \<in> result ` ?U. keep s}" by (simp_all add: f)
  have sp: "split \<in> set (ordered_splits m)" using snoc.prems by simp
  have "state_mask (result t) = m" if "t \<in> set (moves possible m sp)" "sp \<in> set (ordered_splits m)" for t sp
  proof -
    obtain l r where lr: "sp = (l, r)" by (cases sp)
    have o: "l OR r = m" using that(2) by (simp add: lr set_ordered_splits)
    from that(1) obtain a b where "t \<in> pair a b" "state_mask a = l" "state_mask b = r" unfolding lr moves_pairs [OF o] by blast
    then show ?thesis using pair_mask o by blast
  qed
  then have "\<forall>s. state_mask s \<noteq> m \<longrightarrow> (s \<in> set pos \<longleftrightarrow> s \<in> set possible)"
    unfolding IH(2) using snoc.prems by auto
  then have T: "set (moves pos m split) = set (moves possible m split)"
    using moves_frame [of m pos possible "fst split" "snd split"] sp by simp
  have step: "foldl (sweep_split_with result keep moves m) (possible, ts) (splits @ [split]) =
     (add_states (filter keep (map result (moves pos m split))) pos, rev @ moves pos m split)"
    by (simp add: f) (simp add: sweep_split_with_def Let_def)
  have "set (add_states (filter keep (map result (moves pos m split))) pos) =
      set possible \<union> {s \<in> result ` (?U \<union> set (moves possible m split)). keep s}"
    unfolding set_add_states IH(2) set_filter set_map T by blast
  moreover have "set (rev @ moves pos m split) = set ts \<union> (?U \<union> set (moves possible m split))" using IH(1) T by auto
  moreover have "(\<Union>sp \<in> set (splits @ [split]). set (moves possible m sp)) = ?U \<union> set (moves possible m split)" by auto
  ultimately show ?case unfolding step by (simp only: prod.case simp_thms)
qed simp

lemma sweep_one_mask:
  assumes split: "masks_by_size full = xs @ m # ys" and sw: "swept_to (set xs) st"
  shows "swept_to (set (xs @ [m])) (sweep_mask_with result keep moves skipped st m)"
proof (cases "skipped m")
  case True
  have no: "\<not> legal a b" if "state_mask a OR state_mask b = m" for a b using True that by (simp add: legal_def Let_def)
  have "s \<in> set sources \<or> state_mask s \<in> set xs" if "possible_now s" "state_mask s = m" for s
    using that(1)
  proof cases
    case (step a b)
    then have "legal a b" "state_mask s = state_mask a OR state_mask b" using kept_step_mask by (auto simp: kept_step_def)
    then show ?thesis using no [of a b] that(2) by simp
  qed simp
  then have "{s. possible_now s \<and> (s \<in> set sources \<or> state_mask s \<in> set (xs @ [m]))} =
      {s. possible_now s \<and> (s \<in> set sources \<or> state_mask s \<in> set xs)}" by auto
  moreover have "{(a, b). possible_now a \<and> possible_now b \<and> legal a b \<and> state_mask a OR state_mask b \<in> set (xs @ [m])} =
      {(a, b). possible_now a \<and> possible_now b \<and> legal a b \<and> state_mask a OR state_mask b \<in> set xs}" using no by auto
  ultimately show ?thesis using sw True by (cases st) (simp add: swept_to_def sweep_mask_with_def)
next
  case False
  obtain possible ts where st: "st = (possible, ts)" by (cases st)
  from sw have P: "set possible = {s. possible_now s \<and> (s \<in> set sources \<or> state_mask s \<in> set xs)}"
    and T: "set ts = (\<Union>(a, b) \<in> {(a, b). possible_now a \<and> possible_now b \<and> legal a b \<and> state_mask a OR state_mask b \<in> set xs}. pair a b)"
    by (simp_all add: swept_to_def st)
  have m: "m \<in> set (masks_by_size full)" by (simp add: split)
  have half: "s \<in> set possible \<longleftrightarrow> possible_now s" if "state_mask s \<in> {l, r}" "(l, r) \<in> set (ordered_splits m)" for s l r
  proof -
    note mem = ordered_splits_members [OF that(2)]
    have "l \<in> set xs" by (rule masks_by_size_earlier [OF split mem(1) mem(3) mem(5)])
    moreover have "r \<in> set xs" by (rule masks_by_size_earlier [OF split mem(2) mem(4) mem(6)])
    ultimately show ?thesis unfolding P using that(1) by auto
  qed
  let ?new = "\<Union>(a, b) \<in> {(a, b). possible_now a \<and> possible_now b \<and> legal a b \<and> state_mask a OR state_mask b = m}. pair a b"
  have legal_m: "legal a b \<longleftrightarrow> (state_mask a, state_mask b) \<in> set (ordered_splits m)" if "state_mask a OR state_mask b = m" for a b
    using that m False by (simp add: legal_def Let_def)
  have found: "(\<Union>sp \<in> set (ordered_splits m). set (moves possible m sp)) = ?new"
  proof (intro set_eqI iffI)
    fix t assume "t \<in> (\<Union>sp \<in> set (ordered_splits m). set (moves possible m sp))"
    then obtain l r where lr: "(l, r) \<in> set (ordered_splits m)" "t \<in> set (moves possible m (l, r))" by auto
    then have o: "l OR r = m" by (simp add: set_ordered_splits)
    from lr(2) obtain a b where ab: "a \<in> set possible" "b \<in> set possible" "state_mask a = l" "state_mask b = r" "t \<in> pair a b"
      unfolding moves_pairs [OF o] by blast
    then have "possible_now a" "possible_now b" "legal a b" "state_mask a OR state_mask b = m"
      using half [of a l r] half [of b l r] lr(1) legal_m [of a b] o by auto
    then show "t \<in> ?new" using ab(5) by blast
  next
    fix t assume "t \<in> ?new"
    then obtain a b where ab: "possible_now a" "possible_now b" "legal a b" "state_mask a OR state_mask b = m" "t \<in> pair a b" by auto
    then have lr: "(state_mask a, state_mask b) \<in> set (ordered_splits m)" using legal_m by blast
    then have "a \<in> set possible" "b \<in> set possible" using half [of a] half [of b] ab(1,2) by blast+
    then have "t \<in> set (moves possible m (state_mask a, state_mask b))" unfolding moves_pairs [OF ab(4)] using ab(5) by blast
    then show "t \<in> (\<Union>sp \<in> set (ordered_splits m). set (moves possible m sp))" using lr by blast
  qed
  obtain possible' ts' where r: "foldl (sweep_split_with result keep moves m) (possible, ts) (ordered_splits m) = (possible', ts')" by fastforce
  from sweep_splits_with [OF subset_refl, where possible = possible and ts = ts and m = m] r found
  have R: "set ts' = set ts \<union> ?new" "set possible' = set possible \<union> {s \<in> result ` ?new. keep s}" by simp_all
  have new_iff: "s \<in> {s \<in> result ` ?new. keep s} \<longleftrightarrow> (\<exists>a b. possible_now a \<and> possible_now b \<and> kept_step a b s \<and> state_mask s = m)" for s
  proof
    assume "s \<in> {s \<in> result ` ?new. keep s}"
    then obtain t a b where t: "s = result t" "keep s" "t \<in> pair a b" "possible_now a" "possible_now b" "legal a b" "state_mask a OR state_mask b = m"
      by auto
    then have "kept_step a b s" unfolding kept_step_def by blast
    then show "\<exists>a b. possible_now a \<and> possible_now b \<and> kept_step a b s \<and> state_mask s = m" using t kept_step_mask by metis
  next
    assume "\<exists>a b. possible_now a \<and> possible_now b \<and> kept_step a b s \<and> state_mask s = m"
    then obtain a b where ab: "possible_now a" "possible_now b" "kept_step a b s" "state_mask s = m" by blast
    then obtain t where "keep s" "t \<in> pair a b" "result t = s" "legal a b" unfolding kept_step_def by blast
    moreover have "state_mask a OR state_mask b = m" using kept_step_mask [OF ab(3)] ab(4) by simp
    ultimately show "s \<in> {s \<in> result ` ?new. keep s}" using ab(1,2) by blast
  qed
  have "s \<in> set possible' \<longleftrightarrow> possible_now s \<and> (s \<in> set sources \<or> state_mask s \<in> set (xs @ [m]))" for s
  proof
    assume "s \<in> set possible'"
    then show "possible_now s \<and> (s \<in> set sources \<or> state_mask s \<in> set (xs @ [m]))"
      unfolding R(2) Un_iff new_iff P using built.step [of "set sources" kept_step] by auto
  next
    assume s: "possible_now s \<and> (s \<in> set sources \<or> state_mask s \<in> set (xs @ [m]))"
    show "s \<in> set possible'"
    proof (cases "s \<in> set sources \<or> state_mask s \<in> set xs")
      case True
      then show ?thesis using s unfolding R(2) P by blast
    next
      case out: False
      then have "state_mask s = m" using s by simp
      moreover from s out obtain a b where "possible_now a" "possible_now b" "kept_step a b s" by (metis built.cases)
      ultimately show ?thesis unfolding R(2) Un_iff new_iff by blast
    qed
  qed
  moreover have "set ts' = (\<Union>(a, b) \<in> {(a, b). possible_now a \<and> possible_now b \<and> legal a b \<and> state_mask a OR state_mask b \<in> set (xs @ [m])}. pair a b)"
    unfolding R(1) T by auto
  ultimately show ?thesis using False by (simp add: swept_to_def sweep_mask_with_def st r) blast
qed

lemma sweep_exact_with:
  assumes "\<forall>s \<in> set sources. keep s"
    and r: "foldl (sweep_mask_with result keep moves skipped) (sources, []) (masks_by_size full) = (possible, ts)"
  shows "s \<in> set possible \<longleftrightarrow> possible_now s"
    and "t \<in> set ts \<longleftrightarrow> (\<exists>a b. possible_now a \<and> possible_now b \<and> legal a b \<and> t \<in> pair a b)"
proof -
  have "swept_to (set xs) (foldl (sweep_mask_with result keep moves skipped) (sources, []) xs)" if "masks_by_size full = xs @ ys" for xs ys
    using that
  proof (induction xs arbitrary: ys rule: rev_induct)
    case Nil
    then show ?case by (auto simp: swept_to_def intro: built.source)
  next
    case (snoc m xs)
    then have s: "masks_by_size full = xs @ m # ys" by simp
    from sweep_one_mask [OF s snoc.IH [OF s]] show ?case by simp
  qed
  from this [of "masks_by_size full" "[]"] r have sw: "swept_to (set (masks_by_size full)) (possible, ts)" by simp
  have all: "possible_now s \<Longrightarrow> s \<in> set sources \<or> state_mask s \<in> set (masks_by_size full)" for s
    by (erule built.cases) (auto simp: kept_step_def legal_def Let_def dest: pair_mask)
  show "s \<in> set possible \<longleftrightarrow> possible_now s" using sw all by (auto simp: swept_to_def)
  have "legal a b \<Longrightarrow> state_mask a OR state_mask b \<in> set (masks_by_size full)" for a b by (simp add: legal_def Let_def)
  then show "t \<in> set ts \<longleftrightarrow> (\<exists>a b. possible_now a \<and> possible_now b \<and> legal a b \<and> t \<in> pair a b)"
    using sw by (auto simp: swept_to_def)
qed

text \<open>The backward marking over the recorded transitions.\<close>

lemma marking_exact:
  assumes keep: "\<forall>s \<in> set sources. keep s"
    and r: "foldl (sweep_mask_with result keep moves skipped) (sources, []) (masks_by_size full) = (possible, ts)"
    and ends: "\<And>t a b. t \<in> pair a b \<Longrightarrow> ends t = (a, b)"
    and C: "\<And>s. s \<in> set C \<longleftrightarrow> (\<exists>a b. possible_now a \<and> possible_now b \<and> closing a b \<and> s \<in> {a, b})"
  shows "s \<in> set (mark_useful (map (\<lambda>t. (result t, ends t)) ts) C C) \<longleftrightarrow> feeds (set sources) kept_step closing s"
proof -
  let ?rev = "map (\<lambda>t. (result t, ends t)) ts"
  have u: "set (mark_useful ?rev C C) = (parent_rel ?rev)\<^sup>* `` set C" by (rule mark_useful_closure) simp_all
  have kept: "possible_now s \<Longrightarrow> keep s" for s by (erule built.cases) (use keep in \<open>auto simp: kept_step_def\<close>)
  have rel: "(s, p) \<in> parent_rel ?rev \<longleftrightarrow> (\<exists>a b. possible_now a \<and> possible_now b \<and> kept_step a b s \<and> p \<in> {a, b})"
    if "possible_now s" for s p
  proof
    assume "(s, p) \<in> parent_rel ?rev"
    then obtain a b where ab: "(s, a, b) \<in> set ?rev" "p \<in> {a, b}" unfolding parent_rel_iff by blast
    then obtain t where t: "t \<in> set ts" "result t = s" "ends t = (a, b)" by auto
    then obtain a' b' where t': "possible_now a'" "possible_now b'" "legal a' b'" "t \<in> pair a' b'" using sweep_exact_with(2) [OF keep r] by blast
    then have "a' = a" "b' = b" using ends [OF t'(4)] t(3) by simp_all
    then have "kept_step a b s" using t' t(2) kept [OF that] unfolding kept_step_def by blast
    then show "\<exists>a b. possible_now a \<and> possible_now b \<and> kept_step a b s \<and> p \<in> {a, b}" using t' \<open>a' = a\<close> \<open>b' = b\<close> ab(2) by blast
  next
    assume "\<exists>a b. possible_now a \<and> possible_now b \<and> kept_step a b s \<and> p \<in> {a, b}"
    then obtain a b t where ab: "possible_now a" "possible_now b" "legal a b" "t \<in> pair a b" "result t = s" "p \<in> {a, b}"
      unfolding kept_step_def by blast
    then have "t \<in> set ts" using sweep_exact_with(2) [OF keep r] by blast
    then have "(s, a, b) \<in> set ?rev" using ends [OF ab(4)] ab(5) by force
    then show "(s, p) \<in> parent_rel ?rev" unfolding parent_rel_iff using ab(6) by blast
  qed
  have "feeds (set sources) kept_step closing s" if "(c, s) \<in> (parent_rel ?rev)\<^sup>*" "c \<in> set C" for c s
    using that
  proof (induction rule: rtrancl_induct)
    case base
    then show ?case unfolding C by (blast intro: feeds.closing)
  next
    case (step y z)
    note f = step.IH [OF step.prems]
    from step(2) obtain a b where "possible_now a" "possible_now b" "kept_step a b y" "z \<in> {a, b}"
      unfolding rel [OF feeds_built [OF f]] by blast
    then show ?case by (rule feeds.parent [OF f])
  qed
  moreover have "s \<in> (parent_rel ?rev)\<^sup>* `` set C" if "feeds (set sources) kept_step closing s" for s
    using that
  proof (induction rule: feeds.induct)
    case (closing a b s)
    then have "s \<in> set C" unfolding C by blast
    then show ?case by blast
  next
    case (parent s a b p)
    then have "(s, p) \<in> parent_rel ?rev" unfolding rel [OF feeds_built [OF parent.hyps(1)]] by blast
    with parent.IH show ?case by (meson Image_iff rtrancl.rtrancl_into_rtrancl)
  qed
  ultimately show ?thesis unfolding u by blast
qed

end

end
