(* ===== verification/Live_Plan.thy ===== *)
theory Live_Plan
  imports Mask_Sweep Color_Engine
begin

text \<open>
  The backward live-state plan (\<open>build_backward_live_state_plan\<close> in
  \<open>generation/dag_algorithms.py\<close>): a sweep over external masks with the exact colour states,
  label orders, coupling orders and quantum flows of currents, the closures at the candidate splits,
  and the backward walk that keeps the shapes feeding a closure. It composes the colour engine, the
  vertex tables, the coupling orders, the source contracts and the mask sweeps. The lookup tables of
  the loops that store what they would recompute are left out; the model methods a concrete model
  overrides are fields of the environment.
\<close>

section \<open>Shapes, transitions and closures\<close>

record quantum_flow =
  qf_chirality :: int
  qf_spin_state :: spin_state
  qf_flavour_flow :: "int list"
  qf_quantum_number_flow :: "(string \<times> string) list"
  qf_coupling :: weight

record live_shape =
  sh_mask :: mask
  sh_labels :: "int list"
  sh_particle :: int
  sh_ordered :: "int list"
  sh_color :: color_state
  sh_orders :: orders
  sh_chirality :: int
  sh_spin :: spin_state
  sh_flavour :: "int list"
  sh_quantum :: "(string \<times> string) list"

record live_transition =
  tr_left :: live_shape
  tr_right :: live_shape
  tr_result :: live_shape
  tr_kind :: int
  tr_particles :: "int \<times> int \<times> int"
  tr_coupling :: weight
  tr_color_weight :: weight

record 'c live_closure =
  lc_left :: live_shape
  lc_right :: live_shape
  lc_color_weight :: weight
  lc_contraction :: 'c
  lc_sector :: int
  lc_vertex :: "(int \<times> int \<times> int \<times> int) option"
  lc_coupling :: weight

record live_source =
  sr_shape :: live_shape
  sr_ancestry :: nat
  sr_label :: int
  sr_helicity :: int

record 'c live_plan =
  lv_shapes :: "live_shape list"
  lv_sectors :: "int list"
  lv_transitions :: "live_transition list"
  lv_closures :: "'c live_closure list"
  lv_sources :: "live_source list"

record 'c live_env =
  le_process :: process_ir
  le_model :: "'c vertex_model"
  le_vertices :: "vertex list"
  le_engine :: "'c engine"
  le_full :: mask
  le_splits :: "(mask \<times> mask) list"
  le_closure_masks :: "mask set option"
  le_color_masks :: "mask set option"
  le_useful :: "reach_state list option"
  le_limits :: orders
  le_line_limit :: "nat option"
  le_ignored_particles :: "int list"
  le_ignored_kinds :: "int list"
  le_selected :: "(int \<times> int) list"
  le_anchor :: "(int \<times> int) option"
  le_quantum_flows :: "vertex \<Rightarrow> live_shape \<Rightarrow> live_shape \<Rightarrow> quantum_flow list"
  le_current_allowed :: "live_shape \<Rightarrow> bool"
  le_vertex_weight :: "vertex \<Rightarrow> weight"
  le_closure_allowed :: "vertex \<Rightarrow> bool"
  le_quantum_numbers :: "int \<Rightarrow> (string \<times> string) list"

text \<open>What the colour engine reads of a shape, and the shape of a current.\<close>

definition as_index :: "live_shape \<Rightarrow> current_index" where
  "as_index s = \<lparr>ci_particle_id = sh_particle s, ci_external_mask = sh_mask s, ci_external_labels = sh_labels s, ci_helicity_ancestry = 0,
     ci_chirality = sh_chirality s, ci_spin_state = sh_spin s, ci_flavour_flow = sh_flavour s, ci_quantum_number_flow = sh_quantum s,
     ci_color_state = sh_color s, ci_momentum_mask = sh_mask s, ci_coupling_orders = sh_orders s, ci_auxiliary_kind = None,
     ci_ordered_external_labels = sh_ordered s\<rparr>"

definition live_current_shape :: "current_index \<Rightarrow> live_shape" where
  "live_current_shape i = \<lparr>sh_mask = ci_external_mask i, sh_labels = ci_external_labels i, sh_particle = ci_particle_id i,
     sh_ordered = ci_ordered_external_labels i, sh_color = ci_color_state i, sh_orders = ci_coupling_orders i, sh_chirality = ci_chirality i,
     sh_spin = ci_spin_state i, sh_flavour = ci_flavour_flow i, sh_quantum = ci_quantum_number_flow i\<rparr>"

definition plan_allows :: "'c live_plan \<Rightarrow> current_index \<Rightarrow> bool" where
  "plan_allows plan i = (live_current_shape i \<in> set (lv_shapes plan))"

definition lc_line_groups_within_limit :: "color_state \<Rightarrow> nat option \<Rightarrow> bool" where
  "lc_line_groups_within_limit st limit =
     (case limit of None \<Rightarrow> True | Some n \<Rightarrow> cs_accuracy st \<noteq> STR ''lc'' \<or> length (cs_line_groups st) \<le> n)"

section \<open>Sectors with a physical sink\<close>

fun sink_labels :: "(mask \<times> mask) list \<Rightarrow> int list option" where
  "sink_labels [] = Some []"
| "sink_labels ((l, r) # splits) =
     (case mask_labels r of [label] \<Rightarrow> map_option ((#) label) (sink_labels splits) | _ \<Rightarrow> None)"

fun sectors_with_sink :: "process_ir \<Rightarrow> int list \<Rightarrow> sector list \<Rightarrow> int list option res" where
  "sectors_with_sink process sinks [] = Inr (Some [])"
| "sectors_with_sink process sinks (s # ss) =
     bindE (canonical_closure_sink_label s process) (\<lambda>label.
       case label of
         None \<Rightarrow> Inr None
       | Some l \<Rightarrow> bindE (sectors_with_sink process sinks ss) (\<lambda>rest.
           Inr (map_option (\<lambda>ids. if l \<in> set sinks then sector_number s # ids else ids) rest)))"

definition physical_sink_sector_ids :: "color_plan \<Rightarrow> (mask \<times> mask) list \<Rightarrow> int list option res" where
  "physical_sink_sector_ids plan splits =
     (case sink_labels splits of
        None \<Rightarrow> Inr None
      | Some sinks \<Rightarrow>
          if sinks = [] then Inr None
          else bindE (sectors_with_sink (pl_process plan) sinks (pl_sectors plan)) (\<lambda>active.
            Inr (case active of None \<Rightarrow> None | Some ids \<Rightarrow> if ids = [] then None else Some (dedup ids))))"

section \<open>Sources\<close>

definition shape_allowed :: "'c live_env \<Rightarrow> live_shape \<Rightarrow> bool" where
  "shape_allowed env s =
     (case le_useful env of
        None \<Rightarrow> True
      | Some useful \<Rightarrow> state_allowed_by_reachability useful (sh_mask s) (sh_particle s) (sh_orders s))"

definition spin_of :: "spin_value \<Rightarrow> spin_state" where
  "spin_of s = (case s of Spin_Int k \<Rightarrow> SpinInt k | Spin_Tuple ks \<Rightarrow> SpinTuple ks)"

definition leg_rows :: "'c live_env \<Rightarrow> process_leg \<Rightarrow> (process_leg \<times> mask \<times> color_state \<times> source_state) list res" where
  "leg_rows env leg =
     bindE (label_bit (l_label leg)) (\<lambda>m.
     bindE (build_source_ir (vm_base (le_model env)) (l_outgoing_pdg leg)) (\<lambda>source.
     bindE (mapE (\<lambda>s. if l_side leg = Initial_Side then apply_crossing (so_crossing source) s else Inr s) (so_states source)) (\<lambda>states.
       Inr [(leg, m, cs, s). cs \<leftarrow> source_states_for_leg (le_engine env) leg, lc_line_groups_within_limit cs (le_line_limit env), s \<leftarrow> states])))"

definition source_shape :: "'c live_env \<Rightarrow> process_leg \<Rightarrow> mask \<Rightarrow> color_state \<Rightarrow> source_state \<Rightarrow> live_shape" where
  "source_shape env leg m cs s =
     \<lparr>sh_mask = m, sh_labels = [l_label leg], sh_particle = l_outgoing_pdg leg, sh_ordered = [l_label leg], sh_color = cs, sh_orders = [],
      sh_chirality = ss_chirality s, sh_spin = spin_of (ss_spin s), sh_flavour = [l_outgoing_pdg leg],
      sh_quantum = le_quantum_numbers env (l_outgoing_pdg leg)\<rparr>"

text \<open>One source state: the next ancestry bit, the shapes and the retained sources.\<close>

definition add_source ::
  "'c live_env \<Rightarrow> int list \<Rightarrow> nat \<times> live_shape list \<times> live_source list \<Rightarrow> process_leg \<times> mask \<times> color_state \<times> source_state
   \<Rightarrow> nat \<times> live_shape list \<times> live_source list" where
  "add_source env active = (\<lambda>(next_bit, shapes, sources) (leg, m, cs, s).
     if (case le_anchor env of None \<Rightarrow> False | Some (l, h) \<Rightarrow> l_label leg = l \<and> ss_helicity s \<noteq> h) then (next_bit + 1, shapes, sources)
     else if (case map_of (le_selected env) (l_label leg) of None \<Rightarrow> False | Some h \<Rightarrow> ss_helicity s \<noteq> h) then (next_bit, shapes, sources)
     else if cs_sector_id cs \<notin> set active then (next_bit + 1, shapes, sources)
     else let shape = source_shape env leg m cs s; shapes' = (if shape_allowed env shape then add_state shape shapes else shapes)
          in (next_bit + 1, shapes',
              if shape \<in> set shapes'
              then sources @ [\<lparr>sr_shape = shape, sr_ancestry = push_bit next_bit 1, sr_label = l_label leg, sr_helicity = ss_helicity s\<rparr>]
              else sources))"

definition live_sources :: "'c live_env \<Rightarrow> int list \<Rightarrow> (live_shape list \<times> live_source list) res" where
  "live_sources env active =
     bindE (mapE (leg_rows env) (filter (\<lambda>leg. l_outgoing_pdg leg \<notin> set (le_ignored_particles env)) (i_legs (le_process env)))) (\<lambda>rows.
       Inr (snd (foldl (add_source env active) (0, [], []) (concat rows))))"

section \<open>Transitions\<close>

definition live_usable :: "'c live_env \<Rightarrow> vertex \<Rightarrow> bool" where
  "live_usable env v =
     (vx_kind v \<notin> set (le_ignored_kinds env) \<and> vx_result v \<notin> set (le_ignored_particles env) \<and>
      vertex_allowed (le_model env) (en_base (le_engine env)) v)"

definition result_shape ::
  "live_shape \<Rightarrow> live_shape \<Rightarrow> mask \<Rightarrow> vertex \<Rightarrow> int list \<Rightarrow> orders \<Rightarrow> color_flow \<Rightarrow> quantum_flow \<Rightarrow> live_shape" where
  "result_shape a b m v labels orders flow q =
     \<lparr>sh_mask = m, sh_labels = mask_labels m, sh_particle = vx_result v, sh_ordered = labels, sh_color = cf_state flow, sh_orders = orders,
      sh_chirality = qf_chirality q, sh_spin = qf_spin_state q, sh_flavour = qf_flavour_flow q, sh_quantum = qf_quantum_number_flow q\<rparr>"

definition vertex_transitions :: "'c live_env \<Rightarrow> mask \<Rightarrow> live_shape \<Rightarrow> live_shape \<Rightarrow> vertex \<Rightarrow> live_transition list res" where
  "vertex_transitions env m a b v =
     (let orders = combine_coupling_order_tuples [sh_orders a, sh_orders b, vm_vertex_orders (le_model env) v]
      in if \<not> live_usable env v \<or> vm_skip_duplicate (le_model env) v \<or> \<not> coupling_orders_within_limits orders (le_limits env) then Inr []
         else bindE (ordered_combination_labels (le_engine env) (as_index a) (as_index b) v) (\<lambda>ordered.
           case ordered of
             None \<Rightarrow> Inr []
           | Some labels \<Rightarrow>
               Inr [\<lparr>tr_left = a, tr_right = b, tr_result = shape, tr_kind = vx_kind v, tr_particles = vx_particles v, tr_coupling = qf_coupling q,
                     tr_color_weight = complex_weight_mul (cf_weight flow) (le_vertex_weight env v)\<rparr>.
                   flow \<leftarrow> combine (le_engine env) (sh_color a) (sh_color b) v labels None,
                   lc_line_groups_within_limit (cf_state flow) (le_line_limit env),
                   q \<leftarrow> le_quantum_flows env v a b,
                   shape \<leftarrow> [result_shape a b m v labels orders flow q], le_current_allowed env shape]))"

definition pair_transitions :: "'c live_env \<Rightarrow> mask \<Rightarrow> live_shape \<Rightarrow> live_shape \<Rightarrow> live_transition list res" where
  "pair_transitions env m a b =
     bindE (mapE (vertex_transitions env m a b) (accepting (le_vertices env) (sh_particle a) (sh_particle b))) (\<lambda>rows. Inr (concat rows))"

text \<open>The pairs met at a split: by sector and partner species.\<close>

definition split_pairs :: "'c live_env \<Rightarrow> live_shape list \<Rightarrow> mask \<times> mask \<Rightarrow> (live_shape \<times> live_shape) list" where
  "split_pairs env shapes = (\<lambda>(l, r).
     [(a, b). a \<leftarrow> shapes, sh_mask a = l, rp \<leftarrow> partners_of (right_particles_by_left (le_vertices env)) (sh_particle a),
        b \<leftarrow> shapes, sh_mask b = r \<and> cs_sector_id (sh_color b) = cs_sector_id (sh_color a) \<and> sh_particle b = rp])"

definition live_split_transitions :: "'c live_env \<Rightarrow> live_shape list \<Rightarrow> mask \<Rightarrow> mask \<times> mask \<Rightarrow> live_transition list res" where
  "live_split_transitions env shapes m split =
     bindE (mapE (\<lambda>(a, b). pair_transitions env m a b) (split_pairs env shapes split)) (\<lambda>rows. Inr (concat rows))"

definition live_skipped :: "'c live_env \<Rightarrow> mask \<Rightarrow> bool" where
  "live_skipped env m =
     (m AND (m - 1) = 0 \<or> m = le_full env \<or> \<not> mask_allowed_by_reachability m (le_closure_masks env) (le_color_masks env) \<or>
      (case le_useful env of None \<Rightarrow> False | Some useful \<Rightarrow> m \<notin> set (map fst useful)))"

definition live_split ::
  "'c live_env \<Rightarrow> mask \<Rightarrow> live_shape list \<times> live_transition list \<Rightarrow> mask \<times> mask \<Rightarrow> (live_shape list \<times> live_transition list) res" where
  "live_split env m = (\<lambda>(possible, ts) split.
     bindE (live_split_transitions env possible m split) (\<lambda>found.
       Inr (add_states (filter (shape_allowed env) (map tr_result found)) possible, ts @ found)))"

definition live_mask ::
  "'c live_env \<Rightarrow> live_shape list \<times> live_transition list \<Rightarrow> mask \<Rightarrow> (live_shape list \<times> live_transition list) res" where
  "live_mask env st m = (if live_skipped env m then Inr st else foldE (live_split env m) st (ordered_splits m))"

definition live_sweep :: "'c live_env \<Rightarrow> live_shape list \<Rightarrow> (live_shape list \<times> live_transition list) res" where
  "live_sweep env sources = foldE (live_mask env) (sources, []) (masks_by_size (le_full env))"

section \<open>Closures\<close>

definition vertex_closures :: "'c live_env \<Rightarrow> live_shape \<Rightarrow> live_shape \<Rightarrow> color_flow \<Rightarrow> 'c live_closure list" where
  "vertex_closures env a b flow =
     [\<lparr>lc_left = a, lc_right = b, lc_color_weight = complex_weight_mul (cf_weight flow) (le_vertex_weight env v), lc_contraction = c,
       lc_sector = cs_sector_id (cf_state flow), lc_vertex = Some (vx_kind v, vx_particles v), lc_coupling = vx_coupling v\<rparr>.
       v \<leftarrow> accepting (le_vertices env) (sh_particle a) (sh_particle b), live_usable env v \<and> le_closure_allowed env v,
       c \<leftarrow> (case closure_contraction_ir (le_model env) (vx_result v) 0 of None \<Rightarrow> [] | Some c \<Rightarrow> [c]),
       coupling_orders_within_limits (model_combine_coupling_orders (as_index a) (as_index b) (vm_vertex_orders (le_model env) v)) (le_limits env) \<and>
         le_quantum_flows env v a b \<noteq> []]"

definition flow_closures :: "'c live_env \<Rightarrow> live_shape \<Rightarrow> live_shape \<Rightarrow> color_flow \<Rightarrow> 'c live_closure list" where
  "flow_closures env a b flow =
     (case direct_contraction_ir (le_model env) (sh_particle a) (sh_particle b) (sh_chirality a) (sh_chirality b) of
        None \<Rightarrow> []
      | Some c \<Rightarrow> [\<lparr>lc_left = a, lc_right = b, lc_color_weight = cf_weight flow, lc_contraction = c,
          lc_sector = cs_sector_id (cf_state flow), lc_vertex = None, lc_coupling = (1, 0)\<rparr>]) @ vertex_closures env a b flow"

definition pair_closures :: "'c live_env \<Rightarrow> live_shape \<Rightarrow> live_shape \<Rightarrow> 'c live_closure list res" where
  "pair_closures env a b =
     bindE (ordered_closure_allowed (le_engine env) (as_index a) (as_index b)) (\<lambda>ok.
       Inr (if ok then concat (map (flow_closures env a b) (closure_compatible (le_engine env) (sh_color a) (sh_color b) (le_full env))) else []))"

definition closing_shape_pairs :: "'c live_env \<Rightarrow> live_shape list \<Rightarrow> (live_shape \<times> live_shape) list" where
  "closing_shape_pairs env shapes =
     [(a, b). (l, r) \<leftarrow> le_splits env, a \<leftarrow> shapes, sh_mask a = l,
        b \<leftarrow> shapes, sh_mask b = r \<and> cs_sector_id (sh_color b) = cs_sector_id (sh_color a)]"

definition live_closures :: "'c live_env \<Rightarrow> live_shape list \<Rightarrow> 'c live_closure list res" where
  "live_closures env shapes = bindE (mapE (\<lambda>(a, b). pair_closures env a b) (closing_shape_pairs env shapes)) (\<lambda>rows. Inr (concat rows))"

section \<open>The plan\<close>

definition plan_of ::
  "live_transition list \<Rightarrow> 'c live_closure list \<Rightarrow> live_source list \<Rightarrow> 'c live_plan option" where
  "plan_of ts closures sources =
     (let start = add_states (concat (map (\<lambda>c. [lc_left c, lc_right c]) closures)) [];
          useful = mark_useful (map (\<lambda>t. (tr_result t, tr_left t, tr_right t)) ts) start start
      in if useful = [] then None
         else Some \<lparr>lv_shapes = useful, lv_sectors = dedup (map (\<lambda>s. cs_sector_id (sh_color s)) useful),
                lv_transitions = filter (\<lambda>t. tr_result t \<in> set useful \<and> tr_left t \<in> set useful \<and> tr_right t \<in> set useful) ts,
                lv_closures = closures, lv_sources = filter (\<lambda>s. sr_shape s \<in> set useful) sources\<rparr>)"

definition plan_applies :: "'c engine \<Rightarrow> bool" where
  "plan_applies e =
     (\<not> (pl_color_accuracy (en_plan e) = STR ''lc'' \<or> en_orderings e \<or> en_single_trace e \<or> length (pl_sectors (en_plan e)) \<le> 1))"

definition build_backward_live_state_plan :: "'c live_env \<Rightarrow> 'c live_plan option res" where
  "build_backward_live_state_plan env =
     (if \<not> plan_applies (le_engine env) then Inr None
      else bindE (physical_sink_sector_ids (en_plan (le_engine env)) (le_splits env)) (\<lambda>active.
        case active of
          None \<Rightarrow> Inr None
        | Some ids \<Rightarrow>
            bindE (labels_mask (map l_label (i_legs (le_process env)))) (\<lambda>full. let env = env\<lparr>le_full := full\<rparr> in
            bindE (live_sources env ids) (\<lambda>(shapes, sources).
            bindE (iter_vertices (le_model env) (i_color_accuracy (le_process env))) (\<lambda>vs. let env = env\<lparr>le_vertices := vs\<rparr> in
            bindE (live_sweep env shapes) (\<lambda>(possible, ts).
            bindE (live_closures env possible) (\<lambda>closures. Inr (plan_of ts closures sources))))))))"


section \<open>The planner returns\<close>

text \<open>The value of a computation that returns, no rows otherwise.\<close>

definition rows_of :: "'a list res \<Rightarrow> 'a list" where
  "rows_of r = (case r of Inl e \<Rightarrow> [] | Inr rows \<Rightarrow> rows)"

lemma rows_of_Inr [simp]: "rows_of (Inr rows) = rows"
  by (simp add: rows_of_def)

lemma mapE_rows: "(\<And>x. x \<in> set xs \<Longrightarrow> returns (f x)) \<Longrightarrow> mapE f xs = Inr (map (\<lambda>x. rows_of (f x)) xs)"
proof (rule mapE_total)
  fix x assume "\<And>x. x \<in> set xs \<Longrightarrow> returns (f x)" "x \<in> set xs"
  then obtain y where "f x = Inr y" by blast
  then show "f x = Inr (rows_of (f x))" by simp
qed

lemma foldE_total:
  assumes "I s" "\<And>s x. x \<in> set xs \<Longrightarrow> I s \<Longrightarrow> f s x = Inr (g s x) \<and> I (g s x)"
  shows "foldE f s xs = Inr (foldl g s xs) \<and> I (foldl g s xs)"
  using assms by (induction xs arbitrary: s) auto

text \<open>An engine of the kind the planner applies to, as the constructor builds it.\<close>

definition sector_engine :: "'c engine \<Rightarrow> bool" where
  "sector_engine e \<longleftrightarrow> plan_applies e \<and> (\<exists>m adjoint trace_proven plan symmetry. make_engine m adjoint trace_proven plan symmetry = Inr e)"

lemma list_all2_member: "list_all2 P xs ys \<Longrightarrow> x \<in> set xs \<Longrightarrow> \<exists>y. P x y"
  by (induction rule: list_all2_induct) auto

lemma sector_words_return:
  assumes "sector_engine e" "s \<in> set (pl_sectors (en_plan e))"
  shows "returns (own_sector_words e s)" "sc_kind s = Open_Lines \<Longrightarrow> returns (canonical_closure_traversal_word s (pl_process (en_plan e)))"
proof -
  from assms(1) obtain m a t plan symmetry where made: "make_engine m a t plan symmetry = Inr e" and o: "\<not> en_orderings e"
    unfolding sector_engine_def plan_applies_def by blast
  then obtain sink where rows: "shared_words_by_sector plan False sink = Inr (en_words_by_sector e)" "en_plan e = plan"
    by (auto simp: make_engine_def bindE_Inr_iff Let_def)
  let ?f = "\<lambda>s. bindE (sector_intermediate_order_words s False (Some (pl_process plan)))
      (\<lambda>words. Inr (s, map (\<lambda>w. lc_word_with_sink_last w sink) words))"
  have "list_all2 (\<lambda>s row. ?f s = Inr row) (pl_sectors plan) (en_words_by_sector e)"
    using rows(1) by (simp add: shared_words_by_sector_def mapE_Inr_iff)
  then have "\<exists>row. ?f s = Inr row" by (rule list_all2_member) (use assms(2) rows(2) in simp)
  then show w: "returns (own_sector_words e s)" by (auto simp: own_sector_words_def rows(2) bindE_Inr_iff)
  assume "sc_kind s = Open_Lines"
  then show "returns (canonical_closure_traversal_word s (pl_process (en_plan e)))"
    using w by (auto simp: own_sector_words_def sector_intermediate_order_words_def Let_def bindE_Inr_iff)
qed

lemma sector_by_id_member: "sector_by_id e i = Some s \<Longrightarrow> s \<in> set (pl_sectors (en_plan e))"
  unfolding sector_by_id_def by (drule map_of_SomeD) auto

lemma singlet_order_returns:
  "sh_labels a \<noteq> [] \<Longrightarrow> sh_labels b \<noteq> [] \<Longrightarrow> \<exists>ok. singlet_order_allowed e (as_index a) (as_index b) = Inr ok"
  unfolding singlet_order_allowed_def as_index_def Let_def current_index.select_convs by (simp only: if_False simp_thms) (auto split: if_split)

lemma labels_return:
  assumes "sector_engine e" "sh_labels a \<noteq> []" "sh_labels b \<noteq> []"
  shows "returns (ordered_combination_labels e (as_index a) (as_index b) v)"
proof -
  obtain ok where ok: "singlet_order_allowed e (as_index a) (as_index b) = Inr ok" using singlet_order_returns assms(2,3) by blast
  show ?thesis
  proof (cases "sector_by_id e (cs_sector_id (ci_color_state (as_index a)))")
    case None
    then show ?thesis by (simp add: ordered_combination_labels_def Let_def ok)
  next
    case (Some s)
    obtain words where "own_sector_words e s = Inr words"
      using sector_words_return(1) [OF assms(1) sector_by_id_member [OF Some]] by blast
    then show ?thesis by (simp add: ordered_combination_labels_def Let_def ok Some)
  qed
qed

lemma closure_returns:
  assumes "sector_engine e"
  shows "returns (ordered_closure_allowed e (as_index a) (as_index b))"
proof -
  have word: "returns (canonical_closure_traversal_word s (pl_process (en_plan e)))"
    if "sector_by_id e i = Some s" "sc_kind s = Open_Lines" for i s
    by (rule sector_words_return(2) [OF assms sector_by_id_member [OF that(1)] that(2)])
  show ?thesis
    unfolding ordered_closure_allowed_def
    by (auto split: option.split dest!: word)
qed

section \<open>The transitions of the sweep\<close>

definition pair_rows :: "'c live_env \<Rightarrow> mask \<Rightarrow> live_shape \<Rightarrow> live_shape \<Rightarrow> live_transition list" where
  "pair_rows env m a b =
     concat (map (\<lambda>v. rows_of (vertex_transitions env m a b v)) (accepting (le_vertices env) (sh_particle a) (sh_particle b)))"

definition live_moves :: "'c live_env \<Rightarrow> live_shape list \<Rightarrow> mask \<Rightarrow> mask \<times> mask \<Rightarrow> live_transition list" where
  "live_moves env shapes m split = concat (map (\<lambda>(a, b). pair_rows env m a b) (split_pairs env shapes split))"

text \<open>The transitions between two shapes: of one sector, at a vertex accepting their species.\<close>

definition live_between :: "'c live_env \<Rightarrow> live_shape \<Rightarrow> live_shape \<Rightarrow> live_transition set" where
  "live_between env a b = {t. cs_sector_id (sh_color a) = cs_sector_id (sh_color b) \<and>
     (\<exists>v \<in> set (le_vertices env). vx_left v = sh_particle a \<and> vx_right v = sh_particle b \<and>
        (\<exists>ts. vertex_transitions env (sh_mask a OR sh_mask b) a b v = Inr ts \<and> t \<in> set ts))}"

lemma vertex_transitions_ends:
  assumes "vertex_transitions env m a b v = Inr ts" "t \<in> set ts"
  shows "tr_left t = a \<and> tr_right t = b \<and> sh_mask (tr_result t) = m \<and> sh_labels (tr_result t) = mask_labels m"
  using assms by (auto simp: vertex_transitions_def Let_def bindE_Inr_iff result_shape_def split: if_splits option.splits)

lemma in_rows_of: "t \<in> set (rows_of r) \<longleftrightarrow> (\<exists>ts. r = Inr ts \<and> t \<in> set ts)"
  by (auto simp: rows_of_def split: sum.splits)

lemma set_pair_rows: "t \<in> set (pair_rows env m a b) \<longleftrightarrow>
    (\<exists>v \<in> set (le_vertices env). vx_left v = sh_particle a \<and> vx_right v = sh_particle b \<and>
      (\<exists>ts. vertex_transitions env m a b v = Inr ts \<and> t \<in> set ts))"
  by (auto simp: pair_rows_def in_rows_of)

lemma set_split_pairs: "(a, b) \<in> set (split_pairs env shapes (l, r)) \<longleftrightarrow>
    a \<in> set shapes \<and> b \<in> set shapes \<and> sh_mask a = l \<and> sh_mask b = r \<and> cs_sector_id (sh_color b) = cs_sector_id (sh_color a) \<and>
    sh_particle b \<in> set (partners_of (right_particles_by_left (le_vertices env)) (sh_particle a))"
  by (auto simp: split_pairs_def)

lemma live_moves_pairs:
  assumes "l OR r = m"
  shows "set (live_moves env shapes m (l, r)) =
    (\<Union>a \<in> {a \<in> set shapes. sh_mask a = l}. \<Union>b \<in> {b \<in> set shapes. sh_mask b = r}. live_between env a b)"
proof (rule set_eqI)
  fix t
  have "t \<in> set (live_moves env shapes m (l, r)) \<longleftrightarrow>
      (\<exists>a b. (a, b) \<in> set (split_pairs env shapes (l, r)) \<and> t \<in> set (pair_rows env m a b))"
    by (force simp: live_moves_def)
  also have "\<dots> \<longleftrightarrow> (\<exists>a b. a \<in> set shapes \<and> b \<in> set shapes \<and> sh_mask a = l \<and> sh_mask b = r \<and> t \<in> live_between env a b)"
    (is "?L \<longleftrightarrow> ?R")
  proof
    assume ?L
    then obtain a b where ab: "(a, b) \<in> set (split_pairs env shapes (l, r))" "t \<in> set (pair_rows env m a b)" by blast
    then have m: "a \<in> set shapes \<and> b \<in> set shapes \<and> sh_mask a = l \<and> sh_mask b = r \<and> cs_sector_id (sh_color b) = cs_sector_id (sh_color a)"
      unfolding set_split_pairs by blast
    have o: "sh_mask a OR sh_mask b = m" "cs_sector_id (sh_color a) = cs_sector_id (sh_color b)" using m assms by simp_all
    have "t \<in> live_between env a b" unfolding live_between_def o mem_Collect_eq using ab(2) unfolding set_pair_rows by blast
    then show ?R using m by blast
  next
    assume ?R
    then obtain a b v ts where m: "a \<in> set shapes" "b \<in> set shapes" "sh_mask a = l" "sh_mask b = r"
        "cs_sector_id (sh_color a) = cs_sector_id (sh_color b)" and v: "v \<in> set (le_vertices env)" "vx_left v = sh_particle a"
        "vx_right v = sh_particle b" "vertex_transitions env (sh_mask a OR sh_mask b) a b v = Inr ts" "t \<in> set ts"
      unfolding live_between_def by auto
    have "sh_particle b \<in> set (partners_of (right_particles_by_left (le_vertices env)) (sh_particle a))"
      using vertex_rights.covers [OF v(1)] v(2,3) by simp
    then have "(a, b) \<in> set (split_pairs env shapes (l, r))" using m unfolding set_split_pairs by simp
    moreover have "t \<in> set (pair_rows env m a b)" using v m(3,4) assms unfolding set_pair_rows by auto
    ultimately show ?L by blast
  qed
  finally show "t \<in> set (live_moves env shapes m (l, r)) \<longleftrightarrow>
      t \<in> (\<Union>a \<in> {a \<in> set shapes. sh_mask a = l}. \<Union>b \<in> {b \<in> set shapes. sh_mask b = r}. live_between env a b)" by auto
qed

lemma live_between_ends:
  "t \<in> live_between env a b \<Longrightarrow> tr_left t = a \<and> tr_right t = b \<and> sh_mask (tr_result t) = sh_mask a OR sh_mask b"
  unfolding live_between_def using vertex_transitions_ends by blast

interpretation live: mask_sweep sh_mask "le_full env" "live_skipped env" sources "live_between env" tr_result "shape_allowed env" "live_moves env"
  for env sources
proof unfold_locales
  show "set (live_moves env st m (l, r)) =
    (\<Union>a \<in> {a \<in> set st. sh_mask a = l}. \<Union>b \<in> {b \<in> set st. sh_mask b = r}. live_between env a b)" if "l OR r = m" for l r m st
    by (rule live_moves_pairs [OF that])
  show "sh_mask (tr_result t) = sh_mask a OR sh_mask b" if "t \<in> live_between env a b" for t a b
    using live_between_ends [OF that] by blast
qed


section \<open>The sweep returns the exact states\<close>

definition labelled :: "live_shape list \<Rightarrow> bool" where
  "labelled shapes \<longleftrightarrow> (\<forall>s \<in> set shapes. sh_labels s \<noteq> [])"

lemma mask_labels_nonempty: "0 < m \<Longrightarrow> mask_labels m \<noteq> []"
  using bit_eqI [of m 0] by (auto simp: set_empty [symmetric] set_mask_labels)

lemma vertex_transitions_return:
  assumes "sector_engine (le_engine env)" "sh_labels a \<noteq> []" "sh_labels b \<noteq> []"
  shows "returns (vertex_transitions env m a b v)"
proof -
  obtain ls where "ordered_combination_labels (le_engine env) (as_index a) (as_index b) v = Inr ls" using labels_return [OF assms] by blast
  then show ?thesis by (simp add: vertex_transitions_def Let_def split: option.split)
qed

lemma pair_transitions_eq:
  assumes "sector_engine (le_engine env)" "sh_labels a \<noteq> []" "sh_labels b \<noteq> []"
  shows "pair_transitions env m a b = Inr (pair_rows env m a b)"
  unfolding pair_transitions_def pair_rows_def
  by (subst mapE_rows) (rule vertex_transitions_return [OF assms], simp)

lemma split_transitions_eq:
  assumes "sector_engine (le_engine env)" "labelled shapes"
  shows "live_split_transitions env shapes m split = Inr (live_moves env shapes m split)"
proof -
  obtain l r where lr: "split = (l, r)" by (cases split)
  have "mapE (\<lambda>(a, b). pair_transitions env m a b) (split_pairs env shapes split) =
      Inr (map (\<lambda>(a, b). pair_rows env m a b) (split_pairs env shapes split))"
  proof (rule mapE_total)
    fix p assume p: "p \<in> set (split_pairs env shapes split)"
    obtain a b where ab: "p = (a, b)" by (cases p)
    have "a \<in> set shapes" "b \<in> set shapes" using p unfolding ab lr set_split_pairs by blast+
    then show "(\<lambda>(a, b). pair_transitions env m a b) p = Inr ((\<lambda>(a, b). pair_rows env m a b) p)"
      using pair_transitions_eq [OF assms(1)] assms(2) by (simp add: ab labelled_def)
  qed
  then show ?thesis by (simp add: live_split_transitions_def live_moves_def)
qed

lemma live_moves_labelled:
  assumes "0 < m" "t \<in> set (live_moves env shapes m split)"
  shows "sh_labels (tr_result t) \<noteq> []"
proof -
  from assms(2) obtain p where "t \<in> set ((\<lambda>(a, b). pair_rows env m a b) p)" unfolding live_moves_def by auto
  then obtain a b where "t \<in> set (pair_rows env m a b)" by (cases p) simp
  then obtain v ts where "vertex_transitions env m a b v = Inr ts" "t \<in> set ts" unfolding set_pair_rows by blast
  from vertex_transitions_ends [OF this] mask_labels_nonempty [OF assms(1)] show ?thesis by simp
qed

lemma live_split_eq:
  assumes "sector_engine (le_engine env)" "0 < m" "labelled (fst st)"
  shows "live_split env m st split = Inr (sweep_split_with tr_result (shape_allowed env) (live_moves env) m st split) \<and>
    labelled (fst (sweep_split_with tr_result (shape_allowed env) (live_moves env) m st split))"
proof -
  obtain shapes ts where st: "st = (shapes, ts)" by (cases st)
  have "labelled shapes" using assms(3) by (simp add: st)
  let ?new = "filter (shape_allowed env) (map tr_result (live_moves env shapes m split))"
  have "labelled (add_states ?new shapes)"
    using \<open>labelled shapes\<close> live_moves_labelled [OF assms(2), of _ env shapes split] unfolding labelled_def set_add_states by auto
  then show ?thesis
    by (simp add: live_split_def sweep_split_with_def st split_transitions_eq [OF assms(1) \<open>labelled shapes\<close>] Let_def)
qed

lemma live_mask_eq:
  assumes "sector_engine (le_engine env)" "0 < m" "labelled (fst st)"
  shows "live_mask env st m = Inr (sweep_mask_with tr_result (shape_allowed env) (live_moves env) (live_skipped env) st m) \<and>
    labelled (fst (sweep_mask_with tr_result (shape_allowed env) (live_moves env) (live_skipped env) st m))"
  using foldE_total [of "\<lambda>st. labelled (fst st)" st "ordered_splits m" "live_split env m", OF assms(3) live_split_eq [OF assms(1,2)]] assms(3)
  by (simp add: live_mask_def sweep_mask_with_def)

lemma live_sweep_eq:
  assumes "sector_engine (le_engine env)" "labelled sources"
  shows "live_sweep env sources = Inr (foldl (sweep_mask_with tr_result (shape_allowed env) (live_moves env) (live_skipped env)) (sources, [])
    (masks_by_size (le_full env)))"
  unfolding live_sweep_def
proof (rule conjunct1 [OF foldE_total [where I = "\<lambda>st. labelled (fst st)"]])
  show "labelled (fst (sources, [] :: live_transition list))" using assms(2) by simp
  fix st :: "live_shape list \<times> live_transition list" and m assume "m \<in> set (masks_by_size (le_full env))" "labelled (fst st)"
  then show "live_mask env st m = Inr (sweep_mask_with tr_result (shape_allowed env) (live_moves env) (live_skipped env) st m) \<and>
      labelled (fst (sweep_mask_with tr_result (shape_allowed env) (live_moves env) (live_skipped env) st m))"
    using live_mask_eq [OF assms(1)] by (auto simp: set_masks_by_size)
qed


section \<open>The specification: what can be built and what feeds a closure\<close>

text \<open>Two shapes meet in the sweep: disjoint masks whose union is neither skipped nor outside the legs.\<close>

definition live_meets :: "'c live_env \<Rightarrow> live_shape \<Rightarrow> live_shape \<Rightarrow> bool" where
  "live_meets env a b \<longleftrightarrow> 0 < sh_mask a \<and> 0 < sh_mask b \<and> sh_mask a AND sh_mask b = 0 \<and>
     submask (sh_mask a OR sh_mask b) (le_full env) \<and> \<not> live_skipped env (sh_mask a OR sh_mask b)"

definition live_step :: "'c live_env \<Rightarrow> live_shape \<Rightarrow> live_shape \<Rightarrow> live_shape \<Rightarrow> bool" where
  "live_step env a b s \<longleftrightarrow> live_meets env a b \<and> shape_allowed env s \<and> (\<exists>t \<in> live_between env a b. tr_result t = s)"

text \<open>The closures of two shapes of one sector at a candidate split.\<close>

definition closures_between :: "'c live_env \<Rightarrow> live_shape \<Rightarrow> live_shape \<Rightarrow> 'c live_closure set" where
  "closures_between env a b = {c. (sh_mask a, sh_mask b) \<in> set (le_splits env) \<and> cs_sector_id (sh_color a) = cs_sector_id (sh_color b) \<and>
     (\<exists>cs. pair_closures env a b = Inr cs \<and> c \<in> set cs)}"

abbreviation buildable :: "'c live_env \<Rightarrow> live_shape list \<Rightarrow> live_shape \<Rightarrow> bool" where
  "buildable env sources \<equiv> built (set sources) (live_step env)"

definition live_useful :: "'c live_env \<Rightarrow> live_shape list \<Rightarrow> live_shape \<Rightarrow> bool" where
  "live_useful env sources = feeds (set sources) (live_step env) (\<lambda>a b. closures_between env a b \<noteq> {})"

lemma legal_meets: "mask_sweep.legal sh_mask (le_full env) (live_skipped env) = live_meets env"
proof (intro ext)
  fix a b :: live_shape
  have "0 < sh_mask a OR sh_mask b" if "0 < sh_mask a" using that by (metis bot_nat_0.not_eq_extremum or_eq_0_iff)
  then show "mask_sweep.legal sh_mask (le_full env) (live_skipped env) a b = live_meets env a b"
    by (auto simp: live.legal_def live_meets_def Let_def set_masks_by_size set_ordered_splits)
qed

lemma kept_step_live:
  "mask_sweep.kept_step sh_mask (le_full env) (live_skipped env) (live_between env) tr_result (shape_allowed env) = live_step env"
  by (intro ext) (simp add: live.kept_step_def live_step_def legal_meets)

section \<open>Closures of the sweep\<close>

lemma pair_closures_return: "sector_engine (le_engine env) \<Longrightarrow> returns (pair_closures env a b)"
  using closure_returns [of "le_engine env" a b] by (auto simp: pair_closures_def)

lemma pair_closures_ends: "pair_closures env a b = Inr cs \<Longrightarrow> c \<in> set cs \<Longrightarrow> lc_left c = a \<and> lc_right c = b"
  by (auto simp: pair_closures_def bindE_Inr_iff flow_closures_def vertex_closures_def split: if_splits option.splits)

lemma set_closing_shape_pairs: "(a, b) \<in> set (closing_shape_pairs env shapes) \<longleftrightarrow>
    a \<in> set shapes \<and> b \<in> set shapes \<and> (sh_mask a, sh_mask b) \<in> set (le_splits env) \<and> cs_sector_id (sh_color a) = cs_sector_id (sh_color b)"
  by (auto simp: closing_shape_pairs_def)

lemma live_closures_exact:
  assumes "sector_engine (le_engine env)"
  obtains closures where "live_closures env shapes = Inr closures"
    "set closures = (\<Union>a \<in> set shapes. \<Union>b \<in> set shapes. closures_between env a b)"
proof -
  let ?rows = "\<lambda>p. rows_of (pair_closures env (fst p) (snd p))"
  have "mapE (\<lambda>(a, b). pair_closures env a b) (closing_shape_pairs env shapes) = Inr (map ?rows (closing_shape_pairs env shapes))"
  proof (rule mapE_total)
    fix p
    obtain cs where "pair_closures env (fst p) (snd p) = Inr cs" using pair_closures_return [OF assms] by blast
    then show "(\<lambda>(a, b). pair_closures env a b) p = Inr (?rows p)" by (simp add: case_prod_beta')
  qed
  then have r: "live_closures env shapes = Inr (concat (map ?rows (closing_shape_pairs env shapes)))" by (simp add: live_closures_def)
  have "c \<in> set (concat (map ?rows (closing_shape_pairs env shapes))) \<longleftrightarrow>
      (\<exists>a b. (a, b) \<in> set (closing_shape_pairs env shapes) \<and> (\<exists>cs. pair_closures env a b = Inr cs \<and> c \<in> set cs))" for c
  proof -
    have "c \<in> set (concat (map ?rows ps)) \<longleftrightarrow> (\<exists>p. p \<in> set ps \<and> c \<in> set (?rows p))" for ps
      unfolding set_concat set_map by blast
    then show ?thesis unfolding split_paired_Ex fst_conv snd_conv in_rows_of .
  qed
  then have "set (concat (map ?rows (closing_shape_pairs env shapes))) = (\<Union>a \<in> set shapes. \<Union>b \<in> set shapes. closures_between env a b)"
    unfolding set_closing_shape_pairs closures_between_def set_eq_iff UN_iff mem_Collect_eq Bex_def
    by (intro allI) (simp only: conj_assoc ex_simps simp_thms conj_ac)
  with r show thesis by (rule that)
qed

lemma closures_between_ends: "c \<in> closures_between env a b \<Longrightarrow> lc_left c = a \<and> lc_right c = b"
  unfolding closures_between_def using pair_closures_ends by blast

section \<open>The plan is exact\<close>

definition plan_env :: "'c live_env \<Rightarrow> mask \<Rightarrow> vertex list \<Rightarrow> 'c live_env" where
  "plan_env env full vs = env\<lparr>le_full := full, le_vertices := vs\<rparr>"

lemma live_sources_shapes:
  assumes "live_sources env ids = Inr (shapes, sources)"
  shows "labelled shapes \<and> (\<forall>s \<in> set shapes. shape_allowed env s)"
proof -
  define good where "good st \<longleftrightarrow> labelled (fst (snd st)) \<and> (\<forall>s \<in> set (fst (snd st)). shape_allowed env s)"
    for st :: "nat \<times> live_shape list \<times> live_source list"
  have step: "good (add_source env ids st row)" if "good st" for st row
  proof -
    obtain k sh so where st: "st = (k, sh, so)" by (cases st)
    obtain leg m cs s where row: "row = (leg, m, cs, s)" by (cases row)
    let ?shape = "source_shape env leg m cs s"
    have "fst (snd (add_source env ids st row)) = sh \<or> fst (snd (add_source env ids st row)) = add_state ?shape sh \<and> shape_allowed env ?shape"
      unfolding st row add_source_def Let_def by (simp split: option.split)
    moreover have "sh_labels ?shape \<noteq> []" by (simp add: source_shape_def)
    moreover have "labelled sh" "\<forall>s \<in> set sh. shape_allowed env s" using that by (simp_all add: good_def st)
    ultimately show ?thesis unfolding good_def labelled_def add_state_def by (elim disjE conjE) (simp_all split: if_split)
  qed
  have all: "good st \<Longrightarrow> good (foldl (add_source env ids) st rows)" for st rows
    by (induction rows arbitrary: st) (use step in simp_all)
  from assms obtain rows where "snd (foldl (add_source env ids) (0, [], []) rows) = (shapes, sources)"
    by (auto simp: live_sources_def bindE_Inr_iff)
  then show ?thesis using all [of "(0, [], [])" rows] by (simp add: good_def labelled_def)
qed

text \<open>The plan of a planner that applies and has sectors with a physical sink.\<close>

definition exact_plan :: "'c live_env \<Rightarrow> live_shape list \<Rightarrow> live_source list \<Rightarrow> 'c live_plan \<Rightarrow> bool" where
  "exact_plan e shapes sources plan \<longleftrightarrow>
     set (lv_shapes plan) = {s. live_useful e shapes s} \<and> lv_shapes plan \<noteq> [] \<and>
     set (lv_transitions plan) = {t. live_useful e shapes (tr_left t) \<and> live_useful e shapes (tr_right t) \<and> live_useful e shapes (tr_result t) \<and>
       live_meets e (tr_left t) (tr_right t) \<and> t \<in> live_between e (tr_left t) (tr_right t)} \<and>
     set (lv_closures plan) = {c. buildable e shapes (lc_left c) \<and> buildable e shapes (lc_right c) \<and>
       c \<in> closures_between e (lc_left c) (lc_right c)} \<and>
     lv_sources plan = filter (\<lambda>s. live_useful e shapes (sr_shape s)) sources"

lemma planned:
  assumes engine: "sector_engine (le_engine env)"
    and active: "physical_sink_sector_ids (en_plan (le_engine env)) (le_splits env) = Inr (Some ids)"
    and full: "labels_mask (map l_label (i_legs (le_process env))) = Inr full"
    and sources: "live_sources (env\<lparr>le_full := full\<rparr>) ids = Inr (shapes, sources)"
    and vs: "iter_vertices (le_model env) (i_color_accuracy (le_process env)) = Inr vs"
  shows "\<exists>r. build_backward_live_state_plan env = Inr r \<and>
    (case r of None \<Rightarrow> \<forall>s. \<not> live_useful (plan_env env full vs) shapes s
     | Some plan \<Rightarrow> exact_plan (plan_env env full vs) shapes sources plan)"
proof -
  define e where "e = plan_env env full vs"
  have e: "le_engine e = le_engine env" "e = env\<lparr>le_full := full, le_vertices := vs\<rparr>" by (simp_all add: e_def plan_env_def)
  have eng: "sector_engine (le_engine e)" using engine by (simp add: e(1))
  have allowed: "shape_allowed (env\<lparr>le_full := full\<rparr>) = shape_allowed e" by (intro ext) (simp add: shape_allowed_def e(2) split: option.split)
  note src = live_sources_shapes [OF sources, unfolded allowed]
  obtain possible ts where sw: "foldl (sweep_mask_with tr_result (shape_allowed e) (live_moves e) (live_skipped e)) (shapes, [])
      (masks_by_size (le_full e)) = (possible, ts)" by fastforce
  have sweep: "live_sweep e shapes = Inr (possible, ts)" using live_sweep_eq [OF eng] src sw by simp
  note ex = live.sweep_exact_with [OF conjunct2 [OF src] sw, unfolded kept_step_live legal_meets]
  obtain closures where cl: "live_closures e possible = Inr closures"
    "set closures = (\<Union>a \<in> set possible. \<Union>b \<in> set possible. closures_between e a b)" by (rule live_closures_exact [OF eng])
  let ?start = "add_states (concat (map (\<lambda>c. [lc_left c, lc_right c]) closures)) []"
  let ?useful = "mark_useful (map (\<lambda>t. (tr_result t, tr_left t, tr_right t)) ts) ?start ?start"
  have start: "s \<in> set ?start \<longleftrightarrow> (\<exists>a b. buildable e shapes a \<and> buildable e shapes b \<and> closures_between e a b \<noteq> {} \<and> s \<in> {a, b})" for s
    using closures_between_ends unfolding ex(1) [symmetric] by (auto simp: cl(2)) blast+
  have mark: "s \<in> set ?useful \<longleftrightarrow> live_useful e shapes s" for s
    using live.marking_exact [OF conjunct2 [OF src] sw, of "\<lambda>t. (tr_left t, tr_right t)" ?start "\<lambda>a b. closures_between e a b \<noteq> {}" s]
      live_between_ends start unfolding kept_step_live live_useful_def by blast
  have run: "build_backward_live_state_plan env = Inr (plan_of ts closures sources)"
    using engine by (simp add: build_backward_live_state_plan_def sector_engine_def active full sources vs Let_def e(2) [symmetric] sweep cl(1))
  show ?thesis
  proof (cases "?useful = []")
    case True
    then have "\<forall>s. \<not> live_useful e shapes s" using mark by simp
    then show ?thesis using True by (simp add: run plan_of_def Let_def e_def [symmetric])
  next
    case False
    have b: "live_useful e shapes s \<Longrightarrow> buildable e shapes s" for s unfolding live_useful_def by (rule feeds_built)
    have t: "t \<in> set ts \<longleftrightarrow> buildable e shapes (tr_left t) \<and> buildable e shapes (tr_right t) \<and>
        live_meets e (tr_left t) (tr_right t) \<and> t \<in> live_between e (tr_left t) (tr_right t)" for t
      using live_between_ends unfolding ex(2) by blast
    have T: "set (filter (\<lambda>t. tr_result t \<in> set ?useful \<and> tr_left t \<in> set ?useful \<and> tr_right t \<in> set ?useful) ts) =
        {t. live_useful e shapes (tr_left t) \<and> live_useful e shapes (tr_right t) \<and> live_useful e shapes (tr_result t) \<and>
           live_meets e (tr_left t) (tr_right t) \<and> t \<in> live_between e (tr_left t) (tr_right t)}"
      using b unfolding mark set_filter t by blast
    have C: "set closures = {c. buildable e shapes (lc_left c) \<and> buildable e shapes (lc_right c) \<and> c \<in> closures_between e (lc_left c) (lc_right c)}"
      using closures_between_ends unfolding cl(2) ex(1) [symmetric] by blast
    have S: "filter (\<lambda>s. sr_shape s \<in> set ?useful) sources = filter (\<lambda>s. live_useful e shapes (sr_shape s)) sources" by (simp add: mark)
    have M: "set ?useful = {s. live_useful e shapes s}" using mark by blast
    obtain plan where plan: "plan_of ts closures sources = Some plan" "lv_shapes plan = ?useful"
        "lv_transitions plan = filter (\<lambda>t. tr_result t \<in> set ?useful \<and> tr_left t \<in> set ?useful \<and> tr_right t \<in> set ?useful) ts"
        "lv_closures plan = closures" "lv_sources plan = filter (\<lambda>s. sr_shape s \<in> set ?useful) sources"
      using False by (simp add: plan_of_def Let_def)
    show ?thesis unfolding e_def [symmetric]
    proof (intro exI [of _ "Some plan"] conjI)
      show "build_backward_live_state_plan env = Inr (Some plan)" unfolding run plan(1) ..
      show "case Some plan of None \<Rightarrow> \<forall>s. \<not> live_useful e shapes s | Some plan \<Rightarrow> exact_plan e shapes sources plan"
        unfolding option.case exact_plan_def plan(2-5) T C S by (simp only: M False not_False_eq_True simp_thms)
    qed
  qed
qed

text \<open>The sinks of the sectors of such an engine, and the sources, are computed without error.\<close>

lemma sink_returns:
  assumes "sector_engine e" "s \<in> set (pl_sectors (en_plan e))"
  shows "returns (canonical_closure_sink_label s (pl_process (en_plan e)))"
proof (cases "sc_kind s = Open_Lines")
  case True
  then show ?thesis using sector_words_return(2) [OF assms] by (auto simp: canonical_closure_sink_label_def)
qed (simp add: canonical_closure_sink_label_def canonical_closure_traversal_word_def canonical_closure_blocks_def)

lemma physical_sink_returns:
  assumes "sector_engine e"
  shows "returns (physical_sink_sector_ids (en_plan e) splits)"
proof -
  have "returns (sectors_with_sink (pl_process (en_plan e)) sinks ss)" if "set ss \<subseteq> set (pl_sectors (en_plan e))" for sinks ss
    using that
  proof (induction ss)
    case (Cons s ss)
    obtain l where "canonical_closure_sink_label s (pl_process (en_plan e)) = Inr l" using sink_returns [OF assms] Cons.prems by auto
    moreover obtain r where "sectors_with_sink (pl_process (en_plan e)) sinks ss = Inr r" using Cons by auto
    ultimately show ?case by (simp split: option.split)
  qed simp
  note sectors = this
  show ?thesis
  proof (cases "sink_labels splits")
    case (Some sinks)
    obtain r where "sectors_with_sink (pl_process (en_plan e)) sinks (pl_sectors (en_plan e)) = Inr r" using sectors [of _ sinks] by blast
    then show ?thesis by (simp add: physical_sink_sector_ids_def Some)
  qed (simp add: physical_sink_sector_ids_def)
qed

lemma live_sources_full: "live_sources (env\<lparr>le_full := full\<rparr>) ids = live_sources env ids"
proof -
  have "leg_rows (env\<lparr>le_full := full\<rparr>) = leg_rows env" by (intro ext) (simp add: leg_rows_def)
  moreover have "shape_allowed (env\<lparr>le_full := full\<rparr>) = shape_allowed env" "source_shape (env\<lparr>le_full := full\<rparr>) = source_shape env"
    by (intro ext, simp add: shape_allowed_def source_shape_def)+
  then have "add_source (env\<lparr>le_full := full\<rparr>) = add_source env"
    by (intro ext) (simp add: add_source_def split: prod.split)
  ultimately show ?thesis by (simp add: live_sources_def)
qed

lemma live_sources_return:
  assumes "\<forall>leg \<in> set (i_legs (le_process env)). l_outgoing_pdg leg \<notin> set (le_ignored_particles env) \<longrightarrow> returns (leg_rows env leg)"
  shows "returns (live_sources env ids)"
proof -
  have "mapE (leg_rows env) (filter (\<lambda>leg. l_outgoing_pdg leg \<notin> set (le_ignored_particles env)) (i_legs (le_process env))) =
      Inr (map (\<lambda>leg. rows_of (leg_rows env leg)) (filter (\<lambda>leg. l_outgoing_pdg leg \<notin> set (le_ignored_particles env)) (i_legs (le_process env))))"
    by (rule mapE_rows) (use assms in auto)
  then show ?thesis by (simp add: live_sources_def)
qed

definition built_engine :: "'c engine \<Rightarrow> bool" where
  "built_engine e \<longleftrightarrow> (\<exists>m adjoint trace_proven plan symmetry. make_engine m adjoint trace_proven plan symmetry = Inr e)"

text \<open>
  C17. Let the engine be one its constructor builds, the accuracy known, the labels one-based, and let
  the source contract and crossing of every leg that is not ignored be defined. Then the planner
  returns without error. It returns no plan exactly when it does not apply (leading colour, shared
  orderings or traces, at most one sector), when no sector ends at a physical sink, or when nothing
  feeds a closure. Otherwise the plan keeps exactly the shapes that can be built from the sources
  and feed a closure, the transitions between them, the closures of all that can be built, and the
  sources whose shapes are kept.
\<close>

theorem live_plan_exact:
  assumes engine: "built_engine (le_engine env)"
    and accuracy: "i_color_accuracy (le_process env) \<in> {STR ''lc'', STR ''nlc'', STR ''full''}"
    and pos: "\<forall>leg \<in> set (i_legs (le_process env)). 1 \<le> l_label leg"
    and rows: "\<forall>leg \<in> set (i_legs (le_process env)). l_outgoing_pdg leg \<notin> set (le_ignored_particles env) \<longrightarrow> returns (leg_rows env leg)"
  shows "\<exists>r full vs. build_backward_live_state_plan env = Inr r \<and> labels_mask (map l_label (i_legs (le_process env))) = Inr full \<and>
    iter_vertices (le_model env) (i_color_accuracy (le_process env)) = Inr vs \<and>
    (if \<not> plan_applies (le_engine env) \<or> physical_sink_sector_ids (en_plan (le_engine env)) (le_splits env) = Inr None then r = None
     else \<exists>ids shapes sources. physical_sink_sector_ids (en_plan (le_engine env)) (le_splits env) = Inr (Some ids) \<and>
       live_sources env ids = Inr (shapes, sources) \<and>
       (case r of None \<Rightarrow> \<forall>s. \<not> live_useful (plan_env env full vs) shapes s
        | Some plan \<Rightarrow> exact_plan (plan_env env full vs) shapes sources plan))"
proof -
  obtain full where full: "labels_mask (map l_label (i_legs (le_process env))) = Inr full"
    by (rule labels_mask_bits [of "map l_label (i_legs (le_process env))"]) (use pos in auto)
  obtain vs where vs: "iter_vertices (le_model env) (i_color_accuracy (le_process env)) = Inr vs"
    using accuracy by (auto simp: iter_vertices_def)
  show ?thesis
  proof (cases "plan_applies (le_engine env)")
    case False
    then have "build_backward_live_state_plan env = Inr None" by (simp add: build_backward_live_state_plan_def)
    with False full vs show ?thesis by simp
  next
    case True
    then have eng: "sector_engine (le_engine env)" using engine by (simp add: sector_engine_def built_engine_def)
    obtain active where active: "physical_sink_sector_ids (en_plan (le_engine env)) (le_splits env) = Inr active"
      using physical_sink_returns [OF eng] by blast
    show ?thesis
    proof (cases active)
      case None
      then have "build_backward_live_state_plan env = Inr None" using True active by (simp add: build_backward_live_state_plan_def)
      with None active full vs show ?thesis by simp
    next
      case (Some ids)
      obtain shapes sources where src: "live_sources env ids = Inr (shapes, sources)"
        using live_sources_return [OF rows, of ids] by (metis surj_pair)
      from planned [OF eng active [unfolded Some] full _ vs, unfolded live_sources_full, OF src] obtain r where
        "build_backward_live_state_plan env = Inr r" "case r of None \<Rightarrow> \<forall>s. \<not> live_useful (plan_env env full vs) shapes s
          | Some plan \<Rightarrow> exact_plan (plan_env env full vs) shapes sources plan" by blast
      with True active Some src full vs show ?thesis
        by (intro exI [of _ r] exI [of _ full] exI [of _ vs]) simp
    qed
  qed
qed

section \<open>Instances\<close>

definition live_process :: process_ir where
  "live_process = (sample_process STR ''nlc'' [])\<lparr>i_legs := map gluon_leg [1, 2, 3]\<rparr>"

definition live_color_plan :: color_plan where
  "live_color_plan = sample_color_plan\<lparr>pl_process := live_process, pl_color_accuracy := STR ''nlc'',
     pl_sectors := [gluon_sector 0 [1, 2, 3], gluon_sector 1 [1, 3, 2]]\<rparr>"

definition live_model :: "unit vertex_model" where
  "live_model = gluon_model\<lparr>vm_direct := [((21, 0, 21, 0), Some ())]\<rparr>"

definition live_engine :: "unit engine" where
  "live_engine = \<lparr>en_plan = live_color_plan, en_model = live_model, en_base = \<lparr>ce_auxiliary_ids = [], ce_pair_count = 0\<rparr>,
     en_coloured = [1, 2, 3], en_singlets = [], en_single_trace = False, en_trace_words = [[1, 2, 3], [1, 3, 2]],
     en_closure_ids_by_word = [([1, 2, 3], [0]), ([1, 3, 2], [1])], en_orderings = False, en_all_symmetry = False, en_fixed_sink = None,
     en_words_by_sector = [(gluon_sector 0 [1, 2, 3], [[1, 2, 3]]), (gluon_sector 1 [1, 3, 2], [[1, 3, 2]])],
     en_ids_by_word = [], en_ids_by_segment = []\<rparr>"

definition live_env :: "unit live_env" where
  "live_env = \<lparr>le_process = live_process, le_model = live_model, le_vertices = [], le_engine = live_engine, le_full = 0, le_splits = [(3, 4)],
     le_closure_masks = None, le_color_masks = None, le_useful = None, le_limits = [], le_line_limit = None, le_ignored_particles = [],
     le_ignored_kinds = [], le_selected = [(1, 1), (2, 1), (3, -1)], le_anchor = None,
     le_quantum_flows = (\<lambda>_ _ _. [\<lparr>qf_chirality = 0, qf_spin_state = SpinInt 0, qf_flavour_flow = [], qf_quantum_number_flow = [], qf_coupling = (1, 0)\<rparr>]),
     le_current_allowed = (\<lambda>_. True), le_vertex_weight = (\<lambda>_. (1, 0)), le_closure_allowed = (\<lambda>_. True), le_quantum_numbers = (\<lambda>_. [])\<rparr>"

lemma live_engine_made: "sector_engine live_engine"
proof -
  have base: "make_color_engine live_model (i_legs live_process) = \<lparr>ce_auxiliary_ids = [], ce_pair_count = 0\<rparr>" by code_simp
  have labels: "shared_coloured_labels sample_model live_process = [1, 2, 3]" "shared_singlet_labels sample_model live_process = []" by code_simp+
  have rows: "shared_words_by_sector live_color_plan False None =
      Inr [(gluon_sector 0 [1, 2, 3], [[1, 2, 3]]), (gluon_sector 1 [1, 3, 2], [[1, 3, 2]])]" by code_simp
  have words: "concat (map color_words (pl_sectors live_color_plan)) = [[1, 2, 3], [1, 3, 2]]"
    "closure_sector_ids_by_word (pl_sectors live_color_plan) = [([1, 2, 3], [0]), ([1, 3, 2], [1])]" by code_simp+
  have plan: "pl_process live_color_plan = live_process" "pl_color_accuracy live_color_plan = STR ''nlc''" "length (pl_sectors live_color_plan) = 2"
    by (simp_all add: live_color_plan_def)
  have m: "vm_base live_model = sample_model" by (simp add: live_model_def gluon_model_def)
  have "\<not> shared_lc_orderings sample_model live_color_plan 0" by (simp add: shared_lc_orderings_def plan)
  moreover have "\<not> shared_single_trace_of sample_model (\<lambda>_. True) (\<lambda>_. False) live_color_plan" by (simp add: shared_single_trace_of_def)
  ultimately have "make_engine live_model (\<lambda>_. True) (\<lambda>_. False) live_color_plan False = Inr live_engine"
    by (simp add: make_engine_def Let_def plan m base labels rows words live_engine_def)
  moreover have "plan_applies live_engine" by (simp add: plan_applies_def live_engine_def plan)
  ultimately show ?thesis unfolding sector_engine_def by blast
qed

lemma holds_of_iff:
  "(case m of Inl (e :: exn) \<Rightarrow> False | Inr x \<Rightarrow> P x) \<longleftrightarrow> (\<exists>x. m = Inr x \<and> P x)"
  "(case x of None \<Rightarrow> False | Some y \<Rightarrow> P y) \<longleftrightarrow> (\<exists>y. x = Some y \<and> P y)"
  by (auto split: sum.split option.split)

lemma live_plan_exact_witness:
  "\<exists>plan sources. build_backward_live_state_plan live_env = Inr (Some plan) \<and> (\<exists>s \<in> set (lv_shapes plan). sh_mask s = 3) \<and>
     exact_plan (plan_env live_env 7 [gluon_vertex]) (fst (case live_sources live_env [0] of Inr r \<Rightarrow> r)) sources plan"
proof -
  have sink: "physical_sink_sector_ids (en_plan (le_engine live_env)) (le_splits live_env) = Inr (Some [0])" by code_simp
  have full: "labels_mask (map l_label (i_legs (le_process live_env))) = Inr 7" by code_simp
  have acc: "i_color_accuracy (le_process live_env) = STR ''nlc''" by (simp add: live_env_def live_process_def sample_process_def)
  then have vs: "iter_vertices (le_model live_env) (i_color_accuracy (le_process live_env)) = Inr [gluon_vertex]"
    by (simp add: iter_vertices_def live_env_def live_model_def gluon_model_def)
  have eng: "plan_applies (le_engine live_env)" "built_engine (le_engine live_env)"
    using live_engine_made by (auto simp: live_env_def sector_engine_def built_engine_def)
  have pos: "\<forall>leg \<in> set (i_legs (le_process live_env)). 1 \<le> l_label leg" by code_simp
  have rows: "\<forall>leg \<in> set (i_legs (le_process live_env)). l_outgoing_pdg leg \<notin> set (le_ignored_particles live_env) \<longrightarrow>
      (case leg_rows live_env leg of Inl e \<Rightarrow> False | Inr r \<Rightarrow> True)" by code_simp
  have run: "case live_sources live_env [0] of Inl _ \<Rightarrow> False | Inr (shapes, sources) \<Rightarrow>
      (case live_sweep (plan_env live_env 7 [gluon_vertex]) shapes of Inl _ \<Rightarrow> False | Inr (possible, ts) \<Rightarrow>
      (case live_closures (plan_env live_env 7 [gluon_vertex]) possible of Inl _ \<Rightarrow> False | Inr closures \<Rightarrow>
      (case plan_of ts closures sources of None \<Rightarrow> False | Some plan \<Rightarrow> list_ex (\<lambda>s. sh_mask s = 3) (lv_shapes plan))))" by code_simp
  then obtain shapes sources possible ts closures plan where r: "live_sources live_env [0] = Inr (shapes, sources)"
      "live_sweep (plan_env live_env 7 [gluon_vertex]) shapes = Inr (possible, ts)"
      "live_closures (plan_env live_env 7 [gluon_vertex]) possible = Inr closures" "plan_of ts closures sources = Some plan"
      "\<exists>s \<in> set (lv_shapes plan). sh_mask s = 3"
    unfolding holds_of_iff list_ex_iff split_paired_Ex prod.case by blast
  have b: "build_backward_live_state_plan live_env = Inr (Some plan)"
    using eng(1) r by (simp add: build_backward_live_state_plan_def sink full vs live_sources_full plan_env_def [symmetric])
  have "\<exists>r full vs. build_backward_live_state_plan live_env = Inr r \<and> labels_mask (map l_label (i_legs (le_process live_env))) = Inr full \<and>
    iter_vertices (le_model live_env) (i_color_accuracy (le_process live_env)) = Inr vs \<and>
    (if \<not> plan_applies (le_engine live_env) \<or> physical_sink_sector_ids (en_plan (le_engine live_env)) (le_splits live_env) = Inr None then r = None
     else \<exists>ids shapes sources. physical_sink_sector_ids (en_plan (le_engine live_env)) (le_splits live_env) = Inr (Some ids) \<and>
       live_sources live_env ids = Inr (shapes, sources) \<and>
       (case r of None \<Rightarrow> \<forall>s. \<not> live_useful (plan_env live_env full vs) shapes s
        | Some plan \<Rightarrow> exact_plan (plan_env live_env full vs) shapes sources plan))"
    by (rule live_plan_exact [OF eng(2) _ pos]) (use acc rows [unfolded holds_of_iff] in simp_all)
  then have "exact_plan (plan_env live_env 7 [gluon_vertex]) shapes sources plan" using eng(1) sink full vs r(1) b by simp
  with b r(1,5) show ?thesis by (intro exI [of _ plan] exI [of _ sources]) simp
qed

end
