(* ===== verification/Artifact_Transaction.thy ===== *)
theory Artifact_Transaction
  imports Prelude
begin

text \<open>
  Publication of an artifact directory (\<open>artifacts/transaction.py\<close>) and the part of
  \<open>ArtifactBuilder\<close> (\<open>artifacts/writer.py\<close>) that opens and closes it. Several
  processes write the same destination; each prepares a private sibling directory under a file
  lock and publishes it with one rename. Every system call is one step of a process, may fail, and
  the process may be killed between any two of them; the steps of the processes interleave
  freely. \<open>uuid4\<close> names are modelled by the number of the process, so two processes
  never share a staging directory. A process whose transaction was never closed keeps the lock
  until its transaction object is collected, which closes the lock file, or until it is killed. A
  body that catches the exception of its own \<open>commit()\<close> and goes on is not modelled.
\<close>

section \<open>The file system next to the destination\<close>

text \<open>A directory is the list of the relative paths and contents of its files.\<close>

type_synonym contents = "(string \<times> string) list"

datatype node = File_Node | Directory contents

datatype entry = Destination | Lock_File | Staging nat

record fs =
  fs_node :: "entry \<Rightarrow> node option"
  fs_owner :: "nat option"

definition put :: "entry \<Rightarrow> node option \<Rightarrow> fs \<Rightarrow> fs" where
  "put e n f = f\<lparr>fs_node := (fs_node f)(e := n)\<rparr>"

definition lock_by :: "nat \<Rightarrow> fs \<Rightarrow> fs" where
  "lock_by i f = (put Lock_File (Some File_Node) f)\<lparr>fs_owner := Some i\<rparr>"

definition unlock :: "fs \<Rightarrow> fs" where
  "unlock f = f\<lparr>fs_owner := None\<rparr>"

definition is_dir :: "node option \<Rightarrow> bool" where
  "is_dir n = (case n of Some (Directory _) \<Rightarrow> True | _ \<Rightarrow> False)"

text \<open>\<open>renameat2\<close> with the exchange flag, and \<open>os.replace\<close> of a directory.\<close>

definition exchange :: "entry \<Rightarrow> entry \<Rightarrow> fs \<Rightarrow> fs" where
  "exchange a b f = put a (fs_node f b) (put b (fs_node f a) f)"

definition rename :: "entry \<Rightarrow> entry \<Rightarrow> fs \<Rightarrow> fs" where
  "rename a b f = put a None (put b (fs_node f a) f)"

section \<open>The operations of a transaction\<close>

datatype write_mode = Error_Mode | Append_Mode | Replace_Mode

datatype tx_error =
    Artifact_Error
  | File_Exists_Error
  | File_Not_Found_Error
  | Runtime_Error
  | Os_Error
  | Body_Error

definition parse_mode :: "string \<Rightarrow> write_mode res" where
  "parse_mode s =
     (if s = ''error'' then Inr Error_Mode
      else if s = ''append'' then Inr Append_Mode
      else if s = ''replace'' then Inr Replace_Mode
      else Inl (ValueError STR ''artifact mode must be error, append, or replace''))"

text \<open>What \<open>__enter__\<close> checks once it holds the lock.\<close>

definition enter_check :: "write_mode \<Rightarrow> fs \<Rightarrow> tx_error option" where
  "enter_check mode f =
     (if fs_node f Destination \<noteq> None \<and> \<not> is_dir (fs_node f Destination) then Some Artifact_Error
      else if mode = Error_Mode \<and> fs_node f Destination \<noteq> None then Some File_Exists_Error
      else if mode = Append_Mode \<and> \<not> is_dir (fs_node f Destination) then Some File_Not_Found_Error
      else None)"

definition initial_contents :: "write_mode \<Rightarrow> fs \<Rightarrow> contents" where
  "initial_contents mode f =
     (if mode = Append_Mode then (case fs_node f Destination of Some (Directory c) \<Rightarrow> c | _ \<Rightarrow> []) else [])"

definition commit_check :: "nat \<Rightarrow> bool \<Rightarrow> fs \<Rightarrow> tx_error option" where
  "commit_check i committed f =
     (if committed then Some Runtime_Error
      else if \<not> is_dir (fs_node f (Staging i)) then Some Artifact_Error
      else None)"

definition publish :: "nat \<Rightarrow> fs \<Rightarrow> fs" where
  "publish i f =
     (if fs_node f Destination \<noteq> None then exchange (Staging i) Destination f
      else rename (Staging i) Destination f)"

definition manifest_name :: string where
  "manifest_name = ''artifact.json''"

text \<open>The guard of \<open>ArtifactBuilder.__exit__\<close>.\<close>

definition has_manifest :: "nat \<Rightarrow> fs \<Rightarrow> bool" where
  "has_manifest i f =
     (case fs_node f (Staging i) of Some (Directory c) \<Rightarrow> manifest_name \<in> fst ` set c | _ \<Rightarrow> False)"

section \<open>A process using a transaction\<close>

text \<open>
  The body of the \<open>with\<close> statement: writes into the staging directory, an explicit
  \<open>commit()\<close>, or an exception.
\<close>

datatype action = Write "contents \<Rightarrow> contents" | Commit | Raise

text \<open>
  Where a process stands: before \<open>__enter__\<close>, holding the lock, with the destination
  checked, in the body, inside \<open>commit\<close> before and after the rename (called by the body or
  by \<open>__exit__\<close>), in \<open>_release\<close> before and after the removal of the staging
  directory, out of the \<open>with\<close> statement without a release, the same after the transaction
  object has been collected, out of it, killed.
\<close>

datatype pc =
    Created
  | Locked
  | Validated
  | In_Body
  | Committing bool
  | Renamed bool
  | Releasing "tx_error option"
  | Unlocking "tx_error option"
  | Leaked tx_error
  | Dropped tx_error
  | Ended "tx_error option"
  | Killed

record tx =
  tx_mode :: write_mode
  tx_builder :: bool
  tx_body :: "action list"
  tx_rest :: "action list"
  tx_pc :: pc
  tx_committed :: bool

definition new_tx :: "write_mode \<Rightarrow> bool \<Rightarrow> action list \<Rightarrow> tx" where
  "new_tx mode builder body =
     \<lparr>tx_mode = mode, tx_builder = builder, tx_body = body, tx_rest = body, tx_pc = Created, tx_committed = False\<rparr>"

abbreviation goto :: "pc \<Rightarrow> tx \<Rightarrow> tx" where
  "goto x p \<equiv> p\<lparr>tx_pc := x\<rparr>"

definition after_check :: "pc \<Rightarrow> tx_error option \<Rightarrow> pc" where
  "after_check next err = (case err of None \<Rightarrow> next | Some e \<Rightarrow> Releasing (Some e))"

datatype outcome = Normal | Fault | Crash

inductive tx_step :: "nat \<Rightarrow> outcome \<Rightarrow> tx \<times> fs \<Rightarrow> tx \<times> fs \<Rightarrow> bool" for i where
  acquire: "tx_pc p = Created \<Longrightarrow> fs_owner f = None \<Longrightarrow> tx_step i Normal (p, f) (goto Locked p, lock_by i f)"
| open_fails: "tx_pc p = Created \<Longrightarrow> tx_step i Fault (p, f) (goto (Ended (Some Os_Error)) p, f)"
| validate: "tx_pc p = Locked \<Longrightarrow> tx_step i Normal (p, f) (goto (after_check Validated (enter_check (tx_mode p) f)) p, f)"
| validate_fails: "tx_pc p = Locked \<Longrightarrow> tx_step i Fault (p, f) (goto (Releasing (Some Os_Error)) p, f)"
| stage: "tx_pc p = Validated \<Longrightarrow> fs_node f (Staging i) = None \<Longrightarrow>
    tx_step i Normal (p, f) (goto In_Body p, put (Staging i) (Some (Directory (initial_contents (tx_mode p) f))) f)"
| stage_exists: "tx_pc p = Validated \<Longrightarrow> fs_node f (Staging i) \<noteq> None \<Longrightarrow>
    tx_step i Normal (p, f) (goto (Releasing (Some File_Exists_Error)) p, f)"
| stage_fails: "tx_pc p = Validated \<Longrightarrow> fs_node f (Staging i) = None \<Longrightarrow>
    tx_step i Fault (p, f) (goto (Releasing (Some Os_Error)) p, put (Staging i) (map_option Directory partial) f)"
| write_file: "tx_pc p = In_Body \<Longrightarrow> tx_rest p = Write g # rest \<Longrightarrow> fs_node f (Staging i) = Some (Directory c) \<Longrightarrow>
    tx_step i Normal (p, f) (p\<lparr>tx_rest := rest\<rparr>, put (Staging i) (Some (Directory (g c))) f)"
| write_lost: "tx_pc p = In_Body \<Longrightarrow> tx_rest p = Write g # rest \<Longrightarrow> \<not> is_dir (fs_node f (Staging i)) \<Longrightarrow>
    tx_step i Normal (p, f) (goto (Releasing (Some File_Not_Found_Error)) p, f)"
| write_fails: "tx_pc p = In_Body \<Longrightarrow> tx_rest p = Write g # rest \<Longrightarrow> is_dir (fs_node f (Staging i)) \<Longrightarrow>
    tx_step i Fault (p, f) (goto (Releasing (Some Os_Error)) p, put (Staging i) (Some (Directory partial)) f)"
| raise_error: "tx_pc p = In_Body \<Longrightarrow> tx_rest p = Raise # rest \<Longrightarrow>
    tx_step i Normal (p, f) (goto (Releasing (Some Body_Error)) p, f)"
| call_commit: "tx_pc p = In_Body \<Longrightarrow> tx_rest p = Commit # rest \<Longrightarrow>
    tx_step i Normal (p, f) (p\<lparr>tx_rest := rest, tx_pc := after_check (Committing True) (commit_check i (tx_committed p) f)\<rparr>, f)"
| leave: "tx_pc p = In_Body \<Longrightarrow> tx_rest p = [] \<Longrightarrow> \<not> tx_builder p \<or> has_manifest i f \<Longrightarrow>
    tx_step i Normal (p, f)
      (goto (if tx_committed p then Releasing None else after_check (Committing False) (commit_check i False f)) p, f)"
| leave_unfinished: "tx_pc p = In_Body \<Longrightarrow> tx_rest p = [] \<Longrightarrow> tx_builder p \<Longrightarrow> \<not> has_manifest i f \<Longrightarrow>
    tx_step i Normal (p, f) (goto (Leaked Runtime_Error) p, f)"
| publish_staging: "tx_pc p = Committing called \<Longrightarrow> tx_step i Normal (p, f) (goto (Renamed called) p, publish i f)"
| publish_fails: "tx_pc p = Committing called \<Longrightarrow> tx_step i Fault (p, f) (goto (Releasing (Some Os_Error)) p, f)"
| synced: "tx_pc p = Renamed called \<Longrightarrow>
    tx_step i Normal (p, f) (p\<lparr>tx_pc := (if called then In_Body else Releasing None), tx_committed := True\<rparr>, f)"
| sync_fails: "tx_pc p = Renamed called \<Longrightarrow> tx_step i Fault (p, f) (goto (Releasing (Some Os_Error)) p, f)"
| cleanup: "tx_pc p = Releasing e \<Longrightarrow> fs_node f (Staging i) \<noteq> Some File_Node \<Longrightarrow>
    tx_step i Normal (p, f) (goto (Unlocking e) p, put (Staging i) None f)"
| cleanup_file: "tx_pc p = Releasing e \<Longrightarrow> fs_node f (Staging i) = Some File_Node \<Longrightarrow>
    tx_step i Normal (p, f) (goto (Leaked Os_Error) p, f)"
| cleanup_fails: "tx_pc p = Releasing e \<Longrightarrow> is_dir (fs_node f (Staging i)) \<Longrightarrow>
    tx_step i Fault (p, f) (goto (Leaked Os_Error) p, put (Staging i) (Some (Directory partial)) f)"
| unlock_file: "tx_pc p = Unlocking e \<Longrightarrow> tx_step i Normal (p, f) (goto (Ended e) p, unlock f)"
| collect: "tx_pc p = Leaked e \<Longrightarrow> tx_step i Normal (p, f) (goto (Dropped e) p, unlock f)"
| crash: "(\<And>e. tx_pc p \<noteq> Ended e) \<Longrightarrow> (\<And>e. tx_pc p \<noteq> Dropped e) \<Longrightarrow> tx_pc p \<noteq> Killed \<Longrightarrow>
    tx_step i Crash (p, f) (goto Killed p, if fs_owner f = Some i then unlock f else f)"

text \<open>One process of the system moves; the others stay where they are.\<close>

inductive sys_step :: "nat \<Rightarrow> outcome \<Rightarrow> tx list \<times> fs \<Rightarrow> tx list \<times> fs \<Rightarrow> bool" where
  moves: "i < length ps \<Longrightarrow> tx_step i out (ps ! i, f) (p', f') \<Longrightarrow> sys_step i out (ps, f) (ps[i := p'], f')"

definition any_step :: "tx list \<times> fs \<Rightarrow> tx list \<times> fs \<Rightarrow> bool" where
  "any_step s s' \<longleftrightarrow> (\<exists>i out. sys_step i out s s')"

definition normal_step :: "tx list \<times> fs \<Rightarrow> tx list \<times> fs \<Rightarrow> bool" where
  "normal_step s s' \<longleftrightarrow> (\<exists>i. sys_step i Normal s s')"

lemma normal_any: "normal_step s s' \<Longrightarrow> any_step s s'"
  by (auto simp: normal_step_def any_step_def)

text \<open>Nobody holds the lock, and the fresh staging names are free.\<close>

definition sys_init :: "tx list \<times> fs \<Rightarrow> bool" where
  "sys_init = (\<lambda>(ps, f). (\<forall>p \<in> set ps. p = new_tx (tx_mode p) (tx_builder p) (tx_body p)) \<and>
     fs_owner f = None \<and> (\<forall>i < length ps. fs_node f (Staging i) = None))"


text \<open>The moves of a process when every call succeeds, as a function, and a schedule of them.\<close>

definition body_move :: "nat \<Rightarrow> tx \<Rightarrow> fs \<Rightarrow> tx \<times> fs" where
  "body_move i p f =
     (case tx_rest p of
        [] \<Rightarrow>
          (if tx_builder p \<and> \<not> has_manifest i f then (goto (Leaked Runtime_Error) p, f)
           else (goto (if tx_committed p then Releasing None else after_check (Committing False) (commit_check i False f)) p, f))
      | Write g # rest \<Rightarrow>
          (case fs_node f (Staging i) of
             Some (Directory c) \<Rightarrow> (p\<lparr>tx_rest := rest\<rparr>, put (Staging i) (Some (Directory (g c))) f)
           | _ \<Rightarrow> (goto (Releasing (Some File_Not_Found_Error)) p, f))
      | Raise # rest \<Rightarrow> (goto (Releasing (Some Body_Error)) p, f)
      | Commit # rest \<Rightarrow>
          (p\<lparr>tx_rest := rest, tx_pc := after_check (Committing True) (commit_check i (tx_committed p) f)\<rparr>, f))"

definition normal_move :: "nat \<Rightarrow> tx \<Rightarrow> fs \<Rightarrow> (tx \<times> fs) option" where
  "normal_move i p f =
     (case tx_pc p of
        Created \<Rightarrow> (if fs_owner f = None then Some (goto Locked p, lock_by i f) else None)
      | Locked \<Rightarrow> Some (goto (after_check Validated (enter_check (tx_mode p) f)) p, f)
      | Validated \<Rightarrow>
          Some (if fs_node f (Staging i) = None
                then (goto In_Body p, put (Staging i) (Some (Directory (initial_contents (tx_mode p) f))) f)
                else (goto (Releasing (Some File_Exists_Error)) p, f))
      | In_Body \<Rightarrow> Some (body_move i p f)
      | Committing called \<Rightarrow> Some (goto (Renamed called) p, publish i f)
      | Renamed called \<Rightarrow> Some (p\<lparr>tx_pc := (if called then In_Body else Releasing None), tx_committed := True\<rparr>, f)
      | Releasing e \<Rightarrow>
          Some (if fs_node f (Staging i) = Some File_Node then (goto (Leaked Os_Error) p, f)
                else (goto (Unlocking e) p, put (Staging i) None f))
      | Unlocking e \<Rightarrow> Some (goto (Ended e) p, unlock f)
      | Leaked e \<Rightarrow> Some (goto (Dropped e) p, unlock f)
      | _ \<Rightarrow> None)"

fun schedule :: "nat list \<Rightarrow> tx list \<times> fs \<Rightarrow> (tx list \<times> fs) option" where
  "schedule [] s = Some s"
| "schedule (i # is) (ps, f) =
     (if i < length ps
      then (case normal_move i (ps ! i) f of None \<Rightarrow> None | Some (p', f') \<Rightarrow> schedule is (ps[i := p'], f'))
      else None)"

lemma body_move_step:
  assumes body: "tx_pc p = In_Body"
  shows "tx_step i Normal (p, f) (body_move i p f)"
proof (cases "tx_rest p")
  case Nil
  then show ?thesis using leave [OF body Nil, of i f] leave_unfinished [OF body Nil, of i f] by (auto simp: body_move_def)
next
  case (Cons a rest)
  show ?thesis
  proof (cases a)
    case (Write g)
    have rest: "tx_rest p = Write g # rest" using Cons Write by simp
    show ?thesis using write_file [OF body rest, of f i] write_lost [OF body rest, of f i]
      by (auto simp: body_move_def rest is_dir_def split: option.splits node.splits)
  next
    case Commit
    then show ?thesis using call_commit [OF body, of rest i f] Cons by (simp add: body_move_def)
  next
    case Raise
    then show ?thesis using raise_error [OF body, of rest i f] Cons by (simp add: body_move_def)
  qed
qed

lemma normal_move_step:
  assumes "normal_move i p f = Some s"
  shows "tx_step i Normal (p, f) s"
proof (cases "tx_pc p")
  case (Renamed called)
  then show ?thesis using assms synced [OF Renamed, of i f] by (simp add: normal_move_def)
next
  case In_Body
  then show ?thesis using assms body_move_step [OF In_Body, of i f] by (simp add: normal_move_def)
qed (use assms in \<open>auto simp: normal_move_def intro: tx_step.intros split: if_splits\<close>)

text \<open>Fault-free steps are exactly the moves: a process has one way to go on.\<close>

lemma step_normal_move: "tx_step i Normal (p, f) s \<Longrightarrow> normal_move i p f = Some s"
  by (erule tx_step.cases) (auto simp: normal_move_def body_move_def is_dir_def split: option.splits node.splits)

lemma schedule_steps: "schedule is s = Some s' \<Longrightarrow> (normal_step ^^ length is) s s'"
proof (induction "is" s rule: schedule.induct)
  case (2 i "is" ps f)
  then obtain p' f' where i: "i < length ps" and m: "normal_move i (ps ! i) f = Some (p', f')" and r: "schedule is (ps[i := p'], f') = Some s'"
    by (auto split: if_splits option.splits)
  have "normal_step (ps, f) (ps[i := p'], f')" using moves [OF i normal_move_step [OF m]] by (auto simp: normal_step_def)
  moreover have "(normal_step ^^ length is) (ps[i := p'], f') s'" using "2.IH" [OF i m refl r] by simp
  ultimately have "(normal_step ^^ Suc (length is)) (ps, f) s'" by (rule relpowp_Suc_I2)
  then show ?case by (simp only: list.size(4) add_Suc_right add_0_right)
qed simp

inductive_cases tx_stepE: "tx_step i out (p, f) (p', f')"
inductive_cases sys_stepE: "sys_step i out (ps, f) (ps', f')"
inductive_simps ended_simps: "tx_step i Normal (goto (Ended e) p, f) s"

section \<open>Interfaces: invariants and completion of a system of steps\<close>

locale step_system =
  fixes init :: "'s \<Rightarrow> bool" and step :: "'s \<Rightarrow> 's \<Rightarrow> bool" and inv :: "'s \<Rightarrow> bool"
  assumes init_inv: "init s \<Longrightarrow> inv s"
    and step_inv: "inv s \<Longrightarrow> step s s' \<Longrightarrow> inv s'"
begin

lemma steps_inv: "step\<^sup>*\<^sup>* s s' \<Longrightarrow> inv s \<Longrightarrow> inv s'"
  by (induction rule: rtranclp_induct) (auto intro: step_inv)

lemma reachable_inv: "init s \<Longrightarrow> step\<^sup>*\<^sup>* s s' \<Longrightarrow> inv s'"
  by (blast intro: init_inv steps_inv)

end

text \<open>A measure that every step lowers, and a fault-free step wherever work is left.\<close>

locale completing_system = step_system init step inv
  for init :: "'s \<Rightarrow> bool" and step :: "'s \<Rightarrow> 's \<Rightarrow> bool" and inv :: "'s \<Rightarrow> bool" +
  fixes fair :: "'s \<Rightarrow> 's \<Rightarrow> bool" and finished :: "'s \<Rightarrow> bool" and work :: "'s \<Rightarrow> nat"
  assumes fair_step: "fair s s' \<Longrightarrow> step s s'"
    and step_work: "step s s' \<Longrightarrow> work s' < work s"
    and progress: "inv s \<Longrightarrow> \<not> finished s \<Longrightarrow> \<exists>s'. fair s s'"
begin

lemma run_length: "(step ^^ n) s s' \<Longrightarrow> n + work s' \<le> work s"
proof (induction n arbitrary: s')
  case (Suc n)
  then obtain u where u: "(step ^^ n) s u" and "step u s'" by auto
  then show ?case using Suc.IH [OF u] step_work [of u s'] by simp
qed simp

lemma completes: "inv s \<Longrightarrow> \<exists>s'. fair\<^sup>*\<^sup>* s s' \<and> finished s' \<and> inv s'"
proof (induction "work s" arbitrary: s rule: less_induct)
  case less
  show ?case
  proof (cases "finished s")
    case False
    then obtain u where u: "fair s u" using less.prems progress by blast
    have "inv u" "work u < work s" using less.prems u step_inv [of s u] step_work [of s u] fair_step [of s u] by auto
    then obtain s' where "fair\<^sup>*\<^sup>* u s'" "finished s'" "inv s'" using less.hyps by blast
    then show ?thesis using u by (meson converse_rtranclp_into_rtranclp)
  qed (use less.prems in blast)
qed

end

section \<open>What one transaction does to the destination\<close>

text \<open>The contents the staging directory starts from; \<open>None\<close> where \<open>__enter__\<close> raises.\<close>

definition entry_contents :: "write_mode \<Rightarrow> node option \<Rightarrow> contents option" where
  "entry_contents mode dest =
     (case dest of
        Some File_Node \<Rightarrow> None
      | None \<Rightarrow> (if mode = Append_Mode then None else Some [])
      | Some (Directory c) \<Rightarrow> (case mode of Error_Mode \<Rightarrow> None | Append_Mode \<Rightarrow> Some c | Replace_Mode \<Rightarrow> Some []))"

text \<open>The contents a body commits first; \<open>None\<close> where it raises before.\<close>

fun committed_contents :: "action list \<Rightarrow> contents \<Rightarrow> contents option" where
  "committed_contents [] c = Some c"
| "committed_contents (Write g # rest) c = committed_contents rest (g c)"
| "committed_contents (Commit # rest) c = Some c"
| "committed_contents (Raise # rest) c = None"

definition effect :: "write_mode \<Rightarrow> action list \<Rightarrow> node option \<Rightarrow> contents option" where
  "effect mode body dest = Option.bind (entry_contents mode dest) (committed_contents body)"

text \<open>The transactions of the listed processes, one after the other.\<close>

fun serial_run :: "tx list \<Rightarrow> nat list \<Rightarrow> node option \<Rightarrow> node option option" where
  "serial_run ps [] dest = Some dest"
| "serial_run ps (i # order) dest =
     (case effect (tx_mode (ps ! i)) (tx_body (ps ! i)) dest of
        None \<Rightarrow> None
      | Some c \<Rightarrow> serial_run ps order (Some (Directory c)))"

lemma enter_check_contents:
  "enter_check mode f = None \<longleftrightarrow> entry_contents mode (fs_node f Destination) = Some (initial_contents mode f)"
  by (cases mode) (auto simp: enter_check_def entry_contents_def is_dir_def initial_contents_def split: option.splits node.splits)

lemma serial_run_append:
  "serial_run ps (order @ [i]) dest =
     Option.bind (serial_run ps order dest) (\<lambda>d. map_option (\<lambda>c. Some (Directory c)) (effect (tx_mode (ps ! i)) (tx_body (ps ! i)) d))"
  by (induction order arbitrary: dest) (auto split: option.splits)

lemma serial_run_cong:
  assumes "\<And>i. i \<in> set order \<Longrightarrow> tx_mode (ps ! i) = tx_mode (qs ! i) \<and> tx_body (ps ! i) = tx_body (qs ! i)"
  shows "serial_run ps order dest = serial_run qs order dest"
  using assms by (induction order arbitrary: dest) (auto split: option.splits)

section \<open>The invariant\<close>

text \<open>Between acquiring the lock and giving it back.\<close>

definition holding :: "pc \<Rightarrow> bool" where
  "holding x = (case x of Created \<Rightarrow> False | Ended _ \<Rightarrow> False | Dropped _ \<Rightarrow> False | Killed \<Rightarrow> False | _ \<Rightarrow> True)"

text \<open>The transaction has not taken effect and still can.\<close>

definition may_publish :: "tx \<Rightarrow> bool" where
  "may_publish p \<longleftrightarrow> \<not> tx_committed p \<and>
     (case tx_pc p of Created \<Rightarrow> True | Locked \<Rightarrow> True | Validated \<Rightarrow> True | In_Body \<Rightarrow> True | Committing _ \<Rightarrow> True | _ \<Rightarrow> False)"

definition staged_for :: "tx \<Rightarrow> fs \<Rightarrow> contents \<Rightarrow> action list \<Rightarrow> bool" where
  "staged_for p f c rest \<longleftrightarrow>
     (\<exists>c0. entry_contents (tx_mode p) (fs_node f Destination) = Some c0 \<and>
        committed_contents (tx_body p) c0 = committed_contents rest c)"

text \<open>An explicit commit is one the body asks for.\<close>

definition call_inv :: "tx \<Rightarrow> bool" where
  "call_inv p \<longleftrightarrow> set (tx_rest p) \<subseteq> set (tx_body p) \<and>
     (tx_pc p = Committing True \<or> tx_pc p = Renamed True \<or> tx_pc p = In_Body \<and> tx_committed p \<longrightarrow> Commit \<in> set (tx_body p))"

definition tx_inv :: "nat \<Rightarrow> tx \<Rightarrow> fs \<Rightarrow> bool" where
  "tx_inv i p f \<longleftrightarrow> call_inv p \<and>
     (holding (tx_pc p) \<longleftrightarrow> fs_owner f = Some i) \<and> fs_node f (Staging i) \<noteq> Some File_Node \<and>
     (case tx_pc p of
        Created \<Rightarrow> fs_node f (Staging i) = None \<and> tx_rest p = tx_body p \<and> \<not> tx_committed p
      | Locked \<Rightarrow> fs_node f (Staging i) = None \<and> tx_rest p = tx_body p \<and> \<not> tx_committed p
      | Validated \<Rightarrow> fs_node f (Staging i) = None \<and> tx_rest p = tx_body p \<and> \<not> tx_committed p \<and>
          enter_check (tx_mode p) f = None
      | In_Body \<Rightarrow> is_dir (fs_node f Destination) \<and> tx_committed p \<or>
          \<not> tx_committed p \<and> (\<exists>c. fs_node f (Staging i) = Some (Directory c) \<and> staged_for p f c (tx_rest p))
      | Committing _ \<Rightarrow> \<not> tx_committed p \<and> (\<exists>c. fs_node f (Staging i) = Some (Directory c) \<and> staged_for p f c [])
      | Renamed _ \<Rightarrow> is_dir (fs_node f Destination)
      | Releasing e \<Rightarrow> e = None \<longrightarrow> tx_committed p
      | Unlocking e \<Rightarrow> fs_node f (Staging i) = None \<and> (e = None \<longrightarrow> tx_committed p)
      | Ended e \<Rightarrow> fs_node f (Staging i) = None \<and> (e = None \<longrightarrow> tx_committed p)
      | _ \<Rightarrow> True)"

definition sys_inv :: "tx list \<times> fs \<Rightarrow> bool" where
  "sys_inv = (\<lambda>(ps, f). (\<forall>i < length ps. tx_inv i (ps ! i) f) \<and> (\<forall>k. fs_owner f = Some k \<longrightarrow> k < length ps))"

named_theorems fs_simps \<open>effects of the file-system calls\<close>

lemmas [fs_simps] = put_def lock_by_def unlock_def exchange_def rename_def publish_def

lemmas pc_defs = holding_def after_check_def commit_check_def is_dir_def

lemma publish_nodes [simp]:
  "fs_node (publish i f) Destination = fs_node f (Staging i)"
  "fs_node (publish i f) (Staging i) = fs_node f Destination"
  "k \<noteq> i \<Longrightarrow> fs_node (publish i f) (Staging k) = fs_node f (Staging k)"
  "fs_owner (publish i f) = fs_owner f"
  by (auto simp: fs_simps)

lemma put_nodes [simp]:
  "fs_node (put e n f) e' = (if e' = e then n else fs_node f e')" "fs_owner (put e n f) = fs_owner f"
  by (simp_all add: put_def)

lemma unlock_nodes [simp]: "fs_node (unlock f) = fs_node f" "fs_owner (unlock f) = None"
  by (simp_all add: unlock_def)

lemma lock_nodes [simp]: "fs_node (lock_by i f) e = (if e = Lock_File then Some File_Node else fs_node f e)" "fs_owner (lock_by i f) = Some i"
  by (simp_all add: lock_by_def)

lemma step_frame:
  assumes "tx_step i out (p, f) (p', f')" "k \<noteq> i"
  shows "fs_node f' (Staging k) = fs_node f (Staging k)"
  using assms by (auto elim!: tx_stepE)

lemma step_program:
  assumes "tx_step i out (p, f) (p', f')"
  shows "tx_mode p' = tx_mode p \<and> tx_body p' = tx_body p \<and> tx_builder p' = tx_builder p"
  using assms by (auto elim!: tx_stepE)

lemma step_owner:
  assumes "tx_step i out (p, f) (p', f')" "holding (tx_pc p) \<longleftrightarrow> fs_owner f = Some i"
  shows "(holding (tx_pc p') \<longleftrightarrow> fs_owner f' = Some i) \<and> (\<forall>k. k \<noteq> i \<longrightarrow> (fs_owner f' = Some k \<longleftrightarrow> fs_owner f = Some k))"
  using assms by (auto elim!: tx_stepE simp: pc_defs split: if_splits option.splits)

text \<open>A process without the lock leaves the destination alone.\<close>

lemma step_outside:
  assumes "tx_step i out (p, f) (p', f')" "\<not> holding (tx_pc p)"
  shows "fs_node f' Destination = fs_node f Destination"
  using assms by (auto elim!: tx_stepE simp: pc_defs)


lemma call_inv_step:
  assumes "tx_inv i p f" "tx_step i out (p, f) (p', f')"
  shows "call_inv p'"
  using assms(2,1) by (cases rule: tx_step.cases) (auto simp: tx_inv_def call_inv_def after_check_def split: option.splits)

lemma tx_inv_step:
  assumes inv: "tx_inv i p f" and step: "tx_step i out (p, f) (p', f')"
  shows "tx_inv i p' f'"
proof -
  have call: "call_inv p'" using call_inv_step [OF inv step] .
  from step show ?thesis
  proof (cases rule: tx_step.cases)
  case validate
  then show ?thesis using inv call by (auto simp: tx_inv_def holding_def after_check_def split: option.splits)
next
  case stage
  then show ?thesis using inv call
    by (auto simp: tx_inv_def holding_def staged_for_def enter_check_contents)
next
  case write_file
  then show ?thesis using inv call by (auto simp: tx_inv_def holding_def staged_for_def)
next
  case call_commit
  then show ?thesis using inv call by (auto simp: tx_inv_def pc_defs staged_for_def split: option.splits)
next
  case leave
  then show ?thesis using inv call by (auto simp: tx_inv_def pc_defs staged_for_def split: option.splits)
next
  case publish_staging
  then show ?thesis using inv call
    by (auto simp: tx_inv_def pc_defs staged_for_def entry_contents_def split: option.splits node.splits)
qed (use inv call in \<open>auto simp: tx_inv_def pc_defs new_tx_def split: option.splits if_splits\<close>)
qed

lemma tx_inv_other:
  assumes "tx_inv k q f" "tx_inv i p f" "tx_step i out (p, f) (p', f')" "k \<noteq> i"
  shows "tx_inv k q f'"
proof -
  have node: "fs_node f' (Staging k) = fs_node f (Staging k)" using assms by (intro step_frame)
  have owner: "fs_owner f' = Some k \<longleftrightarrow> fs_owner f = Some k"
    using step_owner [OF assms(3)] assms(2,4) by (auto simp: tx_inv_def)
  have dest: "fs_node f' Destination = fs_node f Destination" if "holding (tx_pc q)"
  proof (rule step_outside [OF assms(3)])
    have "fs_owner f = Some k" using assms(1) that by (simp add: tx_inv_def)
    then show "\<not> holding (tx_pc p)" using assms(2,4) by (simp add: tx_inv_def)
  qed
  show ?thesis
  proof (cases "holding (tx_pc q)")
    case True
    have same: "enter_check m f' = enter_check m f" "staged_for q f' c rest = staged_for q f c rest" for m c rest
      using dest [OF True] by (simp_all only: enter_check_def staged_for_def dest [OF True])
    show ?thesis using assms(1) unfolding tx_inv_def node owner dest [OF True] same .
  next
    case False
    then show ?thesis using assms(1) node owner by (auto simp: tx_inv_def holding_def split: pc.splits)
  qed
qed

lemma sys_inv_step:
  assumes "sys_inv s" "any_step s s'"
  shows "sys_inv s'"
proof -
  obtain ps f where s: "s = (ps, f)" by force
  from assms(2) obtain i out p' f' where i: "i < length ps" and st: "tx_step i out (ps ! i, f) (p', f')" and s': "s' = (ps[i := p'], f')"
    by (auto simp: any_step_def s elim: sys_step.cases)
  have inv: "tx_inv k (ps ! k) f" if "k < length ps" for k using assms(1) that by (simp add: sys_inv_def s)
  have "tx_inv k (ps[i := p'] ! k) f'" if "k < length ps" for k
    using tx_inv_step [OF inv [OF i] st] tx_inv_other [OF inv [OF that] inv [OF i] st] i by (cases "k = i") auto
  moreover have "k < length ps" if k: "fs_owner f' = Some k" for k
  proof (cases "k = i")
    case False
    have "holding (tx_pc (ps ! i)) \<longleftrightarrow> fs_owner f = Some i" using inv [OF i] by (simp add: tx_inv_def)
    with step_owner [OF st] False k have "fs_owner f = Some k" by blast
    then show ?thesis using assms(1) by (simp add: sys_inv_def s)
  qed (use i in simp)
  ultimately show ?thesis by (simp add: sys_inv_def s')
qed

lemma new_tx_inv:
  assumes "p = new_tx m b body" "fs_owner f = None" "fs_node f (Staging i) = None"
  shows "tx_inv i p f"
  using assms by (simp add: tx_inv_def holding_def new_tx_def call_inv_def)

lemma sys_inv_init:
  assumes "sys_init s"
  shows "sys_inv s"
proof -
  obtain ps f where s: "s = (ps, f)" by force
  have "tx_inv i (ps ! i) f" if "i < length ps" for i
    using assms that nth_mem [OF that] by (intro new_tx_inv) (auto simp: sys_init_def s)
  then show ?thesis using assms by (simp add: sys_inv_def sys_init_def s)
qed

interpretation sharing: step_system sys_init any_step sys_inv
  by unfold_locales (auto intro: sys_inv_init sys_inv_step)


section \<open>Serialisation\<close>

definition takes_effect :: "tx \<Rightarrow> fs \<Rightarrow> tx \<Rightarrow> fs \<Rightarrow> bool" where
  "takes_effect p f p' f' \<longleftrightarrow> may_publish p \<and> \<not> may_publish p' \<and>
     (\<exists>c. effect (tx_mode p) (tx_body p) (fs_node f Destination) = Some c \<and> fs_node f' Destination = Some (Directory c))"

definition keeps_effect :: "tx \<Rightarrow> fs \<Rightarrow> tx \<Rightarrow> fs \<Rightarrow> bool" where
  "keeps_effect p f p' f' \<longleftrightarrow> (may_publish p' \<longrightarrow> may_publish p) \<and> fs_node f' Destination = fs_node f Destination"

lemma step_effect:
  assumes inv: "tx_inv i p f" and step: "tx_step i out (p, f) (p', f')"
  shows "takes_effect p f p' f' \<or> keeps_effect p f p' f'"
  using step
proof (cases rule: tx_step.cases)
  case publish_staging
  then have "takes_effect p f p' f'" using inv
    by (auto simp: takes_effect_def may_publish_def tx_inv_def staged_for_def effect_def)
  then show ?thesis ..
qed (auto simp: keeps_effect_def may_publish_def split: pc.splits if_splits)

definition serialised :: "tx list \<Rightarrow> node option \<Rightarrow> tx list \<times> fs \<Rightarrow> nat list \<Rightarrow> bool" where
  "serialised ps0 dest0 = (\<lambda>(ps, f) order.
     distinct order \<and> set order \<subseteq> {i. i < length ps \<and> \<not> may_publish (ps ! i)} \<and>
     {i. i < length ps \<and> tx_committed (ps ! i)} \<subseteq> set order \<and>
     {i. i < length ps \<and> (\<exists>b. tx_pc (ps ! i) = Renamed b)} \<subseteq> set order \<and>
     serial_run ps0 order dest0 = Some (fs_node f Destination))"

definition same_programs :: "tx list \<Rightarrow> tx list \<Rightarrow> bool" where
  "same_programs ps qs \<longleftrightarrow> length ps = length qs \<and>
     (\<forall>i < length ps. tx_mode (ps ! i) = tx_mode (qs ! i) \<and> tx_body (ps ! i) = tx_body (qs ! i) \<and> tx_builder (ps ! i) = tx_builder (qs ! i))"

lemma step_serialised:
  assumes inv: "sys_inv (ps, f)" and same: "same_programs ps0 ps" and ser: "serialised ps0 d0 (ps, f) order"
    and i: "i < length ps" and st: "tx_step i out (ps ! i, f) (p', f')"
  shows "\<exists>order'. serialised ps0 d0 (ps[i := p'], f') order'"
proof -
  have pinv: "tx_inv i (ps ! i) f" using inv i by (simp add: sys_inv_def)
  have committed: "tx_committed p' \<or> (\<exists>b. tx_pc p' = Renamed b) \<Longrightarrow>
      tx_committed (ps ! i) \<or> (\<exists>b. tx_pc (ps ! i) = Renamed b) \<or> takes_effect (ps ! i) f p' f'"
    using st pinv by (cases rule: tx_step.cases)
      (auto simp: takes_effect_def may_publish_def tx_inv_def staged_for_def effect_def after_check_def split: option.splits if_splits)
  consider "takes_effect (ps ! i) f p' f'" | "keeps_effect (ps ! i) f p' f'" "\<not> takes_effect (ps ! i) f p' f'"
    using step_effect [OF pinv st] by blast
  then show ?thesis
  proof cases
    case 1
    then have "i \<notin> set order" using ser by (auto simp: takes_effect_def serialised_def)
    moreover have "serial_run ps0 (order @ [i]) d0 = Some (fs_node f' Destination)"
      using 1 ser same i by (auto simp: serial_run_append serialised_def takes_effect_def same_programs_def)
    ultimately have "serialised ps0 d0 (ps[i := p'], f') (order @ [i])"
      using 1 ser i by (auto simp: serialised_def takes_effect_def nth_list_update split: if_splits)
    then show ?thesis ..
  next
    case 2
    have "serialised ps0 d0 (ps[i := p'], f') order"
      using 2 ser i committed by (auto simp: serialised_def keeps_effect_def nth_list_update split: if_splits)
    then show ?thesis ..
  qed
qed

lemma same_programs_step:
  assumes same: "same_programs ps0 ps" and i: "i < length ps" and st: "tx_step i out (ps ! i, f) (p', f')"
  shows "same_programs ps0 (ps[i := p'])"
  unfolding same_programs_def
proof (intro conjI allI impI)
  fix k assume "k < length ps0"
  then have k: "tx_mode (ps0 ! k) = tx_mode (ps ! k) \<and> tx_body (ps0 ! k) = tx_body (ps ! k) \<and> tx_builder (ps0 ! k) = tx_builder (ps ! k)"
    using same by (simp add: same_programs_def)
  have "tx_mode (ps[i := p'] ! k) = tx_mode (ps ! k) \<and> tx_body (ps[i := p'] ! k) = tx_body (ps ! k) \<and>
      tx_builder (ps[i := p'] ! k) = tx_builder (ps ! k)"
    using step_program [OF st] i by (cases "k = i") simp_all
  with k show "tx_mode (ps0 ! k) = tx_mode (ps[i := p'] ! k)" "tx_body (ps0 ! k) = tx_body (ps[i := p'] ! k)"
      "tx_builder (ps0 ! k) = tx_builder (ps[i := p'] ! k)" by simp_all
qed (use same in \<open>simp add: same_programs_def\<close>)

lemma initial_tx:
  assumes "sys_init (ps, f)" "p \<in> set ps"
  shows "tx_pc p = Created \<and> \<not> tx_committed p \<and> tx_rest p = tx_body p"
proof -
  have p: "p = new_tx (tx_mode p) (tx_builder p) (tx_body p)" using assms by (simp add: sys_init_def)
  show ?thesis
    by (metis p new_tx_def select_convs(4) select_convs(5) select_convs(6))
qed

lemma reachable_serialised:
  assumes "any_step\<^sup>*\<^sup>* (ps0, f0) s" "sys_init (ps0, f0)"
  shows "sys_inv s \<and> same_programs ps0 (fst s) \<and> (\<exists>order. serialised ps0 (fs_node f0 Destination) s order)"
  using assms(1)
proof (induction rule: rtranclp_induct)
  case base
  have "tx_committed p = False \<and> tx_pc p = Created" if "p \<in> set ps0" for p
    using initial_tx [OF assms(2) that] by simp
  then have "serialised ps0 (fs_node f0 Destination) (ps0, f0) []" by (auto simp: serialised_def)
  then show ?case using sys_inv_init [OF assms(2)] by (auto simp: same_programs_def)
next
  case (step s s')
  obtain ps f where s: "s = (ps, f)" by force
  from step.hyps(2) obtain i out p' f' where i: "i < length ps" and st: "tx_step i out (ps ! i, f) (p', f')" and s': "s' = (ps[i := p'], f')"
    by (auto simp: any_step_def s elim: sys_step.cases)
  from step.IH obtain order where ih: "sys_inv (ps, f)" "same_programs ps0 ps" "serialised ps0 (fs_node f0 Destination) (ps, f) order"
    by (auto simp: s)
  show ?case
    using sys_inv_step [OF _ step.hyps(2)] ih step_serialised [OF ih i st] same_programs_step [OF ih(2) i st] by (simp add: s s')
qed


section \<open>Termination and completion\<close>

definition tx_work :: "tx \<Rightarrow> nat" where
  "tx_work p =
     (let n = 3 * length (tx_rest p) in
      case tx_pc p of
        Created \<Rightarrow> n + 12
      | Locked \<Rightarrow> n + 11
      | Validated \<Rightarrow> n + 10
      | In_Body \<Rightarrow> n + 9
      | Committing called \<Rightarrow> (if called then n + 11 else 8)
      | Renamed called \<Rightarrow> (if called then n + 10 else 7)
      | Releasing _ \<Rightarrow> 6
      | Unlocking _ \<Rightarrow> 5
      | Leaked _ \<Rightarrow> 4
      | _ \<Rightarrow> 0)"

definition sys_work :: "tx list \<times> fs \<Rightarrow> nat" where
  "sys_work = (\<lambda>(ps, f). sum_list (map tx_work ps))"

definition sys_finished :: "tx list \<times> fs \<Rightarrow> bool" where
  "sys_finished = (\<lambda>(ps, f). \<forall>p \<in> set ps. (\<exists>e. tx_pc p = Ended e) \<or> (\<exists>e. tx_pc p = Dropped e) \<or> tx_pc p = Killed)"

lemma step_work_decreases:
  assumes "tx_step i out (p, f) (p', f')"
  shows "tx_work p' < tx_work p"
  using assms
proof (cases rule: tx_step.cases)
  case crash
  then show ?thesis by (cases "tx_pc p") (auto simp: tx_work_def)
qed (auto simp: tx_work_def after_check_def split: option.splits)

lemma sum_list_update_less:
  fixes g :: "'a \<Rightarrow> nat"
  assumes "i < length xs" "g y < g (xs ! i)"
  shows "sum_list (map g (xs[i := y])) < sum_list (map g xs)"
  using assms by (induction xs arbitrary: i) (auto split: nat.splits)

lemma sys_work_decreases:
  assumes "any_step s s'"
  shows "sys_work s' < sys_work s"
  using assms by (auto simp: any_step_def sys_work_def elim!: sys_step.cases intro!: sum_list_update_less step_work_decreases)

lemma holder_moves:
  assumes inv: "tx_inv i p f" and hold: "holding (tx_pc p)"
  shows "\<exists>p' f'. tx_step i Normal (p, f) (p', f')"
proof (cases "tx_pc p")
  case In_Body
  show ?thesis
  proof (cases "tx_rest p")
    case Nil
    then show ?thesis using In_Body by (metis leave leave_unfinished)
  next
    case (Cons a rest)
    show ?thesis
    proof (cases a)
      case (Write g)
      show ?thesis
      proof (cases "is_dir (fs_node f (Staging i))")
        case True
        then obtain c where "fs_node f (Staging i) = Some (Directory c)" by (auto simp: is_dir_def split: option.splits node.splits)
        then show ?thesis using In_Body Cons Write by (blast intro: write_file)
      qed (use In_Body Cons Write in \<open>blast intro: write_lost\<close>)
    qed (use In_Body Cons in \<open>blast intro: call_commit raise_error\<close>)+
  qed
next
  case (Releasing e)
  then show ?thesis using inv by (metis cleanup tx_inv_def)
next
  case Validated
  then show ?thesis by (metis stage stage_exists)
next
  case Locked
  show ?thesis using validate [OF Locked] by blast
next
  case (Committing called)
  show ?thesis using publish_staging [OF Committing] by blast
next
  case (Renamed called)
  show ?thesis using synced [OF Renamed] by blast
next
  case (Unlocking e)
  show ?thesis using unlock_file [OF Unlocking] by blast
next
  case (Leaked e)
  show ?thesis using collect [OF Leaked] by blast
qed (use hold in \<open>simp_all add: holding_def\<close>)

lemma free_moves:
  assumes "tx_inv i p f" "fs_owner f = None" "\<not> ((\<exists>e. tx_pc p = Ended e) \<or> (\<exists>e. tx_pc p = Dropped e) \<or> tx_pc p = Killed)"
  shows "\<exists>p' f'. tx_step i Normal (p, f) (p', f')"
proof -
  have "\<not> holding (tx_pc p)" using assms(1,2) by (simp add: tx_inv_def)
  then have "tx_pc p = Created" using assms(3) by (simp add: holding_def split: pc.splits)
  then show ?thesis using assms(2) by (blast intro: acquire)
qed

lemma sys_progress:
  assumes inv: "sys_inv s" and more: "\<not> sys_finished s"
  shows "\<exists>s'. normal_step s s'"
proof -
  obtain ps f where s: "s = (ps, f)" by force
  have tinv: "tx_inv k (ps ! k) f" if "k < length ps" for k using inv that by (simp add: sys_inv_def s)
  have "\<exists>k p' f'. k < length ps \<and> tx_step k Normal (ps ! k, f) (p', f')"
  proof (cases "fs_owner f")
    case None
    from more obtain k where k: "k < length ps"
      and "\<not> ((\<exists>e. tx_pc (ps ! k) = Ended e) \<or> (\<exists>e. tx_pc (ps ! k) = Dropped e) \<or> tx_pc (ps ! k) = Killed)"
      by (auto simp: sys_finished_def s in_set_conv_nth)
    then show ?thesis using free_moves [OF tinv [OF k] None] k by blast
  next
    case (Some k)
    have k: "k < length ps" using inv Some by (simp add: sys_inv_def s)
    moreover have "holding (tx_pc (ps ! k))" using tinv [OF k] Some by (simp add: tx_inv_def)
    ultimately show ?thesis using holder_moves [OF tinv [OF k]] by blast
  qed
  then show ?thesis by (auto simp: normal_step_def s intro: moves)
qed

interpretation publishing: completing_system sys_init any_step sys_inv normal_step sys_finished sys_work
  by unfold_locales (use sys_work_decreases sys_progress normal_any in blast)+

lemma finished_free:
  assumes inv: "sys_inv (ps, f)" and fin: "sys_finished (ps, f)"
  shows "fs_owner f = None"
proof -
  have "fs_owner f \<noteq> Some k" for k
  proof
    assume k: "fs_owner f = Some k"
    then have l: "k < length ps" using inv by (simp add: sys_inv_def)
    then have "holding (tx_pc (ps ! k))" using inv k by (simp add: sys_inv_def tx_inv_def)
    moreover have "ps ! k \<in> set ps" using l by simp
    ultimately show False using fin by (auto simp: sys_finished_def holding_def)
  qed
  then show ?thesis by (cases "fs_owner f") auto
qed

section \<open>Properties\<close>

text \<open>
  C1. Serialisability. Whatever the interleaving, the failures and the kills, the destination is at
  every moment what the transactions of some of the processes make of it when they run one after
  the other without interference: nobody ever sees a partial directory, no append is lost, an
  \<open>error\<close>-mode transaction never replaces an artifact. Every process that left its
  transaction without an exception is among them, each once.
\<close>

theorem transactions_serialise:
  assumes "sys_init (ps0, f0)" "any_step\<^sup>*\<^sup>* (ps0, f0) (ps, f)"
  shows "\<exists>order. distinct order \<and> set order \<subseteq> {..<length ps} \<and>
    {i. i < length ps \<and> tx_pc (ps ! i) = Ended None} \<subseteq> set order \<and>
    serial_run ps0 order (fs_node f0 Destination) = Some (fs_node f Destination)"
proof -
  from reachable_serialised [OF assms(2,1)] obtain order where
    ser: "serialised ps0 (fs_node f0 Destination) (ps, f) order" and inv: "sys_inv (ps, f)" by auto
  have "tx_committed (ps ! i)" if "i < length ps" "tx_pc (ps ! i) = Ended None" for i
    using inv that by (auto simp: sys_inv_def tx_inv_def)
  then show ?thesis using ser by (intro exI [of _ order]) (auto simp: serialised_def)
qed

text \<open>
  C2. Mutual exclusion: at most one process is between acquiring and releasing the lock, it is the
  owner the lock records, and the staging directory of a process that ended is gone.
\<close>

theorem one_transaction_at_a_time:
  assumes "sys_init s0" "any_step\<^sup>*\<^sup>* s0 (ps, f)" "i < length ps"
  shows "(holding (tx_pc (ps ! i)) \<longleftrightarrow> fs_owner f = Some i) \<and>
    (tx_pc (ps ! i) = Ended e \<longrightarrow> fs_node f (Staging i) = None)"
  using sharing.reachable_inv [OF assms(1,2)] assms(3) by (auto simp: sys_inv_def tx_inv_def)

text \<open>
  C3. Completion without a hypothesis on what happened before: from every state that is reachable
  with any failures and kills, the length of the runs is bounded, a state in which no process can take a fault-free step is one in which all
  are done, and the processes can be brought there without faults. Then the lock is free and the
  staging directory of every process that closed its transaction is gone. A process whose
  transaction was left open lets the others in when its transaction object is collected.
\<close>

theorem transactions_complete:
  assumes "sys_init s0" "any_step\<^sup>*\<^sup>* s0 s"
  shows "(\<exists>bound. \<forall>n s'. (any_step ^^ n) s s' \<longrightarrow> n \<le> bound) \<and> ((\<nexists>s'. normal_step s s') \<longrightarrow> sys_finished s) \<and>
    (\<exists>ps f. normal_step\<^sup>*\<^sup>* s (ps, f) \<and> sys_finished (ps, f) \<and> fs_owner f = None \<and>
      (\<forall>i < length ps. \<forall>e. tx_pc (ps ! i) = Ended e \<longrightarrow> fs_node f (Staging i) = None))"
proof (intro conjI impI)
  have inv: "sys_inv s" using sharing.reachable_inv [OF assms(1,2)] .
  have "\<forall>n s'. (any_step ^^ n) s s' \<longrightarrow> n \<le> sys_work s" using publishing.run_length [of _ s] by fastforce
  then show "\<exists>bound. \<forall>n s'. (any_step ^^ n) s s' \<longrightarrow> n \<le> bound" ..
  show "sys_finished s" if "\<nexists>s'. normal_step s s'" using publishing.progress [OF inv] that by blast
  obtain ps f where run: "normal_step\<^sup>*\<^sup>* s (ps, f)" and fin: "sys_finished (ps, f)" "sys_inv (ps, f)"
    using publishing.completes [OF inv] by (metis surj_pair)
  have "fs_node f (Staging i) = None" if "i < length ps" "tx_pc (ps ! i) = Ended e" for i e
    using fin(2) that by (auto simp: sys_inv_def tx_inv_def)
  then show "\<exists>ps f. normal_step\<^sup>*\<^sup>* s (ps, f) \<and> sys_finished (ps, f) \<and> fs_owner f = None \<and>
      (\<forall>i < length ps. \<forall>e. tx_pc (ps ! i) = Ended e \<longrightarrow> fs_node f (Staging i) = None)"
    using run fin(1) finished_free [OF fin(2,1)] by blast
qed

text \<open>
  What a transaction left open looks like from outside: its staging directory is there, and as long as
  its process lives and its object is not collected the lock is its own and the destination is as it was.
\<close>

definition left_open :: "nat \<Rightarrow> node option \<Rightarrow> node option \<Rightarrow> tx list \<times> fs \<Rightarrow> bool" where
  "left_open i staged dest = (\<lambda>(ps, f). i < length ps \<and> fs_node f (Staging i) = staged \<and>
     tx_pc (ps ! i) \<in> {Leaked Runtime_Error, Dropped Runtime_Error, Killed} \<and>
     (tx_pc (ps ! i) = Leaked Runtime_Error \<longrightarrow> fs_owner f = Some i \<and> fs_node f Destination = dest))"

lemma left_open_step:
  assumes inv: "sys_inv s" and leak: "left_open i staged dest s" and st: "any_step s s'"
  shows "left_open i staged dest s'"
proof -
  obtain ps f where s: "s = (ps, f)" by force
  from st obtain k out p' f' where k: "k < length ps" and t: "tx_step k out (ps ! k, f) (p', f')" and s': "s' = (ps[k := p'], f')"
    by (auto simp: any_step_def s elim: sys_step.cases)
  show ?thesis
  proof (cases "k = i")
    case True
    with t leak k show ?thesis by (auto simp: s s' left_open_def elim!: tx_stepE)
  next
    case False
    have owner: "holding (tx_pc (ps ! k)) \<longleftrightarrow> fs_owner f = Some k" using inv k by (simp add: sys_inv_def tx_inv_def s)
    have "fs_node f' Destination = fs_node f Destination" if "fs_owner f = Some i"
      by (rule step_outside [OF t]) (use owner that False in simp)
    with step_owner [OF t owner] step_frame [OF t] False leak show ?thesis by (auto simp: s s' left_open_def)
  qed
qed

text \<open>
  C5. In every state of the invariant of reachable states, a builder that leaves its body without having written the manifest raises before the transaction
  is closed. Whatever all processes do from then on, with any failures and kills, its staging
  directory stays for good, and until the process is killed or its transaction object collected
  the lock is never given back, no other transaction is under way and the destination does not change.
\<close>

theorem unfinished_builder_leaks:
  assumes inv: "sys_inv (ps, f)" and i: "i < length ps" "tx_pc (ps ! i) = In_Body" "tx_rest (ps ! i) = []" "tx_builder (ps ! i)"
    "\<not> has_manifest i f"
  shows "normal_move i (ps ! i) f = Some (goto (Leaked Runtime_Error) (ps ! i), f) \<and>
    (\<forall>ps' f'. any_step\<^sup>*\<^sup>* (ps[i := goto (Leaked Runtime_Error) (ps ! i)], f) (ps', f') \<longrightarrow>
      fs_node f' (Staging i) = fs_node f (Staging i) \<and>
      (tx_pc (ps' ! i) = Killed \<or> tx_pc (ps' ! i) = Dropped Runtime_Error \<or>
       fs_owner f' = Some i \<and> fs_node f' Destination = fs_node f Destination \<and>
       (\<forall>k < length ps'. holding (tx_pc (ps' ! k)) \<longrightarrow> k = i)))"
proof (intro conjI allI impI)
  let ?s = "(ps[i := goto (Leaked Runtime_Error) (ps ! i)], f)"
  show mv: "normal_move i (ps ! i) f = Some (goto (Leaked Runtime_Error) (ps ! i), f)"
    using i by (simp add: normal_move_def body_move_def)
  have "any_step (ps, f) ?s" using moves [OF i(1) normal_move_step [OF mv]] by (auto simp: any_step_def)
  then have inv': "sys_inv ?s" by (rule sys_inv_step [OF inv])
  have "fs_owner f = Some i" using inv i by (auto simp: sys_inv_def tx_inv_def holding_def)
  then have leak: "left_open i (fs_node f (Staging i)) (fs_node f Destination) ?s" using i by (simp add: left_open_def)
  have all: "left_open i (fs_node f (Staging i)) (fs_node f Destination) s'' \<and> sys_inv s''" if "any_step\<^sup>*\<^sup>* ?s s''" for s''
    using that
  proof (induction rule: rtranclp_induct)
    case (step u v)
    then show ?case using left_open_step [OF _ _ step.hyps(2)] sys_inv_step [OF _ step.hyps(2)] by blast
  qed (use leak inv' in simp)
  fix ps' f' assume run: "any_step\<^sup>*\<^sup>* ?s (ps', f')"
  note l = conjunct1 [OF all [OF run], unfolded left_open_def prod.case]
  have inv'': "sys_inv (ps', f')" using all [OF run] by blast
  show "fs_node f' (Staging i) = fs_node f (Staging i)" using l by blast
  have "holding (tx_pc (ps' ! k)) \<Longrightarrow> fs_owner f' = Some i \<Longrightarrow> k < length ps' \<Longrightarrow> k = i" for k
    using inv'' by (auto simp: sys_inv_def tx_inv_def)
  then show "tx_pc (ps' ! i) = Killed \<or> tx_pc (ps' ! i) = Dropped Runtime_Error \<or>
      fs_owner f' = Some i \<and> fs_node f' Destination = fs_node f Destination \<and> (\<forall>k < length ps'. holding (tx_pc (ps' ! k)) \<longrightarrow> k = i)"
    using l by blast
qed

text \<open>
  A commit whose directory is published but whose final \<open>fsync\<close> fails is not recorded as
  committed; if the caller commits again, the exchange is undone and the previous artifact is back.
\<close>

theorem repeated_commit_restores:
  assumes "fs_node f Destination = Some (Directory old)" "commit_check i False f = None"
  shows "commit_check i False (publish i f) = None \<and> fs_node (publish i (publish i f)) Destination = Some (Directory old)"
  using assms by (auto simp: commit_check_def is_dir_def fs_simps split: option.splits node.splits if_splits)

section \<open>A concrete run\<close>

definition sample_txs :: "tx list" where
  "sample_txs =
     [new_tx Replace_Mode True [Write (\<lambda>c. (manifest_name, ''{}'') # c)],
      new_tx Append_Mode False [Write (\<lambda>c. (''b.bin'', ''2'') # c)]]"

definition sample_fs :: fs where
  "sample_fs = \<lparr>fs_node = (\<lambda>e. if e = Destination then Some (Directory [(''old'', ''1'')]) else None), fs_owner = None\<rparr>"

lemma sample_init: "sys_init (sample_txs, sample_fs)"
  by (simp add: sys_init_def sample_txs_def sample_fs_def new_tx_def)

text \<open>
  The builder replaces the artifact; the appending process has taken the lock afterwards and
  written its file.
\<close>

definition sample_schedule :: "nat list" where
  "sample_schedule = replicate 9 0 @ replicate 4 1"

definition sample_txs' :: "tx list" where
  "sample_txs' = [(sample_txs ! 0)\<lparr>tx_rest := [], tx_pc := Ended None, tx_committed := True\<rparr>,
     (sample_txs ! 1)\<lparr>tx_rest := [], tx_pc := In_Body\<rparr>]"

lemma sample_run:
  "\<exists>f. schedule sample_schedule (sample_txs, sample_fs) = Some (sample_txs', f) \<and>
     fs_node f Destination = Some (Directory [(manifest_name, ''{}'')]) \<and>
     fs_node f (Staging 1) = Some (Directory [(''b.bin'', ''2''), (manifest_name, ''{}'')]) \<and> fs_owner f = Some 1"
  by (simp add: sample_schedule_def sample_txs'_def sample_txs_def new_tx_def sample_fs_def numeral_eq_Suc normal_move_def
      body_move_def after_check_def enter_check_def commit_check_def is_dir_def has_manifest_def initial_contents_def publish_def exchange_def)


lemma normal_any_power: "(normal_step ^^ n) s s' \<Longrightarrow> (any_step ^^ n) s s'"
proof (induction n arbitrary: s')
  case (Suc n)
  then obtain u where "(normal_step ^^ n) s u" "normal_step u s'" by auto
  show ?case by (rule relpowp_Suc_I [OF Suc.IH normal_any]) fact+
qed simp

lemma sample_runs:
  obtains f where "(any_step ^^ 13) (sample_txs, sample_fs) (sample_txs', f)"
    "any_step\<^sup>*\<^sup>* (sample_txs, sample_fs) (sample_txs', f)"
    "fs_node f Destination = Some (Directory [(manifest_name, ''{}'')])"
proof -
  from sample_run obtain f where r: "schedule sample_schedule (sample_txs, sample_fs) = Some (sample_txs', f)"
    and d: "fs_node f Destination = Some (Directory [(manifest_name, ''{}'')])" by blast
  have "(any_step ^^ 13) (sample_txs, sample_fs) (sample_txs', f)"
    using normal_any_power [OF schedule_steps [OF r]] by (simp add: sample_schedule_def)
  then show ?thesis using d that by (blast intro: relpowp_imp_rtranclp)
qed

theorem transactions_serialise_witness:
  "\<exists>order. distinct order \<and> set order \<subseteq> {..<2} \<and> 0 \<in> set order \<and>
     serial_run sample_txs order (Some (Directory [(''old'', ''1'')])) = Some (Some (Directory [(manifest_name, ''{}'')]))"
proof -
  obtain f where run: "any_step\<^sup>*\<^sup>* (sample_txs, sample_fs) (sample_txs', f)"
    and d: "fs_node f Destination = Some (Directory [(manifest_name, ''{}'')])" by (rule sample_runs)
  from transactions_serialise [OF sample_init run] obtain order where o:
    "distinct order" "set order \<subseteq> {..<length sample_txs'}"
    "{i. i < length sample_txs' \<and> tx_pc (sample_txs' ! i) = Ended None} \<subseteq> set order"
    "serial_run sample_txs order (fs_node sample_fs Destination) = Some (fs_node f Destination)" by blast
  have "0 \<in> set order" using o(3) by (auto simp: sample_txs'_def)
  moreover have "length sample_txs' = 2" by (simp add: sample_txs'_def)
  ultimately show ?thesis using o(1,2,4) d by (intro exI [of _ order]) (simp add: sample_fs_def)
qed

theorem one_transaction_at_a_time_witness:
  "\<exists>f. any_step\<^sup>*\<^sup>* (sample_txs, sample_fs) (sample_txs', f) \<and> fs_owner f = Some 1 \<and> fs_node f (Staging 0) = None"
proof -
  obtain f where run: "any_step\<^sup>*\<^sup>* (sample_txs, sample_fs) (sample_txs', f)" by (rule sample_runs)
  have pc: "tx_pc (sample_txs' ! 0) = Ended None" "holding (tx_pc (sample_txs' ! 1))" "length sample_txs' = 2"
    by (simp_all add: sample_txs'_def holding_def)
  show ?thesis
    using one_transaction_at_a_time [OF sample_init run, of 0 None] one_transaction_at_a_time [OF sample_init run, of 1 None] run pc
    by auto
qed

text \<open>The run goes on from a state in which the second process is in its body.\<close>

theorem transactions_complete_witness:
  "\<exists>s ps f. any_step\<^sup>*\<^sup>* (sample_txs, sample_fs) s \<and> \<not> sys_finished s \<and> normal_step\<^sup>*\<^sup>* s (ps, f) \<and> sys_finished (ps, f) \<and> fs_owner f = None"
proof -
  obtain f where run: "any_step\<^sup>*\<^sup>* (sample_txs, sample_fs) (sample_txs', f)" by (rule sample_runs)
  have "\<not> sys_finished (sample_txs', f)" by (simp add: sys_finished_def sample_txs'_def)
  with transactions_complete [OF sample_init run] run show ?thesis by blast
qed

definition sample_unfinished :: "tx list \<times> fs" where
  "sample_unfinished =
     ([(new_tx Replace_Mode True [])\<lparr>tx_pc := In_Body\<rparr>],
      (put (Staging 0) (Some (Directory [])) sample_fs)\<lparr>fs_owner := Some 0\<rparr>)"

theorem unfinished_builder_leaks_witness:
  "\<exists>ps f. sample_unfinished = (ps, f) \<and>
     (\<forall>ps' f'. any_step\<^sup>*\<^sup>* (ps[0 := goto (Leaked Runtime_Error) (ps ! 0)], f) (ps', f') \<longrightarrow> fs_node f' (Staging 0) = Some (Directory []))"
proof -
  obtain ps f where s: "sample_unfinished = (ps, f)" by force
  have inv: "sys_inv (ps, f)"
    by (simp flip: s add: sample_unfinished_def sys_inv_def tx_inv_def call_inv_def new_tx_def holding_def staged_for_def
        entry_contents_def sample_fs_def)
  have p: "0 < length ps" "tx_pc (ps ! 0) = In_Body" "tx_rest (ps ! 0) = []" "tx_builder (ps ! 0)" "\<not> has_manifest 0 f"
      "fs_node f (Staging 0) = Some (Directory [])"
    using s by (auto simp: sample_unfinished_def new_tx_def has_manifest_def)
  from unfinished_builder_leaks [OF inv p(1-5)] show ?thesis unfolding p(6) s by blast
qed

end
