(* ===== verification/Spec2Isabelle.thy ===== *)
theory Spec2Isabelle
  imports Masks Perm_Rank Process_Syntax Current_Table Process_Expansion Replay_Proof Reachability Dag_Prune Fermion_Order Color_Caches Live_Plan Artifact_Transaction
begin

text \<open>
  A verification development for the generation core of pyamplicol: the Python package under
  \<open>src/src/pyamplicol\<close> that turns a scattering process written as text into the tables
  a recursive amplitude evaluator is generated from. Paths below are relative to that directory.

  \<^bold>\<open>The program and its parts.\<close> A process string is split, tokenised and expanded into
  concrete particle lists (\<open>processes/core_syntax.py\<close>, \<open>processes/model.py\<close>), with final
  states filtered by the additive charges that every vertex of the model conserves
  (\<open>processes/conservation.py\<close>). Each concrete process becomes a canonical record of labelled,
  all-outgoing legs (\<open>processes/ir.py\<close>). The colour planner enumerates its colour flows as
  sectors (\<open>color/plan_types.py\<close>, \<open>color/plan_build.py\<close>) and proves which sectors are
  relabellings of one another, so that one is computed and the others replayed with a sign
  (\<open>color/plan_replay.py\<close>). The DAG compiler combines external legs into currents, indexed by
  bit masks of labels; before that it sweeps over particle species and coupling orders to find
  which combinations can occur at all (\<open>generation/dag_ordering.py\<close>,
  \<open>generation/dag_reachability.py\<close>), and it stores the currents in an indexed table
  (\<open>generation/dag_types.py\<close>, \<open>generation/dag_table.py\<close>).

  \<^bold>\<open>Theories.\<close>
  \<^item> \<open>Prelude\<close>, \<open>Py_String\<close>, \<open>Py_Dict\<close>: Python exceptions as
    values of a sum type, \<open>itertools.permutations\<close>, slices and indices, insertion-ordered
    dictionaries as association lists, string methods on character lists.
  \<^item> \<open>Process_Syntax\<close>: all of \<open>core_syntax.py\<close>. A process set is accepted
    exactly when its brackets balance and its pieces are not blank; a printed slot list expands to
    the Cartesian product of its options.
  \<^item> \<open>Process_Model\<close>, \<open>Process_Expansion\<close>: the particle catalogue,
    multiparticles, side multisets, expansion with the charge filter and the canonical process
    record. The filter through grouped charge keys equals the brute-force filter, and the canonical
    text of a process is a fixed point of parsing.
  \<^item> \<open>Conservation\<close>: rational elimination over vertex rows and integer charge vectors.
    The charges vanish on every vertex and span all charges that do.
  \<^item> \<open>Masks\<close>: bit masks of source labels and the subset loops of the sweeps.
  \<^item> \<open>Current_Table\<close>: current indices, nodes and \<open>_CurrentTable\<close>, which
    refines a plain list without repetition; the posting lists are an interface (locale) with an
    interpretation on the dictionaries of the table.
  \<^item> \<open>Coupling_Orders\<close>: coupling-order tuples, their limits, combination, dominance
    and the inference of minimal limits.
  \<^item> \<open>Model_Vertices\<close>: the vertex table of a model, the sparse partner tables and
    the vertex filter of the colour engine; the locale states that a partner table loses no vertex.
  \<^item> \<open>Reachability\<close>: the pre-pass over masks, species and coupling orders. Two
    inductive predicates say which states can be built and which of those feed a closure; the sweep
    and the marking worklist compute exactly them, and the sweep that keeps only Pareto-minimal
    orders still returns exactly the minimal closure totals.
  \<^item> \<open>Generic_Dag\<close>, \<open>Dag_Prune\<close>: the DAG record with its checks and
    counts, and the dead-current elimination of \<open>generation/dag_algorithms.py\<close>, which keeps
    exactly the live part and preserves the amplitudes of every forward evaluation.
  \<^item> \<open>Fermion_Order\<close>: the exchange signs of colour-singlet fermions of
    \<open>generation/fermion_ordering.py\<close>. The locales of \<open>Memo\<close> state when a memo table
    cannot be observed; the tables of contracts and merge signs and the passes over interactions and roots are
    interpretations of it. Every term of the signed DAG carries the sign of its leaf order.
  \<^item> \<open>Perm_Rank\<close>: ranks of permutations, the constant-space sequence of all
    permutations and the sampled relative permutations of \<open>color/symmetric_group.py\<close>.
  \<^item> \<open>Color_Sector\<close>, \<open>Color_Plan\<close>: open lines, sectors, traversal
    words and the plan builders, complete and without repetition.
  \<^item> \<open>Color_Words\<close>, \<open>Color_Recursion\<close>: the rest of
    \<open>generation/dag_ordering.py\<close>. Segment and closure tests of words, the rotation of a word
    to its sink, the words for intermediate currents, reflected orderings, the masks that lie on a
    word, and the endpoint splits. Of the merges that the segment test accepts the colour-order
    masks prune only composites of singlets alone, and a split cuts exactly one leg off.
  \<^item> \<open>Color_Keys\<close>, \<open>Color_Engine\<close>, \<open>Color_Caches\<close>: the colour
    engine of \<open>generation/dag_color.py\<close>. The tags of a basis key are read as a conjunction;
    the flows of a vertex divide the supported sectors among themselves; an inductive relation of
    the currents built by combination shows that a closure reaches a sector only through a tree that
    is colour ordered there, with the reflected label orders of \<open>generation/dag_compiler.py\<close>
    (\<open>order_variants\<close>); the memo tables are an interpretation of the interface in
    \<open>Memo\<close>.
  \<^item> \<open>Mask_Sweep\<close>, \<open>Live_Plan\<close>: the backward live-state plan of
    \<open>generation/dag_algorithms.py\<close>, which composes the source contracts, the vertex tables, the
    coupling orders and the colour engine in a sweep over masks. \<open>Mask_Sweep\<close> is the interface of
    such a sweep (what the transitions of a split must be) with its exactness and that of the
    backward marking; the planner's transitions are an interpretation of it. For an engine as its
    constructor builds it no ordering query of the sweep raises, and the plan holds exactly the
    shapes, transitions and closures that reach an amplitude.
  \<^item> \<open>Replay_Plan\<close>, \<open>Topology_Groups\<close>, \<open>Inversions\<close>,
    \<open>Replay_Proof\<close>: topology groups, replay partitions, the exchange sign of external
    fermions, the proof that a member is a relabelling of its representative, and the two
    certificate types, which share one locale of cover laws.
  \<^item> \<open>Source_IR\<close>: particle identities, spin states, crossing and source contracts of
    \<open>models/_physics_ir.py\<close> and \<open>models/base.py\<close>.

  \<^item> \<open>Artifact_Transaction\<close>: \<open>artifacts/transaction.py\<close> and the enter/exit
    protocol of \<open>ArtifactBuilder\<close> as a step relation of several processes on one
    destination, with failing system calls and kills. Two locales (invariants, completion) carry the
    safety and liveness proofs: the visible artifact is always that of some serial order, the lock
    excludes, every run ends, and no run gets stuck: a builder left unfinished holds the lock only
    until its transaction object is collected, but leaves its staging directory behind.

  \<^bold>\<open>How state and operations correspond.\<close> A dataclass is a record, an enumeration or a
  tagged value a datatype, a method that raises returns a sum whose left side is the exception.
  Loops are structural recursions or folds; the mask loops, the permutation generator and the
  marking worklist are functions with a termination proof, so no fuel is used anywhere. Integers of
  the source are unbounded, as in Python; masks are natural numbers with the bitwise operations of
  the library. Finite floats are rationals, and where infinities and NaN matter a datatype.

  \<^bold>\<open>Parameters.\<close> The model methods that concrete models override (statistics, colour
  representation, dimensions, coupling orders of a vertex, quantum flows) are fields of a model or
  environment record. The
  SHA-256 digest of a proof payload, the digest of the model contract, and the two tests that need
  the Symbolica kernel (zero mass expression, constant quantum number) are arguments; no law about
  them is assumed.

  \<^bold>\<open>Not modelled.\<close> The DAG compiler (but for its label orders) and its lowerings, the helicity
  recurrence, evaluators (they rest on the Symbolica kernel), the payloads and manifests of artifacts, the command line,
  configuration, reports and tools, and the Rust runtime. JSON output is left out except where a
  decoder reads it back (particle identities). Memo tables that store what they would recompute are
  left out, except those of the sign pass and of the colour engine. String case folding is that of ASCII letters.
\<close>

end
